(* ===== verification/Go_Prelude.thy ===== *)
theory Go_Prelude
  imports Main "HOL-Library.Char_ord" "HOL-Library.List_Lexorder"
begin

text \<open>
  Shared vocabulary of the development: Go durations and 64-bit arithmetic, Go error chains
  with \<^verbatim>\<open>errors.Is\<close> and \<^verbatim>\<open>errors.As\<close>, the loop
  \<^verbatim>\<open>for _, index := range subset { results[index] = ... }\<close>, and the named
  collections the component theories feed.
\<close>

named_theorems index_simps "reading and writing slices by index"
named_theorems err_simps "errors.Is and errors.As on concrete error chains"

section \<open>Durations and 64-bit integers\<close>

text \<open>
  A \<^verbatim>\<open>time.Duration\<close> is a count of nanoseconds in an \<^verbatim>\<open>int64\<close>.
  It is modelled as an \<open>int\<close>; where the source can leave the 64-bit range the
  wrap-around is written out with \<open>wrap64\<close>. Go's integer division truncates towards
  zero, which is \<open>go_div\<close>.
\<close>

type_synonym duration = int

definition wrap64 :: "int \<Rightarrow> int" where
  "wrap64 x = (x + 2 ^ 63) mod 2 ^ 64 - 2 ^ 63"

definition go_div :: "int \<Rightarrow> int \<Rightarrow> int" where
  "go_div a b = sgn a * sgn b * (\<bar>a\<bar> div \<bar>b\<bar>)"

abbreviation millisecond :: duration where "millisecond \<equiv> 1000000"
abbreviation second :: duration where "second \<equiv> 1000000000"
abbreviation minute :: duration where "minute \<equiv> 60000000000"

abbreviation max_int64 :: int where "max_int64 \<equiv> 9223372036854775807"

lemma wrap64_id: "- (2 ^ 63) \<le> x \<Longrightarrow> x < 2 ^ 63 \<Longrightarrow> wrap64 x = x"
  by (simp add: wrap64_def)

lemma wrap64_range: "- (2 ^ 63) \<le> wrap64 x \<and> wrap64 x < 2 ^ 63"
proof -
  have "0 \<le> (x + 2 ^ 63) mod 2 ^ 64" and "(x + 2 ^ 63) mod 2 ^ 64 < (2 ^ 64 :: int)"
    by simp_all
  then show ?thesis by (simp add: wrap64_def)
qed

lemma go_div_nonneg: "0 \<le> a \<Longrightarrow> 0 < b \<Longrightarrow> go_div a b = a div b"
  by (cases "a = 0") (simp_all add: go_div_def)

section \<open>Error values\<close>

text \<open>
  The sentinel errors the modelled packages test with \<^verbatim>\<open>errors.Is\<close>, those of
  the repository and those of its libraries; \<open>Sentinel\<close> is one by its package and name.
\<close>

datatype sentinel =
    ErrInvalidOpts | ErrInvalidEnv | ErrMaxAckPending | ErrMaxDeliver
  | ErrMissingResult | ErrHandlerPanic | ErrPoison | ErrAttemptsExhausted | ErrOrderBlocked
  | ErrBadFrame | ErrUnknownVersion
  | ErrInvalidFilters | ErrInvalidPinned
  | ErrMsgAlreadyAckd | ErrConsumerDeleted | ErrConsumerNotFound | ErrNoMessages
  | ErrPinIDMismatch | ErrAsyncPublishTimeout | ErrTooManyStalledMsgs
  | ErrTimeoutNats | ErrNoServers | ErrConnectionClosed | ErrDisconnected
  | ErrConnectionReconnecting
  | DeadlineExceeded | Canceled | ErrBadConn
  | Sentinel string

text \<open>
  An error chain. \<open>Sent\<close> is a sentinel (the text a \<^verbatim>\<open>fmt.Errorf\<close>
  puts around it is not modelled), \<open>Wrap\<close> an error built with two \<^verbatim>\<open>%w\<close>
  verbs, \<open>Coded\<close> an error with an \<^verbatim>\<open>SQLState()\<close> method,
  \<open>NetErr\<close> a \<^verbatim>\<open>net.Error\<close> with the value of its
  \<^verbatim>\<open>Timeout()\<close>, \<open>OrderViolation\<close> the batch package's own error of that
  name, \<open>Api\<close> a JetStream API error with its code, and \<open>Foreign\<close> any other
  error, by its text.
\<close>

datatype goerr =
    Sent sentinel
  | Wrap goerr goerr
  | Coded string
  | NetErr bool
  | OrderViolation "nat list"
  | Api nat
  | Foreign string

primrec errors_is :: "goerr \<Rightarrow> sentinel \<Rightarrow> bool" where
  "errors_is (Sent t) s \<longleftrightarrow> t = s"
| "errors_is (Wrap a b) s \<longleftrightarrow> errors_is a s \<or> errors_is b s"
| "errors_is (Coded c) s \<longleftrightarrow> False"
| "errors_is (NetErr t) s \<longleftrightarrow> False"
| "errors_is (OrderViolation bl) s \<longleftrightarrow> False"
| "errors_is (Api k) s \<longleftrightarrow> False"
| "errors_is (Foreign m) s \<longleftrightarrow> False"

text \<open>\<^verbatim>\<open>errors.As\<close> takes the first match of a depth-first walk.\<close>

primrec as_sqlstate :: "goerr \<Rightarrow> string option" where
  "as_sqlstate (Sent t) = None"
| "as_sqlstate (Wrap a b) =
     (case as_sqlstate a of Some c \<Rightarrow> Some c | None \<Rightarrow> as_sqlstate b)"
| "as_sqlstate (Coded c) = Some c"
| "as_sqlstate (NetErr t) = None"
| "as_sqlstate (OrderViolation bl) = None"
| "as_sqlstate (Api k) = None"
| "as_sqlstate (Foreign m) = None"

primrec as_net_error :: "goerr \<Rightarrow> bool option" where
  "as_net_error (Sent t) = (if t = DeadlineExceeded then Some True else None)"
| "as_net_error (Wrap a b) =
     (case as_net_error a of Some c \<Rightarrow> Some c | None \<Rightarrow> as_net_error b)"
| "as_net_error (Coded c) = None"
| "as_net_error (NetErr t) = Some t"
| "as_net_error (OrderViolation bl) = None"
| "as_net_error (Api k) = None"
| "as_net_error (Foreign m) = None"

primrec as_violation :: "goerr \<Rightarrow> nat list option" where
  "as_violation (Sent t) = None"
| "as_violation (Wrap a b) =
     (case as_violation a of Some c \<Rightarrow> Some c | None \<Rightarrow> as_violation b)"
| "as_violation (Coded c) = None"
| "as_violation (NetErr t) = None"
| "as_violation (OrderViolation bl) = Some bl"
| "as_violation (Api k) = None"
| "as_violation (Foreign m) = None"

primrec as_api :: "goerr \<Rightarrow> nat option" where
  "as_api (Sent t) = None"
| "as_api (Wrap a b) =
     (case as_api a of Some c \<Rightarrow> Some c | None \<Rightarrow> as_api b)"
| "as_api (Coded c) = None"
| "as_api (NetErr t) = None"
| "as_api (OrderViolation bl) = None"
| "as_api (Api k) = Some k"
| "as_api (Foreign m) = None"

text \<open>\<^verbatim>\<open>errors.Is\<close> on an error that may be nil.\<close>

definition err_is :: "goerr option \<Rightarrow> sentinel \<Rightarrow> bool" where
  "err_is e s = (case e of None \<Rightarrow> False | Some x \<Rightarrow> errors_is x s)"

lemma err_is_simps [err_simps, simp]:
  "err_is None s \<longleftrightarrow> False"
  "err_is (Some x) s \<longleftrightarrow> errors_is x s"
  by (simp_all add: err_is_def)

text \<open>What a call into code outside the repository can do.\<close>

datatype 'a ret = Returned 'a | Failed goerr | Panicked

section \<open>Writing a slice at a list of indexes\<close>

fun put_all :: "(nat \<Rightarrow> 'a) \<Rightarrow> nat list \<Rightarrow> 'a list \<Rightarrow> 'a list" where
  "put_all f [] rs = rs"
| "put_all f (i # ixs) rs = put_all f ixs (rs[i := f i])"

lemma length_put_all [simp, index_simps]: "length (put_all f ixs rs) = length rs"
  by (induction f ixs rs rule: put_all.induct) simp_all

lemma nth_put_all [index_simps]:
  assumes "i < length rs"
  shows "put_all f ixs rs ! i = (if i \<in> set ixs then f i else rs ! i)"
  using assms
  by (induction f ixs rs rule: put_all.induct) (auto simp: nth_list_update)

lemma nth_put_all_in: "i < length rs \<Longrightarrow> i \<in> set ixs \<Longrightarrow> put_all f ixs rs ! i = f i"
  by (simp add: nth_put_all)

lemma nth_put_all_out: "i \<notin> set ixs \<Longrightarrow> put_all f ixs rs ! i = rs ! i"
  by (induction f ixs rs rule: put_all.induct) (auto simp: nth_list_update)

section \<open>Splitting a list in the middle\<close>

lemma middle_bounds:
  assumes "2 \<le> length xs"
  shows "take (length xs div 2) xs \<noteq> []" "drop (length xs div 2) xs \<noteq> []"
    "length (take (length xs div 2) xs) < length xs"
    "length (drop (length xs div 2) xs) < length xs"
  using assms by auto

lemma set_take_drop: "set (take n xs) \<union> set (drop n xs) = set xs"
  by (metis append_take_drop_id set_append)

lemma distinct_take_drop: "distinct xs \<Longrightarrow> set (take n xs) \<inter> set (drop n xs) = {}"
  by (metis append_take_drop_id distinct_append)

lemma neq_Nil_length_ge2: "xs \<noteq> [] \<Longrightarrow> length xs \<noteq> 1 \<Longrightarrow> 2 \<le> length xs"
  by (cases xs) (auto simp: Suc_le_eq)

end
