(* ===== verification/Go_Strings.thy ===== *)
theory Go_Strings
  imports Go_Prelude
begin

text \<open>
  What the repository uses of Go's \<^verbatim>\<open>strings\<close>, \<^verbatim>\<open>strconv\<close>
  and \<^verbatim>\<open>net/textproto\<close>, on strings of bytes. Case and white space are those of
  ASCII.
\<close>

section \<open>Case, prefixes, white space\<close>

abbreviation (input) lower_letter :: "char \<Rightarrow> bool" where
  "lower_letter c \<equiv> CHR ''a'' \<le> c \<and> c \<le> CHR ''z''"

abbreviation (input) upper_letter :: "char \<Rightarrow> bool" where
  "upper_letter c \<equiv> CHR ''A'' \<le> c \<and> c \<le> CHR ''Z''"

definition to_lower :: "char \<Rightarrow> char" where
  "to_lower c = (if upper_letter c then char_of (of_char c + 32 :: nat) else c)"

definition to_upper :: "char \<Rightarrow> char" where
  "to_upper c = (if lower_letter c then char_of (of_char c - 32 :: nat) else c)"

definition equal_fold :: "string \<Rightarrow> string \<Rightarrow> bool" where
  "equal_fold s t \<longleftrightarrow> map to_lower s = map to_lower t"

lemma equal_fold_refl [simp]: "equal_fold s s"
  by (simp add: equal_fold_def)

lemma equal_fold_sym: "equal_fold s t \<longleftrightarrow> equal_fold t s"
  by (auto simp: equal_fold_def)

lemma equal_fold_trans: "equal_fold s t \<Longrightarrow> equal_fold t u \<Longrightarrow> equal_fold s u"
  by (simp add: equal_fold_def)

definition has_prefix :: "string \<Rightarrow> string \<Rightarrow> bool" where
  "has_prefix s p \<longleftrightarrow> take (length p) s = p"

lemma has_prefix_append [simp]: "has_prefix (p @ s) p"
  by (simp add: has_prefix_def)

definition is_space :: "char \<Rightarrow> bool" where
  "is_space c \<longleftrightarrow> c \<in> {CHR 0x20, CHR 0x09, CHR 0x0a, CHR 0x0b, CHR 0x0c, CHR 0x0d}"

definition trim_space :: "string \<Rightarrow> string" where
  "trim_space s = rev (dropWhile is_space (rev (dropWhile is_space s)))"

lemma trim_space_idem [simp]: "trim_space (trim_space s) = trim_space s"
proof -
  let ?t = "dropWhile is_space s"
  let ?u = "dropWhile is_space (rev ?t)"
  have "dropWhile is_space (rev ?u) = rev ?u"
  proof (cases "rev ?u")
    case (Cons c cs)
    obtain pre where "rev ?t = pre @ ?u" by (metis takeWhile_dropWhile_id)
    then have "?t = rev ?u @ rev pre" by (metis rev_append rev_rev_ident)
    then have "hd ?t = c" "?t \<noteq> []" using Cons by simp_all
    then have "\<not> is_space c" by (metis hd_dropWhile)
    then show ?thesis using Cons by simp
  next
    case Nil
    show ?thesis unfolding Nil by simp
  qed
  moreover have "dropWhile is_space ?u = ?u"
    by (metis dropWhile_eq_self_iff hd_dropWhile)
  ultimately show ?thesis by (simp add: trim_space_def)
qed

section \<open>Splitting\<close>

text \<open>\<^verbatim>\<open>strings.Split\<close> with a separator of one byte: never empty.\<close>

fun split_at :: "char \<Rightarrow> string \<Rightarrow> string list" where
  "split_at sep [] = [[]]"
| "split_at sep (c # cs) =
     (if c = sep then [] # split_at sep cs
      else (case split_at sep cs of [] \<Rightarrow> [[c]] | t # ts \<Rightarrow> (c # t) # ts))"

lemma split_at_nonempty [simp]: "split_at sep s \<noteq> []"
  by (cases s) (simp_all split: list.split)

fun join_at :: "char \<Rightarrow> string list \<Rightarrow> string" where
  "join_at sep [] = []"
| "join_at sep [t] = t"
| "join_at sep (t # ts) = t @ sep # join_at sep ts"

lemma join_split [simp]: "join_at sep (split_at sep s) = s"
proof (induction s)
  case (Cons c cs)
  obtain t ts where s: "split_at sep cs = t # ts" by (cases "split_at sep cs") simp_all
  then show ?case using Cons.IH by (cases ts) simp_all
qed simp

lemma split_no_sep: "t \<in> set (split_at sep s) \<Longrightarrow> sep \<notin> set t"
proof (induction s arbitrary: t)
  case (Cons c cs)
  then show ?case by (auto split: if_splits list.splits)
qed simp

lemma split_single: "sep \<notin> set t \<Longrightarrow> split_at sep t = [t]"
  by (induction t) auto

lemma split_append: "sep \<notin> set t \<Longrightarrow> split_at sep (t @ sep # s) = t # split_at sep s"
  by (induction t) auto

lemma split_join: "ts \<noteq> [] \<Longrightarrow> \<forall>t \<in> set ts. sep \<notin> set t \<Longrightarrow> split_at sep (join_at sep ts) = ts"
  by (induction sep ts rule: join_at.induct) (simp_all add: split_single split_append)

definition contains_any :: "string \<Rightarrow> string \<Rightarrow> bool" where
  "contains_any s chars \<longleftrightarrow> (\<exists>c \<in> set s. c \<in> set chars)"

section \<open>Numbers\<close>

definition is_digit :: "char \<Rightarrow> bool" where
  "is_digit c \<longleftrightarrow> CHR ''0'' \<le> c \<and> c \<le> CHR ''9''"

fun digits_value :: "int \<Rightarrow> string \<Rightarrow> int option" where
  "digits_value acc [] = Some acc"
| "digits_value acc (c # cs) =
     (if is_digit c then digits_value (acc * 10 + (int (of_char c) - 48)) cs else None)"

text \<open>\<^verbatim>\<open>strconv.ParseInt(s, 10, 64)\<close>, and \<^verbatim>\<open>Atoi\<close> where an int has 64 bits.\<close>

definition parse_int :: "string \<Rightarrow> int option" where
  "parse_int s =
     (let neg = (s \<noteq> [] \<and> s ! 0 = CHR ''-'');
          digits = (if s \<noteq> [] \<and> (s ! 0 = CHR ''-'' \<or> s ! 0 = CHR ''+'') then drop 1 s else s)
      in if digits = [] then None
         else (case digits_value 0 digits of
            None \<Rightarrow> None
          | Some v \<Rightarrow>
              let w = (if neg then - v else v) in
              if - (2 ^ 63) \<le> w \<and> w < 2 ^ 63 then Some w else None))"

lemma parse_int_range: "parse_int s = Some v \<Longrightarrow> - (2 ^ 63) \<le> v \<and> v < 2 ^ 63"
  by (auto simp: parse_int_def Let_def split: if_splits option.splits)

section \<open>Header names\<close>

definition header_char :: "char \<Rightarrow> bool" where
  "header_char c \<longleftrightarrow> is_digit c \<or> lower_letter c \<or> upper_letter c \<or>
     c \<in> set ''!#$%&*+-.^_|~'' \<or> c = CHR 0x27 \<or> c = CHR 0x60"

fun canonical_from :: "bool \<Rightarrow> string \<Rightarrow> string" where
  "canonical_from upper [] = []"
| "canonical_from upper (c # cs) =
     (if upper then to_upper c else to_lower c) # canonical_from (c = CHR ''-'') cs"

definition canonical_header :: "string \<Rightarrow> string" where
  "canonical_header s = (if \<forall>c \<in> set s. header_char c then canonical_from True s else s)"

section \<open>The environment\<close>

text \<open>\<^verbatim>\<open>time.ParseDuration\<close> is left to the environment.\<close>

record environment =
  env_lookup :: "string \<Rightarrow> string option"
  parse_duration :: "string \<Rightarrow> duration option"

definition getenv :: "environment \<Rightarrow> string \<Rightarrow> string" where
  "getenv env name = (case env_lookup env name of None \<Rightarrow> '''' | Some v \<Rightarrow> v)"

end
