(* ===== verification/Frame.thy ===== *)
theory Frame
  imports Go_Prelude "HOL-Library.Word"
begin

text \<open>
  Frames (\<^verbatim>\<open>pkg/nats/frame\<close>): several logical messages carried by one broker message.
  The calls a consumer makes on broker messages, the state shared by the elements of a frame
  (\<^verbatim>\<open>frame_state.go\<close>, \<^verbatim>\<open>element_*.go\<close>) and its
  refinement of the abstract rule ``the first settlement of every element counts, the last one closes
  the frame''.
\<close>

unbundle bit_operations_syntax

section \<open>Calls on broker messages\<close>

text \<open>The settling calls of \<^verbatim>\<open>jetstream.Msg\<close>, and its heartbeat.\<close>

datatype call =
    CallAck
  | CallNak
  | CallNakWithDelay duration
  | CallDoubleAck
  | CallTerm
  | CallTermWithReason string
  | CallInProgress

text \<open>
  The broker client is not code of the repository. \<open>reply\<close> is its answer to the last call
  of a history of calls, \<open>clock\<close> the readings of \<^verbatim>\<open>time.Now\<close>,
  \<open>delivered\<close> the delivery count in a message's metadata (none when
  \<^verbatim>\<open>Metadata\<close> fails). All three are arbitrary.
\<close>

type_synonym history = "(nat \<times> call) list"

record broker =
  reply :: "history \<Rightarrow> goerr option"
  clock :: "nat \<Rightarrow> int"
  delivered :: "nat \<Rightarrow> nat option"

section \<open>The state of a frame\<close>

type_synonym header = "string \<rightharpoonup> string list"

record element_msg =
  esubject :: string
  eheaders :: header
  edata :: "8 word list"
  edone :: bool

record frame_state =
  raw :: nat                        \<comment> \<open>the broker message\<close>
  unsettled :: int                  \<comment> \<open>\<open>pending\<close>\<close>
  ffailed :: bool
  fdelay :: duration
  throttle :: duration
  last_beat :: "int option"         \<comment> \<open>none is the zero time\<close>
  elements :: "element_msg list"

text \<open>
  A message is a broker message or the element of a frame; a frame is named by its place in
  \<open>frames\<close>, as the source names it by its pointer.
\<close>

datatype msg = Raw nat | Elem nat nat

record bus =
  calls :: history
  ticks :: nat
  frames :: "frame_state list"

definition send :: "broker \<Rightarrow> nat \<Rightarrow> call \<Rightarrow> 'z bus_scheme \<Rightarrow> goerr option \<times> 'z bus_scheme" where
  "send br m c b = (let h = calls b @ [(m, c)] in (reply br h, b\<lparr>calls := h\<rparr>))"

definition settle_element ::
  "nat \<Rightarrow> bool \<Rightarrow> duration \<Rightarrow> frame_state \<Rightarrow> (goerr + bool) \<times> frame_state" where
  "settle_element i nak delay f =
     (if edone (elements f ! i) then (Inl (Sent ErrMsgAlreadyAckd), f)
      else
        let f1 = f\<lparr>elements := (elements f)[i := (elements f ! i)\<lparr>edone := True\<rparr>],
                   unsettled := unsettled f - 1\<rparr>;
            f2 = (if nak then f1\<lparr>ffailed := True, fdelay := max (fdelay f1) delay\<rparr> else f1)
        in (Inr (unsettled f2 = 0), f2))"

definition finish_call :: "bool \<Rightarrow> frame_state \<Rightarrow> call" where
  "finish_call double f =
     (if ffailed f \<and> fdelay f > 0 then CallNakWithDelay (fdelay f)
      else if ffailed f then CallNak
      else if double then CallDoubleAck
      else CallAck)"

definition resolve_element ::
  "broker \<Rightarrow> nat \<Rightarrow> nat \<Rightarrow> bool \<Rightarrow> duration \<Rightarrow> bool \<Rightarrow> 'z bus_scheme \<Rightarrow> goerr option \<times> 'z bus_scheme" where
  "resolve_element br fi i nak delay double b =
     (case settle_element i nak delay (frames b ! fi) of
        (Inl err, f) \<Rightarrow> (Some err, b\<lparr>frames := (frames b)[fi := f]\<rparr>)
      | (Inr last_one, f) \<Rightarrow>
          let b' = b\<lparr>frames := (frames b)[fi := f]\<rparr> in
          if \<not> last_one then (None, b')
          else send br (raw f) (finish_call double f) b')"

definition progress :: "broker \<Rightarrow> nat \<Rightarrow> nat \<Rightarrow> 'z bus_scheme \<Rightarrow> goerr option \<times> 'z bus_scheme" where
  "progress br fi i b =
     (let f = frames b ! fi in
      if edone (elements f ! i) then (Some (Sent ErrMsgAlreadyAckd), b)
      else
        let now = clock br (ticks b); b1 = b\<lparr>ticks := Suc (ticks b)\<rparr> in
        if throttle f > 0 \<and> (case last_beat f of None \<Rightarrow> False | Some t \<Rightarrow> now - t < throttle f)
        then (None, b1)
        else send br (raw f) CallInProgress (b1\<lparr>frames := (frames b1)[fi := f\<lparr>last_beat := Some now\<rparr>]\<rparr>))"

text \<open>The methods of \<^verbatim>\<open>elementMsg\<close>: an element is terminated by counting it done.\<close>

fun element_call :: "broker \<Rightarrow> nat \<Rightarrow> nat \<Rightarrow> call \<Rightarrow> 'z bus_scheme \<Rightarrow> goerr option \<times> 'z bus_scheme" where
  "element_call br fi i CallAck b = resolve_element br fi i False 0 False b"
| "element_call br fi i CallNak b = resolve_element br fi i True 0 False b"
| "element_call br fi i (CallNakWithDelay d) b = resolve_element br fi i True d False b"
| "element_call br fi i CallDoubleAck b = resolve_element br fi i False 0 True b"
| "element_call br fi i CallTerm b = resolve_element br fi i False 0 False b"
| "element_call br fi i (CallTermWithReason _) b = resolve_element br fi i False 0 False b"
| "element_call br fi i CallInProgress b = progress br fi i b"

fun msg_call :: "broker \<Rightarrow> msg \<Rightarrow> call \<Rightarrow> 'z bus_scheme \<Rightarrow> goerr option \<times> 'z bus_scheme" where
  "msg_call br (Raw m) c b = send br m c b"
| "msg_call br (Elem fi i) c b = element_call br fi i c b"

fun raw_of :: "'z bus_scheme \<Rightarrow> msg \<Rightarrow> nat" where
  "raw_of b (Raw m) = m"
| "raw_of b (Elem fi i) = raw (frames b ! fi)"

fun same_frame :: "msg \<Rightarrow> msg \<Rightarrow> bool" where
  "same_frame (Elem fi i) (Elem fj j) \<longleftrightarrow> fi = fj"
| "same_frame _ _ \<longleftrightarrow> False"

section \<open>The abstract frame\<close>

text \<open>
  The abstract state of a frame of \<open>n\<close> elements is the list of the settlements that
  counted, in their order. A settlement of an element that has one already does nothing.
\<close>

type_synonym settlements = "(nat \<times> call) list"

definition counted :: "settlements \<Rightarrow> nat set" where
  "counted s = fst ` set s"

lemma counted_simps [simp]:
  "counted [] = {}" "counted (s @ [(i, c)]) = insert i (counted s)" "finite (counted s)"
  by (auto simp: counted_def)

definition count_settlement :: "settlements \<Rightarrow> nat \<times> call \<Rightarrow> settlements" where
  "count_settlement s ic =
     (if snd ic = CallInProgress \<or> fst ic \<in> counted s then s else s @ [ic])"

fun nak_delay :: "call \<Rightarrow> duration option" where
  "nak_delay CallNak = Some 0"
| "nak_delay (CallNakWithDelay d) = Some d"
| "nak_delay _ = None"

text \<open>What closes the broker message: a negative acknowledgement when an element failed, with the
  largest delay an element asked for; otherwise an acknowledgement, confirmed when the last
  settlement asked for one.\<close>

definition delays_of :: "settlements \<Rightarrow> duration list" where
  "delays_of s = List.map_filter (nak_delay \<circ> snd) s"

definition closing_call :: "settlements \<Rightarrow> call" where
  "closing_call s =
     (let ds = delays_of s; d = foldl max 0 ds in
      if ds \<noteq> [] \<and> d > 0 then CallNakWithDelay d
      else if ds \<noteq> [] then CallNak
      else if s \<noteq> [] \<and> snd (last s) = CallDoubleAck then CallDoubleAck
      else CallAck)"

definition frame_abs :: "nat \<Rightarrow> settlements \<Rightarrow> frame_state \<Rightarrow> bool" where
  "frame_abs n s f \<longleftrightarrow>
     length (elements f) = n \<and> distinct (map fst s) \<and> counted s \<subseteq> {..<n} \<and>
     unsettled f = int n - int (length s) \<and>
     (\<forall>i < n. edone (elements f ! i) \<longleftrightarrow> i \<in> counted s) \<and>
     ffailed f = (delays_of s \<noteq> []) \<and> fdelay f = foldl max 0 (delays_of s)"

definition fresh_frame :: "nat \<Rightarrow> frame_state \<Rightarrow> bool" where
  "fresh_frame n f \<longleftrightarrow> length (elements f) = n \<and> unsettled f = int n \<and>
     (\<forall>e \<in> set (elements f). \<not> edone e) \<and> \<not> ffailed f \<and> fdelay f = 0"

lemma fresh_frame_abs: "fresh_frame n f \<Longrightarrow> frame_abs n [] f"
  by (auto simp: fresh_frame_def frame_abs_def delays_of_def map_filter_simps)

lemma delays_of_snoc:
  "delays_of (s @ [(i, c)]) = delays_of s @ (case nak_delay c of None \<Rightarrow> [] | Some d \<Rightarrow> [d])"
  by (induction s) (auto simp: delays_of_def map_filter_simps split: option.splits)

lemma settled_complete:
  assumes "frame_abs n s f"
  shows "unsettled f = 0 \<longleftrightarrow> counted s = {..<n}"
proof -
  have card: "card (counted s) = length s"
    using assms distinct_card [of "map fst s"] by (simp add: frame_abs_def counted_def)
  have sub: "counted s \<subseteq> {..<n}" using assms by (simp add: frame_abs_def)
  have "length s = n \<longleftrightarrow> counted s = {..<n}"
  proof
    assume "length s = n"
    then show "counted s = {..<n}" using card card_subset_eq [OF finite_lessThan sub] by simp
  next
    assume "counted s = {..<n}"
    then show "length s = n" using card by simp
  qed
  then show ?thesis using assms by (auto simp: frame_abs_def)
qed

lemma settle_element_abs:
  assumes "frame_abs n s f" "i < n" "c \<noteq> CallInProgress"
    and "settle_element i (nak_delay c \<noteq> None) (case nak_delay c of None \<Rightarrow> 0 | Some d \<Rightarrow> d) f = (r, f')"
  shows "frame_abs n (count_settlement s (i, c)) f' \<and> raw f' = raw f \<and>
    (case r of Inl e \<Rightarrow> e = Sent ErrMsgAlreadyAckd \<and> i \<in> counted s \<and> f' = f
     | Inr lst \<Rightarrow> i \<notin> counted s \<and> lst = (counted (s @ [(i, c)]) = {..<n}))"
proof (cases "i \<in> counted s")
  case True
  then show ?thesis using assms
    by (auto simp: settle_element_def frame_abs_def count_settlement_def)
next
  case False
  have abs: "frame_abs n (s @ [(i, c)]) f'"
    using assms False
    by (auto simp: settle_element_def frame_abs_def Let_def delays_of_snoc nth_list_update
        counted_def split: option.splits if_splits)
  moreover have "r = Inr (unsettled f' = 0)" "raw f' = raw f"
    using assms False by (auto simp: settle_element_def frame_abs_def Let_def split: if_splits)
  ultimately show ?thesis
    using False assms(3) settled_complete [OF abs] by (simp add: count_settlement_def)
qed

lemma finish_call_closing:
  assumes "frame_abs n (s @ [(i, c)]) f"
  shows "finish_call (c = CallDoubleAck) f = closing_call (s @ [(i, c)])"
  using assms by (simp add: finish_call_def closing_call_def frame_abs_def Let_def)

section \<open>Runs of calls on a frame\<close>

fun element_calls :: "broker \<Rightarrow> nat \<Rightarrow> (nat \<times> call) list \<Rightarrow> 'z bus_scheme \<Rightarrow> 'z bus_scheme" where
  "element_calls br fi [] b = b"
| "element_calls br fi ((i, c) # rest) b = element_calls br fi rest (snd (element_call br fi i c b))"

text \<open>The calls that settle the broker message of a frame, in a history.\<close>

definition closings :: "nat \<Rightarrow> history \<Rightarrow> call list" where
  "closings m h = map snd (filter (\<lambda>(k, c). k = m \<and> c \<noteq> CallInProgress) h)"

lemma closings_append [simp]: "closings m (h @ h') = closings m h @ closings m h'"
  by (simp add: closings_def)

lemma finish_not_progress [simp]: "finish_call d f \<noteq> CallInProgress"
  by (simp add: finish_call_def)

lemma closing_not_progress [simp]: "closing_call s \<noteq> CallInProgress"
  by (simp add: closing_call_def Let_def)

lemma resolve_element_abs:
  assumes "frame_abs n s (frames b ! fi)" "fi < length (frames b)" "i < n" "c \<noteq> CallInProgress"
    and "resolve_element br fi i (nak_delay c \<noteq> None) (case nak_delay c of None \<Rightarrow> 0 | Some d \<Rightarrow> d)
      (c = CallDoubleAck) b = (err, b')"
  shows "frame_abs n (count_settlement s (i, c)) (frames b' ! fi) \<and>
    raw (frames b' ! fi) = raw (frames b ! fi) \<and> length (frames b') = length (frames b) \<and>
    closings (raw (frames b ! fi)) (calls b') = closings (raw (frames b ! fi)) (calls b) @
      (let s' = count_settlement s (i, c) in
       if s' \<noteq> s \<and> counted s' = {..<n} then [closing_call s'] else []) \<and>
    (i \<in> counted s \<longrightarrow> err = Some (Sent ErrMsgAlreadyAckd) \<and> b' = b)"
proof -
  obtain r f' where st: "settle_element i (nak_delay c \<noteq> None)
      (case nak_delay c of None \<Rightarrow> 0 | Some d \<Rightarrow> d) (frames b ! fi) = (r, f')"
    by fastforce
  note abs = settle_element_abs [OF assms(1,3,4) st]
  show ?thesis
  proof (cases r)
    case (Inl e)
    then show ?thesis using abs st assms(2,5)
      by (auto simp: resolve_element_def count_settlement_def)
  next
    case (Inr lst)
    have i: "i \<notin> counted s" "lst = (counted (s @ [(i, c)]) = {..<n})"
      using abs unfolding Inr sum.case by blast+
    then have count: "count_settlement s (i, c) = s @ [(i, c)]"
      using assms(4) by (simp add: count_settlement_def)
    note new = count i(2,1) abs [THEN conjunct1, unfolded count] abs [THEN conjunct2, THEN conjunct1]
    let ?b = "b\<lparr>frames := (frames b)[fi := f']\<rparr>"
    have frames: "frames ?b ! fi = f'" "length (frames ?b) = length (frames b)" using assms(2) by simp_all
    show ?thesis
    proof (cases lst)
      case True
      have "(err, b') = send br (raw f') (finish_call (c = CallDoubleAck) f') ?b"
        using assms(5) unfolding resolve_element_def st Inr by (simp add: Let_def True)
      then have "calls b' = calls b @ [(raw (frames b ! fi), closing_call (s @ [(i, c)]))]" "frames b' = frames ?b"
        unfolding send_def finish_call_closing [OF new(4)] new(5) by (simp_all add: Let_def)
      then show ?thesis using frames new True closing_not_progress
        by (simp add: closings_def Let_def)
    next
      case False
      have "b' = ?b" using assms(5) unfolding resolve_element_def st Inr by (simp add: Let_def False)
      then show ?thesis using frames new False by (simp add: Let_def)
    qed
  qed
qed

lemma progress_abs:
  assumes "frame_abs n s (frames b ! fi)" "fi < length (frames b)" "progress br fi i b = (err, b')"
  shows "frame_abs n s (frames b' ! fi) \<and> raw (frames b' ! fi) = raw (frames b ! fi) \<and>
    length (frames b') = length (frames b) \<and>
    closings (raw (frames b ! fi)) (calls b') = closings (raw (frames b ! fi)) (calls b)"
  using assms
  by (auto simp: progress_def send_def Let_def closings_def frame_abs_def split: if_splits)

lemma element_call_resolves:
  "c \<noteq> CallInProgress \<Longrightarrow> element_call br fi i c b =
     resolve_element br fi i (nak_delay c \<noteq> None) (case nak_delay c of None \<Rightarrow> 0 | Some d \<Rightarrow> d)
       (c = CallDoubleAck) b"
  by (cases c) simp_all

lemma count_once: "counted s = {..<n} \<Longrightarrow> i < n \<Longrightarrow> count_settlement s (i, c) = s"
  by (simp add: count_settlement_def)

lemma foldl_full:
  "counted s = {..<n} \<Longrightarrow> \<forall>(i, c) \<in> set ops. i < n \<Longrightarrow> foldl count_settlement s ops = s"
  by (induction ops) (auto simp: count_once)

lemma element_call_abs:
  fixes c :: call and br :: broker
  assumes "frame_abs n s (frames b ! fi)" "fi < length (frames b)" "i < n"
  defines "s' \<equiv> count_settlement s (i, c)" and "b' \<equiv> snd (element_call br fi i c b)"
  shows "frame_abs n s' (frames b' ! fi) \<and> raw (frames b' ! fi) = raw (frames b ! fi) \<and>
    length (frames b') = length (frames b) \<and>
    closings (raw (frames b ! fi)) (calls b') = closings (raw (frames b ! fi)) (calls b) @
      (if counted s \<noteq> {..<n} \<and> counted s' = {..<n} then [closing_call s'] else [])"
proof (cases "c = CallInProgress")
  case True
  obtain err b1 where p: "progress br fi i b = (err, b1)" by fastforce
  have "s' = s" using True by (simp add: s'_def count_settlement_def)
  then show ?thesis using progress_abs [OF assms(1,2) p] p True by (simp add: b'_def)
next
  case False
  obtain err b1 where r: "element_call br fi i c b = (err, b1)" by fastforce
  have "(s' \<noteq> s \<and> counted s' = {..<n}) = (counted s \<noteq> {..<n} \<and> counted s' = {..<n})"
    using count_once [OF _ assms(3), of s c] unfolding s'_def by metis
  then show ?thesis
    using resolve_element_abs [OF assms(1-3) False r [unfolded element_call_resolves [OF False]]] r
    by (simp add: s'_def b'_def Let_def)
qed

lemma element_calls_abs:
  assumes "frame_abs n s (frames b ! fi)" "fi < length (frames b)" "\<forall>(i, c) \<in> set ops. i < n"
  shows "let s' = foldl count_settlement s ops; b' = element_calls br fi ops b in
    frame_abs n s' (frames b' ! fi) \<and>
    closings (raw (frames b ! fi)) (calls b') = closings (raw (frames b ! fi)) (calls b) @
      (if counted s \<noteq> {..<n} \<and> counted s' = {..<n} then [closing_call s'] else [])"
  using assms
proof (induction br fi ops b arbitrary: s rule: element_calls.induct)
  case (2 br fi i c rest b)
  have i: "i < n" using "2.prems"(3) by simp
  let ?s = "count_settlement s (i, c)"
  note step = element_call_abs [OF "2.prems"(1,2) i, of c br]
  have full: "foldl count_settlement ?s rest = ?s" if "counted ?s = {..<n}"
    by (rule foldl_full [OF that]) (use "2.prems"(3) in simp)
  have grows: "counted s \<subseteq> counted ?s" by (auto simp: count_settlement_def)
  have sub: "counted ?s \<subseteq> {..<n}" using step by (simp add: frame_abs_def)
  have "let s' = foldl count_settlement ?s rest; b1 = snd (element_call br fi i c b);
      b' = element_calls br fi rest b1 in
    frame_abs n s' (frames b' ! fi) \<and>
    closings (raw (frames b1 ! fi)) (calls b') = closings (raw (frames b1 ! fi)) (calls b1) @
      (if counted ?s \<noteq> {..<n} \<and> counted s' = {..<n} then [closing_call s'] else [])"
    unfolding Let_def by (rule "2.IH" [unfolded Let_def]) (use "2.prems" step in auto)
  then show ?case using step full grows sub
    by (cases "counted ?s = {..<n}") (auto simp: Let_def)
qed simp

section \<open>Several goroutines\<close>

text \<open>
  \<^verbatim>\<open>settle\<close> and \<^verbatim>\<open>finish\<close> each hold the mutex, the call
  between them does not. \<open>frame_step\<close> lets the settlements of several goroutines and
  their finishes interleave: \<open>closers\<close> are the goroutines that were told to finish and
  have not yet, by the \<open>double\<close> they will finish with.
\<close>

record shared =
  fstate :: frame_state
  closers :: "bool list"
  closed :: "call list"

inductive frame_step :: "shared \<Rightarrow> shared \<Rightarrow> bool" where
  refused: "settle_element i nak d (fstate g) = (Inl e, f) \<Longrightarrow> i < length (elements (fstate g)) \<Longrightarrow>
    frame_step g (g\<lparr>fstate := f\<rparr>)"
| counts: "settle_element i nak d (fstate g) = (Inr False, f) \<Longrightarrow> i < length (elements (fstate g)) \<Longrightarrow>
    frame_step g (g\<lparr>fstate := f\<rparr>)"
| lasts: "settle_element i nak d (fstate g) = (Inr True, f) \<Longrightarrow> i < length (elements (fstate g)) \<Longrightarrow>
    frame_step g (g\<lparr>fstate := f, closers := closers g @ [double]\<rparr>)"
| finishes: "closers g = before @ double # later \<Longrightarrow>
    frame_step g (g\<lparr>closers := before @ later, closed := closed g @ [finish_call double (fstate g)]\<rparr>)"

inductive frame_run :: "shared \<Rightarrow> shared \<Rightarrow> bool" where
  run_refl: "frame_run g g"
| run_step: "frame_run g g' \<Longrightarrow> frame_step g' g'' \<Longrightarrow> frame_run g g''"

definition open_elements :: "frame_state \<Rightarrow> nat" where
  "open_elements f = length (filter (\<lambda>e. \<not> edone e) (elements f))"

definition shared_inv :: "shared \<Rightarrow> bool" where
  "shared_inv g \<longleftrightarrow> unsettled (fstate g) = int (open_elements (fstate g)) \<and>
     length (closers g) + length (closed g) = (if open_elements (fstate g) = 0 then 1 else 0)"

lemma open_update:
  "i < length es \<Longrightarrow> \<not> edone (es ! i) \<Longrightarrow>
     Suc (length (filter (\<lambda>e. \<not> edone e) (es[i := (es ! i)\<lparr>edone := True\<rparr>]))) =
     length (filter (\<lambda>e. \<not> edone e) es)"
proof (induction es arbitrary: i)
  case (Cons e es)
  then show ?case by (cases i) auto
qed simp

lemma settle_element_open:
  assumes "settle_element i nak d f = (Inr lst, f')" "i < length (elements f)"
  shows "Suc (open_elements f') = open_elements f \<and> unsettled f' = unsettled f - 1 \<and>
    lst = (unsettled f' = 0)"
  using assms open_update [of i "elements f"]
  by (auto simp: settle_element_def open_elements_def Let_def split: if_splits)

lemma settle_element_refused: "settle_element i nak d f = (Inl e, f') \<Longrightarrow> f' = f"
  by (auto simp: settle_element_def Let_def split: if_splits)

lemma frame_step_inv: "frame_step g g' \<Longrightarrow> shared_inv g \<Longrightarrow> shared_inv g'"
proof (induction rule: frame_step.induct)
  case (refused i nak d g e f)
  then show ?case by (auto dest: settle_element_refused simp: shared_inv_def)
next
  case (counts i nak d g f)
  then show ?case using settle_element_open [OF counts(1,2)] by (auto simp: shared_inv_def split: if_splits)
next
  case (lasts i nak d g f double)
  then show ?case using settle_element_open [OF lasts(1,2)] by (auto simp: shared_inv_def split: if_splits)
next
  case (finishes g before double later)
  then show ?case by (auto simp: shared_inv_def split: if_splits)
qed

lemma frame_run_inv: "frame_run g g' \<Longrightarrow> shared_inv g \<Longrightarrow> shared_inv g'"
  by (induction rule: frame_run.induct) (auto intro: frame_step_inv)

section \<open>Properties\<close>

text \<open>
  C7. A frame settles its broker message once. However its elements are acknowledged, refused,
  terminated or kept alive, and however often, the broker message of a frame of \<open>n\<close>
  elements is settled exactly when every element has been, once, by the call the settlements that
  counted ask for: a negative acknowledgement with the largest delay if any element failed.
\<close>
theorem frame_closes_once:
  assumes "fresh_frame n (frames b ! fi)" "0 < n" "fi < length (frames b)" "\<forall>(i, c) \<in> set ops. i < n"
  shows "closings (raw (frames b ! fi)) (calls (element_calls br fi ops b)) =
    closings (raw (frames b ! fi)) (calls b) @
      (let s = foldl count_settlement [] ops in
       if counted s = {..<n} then [closing_call s] else [])"
  using element_calls_abs [OF fresh_frame_abs [OF assms(1)] assms(3,4), of br] assms(2)
  by (auto simp: Let_def)

definition demo_frame :: "nat \<Rightarrow> frame_state" where
  "demo_frame n = \<lparr>raw = 7, unsettled = int n, ffailed = False, fdelay = 0, throttle = 0, last_beat = None,
     elements = replicate n \<lparr>esubject = ''s'', eheaders = Map.empty, edata = [], edone = False\<rparr>\<rparr>"

definition demo_broker :: broker where
  "demo_broker = \<lparr>reply = (\<lambda>h. None), clock = int, delivered = (\<lambda>m. Some 1)\<rparr>"

theorem frame_closes_once_witness:
  "closings 7 (calls (element_calls demo_broker 0
     [(0, CallNakWithDelay 5), (1, CallInProgress), (0, CallAck), (1, CallAck), (1, CallNak)]
     \<lparr>calls = [], ticks = 0, frames = [demo_frame 2]\<rparr>)) = [CallNakWithDelay 5]"
proof -
  let ?ops = "[(0, CallNakWithDelay 5), (1, CallInProgress), (0, CallAck), (1, CallAck), (1, CallNak)]"
  let ?b = "\<lparr>calls = [], ticks = 0, frames = [demo_frame 2]\<rparr>"
  have "fresh_frame 2 (frames ?b ! 0)" by (simp add: fresh_frame_def demo_frame_def)
  moreover have "raw (frames ?b ! 0) = 7" by (simp add: demo_frame_def)
  moreover have "foldl count_settlement [] ?ops = [(0, CallNakWithDelay 5), (1, CallAck)]"
    by (simp add: count_settlement_def counted_def)
  moreover have "counted [(0, CallNakWithDelay 5), (1 :: nat, CallAck)] = {..<2}"
    by (auto simp: counted_def)
  moreover have "closing_call [(0, CallNakWithDelay 5), (1, CallAck)] = CallNakWithDelay 5"
    by (simp add: closing_call_def delays_of_def map_filter_simps)
  ultimately show ?thesis
    using frame_closes_once [of 2 ?b 0 ?ops demo_broker] by (simp add: closings_def)
qed

text \<open>
  An element is settled once. After any settling call on it, every later settling call and every
  heartbeat returns the already-acknowledged error, and changes neither the frame nor the broker.
\<close>
theorem element_settles_once:
  assumes "fi < length (frames b)" "i < length (elements (frames b ! fi))"
    and "c \<noteq> CallInProgress" "b1 = snd (element_call br fi i c b)"
  shows "element_call br fi i c' b1 = (Some (Sent ErrMsgAlreadyAckd), b1)"
proof -
  have done1: "edone (elements (frames b1 ! fi) ! i)" and len: "fi < length (frames b1)"
    using assms
    by (auto simp: element_call_resolves resolve_element_def settle_element_def send_def Let_def
        split: if_splits sum.splits prod.splits)
  then show ?thesis
    by (cases c') (auto simp: resolve_element_def settle_element_def progress_def Let_def)
qed

theorem element_settles_once_witness:
  "element_call demo_broker 0 1 CallNak
     (snd (element_call demo_broker 0 1 CallAck \<lparr>calls = [], ticks = 0, frames = [demo_frame 2]\<rparr>)) =
   (Some (Sent ErrMsgAlreadyAckd),
    snd (element_call demo_broker 0 1 CallAck \<lparr>calls = [], ticks = 0, frames = [demo_frame 2]\<rparr>))"
  by (rule element_settles_once [of 0 "\<lparr>calls = [], ticks = 0, frames = [demo_frame 2]\<rparr>" 1 CallAck])
    (simp_all add: demo_frame_def)

text \<open>
  C20. Under any interleaving of goroutines, the broker message of a frame is settled at most once,
  and once every element is settled and every goroutine told to finish has finished, exactly once.
\<close>
theorem frame_interleaving_closes_once:
  assumes "frame_run g g'" "fresh_frame n (fstate g)" "0 < n" "closers g = []" "closed g = []"
  shows "length (closed g') \<le> 1 \<and>
    (closers g' = [] \<longrightarrow> (length (closed g') = 1 \<longleftrightarrow> open_elements (fstate g') = 0))"
proof -
  have "open_elements (fstate g) = n" using assms(2) by (simp add: fresh_frame_def open_elements_def)
  then have "shared_inv g" using assms by (simp add: shared_inv_def fresh_frame_def)
  then show ?thesis using frame_run_inv [OF assms(1)] by (auto simp: shared_inv_def split: if_splits)
qed

definition demo_shared :: shared where
  "demo_shared = \<lparr>fstate = demo_frame 1, closers = [], closed = []\<rparr>"

theorem frame_interleaving_closes_once_witness:
  "\<exists>g'. frame_run demo_shared g' \<and> closed g' = [CallAck] \<and> length (closed g') \<le> 1"
proof -
  define f where "f = snd (settle_element 0 False 0 (demo_frame 1))"
  have s: "settle_element 0 False 0 (demo_frame 1) = (Inr True, f)"
    by (simp add: f_def settle_element_def demo_frame_def)
  let ?g1 = "demo_shared\<lparr>fstate := f, closers := closers demo_shared @ [False]\<rparr>"
  let ?g2 = "?g1\<lparr>closers := [] @ [], closed := closed ?g1 @ [finish_call False (fstate ?g1)]\<rparr>"
  have "frame_step demo_shared ?g1"
    by (rule frame_step.lasts [of 0 False 0]) (use s in \<open>simp_all add: demo_shared_def demo_frame_def\<close>)
  moreover have "frame_step ?g1 ?g2"
    by (rule frame_step.finishes [of ?g1 "[]" False "[]"]) (simp add: demo_shared_def)
  ultimately have run: "frame_run demo_shared ?g2"
    by (rule frame_run.run_step [OF frame_run.run_step [OF frame_run.run_refl]])
  have "closed ?g2 = [CallAck]"
    by (simp add: demo_shared_def finish_call_def f_def settle_element_def demo_frame_def)
  moreover have "length (closed ?g2) \<le> 1"
    using frame_interleaving_closes_once [OF run, of 1]
    by (simp add: demo_shared_def fresh_frame_def demo_frame_def)
  ultimately show ?thesis using run by blast
qed

end
