(* ===== verification/Frame_Codec.thy ===== *)
theory Frame_Codec
  imports Frame "HOL-Library.Multiset"
begin

text \<open>
  The wire form of a frame (\<^verbatim>\<open>join.go\<close>, \<^verbatim>\<open>decode.go\<close>,
  \<^verbatim>\<open>unpack.go\<close>, \<^verbatim>\<open>wire_headers.go\<close>,
  \<^verbatim>\<open>msg_id.go\<close>): a MessagePack array of the encoded elements. The MessagePack
  library is not code of the repository; its encoder and decoder of one element and its decoder of
  an array length are parameters. The array header, which the repository writes itself, is proved
  against a reader of the format.
\<close>

section \<open>Headers and numbers\<close>

text \<open>\<^verbatim>\<open>nats.Header\<close>: \<^verbatim>\<open>Get\<close> is the first value, empty when there is none.\<close>

definition header_get :: "header \<Rightarrow> string \<Rightarrow> string" where
  "header_get h k = (case h k of Some (v # _) \<Rightarrow> v | _ \<Rightarrow> '''')"

definition header_set :: "header \<Rightarrow> string \<Rightarrow> string \<Rightarrow> header" where
  "header_set h k v = h(k \<mapsto> [v])"

fun itoa :: "nat \<Rightarrow> string" where
  "itoa n = (if n < 10 then [char_of (48 + n)] else itoa (n div 10) @ [char_of (48 + n mod 10)])"

declare itoa.simps [simp del]

definition HeaderVersion :: string where "HeaderVersion = ''Brokerfx-Frame''"
definition HeaderCount :: string where "HeaderCount = ''Brokerfx-Frame-Count''"
definition HeaderIndex :: string where "HeaderIndex = ''Brokerfx-Frame-Index''"
definition Version :: string where "Version = ''1''"
definition MsgIDHeader :: string where "MsgIDHeader = ''Nats-Msg-Id''"
definition max_array_header :: nat where "max_array_header = 5"

section \<open>The array header\<close>

type_synonym byte = "8 word"

definition array_header :: "byte list \<Rightarrow> nat \<Rightarrow> byte list" where
  "array_header data n =
     (if n \<le> 15 then data @ [0x90 OR word_of_nat n]
      else if n \<le> 65535 then data @ [0xdc, word_of_nat (n div 256), word_of_nat n]
      else data @ [0xdd, word_of_nat (n div 16777216), word_of_nat (n div 65536),
                   word_of_nat (n div 256), word_of_nat n])"

definition join :: "byte list list \<Rightarrow> byte list" where
  "join encoded = array_header [] (length encoded) @ concat encoded"

text \<open>A reader of the three array headers of the MessagePack format.\<close>

fun read_array_len :: "byte list \<Rightarrow> (nat \<times> byte list) option" where
  "read_array_len [] = None"
| "read_array_len (b # rest) =
     (if b AND 0xf0 = 0x90 then Some (unat (b AND 0x0f), rest)
      else if b = 0xdc then
        (case rest of x # y # rest' \<Rightarrow> Some (unat x * 256 + unat y, rest') | _ \<Rightarrow> None)
      else if b = 0xdd then
        (case rest of x # y # z # u # rest' \<Rightarrow>
           Some (unat x * 16777216 + unat y * 65536 + unat z * 256 + unat u, rest') | _ \<Rightarrow> None)
      else None)"

lemma unat_byte: "unat (word_of_nat n :: byte) = n mod 256"
  by (simp add: unat_of_nat)

lemma read_fixed:
  assumes "n \<le> 15"
  shows "(0x90 OR word_of_nat n :: byte) AND 0xf0 = 0x90 \<and> unat ((0x90 OR word_of_nat n :: byte) AND 0x0f) = n"
proof -
  have "n \<in> {0, 1, 2, 3, 4, 5, 6, 7, 8, 9, 10, 11, 12, 13, 14, 15}" using assms by simp arith
  then show ?thesis by auto
qed

lemma split_16: "n < 65536 \<Longrightarrow> n div 256 mod 256 * 256 + n mod 256 = (n :: nat)"
  by (simp add: div_mult_mod_eq)

lemma split_32:
  "n < 4294967296 \<Longrightarrow>
     n div 16777216 mod 256 * 16777216 + n div 65536 mod 256 * 65536 + n div 256 mod 256 * 256 + n mod 256
       = (n :: nat)"
proof -
  assume n: "n < 4294967296"
  have "n div 65536 = n div 256 div 256" "n div 16777216 = n div 65536 div 256"
    by (simp_all add: div_mult2_eq [symmetric])
  then have "n div 256 = n div 65536 * 256 + n div 256 mod 256"
    "n div 65536 = n div 16777216 * 256 + n div 65536 mod 256"
    by (metis div_mult_mod_eq)+
  moreover have "n = n div 256 * 256 + n mod 256" by (simp only: div_mult_mod_eq)
  moreover have "n div 16777216 mod 256 = n div 16777216" using n by (simp add: less_mult_imp_div_less)
  ultimately show ?thesis by linarith
qed

section \<open>Decoding\<close>

record element =
  Subject :: string
  Headers :: "header option"        \<comment> \<open>none is the nil map\<close>
  Payload :: "byte list"

record msgpack =
  decode_array_len :: "byte list \<Rightarrow> goerr + int \<times> byte list"
  decode_element :: "byte list \<Rightarrow> goerr + element \<times> byte list"
  marshal :: "element \<Rightarrow> goerr + byte list"

fun decode_elements ::
  "msgpack \<Rightarrow> nat \<Rightarrow> byte list \<Rightarrow> element list \<Rightarrow> goerr + element list \<times> byte list" where
  "decode_elements mp 0 data acc = Inr (acc, data)"
| "decode_elements mp (Suc k) data acc =
     (case decode_element mp data of
        Inl err \<Rightarrow> Inl (Wrap (Sent ErrBadFrame) err)
      | Inr (e, rest) \<Rightarrow> decode_elements mp k rest (acc @ [e]))"

definition decode :: "msgpack \<Rightarrow> byte list \<Rightarrow> goerr + element list" where
  "decode mp data =
     (case decode_array_len mp data of
        Inl err \<Rightarrow> Inl (Wrap (Sent ErrBadFrame) err)
      | Inr (k, rest) \<Rightarrow>
          if k \<le> 0 then Inl (Sent ErrBadFrame)
          else (case decode_elements mp (nat k) rest [] of
                  Inl err \<Rightarrow> Inl err
                | Inr (es, trailing) \<Rightarrow>
                    if trailing \<noteq> [] then Inl (Sent ErrBadFrame) else Inr es))"

text \<open>
  What the frame relies on: the library reads array lengths as the format says, and reads back what
  it wrote.
\<close>

definition reads_arrays :: "msgpack \<Rightarrow> bool" where
  "reads_arrays mp \<longleftrightarrow> (\<forall>bs n rest. read_array_len bs = Some (n, rest) \<longrightarrow>
     decode_array_len mp bs = Inr (int n, rest))"

definition reads_back :: "msgpack \<Rightarrow> element \<Rightarrow> byte list \<Rightarrow> bool" where
  "reads_back mp e d \<longleftrightarrow> (\<forall>rest. decode_element mp (d @ rest) = Inr (e, rest))"

lemma decode_elements_concat:
  "list_all2 (reads_back mp) es ds \<Longrightarrow>
     decode_elements mp (length es) (concat ds @ rest) acc = Inr (acc @ es, rest)"
  by (induction es ds arbitrary: acc rule: list_all2_induct) (simp_all add: reads_back_def)

section \<open>Unpacking\<close>

text \<open>The content of a broker message.\<close>

record content =
  csubject :: string
  cheaders :: header
  cdata :: "byte list"

definition is_frame :: "content \<Rightarrow> bool" where
  "is_frame c \<longleftrightarrow> header_get (cheaders c) HeaderVersion \<noteq> ''''"

fun build_elements :: "string \<Rightarrow> nat \<Rightarrow> element list \<Rightarrow> element_msg list \<Rightarrow> goerr + element_msg list" where
  "build_elements subj i [] acc = Inr acc"
| "build_elements subj i (e # rest) acc =
     (if Subject e \<noteq> subj then Inl (Sent ErrBadFrame)
      else
        let headers = (case Headers e of None \<Rightarrow> Map.empty | Some h \<Rightarrow> h);
            headers' = header_set headers HeaderIndex (itoa i)
        in build_elements subj (Suc i) rest
             (acc @ [\<lparr>esubject = Subject e, eheaders = headers', edata = Payload e, edone = False\<rparr>]))"

definition unpack ::
  "msgpack \<Rightarrow> (nat \<Rightarrow> content) \<Rightarrow> duration \<Rightarrow> nat \<Rightarrow> 'z bus_scheme \<Rightarrow> (goerr + msg list) \<times> 'z bus_scheme" where
  "unpack mp contents heartbeat m b =
     (let c = contents m in
      if \<not> is_frame c then (Inr [Raw m], b)
      else if header_get (cheaders c) HeaderVersion \<noteq> Version then (Inl (Sent ErrUnknownVersion), b)
      else (case decode mp (cdata c) of
              Inl err \<Rightarrow> (Inl err, b)
            | Inr es \<Rightarrow>
                if header_get (cheaders c) HeaderCount \<noteq> itoa (length es)
                then (Inl (Sent ErrBadFrame), b)
                else (case build_elements (csubject c) 0 es [] of
                        Inl err \<Rightarrow> (Inl err, b)
                      | Inr ems \<Rightarrow>
                          let fi = length (frames b);
                              f = \<lparr>raw = m, unsettled = int (length es), ffailed = False, fdelay = 0,
                                   throttle = go_div heartbeat 2, last_beat = None, elements = ems\<rparr>
                          in (Inr (map (Elem fi) [0..<length es]), b\<lparr>frames := frames b @ [f]\<rparr>))))"

section \<open>The headers of a frame\<close>

text \<open>\<open>sha\<close> is the hexadecimal SHA-256 of a string.\<close>

fun join_with :: "string \<Rightarrow> string list \<Rightarrow> string" where
  "join_with sep [] = ''''"
| "join_with sep [s] = s"
| "join_with sep (s # ss) = s @ sep @ join_with sep ss"

definition msg_id :: "(string \<Rightarrow> string) \<Rightarrow> string list \<Rightarrow> string" where
  "msg_id sha ids = ''frame-'' @ sha (join_with [CHR 0x0a] (sort ids))"

definition wire_headers :: "(string \<Rightarrow> string) \<Rightarrow> string list \<Rightarrow> (string \<times> string) list" where
  "wire_headers sha ids =
     [(HeaderVersion, Version), (HeaderCount, itoa (length ids)), (MsgIDHeader, msg_id sha ids)]"

lemma build_elements_ok:
  "\<forall>e \<in> set es. Subject e = subj \<Longrightarrow>
     \<exists>ems. build_elements subj i es acc = Inr (acc @ ems) \<and> length ems = length es \<and>
       map edata ems = map Payload es \<and> (\<forall>em \<in> set ems. \<not> edone em \<and> esubject em = subj)"
proof (induction subj i es acc rule: build_elements.induct)
  case (2 subj i e rest acc)
  from "2.IH" "2.prems" show ?case by (fastforce simp: Let_def)
qed simp

lemma build_elements_inv:
  "build_elements subj i es acc = Inr ems \<Longrightarrow>
     \<exists>new. ems = acc @ new \<and> length new = length es \<and> map edata new = map Payload es \<and>
       (\<forall>e \<in> set es. Subject e = subj) \<and> (\<forall>em \<in> set new. \<not> edone em)"
proof (induction subj i es acc rule: build_elements.induct)
  case (2 subj i e rest acc)
  then show ?case by (fastforce simp: Let_def split: if_splits)
qed simp

lemma decode_joined:
  assumes "reads_arrays mp" "list_all2 (reads_back mp) es ds" "es \<noteq> []" "length es < 2 ^ 32"
  shows "decode mp (join ds) = Inr es"
proof -
  have len: "length ds = length es" using assms(2) by (simp add: list_all2_lengthD)
  have "read_array_len (join ds) = Some (length es, concat ds)"
    using assms(4) len unfolding join_def
    by (cases "length es \<le> 15"; cases "length es \<le> 65535")
      (use read_fixed [of "length es"] split_16 [of "length es"] split_32 [of "length es"] in
        \<open>simp_all add: array_header_def unat_byte\<close>)
  then have "decode_array_len mp (join ds) = Inr (int (length es), concat ds)"
    using assms(1) by (simp add: reads_arrays_def)
  then show ?thesis
    using decode_elements_concat [OF assms(2), of "[]" "[]"] assms(3) by (simp add: decode_def)
qed

section \<open>Properties\<close>

text \<open>
  The array header the package writes is a MessagePack array header of the length given, for
  every length that fits 32 bits.
\<close>
theorem array_header_reads:
  assumes "n < 2 ^ 32"
  shows "read_array_len (array_header [] n @ rest) = Some (n, rest)"
proof -
  consider "n \<le> 15" | "15 < n" "n \<le> 65535" | "65535 < n" by linarith
  then show ?thesis
  proof cases
    case 1
    then show ?thesis using read_fixed [OF 1] by (simp add: array_header_def)
  next
    case 2
    then show ?thesis using split_16 [of n] by (simp add: array_header_def unat_byte)
  next
    case 3
    then show ?thesis using split_32 [of n] assms by (simp add: array_header_def unat_byte)
  qed
qed

theorem array_header_reads_witness:
  "read_array_len (array_header [] 70000 @ [1]) = Some (70000, [1])"
  by (rule array_header_reads) simp

text \<open>
  A frame decodes to its elements: what \<^verbatim>\<open>Join\<close> writes, from elements the
  library encoded, \<^verbatim>\<open>Decode\<close> reads back, in order, and nothing else.
\<close>
theorem decode_join:
  assumes "reads_arrays mp" "list_all2 (reads_back mp) es ds" "es \<noteq> []" "length es < 2 ^ 32"
  shows "decode mp (join ds) = Inr es"
  by (rule decode_joined [OF assms])

definition demo_msgpack :: msgpack where
  "demo_msgpack =
     \<lparr>decode_array_len = (\<lambda>bs. case read_array_len bs of
        Some (n, rest) \<Rightarrow> Inr (int n, rest) | None \<Rightarrow> Inl (Foreign ''eof'')),
      decode_element = (\<lambda>bs. case bs of
        b # rest \<Rightarrow> Inr (\<lparr>Subject = ''s'', Headers = None, Payload = [b]\<rparr>, rest)
      | [] \<Rightarrow> Inl (Foreign ''eof'')),
      marshal = (\<lambda>e. Inr (Payload e))\<rparr>"

definition demo_element :: "byte \<Rightarrow> element" where
  "demo_element b = \<lparr>Subject = ''s'', Headers = None, Payload = [b]\<rparr>"

theorem decode_join_witness:
  "decode demo_msgpack (join [[3], [4]]) = Inr [demo_element 3, demo_element 4]"
  by (rule decode_join) (simp_all add: reads_arrays_def reads_back_def demo_msgpack_def demo_element_def)

text \<open>
  The size a frame is budgeted for: a frame takes at most the five bytes reserved for the
  header more than its elements.
\<close>
theorem join_size: "length (join ds) \<le> max_array_header + (\<Sum>d\<leftarrow>ds. length d)"
  by (simp add: join_def array_header_def max_array_header_def length_concat)

text \<open>
  Unpacking. A message that is not a frame is handed on as it is. From a frame that is accepted
  come exactly its elements, on a new frame state that counts every one of them open; a frame that is
  refused leaves everything as it was.
\<close>
theorem unpack_result:
  "case unpack mp contents heartbeat m b of
     (Inl err, b') \<Rightarrow> b' = b \<and> is_frame (contents m)
   | (Inr ms, b') \<Rightarrow>
       if \<not> is_frame (contents m) then ms = [Raw m] \<and> b' = b
       else (\<exists>es f. decode mp (cdata (contents m)) = Inr es \<and>
         header_get (cheaders (contents m)) HeaderCount = itoa (length es) \<and>
         frames b' = frames b @ [f] \<and> calls b' = calls b \<and> raw f = m \<and> fresh_frame (length es) f \<and>
         map edata (elements f) = map Payload es \<and>
         ms = map (Elem (length (frames b))) [0..<length es])"
proof -
  have "fresh_frame (length es) \<lparr>raw = m, unsettled = int (length es), ffailed = False, fdelay = 0,
      throttle = t, last_beat = None, elements = ems\<rparr> \<and> map edata ems = map Payload es"
    if "build_elements (csubject (contents m)) 0 es [] = Inr ems" for es ems t
    using build_elements_inv [OF that] by (auto simp: fresh_frame_def)
  then show ?thesis by (auto simp: unpack_def Let_def split: sum.splits)
qed

text \<open>
  A frame's message id does not depend on the order of its elements, so that a frame published
  again from the same events is recognised as a duplicate.
\<close>
theorem msg_id_order:
  assumes "mset ids = mset ids'"
  shows "msg_id sha ids = msg_id sha ids'"
proof -
  have "sort ids = sort ids'" using assms by (intro properties_for_sort) simp_all
  then show ?thesis by (simp add: msg_id_def)
qed

theorem msg_id_order_witness: "msg_id (\<lambda>s. s) [''b'', ''a''] = msg_id (\<lambda>s. s) [''a'', ''b'']"
  by (rule msg_id_order) simp

end
