(* ===== verification/Go_Numbers.thy ===== *)
theory Go_Numbers imports Frame_Codec Go_Strings begin

text \<open>
  Numbers written in decimal (\<^verbatim>\<open>strconv.Itoa\<close>) are read back by
  \<^verbatim>\<open>strconv.ParseInt\<close>. The components that carry numbers in headers share these lemmas.
\<close>

lemma digits_value_append:
  "digits_value acc (xs @ ys) = (case digits_value acc xs of None \<Rightarrow> None | Some v \<Rightarrow> digits_value v ys)"
  by (induction acc xs rule: digits_value.induct) simp_all

lemma digit_char: "d < 10 \<Longrightarrow> is_digit (char_of (48 + d)) \<and> of_char (char_of (48 + d) :: char) = (48 + d :: nat)"
  by (simp add: is_digit_def less_eq_char_def)

lemma digits_value_itoa: "digits_value 0 (itoa n) = Some (int n)"
proof (induction n rule: itoa.induct)
  case (1 n)
  have div10: "int (n div 10) * 10 + int (n mod 10) = int n"
    by (metis div_mult_mod_eq of_nat_add of_nat_mult of_nat_numeral)
  have "int (of_char (char_of (48 + n mod 10) :: char)) - 48 = int (n mod 10)" for n
    using digit_char [of "n mod 10"] by simp
  then show ?case
    using 1 digit_char [of n] digit_char [of "n mod 10"]
    by (subst itoa.simps) (simp add: digits_value_append div10)
qed

lemma itoa_not_empty: "itoa n \<noteq> []"
  by (subst itoa.simps) simp

lemma itoa_hd: "is_digit (itoa n ! 0)"
proof (induction n rule: itoa.induct)
  case (1 n)
  then show ?case using digit_char [of n] itoa_not_empty [of "n div 10"]
    by (subst itoa.simps) (simp add: nth_append)
qed

lemma parse_itoa: "int n < 2 ^ 63 \<Longrightarrow> parse_int (itoa n) = Some (int n)"
  using itoa_hd [of n] itoa_not_empty [of n]
  by (auto simp: parse_int_def digits_value_itoa Let_def is_digit_def)


end
