(* ===== verification/Batch_Types.thy ===== *)
theory Batch_Types
  imports Go_Prelude
begin

text \<open>
  The result vocabulary of \<^verbatim>\<open>pkg/nats/jetstream/consumer/batch\<close>: verdicts,
  results and their constructors, settle kinds, and the tally a settled batch reports.
\<close>

section \<open>Verdicts and results\<close>

datatype verdict = VerdictNak | VerdictAck | VerdictNakDelay | VerdictTerm | VerdictSkip

text \<open>\<open>after\<close> is the position of the earlier message plus one, 0 when there is none.\<close>

record result =
  verdict :: verdict
  rdelay :: duration
  rerr :: "goerr option"
  after :: int

definition zero_result :: result where
  "zero_result = \<lparr>verdict = VerdictNak, rdelay = 0, rerr = None, after = 0\<rparr>"

definition Ack :: result where
  "Ack = zero_result\<lparr>verdict := VerdictAck\<rparr>"

definition Skip :: result where
  "Skip = zero_result\<lparr>verdict := VerdictSkip\<rparr>"

definition Nak :: "goerr \<Rightarrow> result" where
  "Nak e = zero_result\<lparr>verdict := VerdictNak, rerr := Some e\<rparr>"

definition NakDelay :: "duration \<Rightarrow> goerr \<Rightarrow> result" where
  "NakDelay d e = zero_result\<lparr>verdict := VerdictNakDelay, rdelay := d, rerr := Some e\<rparr>"

definition Term :: "goerr \<Rightarrow> result" where
  "Term e = zero_result\<lparr>verdict := VerdictTerm, rerr := Some e\<rparr>"

definition Poison :: "goerr \<Rightarrow> goerr" where
  "Poison e = Wrap (Sent ErrPoison) e"

fun settles_as_ack :: "verdict \<Rightarrow> bool" where
  "settles_as_ack VerdictAck = True"
| "settles_as_ack VerdictSkip = True"
| "settles_as_ack _ = False"

abbreviation acked :: "result \<Rightarrow> bool" where
  "acked r \<equiv> settles_as_ack (verdict r)"

lemma acked_constructors [simp]:
  "acked Ack" "acked Skip" "\<not> acked (Nak e)" "\<not> acked (NakDelay d e)" "\<not> acked (Term e)"
  "\<not> acked zero_result"
  by (simp_all add: Ack_def Skip_def Nak_def NakDelay_def Term_def zero_result_def)

lemma result_fields [simp]:
  "verdict Ack = VerdictAck" "rerr Ack = None" "after Ack = 0"
  "verdict (Nak e) = VerdictNak" "rerr (Nak e) = Some e" "after (Nak e) = 0" "rdelay (Nak e) = 0"
  "verdict (NakDelay d e) = VerdictNakDelay" "rerr (NakDelay d e) = Some e"
  "after (NakDelay d e) = 0" "rdelay (NakDelay d e) = d"
  by (simp_all add: Ack_def Nak_def NakDelay_def zero_result_def)

section \<open>Settle kinds and the tally\<close>

datatype settle_kind =
  settledAck | settledSkip | settledRetry | settledPoison | settledBlocked

datatype settle_event =
  SettleEvent (nAck: nat) (nSkip: nat) (nRetry: nat) (nPoison: nat) (nBlocked: nat)

fun with_kind :: "settle_event \<Rightarrow> settle_kind \<Rightarrow> settle_event" where
  "with_kind (SettleEvent a s r p b) settledAck = SettleEvent (a + 1) s r p b"
| "with_kind (SettleEvent a s r p b) settledSkip = SettleEvent a (s + 1) r p b"
| "with_kind (SettleEvent a s r p b) settledRetry = SettleEvent a s (r + 1) p b"
| "with_kind (SettleEvent a s r p b) settledPoison = SettleEvent a s r (p + 1) b"
| "with_kind (SettleEvent a s r p b) settledBlocked = SettleEvent a s r p (b + 1)"

fun failure :: "settle_kind \<Rightarrow> string" where
  "failure settledRetry = ''nak''"
| "failure settledPoison = ''term''"
| "failure settledBlocked = ''blocked''"
| "failure _ = ''''"

definition failed_count :: "settle_event \<Rightarrow> nat" where
  "failed_count e = nRetry e + nPoison e + nBlocked e"

definition plus_event :: "settle_event \<Rightarrow> settle_event \<Rightarrow> settle_event" where
  "plus_event e f =
     SettleEvent (nAck e + nAck f) (nSkip e + nSkip f) (nRetry e + nRetry f)
       (nPoison e + nPoison f) (nBlocked e + nBlocked f)"

text \<open>
  Tallies form a commutative monoid under the source's \<^verbatim>\<open>plus\<close>, so that the
  library's sums apply to them.
\<close>

instantiation settle_event :: comm_monoid_add
begin

definition zero_settle_event_def: "0 = SettleEvent 0 0 0 0 0"

definition plus_settle_event_def: "e + f = plus_event e f"

instance
proof
  fix a b c :: settle_event
  show "a + b + c = a + (b + c)" by (simp add: plus_settle_event_def plus_event_def)
  show "a + b = b + a" by (simp add: plus_settle_event_def plus_event_def)
  show "0 + a = a"
    by (cases a) (simp add: plus_settle_event_def plus_event_def zero_settle_event_def)
qed

end

definition total :: "settle_event \<Rightarrow> nat" where
  "total e = nAck e + nSkip e + nRetry e + nPoison e + nBlocked e"

lemma total_zero [simp]: "total 0 = 0"
  by (simp add: total_def zero_settle_event_def)

lemma total_plus [simp]: "total (e + f) = total e + total f"
  by (simp add: total_def plus_settle_event_def plus_event_def)

lemma total_with [simp]: "total (with_kind e k) = Suc (total e)"
  by (cases e; cases k) (simp_all add: total_def)

lemma with_kind_plus: "with_kind e k = e + with_kind 0 k"
  by (cases e; cases k) (simp_all add: plus_settle_event_def plus_event_def zero_settle_event_def)

lemma failed_count_zero [simp]: "failed_count 0 = 0"
  by (simp add: failed_count_def zero_settle_event_def)

lemma failed_count_plus [simp]: "failed_count (e + f) = failed_count e + failed_count f"
  by (simp add: failed_count_def plus_settle_event_def plus_event_def)

lemma failed_count_with:
  "failed_count (with_kind e k) = failed_count e + (if failure k = '''' then 0 else 1)"
  by (cases e; cases k) (simp_all add: failed_count_def)

end
