(* ===== verification/Batch_Tx.thy ===== *)
theory Batch_Tx
  imports Batch_Types
begin

text \<open>
  One transactional attempt of \<^verbatim>\<open>batch.InTx\<close> over a subset of a batch
  (\<^verbatim>\<open>in_tx.go\<close>, \<^verbatim>\<open>bisect.go\<close>, \<^verbatim>\<open>claim.go\<close>,
  \<^verbatim>\<open>claim_query.go\<close>, \<^verbatim>\<open>unclaim.go\<close>): claim the
  dedup keys, run the handler on the fresh messages, release the keys of the messages the handler
  did not acknowledge, commit.

  The transaction manager, the database and the user's handler are not code of the repository.
  They are fields of the record \<open>in_tx\<close>, functions of the state; \<open>env\<close>
  is whatever they depend on beside the database. The laws of the transaction manager are
  \<open>tx_atomic\<close>.
\<close>

section \<open>State\<close>

datatype tx_event =
    OnApply nat nat "goerr option"   \<comment> \<open>messages, fresh, error\<close>
  | OnBisect nat nat goerr           \<comment> \<open>messages, groups, error\<close>

text \<open>
  \<open>processed\<close> is the column \<^verbatim>\<open>processed_messages.message_id\<close>,
  \<open>business\<close> the tables the handler writes. The observer's calls are a list of their
  own, outside the database.
\<close>

record ('d, 'e) tx_state =
  processed :: "string set"
  business :: 'd
  env :: 'e

text \<open>The two variables of \<^verbatim>\<open>attempt\<close> that the closure assigns.\<close>

type_synonym locals = "(nat \<rightharpoonup> result) \<times> nat"

type_synonym ('d, 'e) tx_body =
  "locals \<times> ('d, 'e) tx_state \<Rightarrow> (locals \<times> ('d, 'e) tx_state) \<times> goerr option"

record ('m, 'd, 'e) in_tx =
  tx_do :: "('d, 'e) tx_body \<Rightarrow> ('d, 'e) tx_body"
  apply_fn :: "('m list \<Rightarrow> 'd \<Rightarrow> 'e \<Rightarrow> unit ret \<times> 'd \<times> 'e) option"
  apply_results :: "('m list \<Rightarrow> 'd \<Rightarrow> 'e \<Rightarrow> result list ret \<times> 'd \<times> 'e) option"
  key_of :: "'m \<Rightarrow> string"
  order_key :: "('m \<Rightarrow> string) option"
  no_dedup :: bool
  transient :: "goerr \<Rightarrow> bool"
  retry_budget :: int
  transient_delay :: duration
  canon :: "string \<Rightarrow> string"        \<comment> \<open>how the column renders a stored key\<close>
  claim_fault :: "'e \<Rightarrow> goerr option \<times> 'e"
  unclaim_fault :: "'e \<Rightarrow> goerr option \<times> 'e"

section \<open>Claiming and releasing keys\<close>

text \<open>
  \<^verbatim>\<open>INSERT ... ON CONFLICT (message_id) DO NOTHING RETURNING message_id\<close> over the
  rows in their order: the stored values that are new, and the column afterwards.
\<close>

fun insert_ignore ::
  "(string \<Rightarrow> string) \<Rightarrow> string list \<Rightarrow> string set \<Rightarrow> string list \<times> string set" where
  "insert_ignore c [] p = ([], p)"
| "insert_ignore c (k # ks) p =
     (if c k \<in> p then insert_ignore c ks p
      else let (ins, p') = insert_ignore c ks (insert (c k) p) in (c k # ins, p'))"

definition claim_keys ::
  "('m, 'd, 'e) in_tx \<Rightarrow> string list \<Rightarrow> ('d, 'e) tx_state
     \<Rightarrow> (goerr + string set) \<times> ('d, 'e) tx_state" where
  "claim_keys h keys st =
     (if keys = [] then (Inr {}, st)
      else let ordered = sort keys;
               (fault, env') = claim_fault h (env st);
               st' = st\<lparr>env := env'\<rparr>
           in case fault of
                Some e \<Rightarrow> (Inl e, st')
              | None \<Rightarrow> let (ins, proc) = insert_ignore (canon h) ordered (processed st)
                        in (Inr (set ins), st'\<lparr>processed := proc\<rparr>))"

definition unclaim_keys ::
  "('m, 'd, 'e) in_tx \<Rightarrow> string list \<Rightarrow> ('d, 'e) tx_state
     \<Rightarrow> goerr option \<times> ('d, 'e) tx_state" where
  "unclaim_keys h keys st =
     (if keys = [] then (None, st)
      else let (fault, env') = unclaim_fault h (env st); st' = st\<lparr>env := env'\<rparr>
           in case fault of
                Some e \<Rightarrow> (Some e, st')
              | None \<Rightarrow> (None, st'\<lparr>processed := processed st' - set (map (canon h) keys)\<rparr>))"

text \<open>
  The loop of \<^verbatim>\<open>fresh\<close> that keeps the first index of every key: the selected
  indexes with their keys.
\<close>

fun select_first ::
  "('m \<Rightarrow> string) \<Rightarrow> 'm list \<Rightarrow> string set \<Rightarrow> nat list \<Rightarrow> (nat \<times> string) list" where
  "select_first key msgs seen [] = []"
| "select_first key msgs seen (index # rest) =
     (let k = key (msgs ! index) in
      if k \<in> seen then select_first key msgs seen rest
      else (index, k) # select_first key msgs (insert k seen) rest)"

definition fresh ::
  "('m, 'd, 'e) in_tx \<Rightarrow> 'm list \<Rightarrow> nat list \<Rightarrow> ('d, 'e) tx_state
     \<Rightarrow> (goerr + nat list \<times> string list option) \<times> ('d, 'e) tx_state" where
  "fresh h msgs ixs st =
     (if no_dedup h then (Inr (ixs, None), st)
      else let selected = select_first (key_of h) msgs {} ixs;
               (claimed, st') = claim_keys h (map snd selected) st
           in case claimed of
                Inl e \<Rightarrow> (Inl e, st')
              | Inr ids \<Rightarrow>
                  let kept = filter (\<lambda>(index, k). k \<in> ids) selected
                  in (Inr (map fst kept, Some (map snd kept)), st'))"

section \<open>Running the handler\<close>

definition run ::
  "('m, 'd, 'e) in_tx \<Rightarrow> 'm list \<Rightarrow> ('d, 'e) tx_state
     \<Rightarrow> (goerr + result list) \<times> ('d, 'e) tx_state" where
  "run h selected st =
     (case apply_results h of
        None \<Rightarrow>
          (case apply_fn h of
             None \<Rightarrow> (Inl (Sent ErrHandlerPanic), st)   \<comment> \<open>a call of a nil func panics\<close>
           | Some f \<Rightarrow>
               (case f selected (business st) (env st) of
                  (Returned _, d, e) \<Rightarrow> (Inr [], st\<lparr>business := d, env := e\<rparr>)
                | (Failed err, d, e) \<Rightarrow> (Inl err, st\<lparr>business := d, env := e\<rparr>)
                | (Panicked, d, e) \<Rightarrow>
                    (Inl (Sent ErrHandlerPanic), st\<lparr>business := d, env := e\<rparr>)))
      | Some f \<Rightarrow>
          (case f selected (business st) (env st) of
             (Returned rs, d, e) \<Rightarrow> (Inr rs, st\<lparr>business := d, env := e\<rparr>)
           | (Failed err, d, e) \<Rightarrow> (Inl err, st\<lparr>business := d, env := e\<rparr>)
           | (Panicked, d, e) \<Rightarrow> (Inl (Sent ErrHandlerPanic), st\<lparr>business := d, env := e\<rparr>)))"

text \<open>
  \<^verbatim>\<open>verdicts\<close>: the result of every fresh index, after releasing the keys of those
  that do not settle as an acknowledgement. \<open>keys\<close> is \<open>None\<close> for the nil
  slice of the no-dedup mode.
\<close>

definition released :: "string list option \<Rightarrow> result list \<Rightarrow> string list" where
  "released keys applied =
     (case keys of None \<Rightarrow> []
      | Some ks \<Rightarrow> map fst (filter (\<lambda>(k, r). \<not> acked r) (zip ks applied)))"

definition verdicts ::
  "('m, 'd, 'e) in_tx \<Rightarrow> nat list \<Rightarrow> string list option \<Rightarrow> result list \<Rightarrow> ('d, 'e) tx_state
     \<Rightarrow> (goerr + (nat \<rightharpoonup> result)) \<times> ('d, 'e) tx_state" where
  "verdicts h indexes keys applied st =
     (let by_index = map_of (rev (zip indexes applied)) in
      case unclaim_keys h (released keys applied) st of
        (Some e, st') \<Rightarrow> (Inl e, st')
      | (None, st') \<Rightarrow> (Inr by_index, st'))"

section \<open>Order violations\<close>

text \<open>
  The first loop of \<^verbatim>\<open>orderViolations\<close> (\<^verbatim>\<open>order_groups.go\<close>):
  for every order key the position of its first failure, and the keys with an acknowledged message
  after it.
\<close>

fun scan_failures ::
  "('m \<Rightarrow> string) \<Rightarrow> 'm list \<Rightarrow> (nat \<times> nat \<times> result) list
     \<Rightarrow> (string \<rightharpoonup> nat) \<Rightarrow> string set \<Rightarrow> (string \<rightharpoonup> nat) \<times> string set" where
  "scan_failures okey msgs [] first violated = (first, violated)"
| "scan_failures okey msgs ((i, index, r) # rest) first violated =
     (let key = okey (msgs ! index) in
      if first key \<noteq> None then
        scan_failures okey msgs rest first (if acked r then insert key violated else violated)
      else if \<not> acked r then scan_failures okey msgs rest (first(key \<mapsto> i)) violated
      else scan_failures okey msgs rest first violated)"

definition order_violations ::
  "'m list \<Rightarrow> nat list \<Rightarrow> result list \<Rightarrow> ('m \<Rightarrow> string) \<Rightarrow> nat list" where
  "order_violations msgs indexes applied okey =
     (let positioned = zip [0..<length indexes] (zip indexes applied);
          (first, violated) = scan_failures okey msgs positioned Map.empty {}
      in map (\<lambda>(i, index, r). index)
           (filter (\<lambda>(i, index, r).
              let key = okey (msgs ! index) in
              key \<in> violated \<and> (case first key of None \<Rightarrow> False | Some f \<Rightarrow> f < i)) positioned))"

section \<open>The attempt\<close>

definition attempt_body ::
  "('m, 'd, 'e) in_tx \<Rightarrow> 'm list \<Rightarrow> nat list \<Rightarrow> ('d, 'e) tx_body" where
  "attempt_body h msgs ixs = (\<lambda>((_, fr), st).
     case fresh h msgs ixs st of
       (Inl e, st1) \<Rightarrow> (((Map.empty, fr), st1), Some e)
     | (Inr (indexes, keys), st1) \<Rightarrow>
         let n = length indexes in
         if n = 0 then (((Map.empty, n), st1), None)
         else
           let selected = map (\<lambda>index. msgs ! index) indexes in
           case run h selected st1 of
             (Inl e, st2) \<Rightarrow> (((Map.empty, n), st2), Some e)
           | (Inr applied, st2) \<Rightarrow>
               if apply_results h = None then (((Map.empty, n), st2), None)
               else if length applied \<noteq> length selected
               then (((Map.empty, n), st2), Some (Sent ErrMissingResult))
               else
                 let blocked = (case order_key h of None \<Rightarrow> []
                       | Some okey \<Rightarrow> order_violations msgs indexes applied okey) in
                 if blocked \<noteq> [] then (((Map.empty, n), st2), Some (OrderViolation blocked))
                 else case verdicts h indexes keys applied st2 of
                        (Inl e, st3) \<Rightarrow> (((Map.empty, n), st3), Some e)
                      | (Inr by_index, st3) \<Rightarrow> (((by_index, n), st3), None))"

definition attempt ::
  "('m, 'd, 'e) in_tx \<Rightarrow> 'm list \<Rightarrow> nat list \<Rightarrow> ('d, 'e) tx_state \<times> tx_event list
     \<Rightarrow> (goerr + (nat \<rightharpoonup> result)) \<times> ('d, 'e) tx_state \<times> tx_event list" where
  "attempt h msgs ixs = (\<lambda>(st, evs).
     let (((outcome, fr), st'), err) =
           tx_do h (attempt_body h msgs ixs) ((Map.empty, 0), st)
     in (case err of Some e \<Rightarrow> Inl e | None \<Rightarrow> Inr outcome,
         st', evs @ [OnApply (length ixs) fr err]))"

text \<open>\<^verbatim>\<open>record\<close>: an index the outcome does not name was a duplicate.\<close>

definition recorded :: "(nat \<rightharpoonup> result) \<Rightarrow> nat \<Rightarrow> result" where
  "recorded outcome index = (case outcome index of Some r \<Rightarrow> r | None \<Rightarrow> Ack)"

definition record_outcome :: "nat list \<Rightarrow> (nat \<rightharpoonup> result) \<Rightarrow> result list \<Rightarrow> result list" where
  "record_outcome ixs outcome results = put_all (recorded outcome) ixs results"

definition transient_result :: "('m, 'd, 'e) in_tx \<Rightarrow> goerr \<Rightarrow> result" where
  "transient_result h e =
     (if transient_delay h > 0 then NakDelay (transient_delay h) e else Nak e)"

section \<open>What the attempt relies on\<close>

text \<open>
  The transaction manager runs the function it is given in one transaction, possibly more than
  once: when it returns no error the state is that of a run, from the database as it was, that
  returned none; when it returns an error the database is as it was. An error that carries an
  order violation comes from such a run.
\<close>

definition same_db :: "('d, 'e) tx_state \<Rightarrow> ('d, 'e) tx_state \<Rightarrow> bool" where
  "same_db s t \<longleftrightarrow> processed s = processed t \<and> business s = business t"

definition tx_atomic :: "('m, 'd, 'e) in_tx \<Rightarrow> bool" where
  "tx_atomic h \<longleftrightarrow> (\<forall>fn loc st loc' st' r. tx_do h fn (loc, st) = ((loc', st'), r) \<longrightarrow>
     (case r of
        None \<Rightarrow> \<exists>loc0 st0. same_db st0 st \<and> fn (loc0, st0) = ((loc', st'), None)
      | Some e \<Rightarrow> same_db st' st \<and>
          (\<forall>bl. as_violation e = Some bl \<longrightarrow>
             (\<exists>loc0 st0 x e0. same_db st0 st \<and> fn (loc0, st0) = (x, Some e0)
                \<and> as_violation e0 = Some bl))))"

text \<open>The plainest manager with these laws: one run, rolled back on an error.\<close>

definition tx_once :: "('d, 'e) tx_body \<Rightarrow> ('d, 'e) tx_body" where
  "tx_once fn = (\<lambda>(loc, st). case fn (loc, st) of
     ((loc', st'), None) \<Rightarrow> ((loc', st'), None)
   | ((loc', st'), Some e) \<Rightarrow>
       ((loc', st'\<lparr>processed := processed st, business := business st\<rparr>), Some e))"

lemma tx_atomic_commit:
  assumes "tx_atomic h" "tx_do h fn (loc, st) = ((loc', st'), None)"
  obtains loc0 st0 where "same_db st0 st" "fn (loc0, st0) = ((loc', st'), None)"
proof -
  have "case None :: goerr option of
        None \<Rightarrow> \<exists>loc0 st0. same_db st0 st \<and> fn (loc0, st0) = ((loc', st'), None)
      | Some e \<Rightarrow> False"
    using assms unfolding tx_atomic_def by fastforce
  then show ?thesis using that by auto
qed

lemma tx_atomic_rollback:
  assumes "tx_atomic h" "tx_do h fn (loc, st) = ((loc', st'), Some e)"
  shows "same_db st' st"
    and "as_violation e = Some bl \<Longrightarrow> \<exists>loc0 st0 x e0. same_db st0 st
      \<and> fn (loc0, st0) = (x, Some e0) \<and> as_violation e0 = Some bl"
  using assms unfolding tx_atomic_def by fastforce+

lemma same_db_refl [simp]: "same_db s s"
  by (simp add: same_db_def)

lemma tx_once_atomic: "tx_do h = tx_once \<Longrightarrow> tx_atomic h"
  by (fastforce simp: tx_atomic_def tx_once_def same_db_def split: prod.splits option.splits)

text \<open>
  The type \<^verbatim>\<open>orderViolation\<close> is not exported, so no handler and no driver error
  carries one.
\<close>

definition no_foreign_violation :: "('m, 'd, 'e) in_tx \<Rightarrow> bool" where
  "no_foreign_violation h \<longleftrightarrow>
     (\<forall>f ms d e err d' e'. apply_results h = Some f \<and> f ms d e = (Failed err, d', e')
        \<longrightarrow> as_violation err = None) \<and>
     (\<forall>f ms d e err d' e'. apply_fn h = Some f \<and> f ms d e = (Failed err, d', e')
        \<longrightarrow> as_violation err = None) \<and>
     (\<forall>e err e'. claim_fault h e = (Some err, e') \<longrightarrow> as_violation err = None) \<and>
     (\<forall>e err e'. unclaim_fault h e = (Some err, e') \<longrightarrow> as_violation err = None)"

text \<open>The column renders the keys of the batch as the key function wrote them.\<close>

definition canonical_keys :: "('m, 'd, 'e) in_tx \<Rightarrow> 'm list \<Rightarrow> bool" where
  "canonical_keys h msgs \<longleftrightarrow> (\<forall>m \<in> set msgs. canon h (key_of h m) = key_of h m)"

section \<open>Facts about the parts of an attempt\<close>

lemma insert_ignore_canonical:
  assumes "insert_ignore c ks p = (ins, p')" "\<forall>k \<in> set ks. c k = k"
  shows "set ins = set ks - p \<and> p' = p \<union> set ks"
  using assms
  by (induction c ks p arbitrary: ins p' rule: insert_ignore.induct)
    (auto split: if_splits prod.splits)

lemma select_first_subset: "set (map fst (select_first key msgs seen ixs)) \<subseteq> set ixs"
  by (induction key msgs seen ixs rule: select_first.induct) (auto simp: Let_def)

lemma select_first_key:
  "(i, k) \<in> set (select_first key msgs seen ixs) \<Longrightarrow> k = key (msgs ! i) \<and> k \<notin> seen"
  by (induction key msgs seen ixs rule: select_first.induct) (auto simp: Let_def split: if_splits)

lemma select_first_pairs:
  "select_first key msgs seen ixs
     = map (\<lambda>i. (i, key (msgs ! i))) (map fst (select_first key msgs seen ixs))"
  by (induction key msgs seen ixs rule: select_first.induct) (simp_all add: Let_def)

lemma select_first_keys:
  "set (map snd (select_first key msgs seen ixs)) = (\<lambda>i. key (msgs ! i)) ` set ixs - seen"
  by (induction key msgs seen ixs rule: select_first.induct) (auto simp: Let_def)

lemma select_first_distinct_keys: "distinct (map snd (select_first key msgs seen ixs))"
proof (induction key msgs seen ixs rule: select_first.induct)
  case (2 key msgs seen index rest)
  then show ?case
    using select_first_keys [of key msgs "insert (key (msgs ! index)) seen" rest]
    by (auto simp: Let_def)
qed simp

lemma select_first_distinct:
  "distinct ixs \<Longrightarrow> distinct (map fst (select_first key msgs seen ixs))"
proof (induction key msgs seen ixs rule: select_first.induct)
  case (2 key msgs seen index rest)
  then show ?case
    using select_first_subset [of key msgs "insert (key (msgs ! index)) seen" rest]
    by (auto simp: Let_def)
qed simp

lemma select_first_all:
  assumes "distinct (map (\<lambda>i. key (msgs ! i)) ixs)"
    and "seen \<inter> (\<lambda>i. key (msgs ! i)) ` set ixs = {}"
  shows "select_first key msgs seen ixs = map (\<lambda>i. (i, key (msgs ! i))) ixs"
  using assms
proof (induction key msgs seen ixs rule: select_first.induct)
  case (2 key msgs seen index rest)
  have "select_first key msgs (insert (key (msgs ! index)) seen) rest
      = map (\<lambda>i. (i, key (msgs ! i))) rest"
  proof (rule "2.IH"(2))
    show "key (msgs ! index) \<notin> seen" using "2.prems" by auto
    show "distinct (map (\<lambda>i. key (msgs ! i)) rest)" using "2.prems" by simp
    show "insert (key (msgs ! index)) seen \<inter> (\<lambda>i. key (msgs ! i)) ` set rest = {}"
      using "2.prems" by (auto simp: image_iff)
  qed simp
  then show ?case using "2.prems" by (auto simp: Let_def)
qed simp

lemma fresh_kept:
  assumes "fresh h msgs ixs st = (Inr (indexes, keys), st1)" "\<not> no_dedup h"
    and canon: "canonical_keys h msgs" and bound: "\<forall>i \<in> set ixs. i < length msgs"
  shows "indexes = filter (\<lambda>i. key_of h (msgs ! i) \<notin> processed st)
      (map fst (select_first (key_of h) msgs {} ixs))"
    and "keys = Some (map (\<lambda>i. key_of h (msgs ! i)) indexes)"
    and "processed st1 = processed st \<union> (\<lambda>i. key_of h (msgs ! i)) ` set ixs"
    and "business st1 = business st"
proof -
  let ?sel = "select_first (key_of h) msgs {} ixs"
  let ?key = "\<lambda>i. key_of h (msgs ! i)"
  note pairs = select_first_pairs [of "key_of h" msgs "{}" ixs]
  have keyset: "set (map snd ?sel) = ?key ` set ixs"
    using select_first_keys [of "key_of h" msgs "{}" ixs] by simp
  have canonk: "\<forall>k \<in> set (sort (map snd ?sel)). canon h k = k"
    using canon bound keyset by (auto simp: canonical_keys_def)
  obtain ids where ids: "claim_keys h (map snd ?sel) st = (Inr ids, st1)"
    and kept: "indexes = map fst (filter (\<lambda>(i, k). k \<in> ids) ?sel)"
      "keys = Some (map snd (filter (\<lambda>(i, k). k \<in> ids) ?sel))"
    using assms(1,2) by (auto simp: fresh_def Let_def split: prod.splits sum.splits)
  have claim: "ids = ?key ` set ixs - processed st
      \<and> processed st1 = processed st \<union> ?key ` set ixs \<and> business st1 = business st"
  proof (cases "map snd ?sel = []")
    case True
    then show ?thesis using ids keyset by (auto simp: claim_keys_def)
  next
    case False
    obtain ins proc where ii: "insert_ignore (canon h) (sort (map snd ?sel)) (processed st) = (ins, proc)"
      by fastforce
    show ?thesis
      using ids False ii insert_ignore_canonical [OF ii canonk] keyset
      by (auto simp: claim_keys_def Let_def split: prod.splits option.splits)
  qed
  have "filter (\<lambda>(i, k). k \<in> ids) ?sel
      = map (\<lambda>i. (i, ?key i)) (filter (\<lambda>i. ?key i \<notin> processed st) (map fst ?sel))"
    (is "_ = map _ (filter ?P _)")
  proof -
    have "filter (\<lambda>(i, k). k \<in> ids) ?sel
        = map (\<lambda>i. (i, ?key i)) (filter (\<lambda>i. ?key i \<in> ids) (map fst ?sel))"
      by (subst pairs) (simp add: filter_map o_def)
    also have "filter (\<lambda>i. ?key i \<in> ids) (map fst ?sel) = filter ?P (map fst ?sel)"
      using claim select_first_subset [of "key_of h" msgs "{}" ixs]
      by (intro filter_cong) auto
    finally show ?thesis .
  qed
  then show "indexes = filter (\<lambda>i. key_of h (msgs ! i) \<notin> processed st) (map fst ?sel)"
    and "keys = Some (map ?key indexes)"
    using kept by (simp_all add: o_def)
  show "processed st1 = processed st \<union> ?key ` set ixs" "business st1 = business st"
    using claim by simp_all
qed

lemma run_processed: "run h selected st = (x, st') \<Longrightarrow> processed st' = processed st"
  by (auto simp: run_def split: option.splits prod.splits ret.splits)

lemma by_index_iff:
  assumes "distinct indexes" "length applied = length indexes"
  shows "map_of (rev (zip indexes applied)) i = Some r \<longleftrightarrow> (i, r) \<in> set (zip indexes applied)"
  using assms by (subst map_of_eq_Some_iff) (simp_all add: rev_map [symmetric] del: rev_map)

lemma released_keys:
  "set (released (Some (map g indexes)) applied)
     = {g i | i r. (i, r) \<in> set (zip indexes applied) \<and> \<not> acked r}"
  by (force simp: released_def zip_map1)

lemma unclaim_processed:
  assumes "unclaim_keys h ks st = (None, st')" "\<forall>k \<in> set ks. canon h k = k"
  shows "processed st' = processed st - set ks"
  using assms by (auto simp: unclaim_keys_def Let_def split: if_splits prod.splits option.splits)

section \<open>What a committed attempt guarantees\<close>

text \<open>
  \<open>commits\<close>: no stored key is lost, an acknowledged message's key is stored (or a
  message with the same key is left to be delivered again), and the key of a message that is
  not acknowledged is not stored.
\<close>

definition commits ::
  "('m \<Rightarrow> string) \<Rightarrow> 'm list \<Rightarrow> nat list \<Rightarrow> string set \<Rightarrow> string set \<Rightarrow> (nat \<rightharpoonup> result) \<Rightarrow> bool" where
  "commits key msgs ixs p p' outcome \<longleftrightarrow>
     p \<subseteq> p' \<and> p' \<subseteq> p \<union> (\<lambda>i. key (msgs ! i)) ` set ixs \<and>
     (\<forall>i \<in> set ixs. acked (recorded outcome i) \<longrightarrow>
        key (msgs ! i) \<in> p' \<or>
        (\<exists>j \<in> set ixs. key (msgs ! j) = key (msgs ! i) \<and> \<not> acked (recorded outcome j))) \<and>
     (\<forall>i \<in> set ixs. \<not> acked (recorded outcome i) \<longrightarrow> key (msgs ! i) \<notin> p')"

lemma recorded_empty [simp]: "recorded Map.empty i = Ack"
  by (simp add: recorded_def)

lemma commits_verdicts:
  assumes v: "verdicts h indexes (Some (map (\<lambda>i. key_of h (msgs ! i)) indexes)) applied st
      = (Inr outcome, st')"
    and len: "length applied = length indexes" and "distinct indexes"
    and sel: "set indexes \<subseteq> set ixs" "inj_on (\<lambda>i. key_of h (msgs ! i)) (set indexes)"
    and new: "\<forall>i \<in> set indexes. key_of h (msgs ! i) \<notin> p"
    and proc: "processed st = p \<union> (\<lambda>i. key_of h (msgs ! i)) ` set ixs"
    and canon: "canonical_keys h msgs" and bound: "\<forall>i \<in> set ixs. i < length msgs"
  shows "commits (key_of h) msgs ixs p (processed st') outcome"
proof -
  let ?key = "\<lambda>i. key_of h (msgs ! i)"
  have outcome: "outcome = map_of (rev (zip indexes applied))"
    and u: "unclaim_keys h (released (Some (map ?key indexes)) applied) st = (None, st')"
    using v by (auto simp: verdicts_def Let_def split: prod.splits option.splits)
  define R where "R = {?key i | i r. (i, r) \<in> set (zip indexes applied) \<and> \<not> acked r}"
  have R: "set (released (Some (map ?key indexes)) applied) = R"
    by (simp add: released_keys R_def)
  have "R \<subseteq> ?key ` set indexes" by (auto simp: R_def dest: set_zip_leftD)
  then have canonR: "\<forall>k \<in> R. canon h k = k"
    using canon bound sel(1) by (fastforce simp: canonical_keys_def)
  have p': "processed st' = p \<union> ?key ` set ixs - R"
    using unclaim_processed [OF u] canonR by (simp add: R proc)
  have iff: "outcome i = Some r \<longleftrightarrow> (i, r) \<in> set (zip indexes applied)" for i r
    using by_index_iff [OF \<open>distinct indexes\<close> len] outcome by simp
  have unacked: "\<not> acked (recorded outcome i) \<longleftrightarrow>
      (\<exists>r. (i, r) \<in> set (zip indexes applied) \<and> \<not> acked r)" for i
    by (auto simp: recorded_def iff split: option.splits)
       (metis iff option.distinct(1) option.inject)+
  have inR: "?key i \<in> R \<Longrightarrow> \<exists>j \<in> set indexes. ?key j = ?key i \<and> \<not> acked (recorded outcome j)" for i
    unfolding R_def using unacked by (fastforce dest: set_zip_leftD)
  have "\<not> acked (recorded outcome i) \<Longrightarrow> ?key i \<in> R" for i
    using unacked by (auto simp: R_def)
  moreover have \<open>p \<inter> R = {}\<close> using \<open>R \<subseteq> ?key ` set indexes\<close> new by auto
  moreover have "\<exists>j \<in> set ixs. ?key j = ?key i \<and> \<not> acked (recorded outcome j)"
    if "?key i \<in> R" for i
    using inR [OF that] sel(1) by blast
  moreover have "p \<union> ?key ` set ixs - R \<subseteq> p \<union> ?key ` set ixs" by blast
  ultimately have "(\<forall>i \<in> set ixs. acked (recorded outcome i) \<longrightarrow> ?key i \<in> p \<union> ?key ` set ixs - R \<or>
        (\<exists>j \<in> set ixs. ?key j = ?key i \<and> \<not> acked (recorded outcome j)))"
    and "\<forall>i \<in> set ixs. \<not> acked (recorded outcome i) \<longrightarrow> ?key i \<notin> p \<union> ?key ` set ixs - R"
    by (metis Diff_iff UnCI image_eqI, metis Diff_iff)
  with \<open>p \<inter> R = {}\<close> show ?thesis
    unfolding commits_def p' by (intro conjI) (assumption | blast)+
qed

lemma body_commits:
  assumes b: "attempt_body h msgs ixs (loc, st) = (((outcome, fr), st'), None)"
    and "\<not> no_dedup h" and canon: "canonical_keys h msgs" and "distinct ixs"
    and bound: "\<forall>i \<in> set ixs. i < length msgs"
  shows "commits (key_of h) msgs ixs (processed st) (processed st') outcome"
proof -
  let ?key = "\<lambda>i. key_of h (msgs ! i)"
  obtain indexes keys st1 where f: "fresh h msgs ixs st = (Inr (indexes, keys), st1)"
    using b by (auto simp: attempt_body_def split: prod.splits sum.splits)
  note kept = fresh_kept [OF f assms(2) canon bound]
  have dist: "distinct indexes" "set indexes \<subseteq> set ixs" "inj_on ?key (set indexes)"
  proof -
    let ?sel = "select_first (key_of h) msgs {} ixs"
    show "distinct indexes" "set indexes \<subseteq> set ixs"
      using select_first_distinct [OF \<open>distinct ixs\<close>, of "key_of h" msgs "{}"]
        select_first_subset [of "key_of h" msgs "{}" ixs] kept(1) by auto
    have "map snd ?sel = map ?key (map fst ?sel)"
      by (subst select_first_pairs) simp
    then have "distinct (map ?key (map fst ?sel))"
      using select_first_distinct_keys [of "key_of h" msgs "{}" ixs] by metis
    then have "inj_on ?key (set (map fst ?sel))" by (auto simp: distinct_map intro: inj_on_imageI)
    then show "inj_on ?key (set indexes)"
      by (rule inj_on_subset) (auto simp: kept(1))
  qed
  have silent: "commits (key_of h) msgs ixs (processed st) (processed st1) Map.empty"
    using kept(3) by (auto simp: commits_def)
  show ?thesis
  proof (cases "indexes = [] \<or> apply_results h = None")
    case True
    then have "outcome = Map.empty" "processed st' = processed st1"
      using b f by (auto simp: attempt_body_def Let_def split: prod.splits sum.splits if_splits
          dest: run_processed)
    with silent show ?thesis by simp
  next
    case False
    then obtain applied st2 where r: "run h (map (\<lambda>i. msgs ! i) indexes) st1 = (Inr applied, st2)"
      and v: "verdicts h indexes keys applied st2 = (Inr outcome, st')"
      and len: "length applied = length indexes"
      using b f by (auto simp: attempt_body_def Let_def split: prod.splits sum.splits if_splits)
    show ?thesis
    proof (rule commits_verdicts [OF v [unfolded kept(2)] len dist(1,2,3) _ _ canon bound])
      show "\<forall>i\<in>set indexes. ?key i \<notin> processed st" by (auto simp: kept(1))
      show "processed st2 = processed st \<union> ?key ` set ixs"
        using run_processed [OF r] kept(3) by simp
    qed
  qed
qed

lemma attempt_commits:
  assumes "tx_atomic h" "\<not> no_dedup h" "canonical_keys h msgs" "distinct ixs"
    and "\<forall>i \<in> set ixs. i < length msgs"
    and a: "attempt h msgs ixs (st, evs) = (Inr outcome, st', evs')"
  shows "commits (key_of h) msgs ixs (processed st) (processed st') outcome"
proof -
  obtain fr where t: "tx_do h (attempt_body h msgs ixs) ((Map.empty, 0), st)
      = (((outcome, fr), st'), None)"
    using a by (auto simp: attempt_def Let_def split: prod.splits option.splits)
  then obtain loc0 st0 where "same_db st0 st"
    "attempt_body h msgs ixs (loc0, st0) = (((outcome, fr), st'), None)"
    using tx_atomic_commit [OF \<open>tx_atomic h\<close>] by metis
  then show ?thesis
    using body_commits [of h msgs ixs loc0 st0 outcome fr st'] assms by (simp add: same_db_def)
qed

lemma attempt_rolls_back:
  assumes "tx_atomic h" and a: "attempt h msgs ixs (st, evs) = (Inl e, st', evs')"
  shows "same_db st' st"
proof -
  obtain x where "tx_do h (attempt_body h msgs ixs) ((Map.empty, 0), st) = ((x, st'), Some e)"
    using a by (auto simp: attempt_def Let_def split: prod.splits option.splits)
  then show ?thesis by (rule tx_atomic_rollback(1) [OF \<open>tx_atomic h\<close>])
qed

lemma attempt_events:
  "attempt h msgs ixs (st, evs) = (x, st', evs')
     \<Longrightarrow> \<exists>fr err. evs' = evs @ [OnApply (length ixs) fr err]"
  by (auto simp: attempt_def Let_def split: prod.splits)

end
