(* ===== verification/Batch_Bisect.thy ===== *)
theory Batch_Bisect
  imports Batch_Tx
begin

text \<open>
  The bisection of a failing batch without an order key (\<^verbatim>\<open>bisect.go\<close>): its
  definition as a partial function (the Go loop and recursion carry no bound of their own), the
  big-step relation \<open>bisects\<close> of its runs, its termination, and the locale of the
  invariants every attempt keeps.
\<close>

section \<open>The recursion\<close>

text \<open>What the recursion mutates: the results, the shared retry budget, database and observer.\<close>

record ('d, 'e) work =
  results :: "result list"
  budget :: nat
  dbs :: "('d, 'e) tx_state"
  trace :: "tx_event list"

abbreviation after_attempt ::
  "('d, 'e) work \<Rightarrow> ('d, 'e) tx_state \<Rightarrow> tx_event list \<Rightarrow> ('d, 'e) work" where
  "after_attempt w st evs \<equiv> w\<lparr>dbs := st, trace := evs\<rparr>"

partial_function (option) bisect ::
  "('m, 'd, 'e) in_tx \<Rightarrow> 'm list \<Rightarrow> nat list \<Rightarrow> ('d, 'e) work \<Rightarrow> ('d, 'e) work option" where
  "bisect h msgs ixs w =
     (case attempt h msgs ixs (dbs w, trace w) of (x, st, evs) \<Rightarrow>
      let w1 = after_attempt w st evs in
      case x of
        Inr outcome \<Rightarrow> Some (w1\<lparr>results := record_outcome ixs outcome (results w)\<rparr>)
      | Inl err \<Rightarrow>
          if transient h err then
            if 0 < budget w then bisect h msgs ixs (w1\<lparr>budget := budget w - 1\<rparr>)
            else Some (w1\<lparr>results := put_all (\<lambda>_. transient_result h err) ixs (results w)\<rparr>)
          else if length ixs = 1 then Some (w1\<lparr>results := (results w)[hd ixs := Nak err]\<rparr>)
          else
            let w2 = w1\<lparr>trace := evs @ [OnBisect (length ixs) 1 err]\<rparr>;
                middle = length ixs div 2
            in Option.bind (bisect h msgs (take middle ixs) w2)
                 (\<lambda>w3. bisect h msgs (drop middle ixs) w3))"

declare bisect.simps [code]

text \<open>The runs of the recursion that return.\<close>

inductive bisects ::
  "('m, 'd, 'e) in_tx \<Rightarrow> 'm list \<Rightarrow> nat list \<Rightarrow> ('d, 'e) work \<Rightarrow> ('d, 'e) work \<Rightarrow> bool"
  for h :: "('m, 'd, 'e) in_tx" and msgs :: "'m list" where
  commit: "attempt h msgs ixs (dbs w, trace w) = (Inr outcome, st, evs) \<Longrightarrow>
    bisects h msgs ixs w
      ((after_attempt w st evs)\<lparr>results := record_outcome ixs outcome (results w)\<rparr>)"
| retry: "attempt h msgs ixs (dbs w, trace w) = (Inl err, st, evs) \<Longrightarrow>
    transient h err \<Longrightarrow> 0 < budget w \<Longrightarrow>
    bisects h msgs ixs ((after_attempt w st evs)\<lparr>budget := budget w - 1\<rparr>) w' \<Longrightarrow>
    bisects h msgs ixs w w'"
| exhausted: "attempt h msgs ixs (dbs w, trace w) = (Inl err, st, evs) \<Longrightarrow>
    transient h err \<Longrightarrow> budget w = 0 \<Longrightarrow>
    bisects h msgs ixs w ((after_attempt w st evs)
      \<lparr>results := put_all (\<lambda>_. transient_result h err) ixs (results w)\<rparr>)"
| single: "attempt h msgs [i] (dbs w, trace w) = (Inl err, st, evs) \<Longrightarrow>
    \<not> transient h err \<Longrightarrow>
    bisects h msgs [i] w ((after_attempt w st evs)\<lparr>results := (results w)[i := Nak err]\<rparr>)"
| split: "attempt h msgs ixs (dbs w, trace w) = (Inl err, st, evs) \<Longrightarrow>
    \<not> transient h err \<Longrightarrow> length ixs \<noteq> 1 \<Longrightarrow>
    bisects h msgs (take (length ixs div 2) ixs)
      (after_attempt w st (evs @ [OnBisect (length ixs) 1 err])) w1 \<Longrightarrow>
    bisects h msgs (drop (length ixs div 2) ixs) w1 w' \<Longrightarrow>
    bisects h msgs ixs w w'"

section \<open>Termination\<close>

text \<open>
  From a non-empty subset the recursion returns: a retry spends one unit of the shared budget, a
  split recurses on two non-empty, shorter halves. (On an empty subset whose attempt keeps failing
  the Go code would recurse forever; \<open>handle\<close> never makes that call.)
\<close>

lemma bisect_runs:
  "ixs \<noteq> [] \<Longrightarrow> \<exists>w'. bisect h msgs ixs w = Some w' \<and> bisects h msgs ixs w w'"
proof (induction "length ixs" arbitrary: ixs w rule: less_induct)
  case less
  note shorter = less.hyps
  from less.prems show ?case
  proof (induction "budget w" arbitrary: w rule: less_induct)
    case less
    obtain x st evs where a: "attempt h msgs ixs (dbs w, trace w) = (x, st, evs)"
      by (cases "attempt h msgs ixs (dbs w, trace w)")
    show ?case
    proof (cases x)
      case (Inr outcome)
      then show ?thesis using a bisects.commit [of h msgs ixs w outcome st evs]
        by (simp add: bisect.simps [of h msgs ixs w])
    next
      case (Inl err)
      consider (again) "transient h err" "0 < budget w" | (out) "transient h err" "budget w = 0"
        | (one) i where "\<not> transient h err" "ixs = [i]"
        | (many) "\<not> transient h err" "2 \<le> length ixs"
        using \<open>ixs \<noteq> []\<close> by (cases ixs) (force simp: Suc_le_eq)+
      then show ?thesis
      proof cases
        case again
        define w1 where "w1 = (after_attempt w st evs)\<lparr>budget := budget w - 1\<rparr>"
        have "budget w1 < budget w" using again by (simp add: w1_def)
        from less.hyps [OF this \<open>ixs \<noteq> []\<close>]
        obtain w' where "bisect h msgs ixs w1 = Some w'" "bisects h msgs ixs w1 w'" by blast
        then show ?thesis
          using a Inl again bisects.retry [of h msgs ixs w err st evs w']
          by (simp add: bisect.simps [of h msgs ixs w] w1_def)
      next
        case out
        then show ?thesis using a Inl bisects.exhausted [of h msgs ixs w err st evs]
          by (simp add: bisect.simps [of h msgs ixs w])
      next
        case one
        then show ?thesis using a Inl bisects.single [of h msgs i w err st evs]
          by (simp add: bisect.simps [of h msgs "[i]" w])
      next
        case many
        define w2 where "w2 = after_attempt w st (evs @ [OnBisect (length ixs) 1 err])"
        obtain w3 where "bisect h msgs (take (length ixs div 2) ixs) w2 = Some w3"
          "bisects h msgs (take (length ixs div 2) ixs) w2 w3"
          using shorter [OF middle_bounds(3,1) [OF many(2)]] by blast
        moreover obtain w' where "bisect h msgs (drop (length ixs div 2) ixs) w3 = Some w'"
          "bisects h msgs (drop (length ixs div 2) ixs) w3 w'"
          using shorter [OF middle_bounds(4,2) [OF many(2)]] by blast
        ultimately show ?thesis
          using a Inl many bisects.split [of h msgs ixs w err st evs w3 w']
          by (simp add: bisect.simps [of h msgs ixs w] w2_def)
      qed
    qed
  qed
qed

section \<open>Invariants of the attempts\<close>

text \<open>
  Messages still to be settled: a call is made on distinct indexes without a final result yet.
\<close>

definition pending ::
  "(nat set \<Rightarrow> result list \<Rightarrow> ('d, 'e) tx_state \<Rightarrow> bool) \<Rightarrow> 'm list \<Rightarrow> nat set \<Rightarrow> nat list
     \<Rightarrow> ('d, 'e) work \<Rightarrow> bool" where
  "pending Inv msgs D ixs w \<longleftrightarrow> Inv D (results w) (dbs w) \<and> distinct ixs \<and> set ixs \<inter> D = {} \<and>
     set ixs \<subseteq> {..<length msgs} \<and> length (results w) = length msgs"

text \<open>The call has settled them, and touched no other result.\<close>

definition settled ::
  "(nat set \<Rightarrow> result list \<Rightarrow> ('d, 'e) tx_state \<Rightarrow> bool) \<Rightarrow> 'm list \<Rightarrow> nat set \<Rightarrow> nat set
     \<Rightarrow> ('d, 'e) work \<Rightarrow> ('d, 'e) work \<Rightarrow> bool" where
  "settled Inv msgs D A w w' \<longleftrightarrow> Inv (D \<union> A) (results w') (dbs w') \<and>
     length (results w') = length msgs \<and> (\<forall>i. i \<notin> A \<longrightarrow> results w' ! i = results w ! i)"

lemma not_acked_block [simp]: "\<not> acked (NakDelay d e)" "\<not> acked (transient_result h e)"
  by (simp_all add: transient_result_def)

lemma pending_set:
  "pending Inv msgs D ixs w \<Longrightarrow> set ixs' = set ixs \<Longrightarrow> distinct ixs' \<Longrightarrow> pending Inv msgs D ixs' w"
  by (simp add: pending_def)

text \<open>A run on a part, then on the rest.\<close>

lemma pending_part:
  assumes "pending Inv msgs D (xs @ ys) w"
  shows "pending Inv msgs D xs w"
  using assms by (auto simp: pending_def)

lemma settled_then:
  assumes "pending Inv msgs D (xs @ ys) w" "settled Inv msgs D (set xs) w w1"
  shows "pending Inv msgs (D \<union> set xs) ys w1"
    and "settled Inv msgs (D \<union> set xs) (set ys) w1 w' \<Longrightarrow> settled Inv msgs D (set (xs @ ys)) w w'"
  using assms by (auto simp: pending_def settled_def Un_assoc)

lemma settled_agree:
  assumes "pending Inv msgs D (xs @ ys) w" "settled Inv msgs D (set xs) w w1" "i \<in> D"
  shows "results w1 ! i = results w ! i"
  using assms unfolding pending_def settled_def by (metis IntI Un_iff empty_iff set_append)

text \<open>
  The interface between one attempt and the recursions over it. \<open>Inv D rs st\<close> speaks
  of the indexes \<open>D\<close> that have their final result; a failed attempt keeps it, a committed
  one extends it by its subset, and so does giving a subset results that do not acknowledge.
\<close>

locale attempt_invariant =
  fixes h :: "('m, 'd, 'e) in_tx" and msgs :: "'m list"
    and Inv :: "nat set \<Rightarrow> result list \<Rightarrow> ('d, 'e) tx_state \<Rightarrow> bool"
  assumes attempt_fails: "Inv D rs st \<Longrightarrow> attempt h msgs ixs (st, evs) = (Inl err, st', evs') \<Longrightarrow>
      Inv D rs st'"
    and attempt_succeeds: "Inv D rs st \<Longrightarrow> attempt h msgs ixs (st, evs) = (Inr outcome, st', evs') \<Longrightarrow>
      distinct ixs \<Longrightarrow> set ixs \<inter> D = {} \<Longrightarrow> set ixs \<subseteq> {..<length msgs} \<Longrightarrow>
      length rs = length msgs \<Longrightarrow>
      Inv (D \<union> set ixs) (record_outcome ixs outcome rs) st'"
    and refuse: "Inv D rs st \<Longrightarrow> set ixs \<inter> D = {} \<Longrightarrow> set ixs \<subseteq> {..<length msgs} \<Longrightarrow>
      length rs = length msgs \<Longrightarrow> \<not> acked r \<Longrightarrow>
      Inv (D \<union> set ixs) (put_all (\<lambda>_. r) ixs rs) st"
begin

lemma commit_settles:
  "pending Inv msgs D ixs w \<Longrightarrow> attempt h msgs ixs (dbs w, trace w) = (Inr outcome, st, evs) \<Longrightarrow>
     settled Inv msgs D (set ixs) w
       ((after_attempt w st evs)\<lparr>results := record_outcome ixs outcome (results w)\<rparr>)"
  using attempt_succeeds
  by (auto simp: pending_def settled_def record_outcome_def nth_put_all_out)

lemma failure_pending:
  "pending Inv msgs D ixs w \<Longrightarrow> attempt h msgs ixs' (dbs w, trace w) = (Inl err, st, evs) \<Longrightarrow>
     pending Inv msgs D ixs (after_attempt w st evs')"
  using attempt_fails by (auto simp: pending_def)

lemma refuse_settles:
  "pending Inv msgs D ixs w \<Longrightarrow> \<not> acked r \<Longrightarrow>
     settled Inv msgs D (set ixs) w (w\<lparr>results := put_all (\<lambda>_. r) ixs (results w)\<rparr>)"
  using refuse by (auto simp: pending_def settled_def nth_put_all_out)

lemma pending_w:
  "pending Inv msgs D ixs (w\<lparr>budget := n\<rparr>) \<longleftrightarrow> pending Inv msgs D ixs w"
  "pending Inv msgs D ixs (w\<lparr>trace := t\<rparr>) \<longleftrightarrow> pending Inv msgs D ixs w"
  "settled Inv msgs D A (w\<lparr>budget := n\<rparr>) w' \<longleftrightarrow> settled Inv msgs D A w w'"
  "settled Inv msgs D A (w\<lparr>trace := t\<rparr>) w' \<longleftrightarrow> settled Inv msgs D A w w'"
  "settled Inv msgs D A (w\<lparr>dbs := s\<rparr>) w' \<longleftrightarrow> settled Inv msgs D A w w'"
  by (simp_all add: pending_def settled_def)

text \<open>A run of the bisection settles its subset, and nothing else.\<close>

lemma bisects_settle:
  assumes "bisects h msgs ixs w w'" "pending Inv msgs D ixs w"
  shows "settled Inv msgs D (set ixs) w w'"
  using assms
proof (induction arbitrary: D rule: bisects.induct)
  case (commit ixs w outcome st evs)
  then show ?case using commit_settles by simp
next
  case (retry ixs w err st evs w')
  then show ?case using failure_pending [OF retry.prems retry.hyps(1), of evs] by (simp add: pending_w)
next
  case (exhausted ixs w err st evs)
  then show ?case
    using refuse_settles [OF failure_pending [OF exhausted.prems exhausted.hyps(1)], of "transient_result h err" evs]
    by (simp add: pending_w)
next
  case (single i w err st evs)
  then show ?case
    using refuse_settles [OF failure_pending [OF single.prems single.hyps(1)], of "Nak err" evs]
    by (simp add: pending_w)
next
  case (split ixs w err st evs w1 w')
  let ?l = "take (length ixs div 2) ixs" and ?r = "drop (length ixs div 2) ixs"
  have p: "pending Inv msgs D (?l @ ?r) w" using split.prems by simp
  have s: "settled Inv msgs D (set ?l) w w1"
    using split.IH(1) [of D] failure_pending [OF pending_part [OF p] split.hyps(1)] by (simp add: pending_w)
  show ?case
    using settled_then(2) [OF p s split.IH(2) [OF settled_then(1) [OF p s]]] by simp
qed

end

lemma record_outcome_nth:
  "length rs = n \<Longrightarrow> i < n \<Longrightarrow>
     record_outcome ixs outcome rs ! i = (if i \<in> set ixs then recorded outcome i else rs ! i)"
  by (simp add: record_outcome_def nth_put_all)

text \<open>
  Dedup bookkeeping: no key that was stored before is lost, every key stored since belongs to an
  acknowledged message, and an acknowledged message's key is stored unless a message with the same
  key is to be delivered again.
\<close>

definition claims_ok ::
  "('m \<Rightarrow> string) \<Rightarrow> 'm list \<Rightarrow> string set \<Rightarrow> nat set \<Rightarrow> result list \<Rightarrow> string set \<Rightarrow> bool" where
  "claims_ok key msgs p0 D rs p \<longleftrightarrow>
     p0 \<subseteq> p \<and>
     (\<forall>k \<in> p - p0. \<exists>i \<in> D. key (msgs ! i) = k \<and> acked (rs ! i)) \<and>
     (\<forall>i \<in> D. acked (rs ! i) \<longrightarrow> key (msgs ! i) \<in> p \<or>
        (\<exists>j \<in> D. key (msgs ! j) = key (msgs ! i) \<and> \<not> acked (rs ! j)))"

definition dedup_setting :: "('m, 'd, 'e) in_tx \<Rightarrow> 'm list \<Rightarrow> bool" where
  "dedup_setting h msgs \<longleftrightarrow> tx_atomic h \<and> \<not> no_dedup h \<and> canonical_keys h msgs"

definition dedup_inv ::
  "('m, 'd, 'e) in_tx \<Rightarrow> 'm list \<Rightarrow> string set \<Rightarrow> nat set \<Rightarrow> result list
     \<Rightarrow> ('d, 'e) tx_state \<Rightarrow> bool" where
  "dedup_inv h msgs p0 D rs st \<longleftrightarrow> D \<subseteq> {..<length msgs} \<and>
     (dedup_setting h msgs \<longrightarrow> claims_ok (key_of h) msgs p0 D rs (processed st))"

lemma claims_ok_commit:
  assumes c: "claims_ok key msgs p0 D rs p" and m: "commits key msgs ixs p p' outcome"
    and old: "\<And>i. i \<in> D \<Longrightarrow> rs' ! i = rs ! i" and new: "\<And>i. i \<in> set ixs \<Longrightarrow> rs' ! i = recorded outcome i"
  shows "claims_ok key msgs p0 (D \<union> set ixs) rs' p'"
proof -
  have "p0 \<subseteq> p'" using c m by (auto simp: claims_ok_def commits_def)
  moreover have "\<exists>i \<in> D \<union> set ixs. key (msgs ! i) = k \<and> acked (rs' ! i)" if "k \<in> p' - p0" for k
  proof (cases "k \<in> p")
    case True
    then have "k \<in> p - p0" using that by simp
    then obtain i where "i \<in> D" "key (msgs ! i) = k" "acked (rs ! i)"
      using c unfolding claims_ok_def by blast
    then show ?thesis using old by (intro bexI [of _ i]) auto
  next
    case False
    then have "k \<in> (\<lambda>i. key (msgs ! i)) ` set ixs" using m that unfolding commits_def by blast
    then obtain i where "i \<in> set ixs" "key (msgs ! i) = k" by auto
    then show ?thesis using m that new by (intro bexI [of _ i]) (auto simp: commits_def)
  qed
  moreover have "key (msgs ! i) \<in> p' \<or>
      (\<exists>j \<in> D \<union> set ixs. key (msgs ! j) = key (msgs ! i) \<and> \<not> acked (rs' ! j))"
    if "i \<in> D \<union> set ixs" "acked (rs' ! i)" for i
  proof (cases "i \<in> set ixs")
    case True
    then have "key (msgs ! i) \<in> p' \<or>
        (\<exists>j \<in> set ixs. key (msgs ! j) = key (msgs ! i) \<and> \<not> acked (recorded outcome j))"
      using m that(2) new unfolding commits_def by metis
    then show ?thesis using new by (metis UnCI)
  next
    case False
    then have "i \<in> D" using that by simp
    then have "key (msgs ! i) \<in> p \<or>
        (\<exists>j \<in> D. key (msgs ! j) = key (msgs ! i) \<and> \<not> acked (rs ! j))"
      using c that(2) old unfolding claims_ok_def by metis
    then show ?thesis using m old unfolding commits_def by (metis UnCI subsetD)
  qed
  ultimately show ?thesis unfolding claims_ok_def by blast
qed

lemma claims_ok_refuse:
  assumes "claims_ok key msgs p0 D rs p"
    and "\<And>i. i \<in> D \<Longrightarrow> rs' ! i = rs ! i" and "\<And>i. i \<in> A \<Longrightarrow> \<not> acked (rs' ! i)"
  shows "claims_ok key msgs p0 (D \<union> A) rs' p"
  using assms unfolding claims_ok_def by (metis UnCI UnE)

interpretation dedup: attempt_invariant h msgs "dedup_inv h msgs p0"
proof
  fix D rs st ixs evs err st' evs'
  assume "dedup_inv h msgs p0 D rs st" "attempt h msgs ixs (st, evs) = (Inl err, st', evs')"
  then show "dedup_inv h msgs p0 D rs st'"
    using attempt_rolls_back [of h msgs ixs st evs err st' evs']
    by (auto simp: dedup_inv_def dedup_setting_def same_db_def)
next
  fix D rs st ixs evs outcome st' evs'
  assume inv: "dedup_inv h msgs p0 D rs st"
    and a: "attempt h msgs ixs (st, evs) = (Inr outcome, st', evs')"
    and d: "distinct ixs" "set ixs \<inter> D = {}" "set ixs \<subseteq> {..<length msgs}" "length rs = length msgs"
  show "dedup_inv h msgs p0 (D \<union> set ixs) (record_outcome ixs outcome rs) st'"
    unfolding dedup_inv_def
  proof (intro conjI impI)
    show "D \<union> set ixs \<subseteq> {..<length msgs}" using inv d by (simp add: dedup_inv_def)
    assume s: "dedup_setting h msgs"
    then have "commits (key_of h) msgs ixs (processed st) (processed st') outcome"
      using attempt_commits [OF _ _ _ d(1) _ a] d by (auto simp: dedup_setting_def)
    then show "claims_ok (key_of h) msgs p0 (D \<union> set ixs) (record_outcome ixs outcome rs) (processed st')"
      using inv s d by (intro claims_ok_commit [of _ _ _ D rs "processed st"])
        (auto simp: dedup_inv_def record_outcome_nth subset_iff disjoint_iff)
  qed
next
  fix D rs st ixs r
  assume "dedup_inv h msgs p0 D rs st" "set ixs \<inter> D = {}" "set ixs \<subseteq> {..<length msgs}"
    "length rs = length msgs" "\<not> acked r"
  then show "dedup_inv h msgs p0 (D \<union> set ixs) (put_all (\<lambda>_. r) ixs rs) st"
    unfolding dedup_inv_def
    by (auto intro!: claims_ok_refuse simp: nth_put_all nth_put_all_out subset_iff disjoint_iff)
qed

end
