(* ===== verification/Batch_Groups.thy ===== *)
theory Batch_Groups
  imports Batch_Types
begin

text \<open>
  Grouping a batch by a key (\<^verbatim>\<open>order_groups.go\<close>,
  \<^verbatim>\<open>group_by_key.go\<close>, \<^verbatim>\<open>coalesce_by_key.go\<close>): the two loops
  of the source, the contract both meet (locale \<open>grouping\<close>), and what the contract
  gives their callers.
\<close>

section \<open>The loops\<close>

text \<open>
  \<^verbatim>\<open>groupsOf\<close>: \<open>positions\<close> maps a key to the place of its group.
\<close>

fun groups_loop ::
  "('m \<Rightarrow> string) \<Rightarrow> 'm list \<Rightarrow> nat list \<Rightarrow> (string \<rightharpoonup> nat) \<Rightarrow> nat list list \<Rightarrow> nat list list" where
  "groups_loop okey msgs [] positions groups = groups"
| "groups_loop okey msgs (index # rest) positions groups =
     (let key = okey (msgs ! index) in
      case positions key of
        None \<Rightarrow> groups_loop okey msgs rest (positions(key \<mapsto> length groups)) (groups @ [[index]])
      | Some position \<Rightarrow> groups_loop okey msgs rest positions
          (groups[position := groups ! position @ [index]]))"

definition groups_of :: "'m list \<Rightarrow> nat list \<Rightarrow> ('m \<Rightarrow> string) \<Rightarrow> nat list list" where
  "groups_of msgs ixs okey = groups_loop okey msgs ixs Map.empty []"

text \<open>\<^verbatim>\<open>groupIndexed\<close>: the groups with their messages, and their indexes.\<close>

record 'm group =
  Key :: string
  Msgs :: "'m list"

fun index_loop ::
  "('m \<Rightarrow> string) \<Rightarrow> nat \<Rightarrow> 'm list \<Rightarrow> (string \<rightharpoonup> nat) \<Rightarrow> 'm group list \<Rightarrow> nat list list
     \<Rightarrow> 'm group list \<times> nat list list" where
  "index_loop key i [] positions groups indexes = (groups, indexes)"
| "index_loop key i (msg # rest) positions groups indexes =
     (let k = key msg;
          (position, positions', groups', indexes') =
            (case positions k of
               None \<Rightarrow> (length groups, positions(k \<mapsto> length groups),
                 groups @ [\<lparr>Key = k, Msgs = []\<rparr>], indexes @ [[]])
             | Some position \<Rightarrow> (position, positions, groups, indexes))
      in index_loop key (Suc i) rest positions'
           (groups'[position := (groups' ! position)\<lparr>Msgs := Msgs (groups' ! position) @ [msg]\<rparr>])
           (indexes'[position := indexes' ! position @ [i]]))"

definition group_indexed :: "'m list \<Rightarrow> ('m \<Rightarrow> string) \<Rightarrow> 'm group list \<times> nat list list" where
  "group_indexed msgs key = index_loop key 0 msgs Map.empty [] []"

definition group_by_key :: "'m list \<Rightarrow> ('m \<Rightarrow> string) \<Rightarrow> 'm group list" where
  "group_by_key msgs key = fst (group_indexed msgs key)"

text \<open>
  \<^verbatim>\<open>CoalesceByKey\<close>: one result per group, given to every member;
  a group the callback returned no result for is a failure of its members.
\<close>

fun spread :: "nat \<Rightarrow> nat list list \<Rightarrow> result list \<Rightarrow> result list \<Rightarrow> result list" where
  "spread position [] group_results results = results"
| "spread position (members # rest) group_results results =
     (let group_result =
            (if position < length group_results then group_results ! position
             else Nak (Sent ErrMissingResult))
      in spread (Suc position) rest group_results (put_all (\<lambda>_. group_result) members results))"

definition coalesce_by_key ::
  "('m \<Rightarrow> string) \<Rightarrow> ('m group list \<Rightarrow> result list) \<Rightarrow> 'm list \<Rightarrow> result list" where
  "coalesce_by_key key apply_groups msgs =
     (let results = replicate (length msgs) zero_result in
      if msgs = [] then results
      else let (groups, indexes) = group_indexed msgs key
           in spread 0 indexes (apply_groups groups) results)"

text \<open>\<^verbatim>\<open>flattenGroups\<close> and \<^verbatim>\<open>withoutIndexes\<close>.\<close>

definition flatten_groups :: "nat list list \<Rightarrow> nat list" where
  "flatten_groups groups = sort (concat groups)"

definition without_indexes :: "nat list list \<Rightarrow> nat list \<Rightarrow> nat list list" where
  "without_indexes groups removed =
     filter (\<lambda>rest. rest \<noteq> []) (map (filter (\<lambda>index. index \<notin> set removed)) groups)"

section \<open>The contract of a grouping\<close>

text \<open>
  A grouping of the indexes \<open>ixs\<close>: a group is all the indexes of one key, in their
  order; every index is in one; no group comes twice.
\<close>

locale grouping =
  fixes key :: "'m \<Rightarrow> string" and msgs :: "'m list" and ixs :: "nat list"
    and groups :: "nat list list"
  assumes is_group: "g \<in> set groups \<Longrightarrow> g \<noteq> [] \<and> (\<exists>k. g = filter (\<lambda>i. key (msgs ! i) = k) ixs)"
    and covered: "i \<in> set ixs \<Longrightarrow> \<exists>g \<in> set groups. i \<in> set g"
    and distinct_groups: "distinct groups"
begin

lemma same_key: "g \<in> set groups \<Longrightarrow> i \<in> set g \<Longrightarrow> j \<in> set g \<Longrightarrow> key (msgs ! i) = key (msgs ! j)"
  using is_group [of g] by auto

lemma members: "g \<in> set groups \<Longrightarrow> i \<in> set g \<Longrightarrow>
    set g = {j \<in> set ixs. key (msgs ! j) = key (msgs ! i)}"
  using is_group [of g] by auto

lemma all_members: "set (concat groups) = set ixs"
  using covered is_group by fastforce

lemma group_sorted: "sorted ixs \<Longrightarrow> g \<in> set groups \<Longrightarrow> sorted g"
  using is_group [of g] by (auto intro: sorted_wrt_filter)

lemma closed: "g \<in> set groups \<Longrightarrow> i \<in> set g \<Longrightarrow> j \<in> set ixs \<Longrightarrow>
    key (msgs ! j) = key (msgs ! i) \<Longrightarrow> j \<in> set g"
  using members [of g i] by simp

lemma disjoint_groups: "g \<in> set groups \<Longrightarrow> g' \<in> set groups \<Longrightarrow> g \<noteq> g' \<Longrightarrow> set g \<inter> set g' = {}"
  using is_group [of g] is_group [of g'] by auto

lemma distinct_members: "distinct ixs \<Longrightarrow> distinct (concat groups)"
  using distinct_groups disjoint_groups
  by (intro distinct_concat) (auto dest!: is_group)

end

section \<open>Both loops meet the contract\<close>

text \<open>The state of a grouping loop after the indexes \<open>seen\<close>.\<close>

definition grouped ::
  "(nat \<Rightarrow> string) \<Rightarrow> nat list \<Rightarrow> string list \<Rightarrow> (string \<rightharpoonup> nat) \<Rightarrow> nat list list \<Rightarrow> bool" where
  "grouped key seen ks positions groups \<longleftrightarrow>
     distinct ks \<and> set ks = key ` set seen \<and>
     (\<forall>k p. positions k = Some p \<longleftrightarrow> p < length ks \<and> ks ! p = k) \<and>
     groups = map (\<lambda>k. filter (\<lambda>i. key i = k) seen) ks"

lemma grouped_empty [simp]: "grouped key [] [] Map.empty []"
  by (simp add: grouped_def)

lemma grouped_new:
  assumes "grouped key seen ks positions groups" "positions (key i) = None"
  shows "grouped key (seen @ [i]) (ks @ [key i]) (positions(key i \<mapsto> length groups)) (groups @ [[i]])"
proof -
  have new: "key i \<notin> set ks"
    using assms unfolding grouped_def by (metis in_set_conv_nth option.distinct(1))
  then have "filter (\<lambda>j. key j = key i) seen = []"
    using assms(1) unfolding grouped_def filter_empty_conv by (metis image_eqI)
  moreover have "map (\<lambda>k. filter (\<lambda>j. key j = k) (seen @ [i])) ks = groups"
    using assms(1) new by (auto simp: grouped_def)
  ultimately show ?thesis using assms(1) new
    by (auto simp: grouped_def nth_append less_Suc_eq in_set_conv_nth)
qed

lemma grouped_old:
  assumes "grouped key seen ks positions groups" "positions (key i) = Some p"
  shows "grouped key (seen @ [i]) ks positions (groups[p := groups ! p @ [i]])"
proof -
  have p: "p < length ks" "ks ! p = key i" using assms by (auto simp: grouped_def)
  have "groups[p := groups ! p @ [i]] = map (\<lambda>k. filter (\<lambda>j. key j = k) (seen @ [i])) ks"
    using assms(1) p
    by (intro nth_equalityI) (auto simp: grouped_def nth_list_update nth_eq_iff_index_eq)
  moreover have "key i \<in> set ks" using p by (metis nth_mem)
  ultimately show ?thesis using assms(1) by (auto simp: grouped_def)
qed

lemma groups_loop_grouped:
  assumes "grouped (\<lambda>i. okey (msgs ! i)) seen ks positions groups"
  shows "\<exists>ks' positions'. grouped (\<lambda>i. okey (msgs ! i)) (seen @ ixs) ks' positions'
    (groups_loop okey msgs ixs positions groups)"
  using assms
proof (induction okey msgs ixs positions groups arbitrary: seen ks rule: groups_loop.induct)
  case (2 okey msgs index rest positions groups)
  show ?case
  proof (cases "positions (okey (msgs ! index))")
    case None
    then show ?thesis
      using "2.IH"(1) [OF refl None grouped_new [OF "2.prems", of index]]
      by (simp add: fun_upd_def)
  next
    case (Some p)
    then show ?thesis
      using "2.IH"(2) [OF refl Some grouped_old [OF "2.prems", of index]] by simp
  qed
qed auto

text \<open>The second loop does what the first does, and keeps the messages beside the indexes.\<close>

lemma index_loop_groups:
  assumes "msgs = before @ rest" "i = length before"
    and "groups = map (\<lambda>g. \<lparr>Key = key (msgs ! hd g), Msgs = map ((!) msgs) g\<rparr>) indexes"
    and "\<forall>g \<in> set indexes. g \<noteq> []" "\<forall>k p. positions k = Some p \<longrightarrow> p < length indexes"
  shows "index_loop key i rest positions groups indexes =
    (let ids = groups_loop key msgs [i..<length msgs] positions indexes in
     (map (\<lambda>g. \<lparr>Key = key (msgs ! hd g), Msgs = map ((!) msgs) g\<rparr>) ids, ids))"
  using assms
proof (induction rest arbitrary: before i positions groups indexes)
  case Nil
  then show ?case by (simp add: Let_def)
next
  case (Cons msg rest)
  have i: "msgs ! i = msg" "i < length msgs" using Cons.prems by simp_all
  have front: "[i..<length msgs] = i # [Suc i..<length msgs]"
    using i(2) by (rule upt_conv_Cons)
  show ?case
  proof (cases "positions (key msg)")
    case None
    let ?ids = "indexes @ [[i]]"
    have "index_loop key (Suc i) rest (positions(key msg \<mapsto> length groups))
        (groups @ [\<lparr>Key = key msg, Msgs = [msg]\<rparr>]) ?ids =
      (let ids = groups_loop key msgs [Suc i..<length msgs] (positions(key msg \<mapsto> length groups)) ?ids in
       (map (\<lambda>g. \<lparr>Key = key (msgs ! hd g), Msgs = map ((!) msgs) g\<rparr>) ids, ids))"
    proof (rule Cons.IH [of "before @ [msg]"])
      show "\<forall>k p. (positions(key msg \<mapsto> length groups)) k = Some p \<longrightarrow> p < length ?ids"
        using Cons.prems(3,5) by (auto simp: less_SucI)
    qed (use Cons.prems i in auto)
    moreover have "length indexes = length groups" using Cons.prems(3) by simp
    ultimately show ?thesis using None i front by (simp add: Let_def list_update_append nth_append)
  next
    case (Some p)
    then have p: "p < length indexes" "indexes ! p \<noteq> []" using Cons.prems(4,5) by auto
    let ?ids = "indexes[p := indexes ! p @ [i]]"
    have "index_loop key (Suc i) rest positions
        (groups[p := (groups ! p)\<lparr>Msgs := Msgs (groups ! p) @ [msg]\<rparr>]) ?ids =
      (let ids = groups_loop key msgs [Suc i..<length msgs] positions ?ids in
       (map (\<lambda>g. \<lparr>Key = key (msgs ! hd g), Msgs = map ((!) msgs) g\<rparr>) ids, ids))"
    proof (rule Cons.IH [of "before @ [msg]"])
      show "groups[p := (groups ! p)\<lparr>Msgs := Msgs (groups ! p) @ [msg]\<rparr>] =
          map (\<lambda>g. \<lparr>Key = key (msgs ! hd g), Msgs = map ((!) msgs) g\<rparr>) ?ids"
        using Cons.prems(3) p i by (auto simp: map_update)
      show "\<forall>g \<in> set ?ids. g \<noteq> []" using Cons.prems(4)
        by (auto dest: subsetD [OF set_update_subset_insert])
    qed (use Cons.prems in auto)
    then show ?thesis using Some i front by (simp add: Let_def)
  qed
qed

lemma group_indexed_groups:
  "group_indexed msgs key =
     (let ids = groups_of msgs [0..<length msgs] key in
      (map (\<lambda>g. \<lparr>Key = key (msgs ! hd g), Msgs = map ((!) msgs) g\<rparr>) ids, ids))"
  unfolding group_indexed_def groups_of_def by (rule index_loop_groups [of _ "[]"]) simp_all

lemma grouped_grouping:
  assumes "grouped (\<lambda>i. key (msgs ! i)) ixs ks positions groups"
  shows "grouping key msgs ixs groups"
proof
  fix g assume "g \<in> set groups"
  then show "g \<noteq> [] \<and> (\<exists>k. g = filter (\<lambda>i. key (msgs ! i) = k) ixs)"
    using assms by (auto simp: grouped_def filter_empty_conv)
next
  fix i assume "i \<in> set ixs"
  then show "\<exists>g \<in> set groups. i \<in> set g" using assms by (auto simp: grouped_def)
next
  have "inj_on (\<lambda>k. filter (\<lambda>i. key (msgs ! i) = k) ixs) (set ks)"
  proof (rule inj_onI)
    fix k k' assume "k \<in> set ks" "filter (\<lambda>i. key (msgs ! i) = k) ixs = filter (\<lambda>i. key (msgs ! i) = k') ixs"
    moreover from this(1) obtain i where "i \<in> set ixs" "key (msgs ! i) = k"
      using assms by (auto simp: grouped_def)
    ultimately have "i \<in> set (filter (\<lambda>i. key (msgs ! i) = k') ixs)" by (metis (mono_tags, lifting) filter_set mem_Collect_eq set_filter)
    then show "k = k'" using \<open>key (msgs ! i) = k\<close> by simp
  qed
  then show "distinct groups" using assms by (simp add: grouped_def distinct_map)
qed

interpretation by_order: grouping okey msgs ixs "groups_of msgs ixs okey" for okey msgs ixs
  using groups_loop_grouped [OF grouped_empty, of okey msgs ixs] grouped_grouping
  by (fastforce simp: groups_of_def)

interpretation by_index: grouping key msgs "[0..<length msgs]" "snd (group_indexed msgs key)" for key msgs
  by (simp add: group_indexed_groups Let_def by_order.grouping_axioms)

section \<open>Coalescing\<close>

lemma spread_other: "i \<notin> set (concat gs) \<Longrightarrow> spread position gs rs results ! i = results ! i"
  by (induction position gs rs results rule: spread.induct) (auto simp: Let_def nth_put_all_out)

lemma length_spread [simp]: "length (spread position gs rs results) = length results"
  by (induction position gs rs results rule: spread.induct) (simp_all add: Let_def)

lemma spread_member:
  assumes "distinct (concat gs)" "n < length gs" "i \<in> set (gs ! n)" "i < length results"
  shows "spread position gs rs results ! i =
    (if position + n < length rs then rs ! (position + n) else Nak (Sent ErrMissingResult))"
  using assms
proof (induction position gs rs results arbitrary: n rule: spread.induct)
  case (2 position members rest rs results)
  show ?case
  proof (cases n)
    case 0
    then have "i \<notin> set (concat rest)" "i \<in> set members" using "2.prems" by auto
    then show ?thesis using 0 "2.prems"(4) by (simp add: Let_def spread_other nth_put_all_in)
  next
    case (Suc n')
    then show ?thesis using "2.prems" "2.IH" [OF refl, of n'] by (simp add: Let_def)
  qed
qed simp

lemma select_messages:
  "map ((!) msgs) (filter (\<lambda>i. P (msgs ! i)) [0..<length msgs]) = filter P msgs"
  by (metis (mono_tags, lifting) comp_apply filter_cong filter_map map_nth)

lemma group_whole:
  assumes "g \<in> set (groups_of msgs [0..<length msgs] key)"
  shows "g = filter (\<lambda>i. key (msgs ! i) = key (msgs ! hd g)) [0..<length msgs]"
    and "hd g \<in> set g" and "hd g < length msgs"
proof -
  obtain k where k: "g \<noteq> []" "g = filter (\<lambda>i. key (msgs ! i) = k) [0..<length msgs]"
    using by_order.is_group [OF assms] by blast
  then have "hd g \<in> set (filter (\<lambda>i. key (msgs ! i) = k) [0..<length msgs])" by (metis hd_in_set)
  then show "g = filter (\<lambda>i. key (msgs ! i) = key (msgs ! hd g)) [0..<length msgs]"
    "hd g \<in> set g" "hd g < length msgs" using k by simp_all
qed

section \<open>Properties\<close>

text \<open>
  \<^verbatim>\<open>GroupByKey\<close> partitions the batch: the groups have distinct keys, which are
  the keys of the batch, and a group holds every message of its key in the order of the batch.
\<close>
theorem group_by_key_partition:
  "distinct (map Key (group_by_key msgs key)) \<and>
   Key ` set (group_by_key msgs key) = key ` set msgs \<and>
   map Msgs (group_by_key msgs key) =
     map (\<lambda>k. filter (\<lambda>m. key m = k) msgs) (map Key (group_by_key msgs key))"
proof -
  let ?ids = "groups_of msgs [0..<length msgs] key"
  let ?g = "\<lambda>g. \<lparr>Key = key (msgs ! hd g), Msgs = map ((!) msgs) g\<rparr>"
  have groups: "group_by_key msgs key = map ?g ?ids"
    by (simp add: group_by_key_def group_indexed_groups Let_def)
  note whole = group_whole(1)
  have "inj_on (\<lambda>g. key (msgs ! hd g)) (set ?ids)"
    by (rule inj_onI) (metis whole)
  then have "distinct (map Key (map ?g ?ids))"
    by (simp add: distinct_map by_order.distinct_groups o_def)
  moreover have "Key ` set (map ?g ?ids) = key ` set msgs"
  proof -
    have "key m \<in> (\<lambda>g. key (msgs ! hd g)) ` set ?ids" if m: "m \<in> set msgs" for m
    proof -
      obtain i where i: "i < length msgs" "m = msgs ! i" using m by (metis in_set_conv_nth)
      then obtain g where g: "g \<in> set ?ids" "i \<in> set g"
        using by_order.covered [of i "[0..<length msgs]" msgs key] by auto
      then have "key (msgs ! hd g) = key m" using by_order.same_key [OF g(1)] group_whole(2) [OF g(1)] i(2) by blast
      then show ?thesis using g(1) by force
    qed
    moreover have "key (msgs ! hd g) \<in> key ` set msgs" if "g \<in> set ?ids" for g
      using group_whole(3) [OF that] by simp
    ultimately show ?thesis by (auto simp: image_image)
  qed
  moreover have "map ((!) msgs) g = filter (\<lambda>m. key m = key (msgs ! hd g)) msgs" if "g \<in> set ?ids" for g
    using whole [OF that] select_messages [of msgs "\<lambda>m. key m = key (msgs ! hd g)"] by metis
  ultimately show ?thesis unfolding groups by auto
qed

text \<open>
  \<^verbatim>\<open>CoalesceByKey\<close> returns one result per message: the result its
  callback gave for the message's group, or a missing-result failure when it gave none.
\<close>
theorem coalesce_by_key_results:
  "length (coalesce_by_key key f msgs) = length msgs \<and>
   (\<forall>i < length msgs. \<exists>n < length (group_by_key msgs key).
      Key (group_by_key msgs key ! n) = key (msgs ! i) \<and>
      coalesce_by_key key f msgs ! i =
        (let rs = f (group_by_key msgs key) in if n < length rs then rs ! n else Nak (Sent ErrMissingResult)))"
proof (cases "msgs = []")
  case False
  let ?ids = "groups_of msgs [0..<length msgs] key"
  have c: "coalesce_by_key key f msgs =
      spread 0 ?ids (f (group_by_key msgs key)) (replicate (length msgs) zero_result)"
    using False by (simp add: coalesce_by_key_def group_by_key_def group_indexed_groups Let_def)
  have d: "distinct (concat ?ids)" by (rule by_order.distinct_members) simp
  show ?thesis
  proof (intro conjI allI impI)
    show "length (coalesce_by_key key f msgs) = length msgs" by (simp add: c)
    fix i assume i: "i < length msgs"
    then obtain g where g: "g \<in> set ?ids" "i \<in> set g"
      using by_order.covered [of i "[0..<length msgs]" msgs key] by auto
    then obtain n where n: "n < length ?ids" "?ids ! n = g" by (metis in_set_conv_nth)
    have "hd g \<in> set g" by (rule group_whole(2) [OF g(1)])
    then have "key (msgs ! hd g) = key (msgs ! i)" using by_order.same_key [OF g(1)] g(2) by blast
    then show "\<exists>n < length (group_by_key msgs key). Key (group_by_key msgs key ! n) = key (msgs ! i) \<and>
      coalesce_by_key key f msgs ! i =
        (let rs = f (group_by_key msgs key) in if n < length rs then rs ! n else Nak (Sent ErrMissingResult))"
      using n g i spread_member [OF d n(1), of i "replicate (length msgs) zero_result" 0 "f (group_by_key msgs key)"]
      by (intro exI [of _ n]) (simp add: c group_by_key_def group_indexed_groups Let_def)
  qed
qed (simp add: coalesce_by_key_def)

theorem coalesce_by_key_results_witness:
  "coalesce_by_key fst (map (\<lambda>g. if length (Msgs g) = 1 then Ack else Skip))
     [(''a'', 1 :: nat), (''b'', 2), (''a'', 3)] ! 2 = Skip"
proof -
  let ?f = "map (\<lambda>g. if length (Msgs g) = 1 then Ack else Skip)"
  let ?ms = "[(''a'', 1 :: nat), (''b'', 2), (''a'', 3)]"
  have groups: "group_by_key ?ms fst =
      [\<lparr>Key = ''a'', Msgs = [(''a'', 1), (''a'', 3)]\<rparr>, \<lparr>Key = ''b'', Msgs = [(''b'', 2)]\<rparr>]"
    by (simp add: group_by_key_def group_indexed_def Let_def)
  have "2 < length ?ms" by simp
  from coalesce_by_key_results [of fst ?f ?ms, THEN conjunct2, rule_format, OF this]
  obtain n where n: "n < length (group_by_key ?ms fst)" "Key (group_by_key ?ms fst ! n) = fst (?ms ! 2)"
    and r: "coalesce_by_key fst ?f ?ms ! 2 =
      (let rs = ?f (group_by_key ?ms fst) in if n < length rs then rs ! n else Nak (Sent ErrMissingResult))"
    by blast
  have "n = 0" using n unfolding groups by (cases n) simp_all
  then show ?thesis using r unfolding groups by simp
qed

end
