(* ===== verification/Batch_Order.thy ===== *)
theory Batch_Order
  imports Batch_Bisect Batch_Groups
begin

text \<open>
  Batches with an order key (\<^verbatim>\<open>bisect_groups.go\<close>, \<^verbatim>\<open>order_groups.go\<close>):
  what one attempt guarantees about the order of its messages, the recursion over groups and over
  the prefix of one group, their termination and the order invariant.
\<close>

section \<open>Order inside one attempt\<close>

lemma scan_append:
  "scan_failures okey msgs (l @ l') first violated =
     (let (first', violated') = scan_failures okey msgs l first violated
      in scan_failures okey msgs l' first' violated')"
  by (induction okey msgs l first violated rule: scan_failures.induct)
    (auto simp: Let_def fun_upd_def)

lemma scan_first_stays:
  "first k = Some f \<Longrightarrow> fst (scan_failures okey msgs l first violated) k = Some f"
proof (induction okey msgs l first violated rule: scan_failures.induct)
  case (2 okey msgs i index r rest first violated)
  then show ?case by (cases "k = okey (msgs ! index)") (auto simp: Let_def fun_upd_def)
qed simp

lemma scan_violated_stays: "violated \<subseteq> snd (scan_failures okey msgs l first violated)"
  by (induction okey msgs l first violated rule: scan_failures.induct)
    (auto simp: Let_def fun_upd_def)

lemma scan_first_from:
  "fst (scan_failures okey msgs l first violated) k = Some f
     \<Longrightarrow> first k = Some f \<or> f \<in> fst ` set l"
  by (induction okey msgs l first violated rule: scan_failures.induct)
    (auto simp: Let_def fun_upd_def split: if_splits)

lemma scan_unacked:
  assumes "\<not> acked r" "\<forall>e \<in> set l. fst e < i"
  shows "\<exists>f \<le> i. fst (scan_failures okey msgs (l @ (i, x, r) # l') Map.empty {}) (okey (msgs ! x)) = Some f"
proof -
  obtain first violated where s: "scan_failures okey msgs l Map.empty {} = (first, violated)"
    by fastforce
  have "\<exists>f \<le> i. (if first (okey (msgs ! x)) \<noteq> None then first else first(okey (msgs ! x) \<mapsto> i))
      (okey (msgs ! x)) = Some f"
    using scan_first_from [of okey msgs l Map.empty "{}" "okey (msgs ! x)"] s assms(2) by fastforce
  then show ?thesis using assms(1) scan_first_stays
    by (fastforce simp: scan_append s Let_def split: if_splits)
qed

lemma scan_violated:
  assumes "\<not> acked r" "acked s" "okey (msgs ! x) = okey (msgs ! y)"
  shows "okey (msgs ! y) \<in> snd (scan_failures okey msgs (l @ (i, x, r) # l' @ (j, y, s) # l'') Map.empty {})"
proof -
  obtain first violated where s: "scan_failures okey msgs (l @ [(i, x, r)]) Map.empty {} = (first, violated)"
    by fastforce
  then have "first (okey (msgs ! x)) \<noteq> None"
    using \<open>\<not> acked r\<close> by (auto simp: scan_append Let_def split: prod.splits if_splits)
  moreover obtain first' violated' where s': "scan_failures okey msgs l' first violated = (first', violated')"
    by fastforce
  ultimately have "first' (okey (msgs ! y)) \<noteq> None"
    using scan_first_stays [of first "okey (msgs ! y)" _ okey msgs l' violated] assms(3) by fastforce
  then have "okey (msgs ! y) \<in> snd (scan_failures okey msgs ((j, y, s) # l'') first' violated')"
    using assms(2) scan_violated_stays [of "insert (okey (msgs ! y)) violated'" okey msgs l'' first'] by auto
  moreover have "l @ (i, x, r) # l' @ (j, y, s) # l'' = (l @ [(i, x, r)]) @ l' @ (j, y, s) # l''" by simp
  ultimately show ?thesis using s s' by (simp only: scan_append) (simp add: Let_def)
qed

text \<open>The list the loops of \<^verbatim>\<open>orderViolations\<close> run over.\<close>

abbreviation positioned :: "nat list \<Rightarrow> result list \<Rightarrow> (nat \<times> nat \<times> result) list" where
  "positioned indexes applied \<equiv> zip [0..<length indexes] (zip indexes applied)"

lemma positioned_nth:
  "length applied = length indexes \<Longrightarrow> p < length indexes \<Longrightarrow>
     positioned indexes applied ! p = (p, indexes ! p, applied ! p)"
  by simp

lemma in_order_violations:
  "scan_failures okey msgs (positioned indexes applied) Map.empty {} = (first, violated) \<Longrightarrow>
     x \<in> set (order_violations msgs indexes applied okey) \<longleftrightarrow>
     (\<exists>p r f. (p, x, r) \<in> set (positioned indexes applied) \<and> okey (msgs ! x) \<in> violated
        \<and> first (okey (msgs ! x)) = Some f \<and> f < p)"
  by (force simp: order_violations_def Let_def split: option.splits)

text \<open>When no violation is reported, an acknowledged message has no failure before it.\<close>

lemma no_violations_ordered:
  assumes none: "order_violations msgs indexes applied okey = []"
    and len: "length applied = length indexes"
    and pq: "p < q" "q < length indexes" and key: "okey (msgs ! (indexes ! p)) = okey (msgs ! (indexes ! q))"
    and "acked (applied ! q)"
  shows "acked (applied ! p)"
proof (rule ccontr)
  assume bad: "\<not> acked (applied ! p)"
  let ?l = "positioned indexes applied"
  let ?P = "(p, indexes ! p, applied ! p)" and ?Q = "(q, indexes ! q, applied ! q)"
  let ?s = "scan_failures okey msgs ?l Map.empty {}"
  have lenl: "length ?l = length indexes" using len by simp
  have split1: "?l = take p ?l @ ?P # drop (Suc p) ?l"
    using pq lenl positioned_nth [OF len, of p] id_take_nth_drop [of p ?l] by simp
  have "drop (Suc p) ?l = take (q - Suc p) (drop (Suc p) ?l) @ ?Q # drop (Suc q) ?l"
    using pq lenl positioned_nth [OF len, of q] id_take_nth_drop [of "q - Suc p" "drop (Suc p) ?l"]
    by (simp del: drop_zip)
  then have split2: "?l = take p ?l @ ?P # take (q - Suc p) (drop (Suc p) ?l) @ ?Q # drop (Suc q) ?l"
    using split1 by simp
  have "okey (msgs ! (indexes ! q)) \<in> snd ?s"
    by (subst split2, rule scan_violated) (fact bad \<open>acked (applied ! q)\<close> key)+
  moreover obtain f where "f \<le> p" "fst ?s (okey (msgs ! (indexes ! p))) = Some f"
  proof -
    have "\<forall>e \<in> set (take p ?l). fst e < p" by (auto simp: in_set_conv_nth)
    from scan_unacked [OF bad this] show ?thesis using that split1 by metis
  qed
  moreover have "?Q \<in> set ?l"
    using pq lenl positioned_nth [OF len, of q] by (metis nth_mem)
  ultimately have "indexes ! q \<in> set (order_violations msgs indexes applied okey)"
    using pq key in_order_violations [of okey msgs indexes applied "fst ?s" "snd ?s" "indexes ! q"]
    by (metis le_less_trans prod.collapse)
  then show False using none by simp
qed

text \<open>The blocked messages are fresh ones, with every later message of their key.\<close>

lemma violations_subset: "set (order_violations msgs indexes applied okey) \<subseteq> set indexes"
  by (auto simp: order_violations_def Let_def set_zip split: prod.splits)

lemma violations_upward:
  assumes len: "length applied = length indexes" and "sorted indexes" "distinct indexes"
    and "i \<in> set (order_violations msgs indexes applied okey)"
    and "j \<in> set indexes" "i < j" "okey (msgs ! i) = okey (msgs ! j)"
  shows "j \<in> set (order_violations msgs indexes applied okey)"
proof -
  obtain first violated where s: "scan_failures okey msgs (positioned indexes applied) Map.empty {} = (first, violated)"
    by fastforce
  from assms(4) obtain p r f where p: "(p, i, r) \<in> set (positioned indexes applied)"
    "okey (msgs ! i) \<in> violated" "first (okey (msgs ! i)) = Some f" "f < p"
    by (auto simp: in_order_violations [OF s])
  then have ip: "indexes ! p = i" "p < length indexes" by (auto simp: set_zip)
  obtain q where q: "q < length indexes" "indexes ! q = j"
    using \<open>j \<in> set indexes\<close> by (auto simp: in_set_conv_nth)
  have "p < q"
    using ip q \<open>i < j\<close> \<open>sorted indexes\<close> by (metis leD leI sorted_nth_mono)
  have "(q, j, applied ! q) \<in> set (positioned indexes applied)"
    using q len positioned_nth [OF len, of q] by (metis length_map length_zip map_nth min.idem nth_mem length_upt minus_nat.diff_0)
  then show ?thesis
    using p \<open>p < q\<close> assms(7) unfolding in_order_violations [OF s]
    by (metis order.strict_trans)
qed
section \<open>Order and violations of an attempt\<close>

text \<open>
  \<open>takes_all\<close>: from this database an attempt on \<open>ixs\<close> hands every one
  of its messages to the handler (none is a duplicate).
\<close>

definition takes_all ::
  "('m, 'd, 'e) in_tx \<Rightarrow> 'm list \<Rightarrow> nat list \<Rightarrow> ('d, 'e) tx_state \<Rightarrow> bool" where
  "takes_all h msgs ixs st \<longleftrightarrow>
     (\<forall>st0 indexes keys st1. same_db st0 st \<longrightarrow>
        fresh h msgs ixs st0 = (Inr (indexes, keys), st1) \<longrightarrow> indexes = ixs)"

definition in_order :: "('m \<Rightarrow> string) \<Rightarrow> 'm list \<Rightarrow> nat list \<Rightarrow> (nat \<rightharpoonup> result) \<Rightarrow> bool" where
  "in_order okey msgs ixs outcome \<longleftrightarrow>
     (\<forall>i \<in> set ixs. \<forall>j \<in> set ixs. i < j \<and> okey (msgs ! i) = okey (msgs ! j)
        \<and> acked (recorded outcome j) \<longrightarrow> acked (recorded outcome i))"

lemma body_in_order:
  assumes b: "attempt_body h msgs ixs (loc, st) = (((outcome, fr), st'), None)"
    and okey: "order_key h = Some okey" and "takes_all h msgs ixs st"
    and ixs: "sorted ixs" "distinct ixs"
  shows "in_order okey msgs ixs outcome"
proof (cases "outcome = Map.empty")
  case True
  then show ?thesis by (simp add: in_order_def)
next
  case False
  obtain indexes keys st1 where f: "fresh h msgs ixs st = (Inr (indexes, keys), st1)"
    using b by (auto simp: attempt_body_def split: prod.splits sum.splits)
  then have "indexes = ixs" using assms(3) unfolding takes_all_def by (metis same_db_refl)
  with False b okey f obtain applied st2 where
    len: "length applied = length ixs" and none: "order_violations msgs ixs applied okey = []"
    and v: "verdicts h ixs keys applied st2 = (Inr outcome, st')"
    by (auto simp: attempt_body_def Let_def split: prod.splits sum.splits if_splits)
  have at: "recorded outcome (ixs ! p) = applied ! p" if "p < length ixs" for p
  proof -
    have "outcome = map_of (rev (zip ixs applied))"
      using v by (auto simp: verdicts_def Let_def split: prod.splits option.splits)
    then have "outcome (ixs ! p) = Some (applied ! p)"
      using by_index_iff [OF ixs(2) len, of "ixs ! p" "applied ! p"] that len
      by (auto simp: set_zip)
    then show ?thesis by (simp add: recorded_def)
  qed
  show ?thesis unfolding in_order_def
  proof (intro ballI impI)
    fix i j assume "i \<in> set ixs" "j \<in> set ixs"
      and a: "i < j \<and> okey (msgs ! i) = okey (msgs ! j) \<and> acked (recorded outcome j)"
    then obtain p q where p: "p < length ixs" "ixs ! p = i" and q: "q < length ixs" "ixs ! q = j"
      by (auto simp: in_set_conv_nth)
    have "p < q" using p q a ixs(1) by (metis leD leI sorted_nth_mono)
    then show "acked (recorded outcome i)"
      using no_violations_ordered [OF none len, of p q] p q a at by metis
  qed
qed

lemma attempt_in_order:
  assumes "tx_atomic h" and a: "attempt h msgs ixs (st, evs) = (Inr outcome, st', evs')"
    and "order_key h = Some okey" "takes_all h msgs ixs st" "sorted ixs" "distinct ixs"
  shows "in_order okey msgs ixs outcome"
proof -
  obtain fr where t: "tx_do h (attempt_body h msgs ixs) ((Map.empty, 0), st)
      = (((outcome, fr), st'), None)"
    using a by (auto simp: attempt_def Let_def split: prod.splits option.splits)
  then obtain loc0 st0 where "same_db st0 st"
    "attempt_body h msgs ixs (loc0, st0) = (((outcome, fr), st'), None)"
    using tx_atomic_commit [OF \<open>tx_atomic h\<close>] by metis
  moreover from this(1) have "takes_all h msgs ixs st0"
    using assms(4) by (auto simp: takes_all_def same_db_def)
  ultimately show ?thesis using assms by (metis body_in_order)
qed

lemma fresh_subset:
  assumes "fresh h msgs ixs st = (Inr (indexes, keys), st1)"
  shows "set indexes \<subseteq> set ixs"
proof -
  have "fst x \<in> set ixs" if "x \<in> set (select_first (key_of h) msgs {} ixs)" for x
    using that select_first_subset [of "key_of h" msgs "{}" ixs] by auto
  then show ?thesis
    using assms by (fastforce simp: fresh_def Let_def split: if_splits prod.splits sum.splits)
qed

lemma no_foreign:
  assumes "no_foreign_violation h"
  shows "claim_fault h e = (Some err, e') \<Longrightarrow> as_violation err = None"
    and "unclaim_fault h e = (Some err, e') \<Longrightarrow> as_violation err = None"
    and "apply_fn h = Some f \<Longrightarrow> f ms d e = (Failed err, d', e') \<Longrightarrow> as_violation err = None"
    and "apply_results h = Some g \<Longrightarrow> g ms d e = (Failed err, d', e') \<Longrightarrow> as_violation err = None"
  using assms unfolding no_foreign_violation_def by blast+

lemma fresh_no_violation:
  assumes "no_foreign_violation h" "fresh h msgs ixs st = (Inl e, st1)"
  shows "as_violation e = None"
  using assms(2) no_foreign [OF assms(1)]
  by (fastforce simp: fresh_def claim_keys_def Let_def
      split: if_splits prod.splits sum.splits option.splits)

lemma run_no_violation:
  assumes "no_foreign_violation h" "run h ms st = (Inl e, st1)"
  shows "as_violation e = None"
  using assms(2) no_foreign [OF assms(1)]
  by (fastforce simp: run_def split: option.splits prod.splits ret.splits)

lemma verdicts_no_violation:
  assumes "no_foreign_violation h" "verdicts h indexes keys applied st = (Inl e, st1)"
  shows "as_violation e = None"
  using assms(2) no_foreign [OF assms(1)]
  by (fastforce simp: verdicts_def unclaim_keys_def Let_def
      split: if_splits prod.splits option.splits)

lemma body_violation:
  assumes b: "attempt_body h msgs ixs (loc, st) = (x, Some e)" and "as_violation e = Some blocked"
    and "no_foreign_violation h"
  obtains indexes keys st1 applied okey where "fresh h msgs ixs st = (Inr (indexes, keys), st1)"
    "order_key h = Some okey" "length applied = length indexes" "blocked \<noteq> []"
    "blocked = order_violations msgs indexes applied okey"
proof -
  obtain outcome0 fr where loc: "loc = (outcome0, fr)" by fastforce
  obtain indexes keys st1 where f: "fresh h msgs ixs st = (Inr (indexes, keys), st1)"
    using b fresh_no_violation [OF assms(3)] assms(2)
    by (auto simp: attempt_body_def loc split: prod.splits sum.splits)
  then obtain applied st2 where r: "run h (map ((!) msgs) indexes) st1 = (Inr applied, st2)"
    using b run_no_violation [OF assms(3)] assms(2)
    by (auto simp: attempt_body_def Let_def loc split: prod.splits sum.splits if_splits)
  let ?blocked = "case order_key h of None \<Rightarrow> []
                       | Some okey \<Rightarrow> order_violations msgs indexes applied okey"
  have "blocked = ?blocked \<and> ?blocked \<noteq> [] \<and> length applied = length indexes"
    using b f r assms(2) verdicts_no_violation [OF assms(3), of indexes keys applied st2]
    by (auto simp: attempt_body_def Let_def loc split: prod.splits sum.splits if_splits)
  then show ?thesis using that f by (auto split: option.splits)
qed

lemma attempt_violation:
  assumes "tx_atomic h" "no_foreign_violation h"
    and a: "attempt h msgs ixs (st, evs) = (Inl e, st', evs')" and "as_violation e = Some blocked"
  shows "blocked \<noteq> [] \<and> set blocked \<subseteq> set ixs \<and> same_db st' st \<and>
    (takes_all h msgs ixs st \<longrightarrow> sorted ixs \<longrightarrow> distinct ixs \<longrightarrow>
      (\<exists>okey. order_key h = Some okey \<and> (\<forall>i \<in> set blocked. \<forall>j \<in> set ixs.
         i < j \<and> okey (msgs ! i) = okey (msgs ! j) \<longrightarrow> j \<in> set blocked)))"
proof -
  obtain x where t: "tx_do h (attempt_body h msgs ixs) ((Map.empty, 0), st) = ((x, st'), Some e)"
    using a by (auto simp: attempt_def Let_def split: prod.splits option.splits)
  then obtain loc0 st0 y e0 where "same_db st0 st"
    "attempt_body h msgs ixs (loc0, st0) = (y, Some e0)" "as_violation e0 = Some blocked"
    using tx_atomic_rollback(2) [OF assms(1) t assms(4)] by auto
  from body_violation [OF this(2,3) assms(2)] this(1)
  obtain indexes keys st1 applied okey where f: "fresh h msgs ixs st0 = (Inr (indexes, keys), st1)"
    and v: "order_key h = Some okey" "length applied = length indexes" "blocked \<noteq> []"
      "blocked = order_violations msgs indexes applied okey" and "same_db st0 st" by metis
  have "indexes = ixs" if "takes_all h msgs ixs st"
    using that f \<open>same_db st0 st\<close> unfolding takes_all_def by metis
  then show ?thesis
    using v violations_subset [of msgs indexes applied okey] fresh_subset [OF f]
      violations_upward [OF v(2)] tx_atomic_rollback(1) [OF assms(1) t] by blast
qed
section \<open>The recursions\<close>

definition block :: "('m, 'd, 'e) in_tx \<Rightarrow> nat list \<Rightarrow> result list \<Rightarrow> result list" where
  "block h ixs rs = put_all (\<lambda>_. NakDelay (transient_delay h) (Sent ErrOrderBlocked)) ixs rs"

abbreviation give_up ::
  "('m, 'd, 'e) in_tx \<Rightarrow> goerr \<Rightarrow> nat list \<Rightarrow> result list \<Rightarrow> result list" where
  "give_up h err ixs rs \<equiv> put_all (\<lambda>_. transient_result h err) ixs rs"

definition failed_in :: "nat list \<Rightarrow> (nat \<rightharpoonup> result) \<Rightarrow> bool" where
  "failed_in grp outcome =
     list_ex (\<lambda>i. case outcome i of Some r \<Rightarrow> \<not> acked r | None \<Rightarrow> False) grp"

text \<open>
  \<^verbatim>\<open>ordered\<close>: \<open>known\<close> is the error the group is known to fail with, nil for a
  group still to be tried. The loop of the source runs while it is nil; \<open>failed\<close> is the
  variable of that name, false at the first call.
\<close>

partial_function (option) ordered ::
  "('m, 'd, 'e) in_tx \<Rightarrow> 'm list \<Rightarrow> nat list \<Rightarrow> goerr option \<Rightarrow> bool \<Rightarrow> ('d, 'e) work
     \<Rightarrow> (bool \<times> ('d, 'e) work) option" where
  "ordered h msgs grp known failed w =
     (case known of
        None \<Rightarrow>
          if grp = [] then Some (failed, w)
          else (case attempt h msgs grp (dbs w, trace w) of (x, st, evs) \<Rightarrow>
            let w1 = after_attempt w st evs in
            case x of
              Inr outcome \<Rightarrow> Some (failed \<or> failed_in grp outcome,
                w1\<lparr>results := record_outcome grp outcome (results w)\<rparr>)
            | Inl err \<Rightarrow>
                (case as_violation err of
                   Some blocked \<Rightarrow>
                     let w2 = w1\<lparr>results := block h blocked (results w)\<rparr> in
                     (case without_indexes [grp] blocked of
                        [] \<Rightarrow> Some (True, w2)
                      | remaining # _ \<Rightarrow> ordered h msgs remaining None True w2)
                 | None \<Rightarrow>
                     if transient h err then
                       if 0 < budget w
                       then ordered h msgs grp None failed (w1\<lparr>budget := budget w - 1\<rparr>)
                       else Some (True, w1\<lparr>results := give_up h err grp (results w)\<rparr>)
                     else ordered h msgs grp (Some err) failed w1))
      | Some err \<Rightarrow>
          if length grp = 1 then Some (True, w\<lparr>results := (results w)[hd grp := Nak err]\<rparr>)
          else
            let w1 = w\<lparr>trace := trace w @ [OnBisect (length grp) 1 err]\<rparr>;
                middle = length grp div 2
            in Option.bind (ordered h msgs (take middle grp) None False w1) (\<lambda>(prefix_failed, w2).
                 if prefix_failed
                 then Some (True, w2\<lparr>results := block h (drop middle grp) (results w2)\<rparr>)
                 else Option.bind (ordered h msgs (drop middle grp) None False w2)
                   (\<lambda>(suffix_failed, w3). Some (suffix_failed \<or> failed, w3))))"

partial_function (option) bisect_groups ::
  "('m, 'd, 'e) in_tx \<Rightarrow> 'm list \<Rightarrow> nat list list \<Rightarrow> ('d, 'e) work \<Rightarrow> ('d, 'e) work option" where
  "bisect_groups h msgs groups w =
     (let ixs = flatten_groups groups in
      if ixs = [] then Some w
      else (case attempt h msgs ixs (dbs w, trace w) of (x, st, evs) \<Rightarrow>
        let w1 = after_attempt w st evs in
        case x of
          Inr outcome \<Rightarrow> Some (w1\<lparr>results := record_outcome ixs outcome (results w)\<rparr>)
        | Inl err \<Rightarrow>
            (case as_violation err of
               Some blocked \<Rightarrow> bisect_groups h msgs (without_indexes groups blocked)
                 (w1\<lparr>results := block h blocked (results w)\<rparr>)
             | None \<Rightarrow>
                 if transient h err then
                   if 0 < budget w
                   then bisect_groups h msgs groups (w1\<lparr>budget := budget w - 1\<rparr>)
                   else Some (w1\<lparr>results := give_up h err ixs (results w)\<rparr>)
                 else if length groups = 1
                 then map_option snd (ordered h msgs (hd groups) (Some err) False w1)
                 else
                   let w2 = w1\<lparr>trace := evs @ [OnBisect (length ixs) (length groups) err]\<rparr>;
                       middle = length groups div 2
                   in Option.bind (bisect_groups h msgs (take middle groups) w2)
                        (\<lambda>w3. bisect_groups h msgs (drop middle groups) w3))))"

declare ordered.simps [code] bisect_groups.simps [code]

text \<open>Their returning runs.\<close>

inductive ordereds ::
  "('m, 'd, 'e) in_tx \<Rightarrow> 'm list \<Rightarrow> nat list \<Rightarrow> goerr option \<Rightarrow> bool \<Rightarrow> ('d, 'e) work
     \<Rightarrow> bool \<Rightarrow> ('d, 'e) work \<Rightarrow> bool"
  for h :: "('m, 'd, 'e) in_tx" and msgs :: "'m list" where
  empty: "ordereds h msgs [] None failed w failed w"
| commit: "grp \<noteq> [] \<Longrightarrow> attempt h msgs grp (dbs w, trace w) = (Inr outcome, st, evs) \<Longrightarrow>
    ordereds h msgs grp None failed w (failed \<or> failed_in grp outcome)
      ((after_attempt w st evs)\<lparr>results := record_outcome grp outcome (results w)\<rparr>)"
| blocked: "grp \<noteq> [] \<Longrightarrow> attempt h msgs grp (dbs w, trace w) = (Inl err, st, evs) \<Longrightarrow>
    as_violation err = Some bl \<Longrightarrow>
    ordereds h msgs (filter (\<lambda>i. i \<notin> set bl) grp) None True
      ((after_attempt w st evs)\<lparr>results := block h bl (results w)\<rparr>) b w' \<Longrightarrow>
    ordereds h msgs grp None failed w b w'"
| retry: "grp \<noteq> [] \<Longrightarrow> attempt h msgs grp (dbs w, trace w) = (Inl err, st, evs) \<Longrightarrow>
    as_violation err = None \<Longrightarrow> transient h err \<Longrightarrow> 0 < budget w \<Longrightarrow>
    ordereds h msgs grp None failed ((after_attempt w st evs)\<lparr>budget := budget w - 1\<rparr>) b w' \<Longrightarrow>
    ordereds h msgs grp None failed w b w'"
| exhausted: "grp \<noteq> [] \<Longrightarrow> attempt h msgs grp (dbs w, trace w) = (Inl err, st, evs) \<Longrightarrow>
    as_violation err = None \<Longrightarrow> transient h err \<Longrightarrow> budget w = 0 \<Longrightarrow>
    ordereds h msgs grp None failed w True
      ((after_attempt w st evs)\<lparr>results := give_up h err grp (results w)\<rparr>)"
| fails: "grp \<noteq> [] \<Longrightarrow> attempt h msgs grp (dbs w, trace w) = (Inl err, st, evs) \<Longrightarrow>
    as_violation err = None \<Longrightarrow> \<not> transient h err \<Longrightarrow>
    ordereds h msgs grp (Some err) failed (after_attempt w st evs) b w' \<Longrightarrow>
    ordereds h msgs grp None failed w b w'"
| single: "ordereds h msgs [i] (Some err) failed w True (w\<lparr>results := (results w)[i := Nak err]\<rparr>)"
| prefix: "length grp \<noteq> 1 \<Longrightarrow> ordereds h msgs (take (length grp div 2) grp) None False
      (w\<lparr>trace := trace w @ [OnBisect (length grp) 1 err]\<rparr>) True w1 \<Longrightarrow>
    ordereds h msgs grp (Some err) failed w True
      (w1\<lparr>results := block h (drop (length grp div 2) grp) (results w1)\<rparr>)"
| suffix: "length grp \<noteq> 1 \<Longrightarrow> ordereds h msgs (take (length grp div 2) grp) None False
      (w\<lparr>trace := trace w @ [OnBisect (length grp) 1 err]\<rparr>) False w1 \<Longrightarrow>
    ordereds h msgs (drop (length grp div 2) grp) None False w1 b w' \<Longrightarrow>
    ordereds h msgs grp (Some err) failed w (b \<or> failed) w'"

inductive group_bisects ::
  "('m, 'd, 'e) in_tx \<Rightarrow> 'm list \<Rightarrow> nat list list \<Rightarrow> ('d, 'e) work \<Rightarrow> ('d, 'e) work \<Rightarrow> bool"
  for h :: "('m, 'd, 'e) in_tx" and msgs :: "'m list" where
  empty: "flatten_groups groups = [] \<Longrightarrow> group_bisects h msgs groups w w"
| commit: "flatten_groups groups \<noteq> [] \<Longrightarrow>
    attempt h msgs (flatten_groups groups) (dbs w, trace w) = (Inr outcome, st, evs) \<Longrightarrow>
    group_bisects h msgs groups w
      ((after_attempt w st evs)\<lparr>results := record_outcome (flatten_groups groups) outcome (results w)\<rparr>)"
| blocked: "flatten_groups groups \<noteq> [] \<Longrightarrow>
    attempt h msgs (flatten_groups groups) (dbs w, trace w) = (Inl err, st, evs) \<Longrightarrow>
    as_violation err = Some bl \<Longrightarrow>
    group_bisects h msgs (without_indexes groups bl)
      ((after_attempt w st evs)\<lparr>results := block h bl (results w)\<rparr>) w' \<Longrightarrow>
    group_bisects h msgs groups w w'"
| retry: "flatten_groups groups \<noteq> [] \<Longrightarrow>
    attempt h msgs (flatten_groups groups) (dbs w, trace w) = (Inl err, st, evs) \<Longrightarrow>
    as_violation err = None \<Longrightarrow> transient h err \<Longrightarrow> 0 < budget w \<Longrightarrow>
    group_bisects h msgs groups ((after_attempt w st evs)\<lparr>budget := budget w - 1\<rparr>) w' \<Longrightarrow>
    group_bisects h msgs groups w w'"
| exhausted: "flatten_groups groups \<noteq> [] \<Longrightarrow>
    attempt h msgs (flatten_groups groups) (dbs w, trace w) = (Inl err, st, evs) \<Longrightarrow>
    as_violation err = None \<Longrightarrow> transient h err \<Longrightarrow> budget w = 0 \<Longrightarrow>
    group_bisects h msgs groups w
      ((after_attempt w st evs)\<lparr>results := give_up h err (flatten_groups groups) (results w)\<rparr>)"
| one: "flatten_groups [grp] \<noteq> [] \<Longrightarrow>
    attempt h msgs (flatten_groups [grp]) (dbs w, trace w) = (Inl err, st, evs) \<Longrightarrow>
    as_violation err = None \<Longrightarrow> \<not> transient h err \<Longrightarrow>
    ordereds h msgs grp (Some err) False (after_attempt w st evs) b w' \<Longrightarrow>
    group_bisects h msgs [grp] w w'"
| split: "flatten_groups groups \<noteq> [] \<Longrightarrow> length groups \<noteq> 1 \<Longrightarrow>
    attempt h msgs (flatten_groups groups) (dbs w, trace w) = (Inl err, st, evs) \<Longrightarrow>
    as_violation err = None \<Longrightarrow> \<not> transient h err \<Longrightarrow>
    group_bisects h msgs (take (length groups div 2) groups)
      (after_attempt w st (evs @ [OnBisect (length (flatten_groups groups)) (length groups) err])) w1 \<Longrightarrow>
    group_bisects h msgs (drop (length groups div 2) groups) w1 w' \<Longrightarrow>
    group_bisects h msgs groups w w'"

section \<open>Termination\<close>

lemma concat_without: "concat (without_indexes groups bl) = filter (\<lambda>i. i \<notin> set bl) (concat groups)"
  by (induction groups) (simp_all add: without_indexes_def)

lemma set_flatten [simp]: "set (flatten_groups groups) = set (concat groups)"
  by (simp add: flatten_groups_def)

lemma flatten_empty: "flatten_groups groups = [] \<longleftrightarrow> concat groups = []"
  by (metis set_flatten set_empty)

lemma without_one: "without_indexes [grp] bl =
    (let rest = filter (\<lambda>i. i \<notin> set bl) grp in if rest = [] then [] else [rest])"
  by (simp add: without_indexes_def)

lemma filter_out_shorter:
  "bl \<noteq> [] \<Longrightarrow> set bl \<subseteq> set xs \<Longrightarrow> length (filter (\<lambda>i. i \<notin> set bl) xs) < length xs"
  by (cases bl) (auto intro: length_filter_less)

lemma outcome_cases:
  obtains outcome where "x = Inr outcome"
  | err bl where "x = Inl err" "as_violation err = Some bl"
  | err where "x = Inl err" "as_violation err = None" "transient h err" "0 < (n :: nat)"
  | err where "x = Inl err" "as_violation err = None" "transient h err" "n = 0"
  | err where "x = Inl err" "as_violation err = None" "\<not> transient h err"
proof (cases x)
  case (Inl err)
  then show thesis using that
    by (cases "as_violation err"; cases "transient h err"; cases "n = 0") auto
qed (use that in blast)

text \<open>
  The recursion over the prefix of a group returns: a blocked suffix leaves a shorter group, since
  a violation names messages of the attempt.
\<close>

lemma ordered_runs:
  assumes "tx_atomic h" "no_foreign_violation h"
  shows "\<exists>b w'. ordered h msgs grp known failed w = Some (b, w') \<and> ordereds h msgs grp known failed w b w'"
proof (induction "(grp, known, failed, w)" arbitrary: grp known failed w
    rule: wf_induct_rule [OF wf_measures [of "[\<lambda>(g, k, f, w). length g, \<lambda>(g, k, f, w). budget w,
      \<lambda>(g, k, f, w). if k = None then 1 else 0]"]])
  case (1 grp known failed w)
  note ih = "1.hyps"
  note eq = ordered.simps [of h msgs grp known failed w]
  show ?case
  proof (cases known)
    case None
    obtain x st evs where a: "attempt h msgs grp (dbs w, trace w) = (x, st, evs)"
      by (cases "attempt h msgs grp (dbs w, trace w)")
    consider (empty) "grp = []" | (ok) outcome where "grp \<noteq> []" "x = Inr outcome"
      | (viol) err bl where "grp \<noteq> []" "x = Inl err" "as_violation err = Some bl"
      | (again) err where "grp \<noteq> []" "x = Inl err" "as_violation err = None" "transient h err" "0 < budget w"
      | (out) err where "grp \<noteq> []" "x = Inl err" "as_violation err = None" "transient h err" "budget w = 0"
      | (bad) err where "grp \<noteq> []" "x = Inl err" "as_violation err = None" "\<not> transient h err"
      by (rule outcome_cases [where x = x and h = h and n = "budget w"]) blast+
    then show ?thesis
    proof cases
      case empty
      then show ?thesis using None eq ordereds.empty by fastforce
    next
      case ok
      then show ?thesis using None eq a ordereds.commit [of grp h msgs w outcome st evs] by auto
    next
      case viol
      let ?w = "(after_attempt w st evs)\<lparr>results := block h bl (results w)\<rparr>"
      let ?rest = "filter (\<lambda>i. i \<notin> set bl) grp"
      have "bl \<noteq> [] \<and> set bl \<subseteq> set grp"
        using attempt_violation [OF assms a [unfolded viol(2)] viol(3)] by blast
      then have "length ?rest < length grp" using filter_out_shorter by blast
      then obtain b w' where r: "ordered h msgs ?rest None True ?w = Some (b, w')"
        "ordereds h msgs ?rest None True ?w b w'" using ih [of ?rest None True ?w] by auto
      show ?thesis
      proof (cases "?rest = []")
        case True
        then have "b = True" "w' = ?w" using r(1) by (simp_all add: ordered.simps [of h msgs "[]"])
        then show ?thesis using None eq a viol r(2) True ordereds.blocked [of grp h msgs w err st evs bl]
          by (auto simp: without_one)
      next
        case False
        then show ?thesis using None eq a viol r ordereds.blocked [of grp h msgs w err st evs bl]
          by (auto simp: without_one)
      qed
    next
      case again
      let ?w = "(after_attempt w st evs)\<lparr>budget := budget w - 1\<rparr>"
      obtain b w' where "ordered h msgs grp None failed ?w = Some (b, w')"
        "ordereds h msgs grp None failed ?w b w'" using ih [of grp None failed ?w] again None by auto
      then show ?thesis using None eq a again ordereds.retry [of grp h msgs w err st evs] by auto
    next
      case out
      then show ?thesis using None eq a ordereds.exhausted [of grp h msgs w err st evs] by auto
    next
      case bad
      let ?w = "after_attempt w st evs"
      obtain b w' where "ordered h msgs grp (Some err) failed ?w = Some (b, w')"
        "ordereds h msgs grp (Some err) failed ?w b w'" using ih [of grp "Some err" failed ?w] None by auto
      then show ?thesis using None eq a bad ordereds.fails [of grp h msgs w err st evs] by auto
    qed
  next
    case (Some err)
    consider (one) i where "grp = [i]" | (nil) "grp = []" | (many) "2 \<le> length grp"
      by (cases grp; cases "tl grp") auto
    then show ?thesis
    proof cases
      case one
      then show ?thesis using Some eq ordereds.single by fastforce
    next
      case nil
      have e: "ordered h msgs [] None False w' = Some (False, w')" for w'
        by (simp add: ordered.simps [of h msgs "[]"])
      have "ordereds h msgs [] (Some err) failed w (False \<or> failed)
          (w\<lparr>trace := trace w @ [OnBisect 0 1 err]\<rparr>)"
        using ordereds.suffix [of "[]" h msgs w err "w\<lparr>trace := trace w @ [OnBisect 0 1 err]\<rparr>" False]
          ordereds.empty [of h msgs False] by simp
      then show ?thesis using nil Some eq e by auto
    next
      case many
      let ?w = "w\<lparr>trace := trace w @ [OnBisect (length grp) 1 err]\<rparr>"
      let ?l = "take (length grp div 2) grp" and ?r = "drop (length grp div 2) grp"
      obtain b w1 where l: "ordered h msgs ?l None False ?w = Some (b, w1)" "ordereds h msgs ?l None False ?w b w1"
        using ih [of ?l None False ?w] middle_bounds [OF many] by auto
      obtain b' w' where r: "ordered h msgs ?r None False w1 = Some (b', w')" "ordereds h msgs ?r None False w1 b' w'"
        using ih [of ?r None False w1] middle_bounds [OF many] by auto
      show ?thesis using Some eq many l r ordereds.prefix [of grp h msgs w err w1]
        ordereds.suffix [of grp h msgs w err w1 b' w'] by (cases b) (auto simp: Let_def)
    qed
  qed
qed

lemma bisect_groups_runs:
  assumes "tx_atomic h" "no_foreign_violation h"
  shows "\<exists>w'. bisect_groups h msgs groups w = Some w' \<and> group_bisects h msgs groups w w'"
proof (induction "(groups, w)" arbitrary: groups w
    rule: wf_induct_rule [OF wf_measures [of "[\<lambda>(g, w). length (concat g), \<lambda>(g, w). length g,
      \<lambda>(g, w). budget w]"]])
  case (1 groups w)
  note ih = "1.hyps"
  note eq = bisect_groups.simps [of h msgs groups w]
  let ?ixs = "flatten_groups groups"
  obtain x st evs where a: "attempt h msgs ?ixs (dbs w, trace w) = (x, st, evs)"
    by (cases "attempt h msgs ?ixs (dbs w, trace w)")
  consider (empty) "?ixs = []" | (ok) outcome where "?ixs \<noteq> []" "x = Inr outcome"
    | (viol) err bl where "?ixs \<noteq> []" "x = Inl err" "as_violation err = Some bl"
    | (again) err where "?ixs \<noteq> []" "x = Inl err" "as_violation err = None" "transient h err" "0 < budget w"
    | (out) err where "?ixs \<noteq> []" "x = Inl err" "as_violation err = None" "transient h err" "budget w = 0"
    | (bad) err where "?ixs \<noteq> []" "x = Inl err" "as_violation err = None" "\<not> transient h err"
    by (rule outcome_cases [where x = x and h = h and n = "budget w"]) blast+
  then show ?case
  proof cases
    case empty
    then show ?thesis using eq group_bisects.empty by (auto simp: Let_def)
  next
    case ok
    then show ?thesis using eq a group_bisects.commit [of groups h msgs w outcome st evs]
      by (auto simp: Let_def)
  next
    case viol
    let ?w = "(after_attempt w st evs)\<lparr>results := block h bl (results w)\<rparr>"
    have "bl \<noteq> [] \<and> set bl \<subseteq> set (concat groups)"
      using attempt_violation [OF assms a [unfolded viol(2)] viol(3)] by simp
    then have "length (concat (without_indexes groups bl)) < length (concat groups)"
      unfolding concat_without using filter_out_shorter by blast
    then obtain w' where "bisect_groups h msgs (without_indexes groups bl) ?w = Some w'"
      "group_bisects h msgs (without_indexes groups bl) ?w w'"
      using ih [of "without_indexes groups bl" ?w] by auto
    then show ?thesis using eq a viol group_bisects.blocked [of groups h msgs w err st evs bl]
      by (auto simp: Let_def)
  next
    case again
    let ?w = "(after_attempt w st evs)\<lparr>budget := budget w - 1\<rparr>"
    obtain w' where "bisect_groups h msgs groups ?w = Some w'" "group_bisects h msgs groups ?w w'"
      using ih [of groups ?w] again by auto
    then show ?thesis using eq a again group_bisects.retry [of groups h msgs w err st evs]
      by (auto simp: Let_def)
  next
    case out
    then show ?thesis using eq a group_bisects.exhausted [of groups h msgs w err st evs]
      by (auto simp: Let_def)
  next
    case bad
    show ?thesis
    proof (cases "length groups = 1")
      case True
      then obtain grp where one: "groups = [grp]" by (auto simp: length_Suc_conv)
      obtain b w' where "ordered h msgs grp (Some err) False (after_attempt w st evs) = Some (b, w')"
        "ordereds h msgs grp (Some err) False (after_attempt w st evs) b w'"
        using ordered_runs [OF assms] by blast
      then show ?thesis using eq a one bad group_bisects.one [of grp h msgs w err st evs]
        by (auto simp: Let_def)
    next
      case False
      then have two: "2 \<le> length groups" using bad(1)
        by (cases groups) (auto simp: flatten_empty Suc_le_eq)
      let ?w = "after_attempt w st (evs @ [OnBisect (length ?ixs) (length groups) err])"
      let ?l = "take (length groups div 2) groups" and ?r = "drop (length groups div 2) groups"
      have parts: "length (concat ?l) + length (concat ?r) = length (concat groups)"
        by (metis append_take_drop_id concat_append length_append)
      then have less: "length (concat ?l) \<le> length (concat groups)" "length (concat ?r) \<le> length (concat groups)"
        by linarith+
      obtain w1 where l: "bisect_groups h msgs ?l ?w = Some w1" "group_bisects h msgs ?l ?w w1"
        using ih [of ?l ?w] middle_bounds [OF two] less by (auto simp: le_less)
      obtain w' where r: "bisect_groups h msgs ?r w1 = Some w'" "group_bisects h msgs ?r w1 w'"
        using ih [of ?r w1] middle_bounds [OF two] less by (auto simp: le_less)
      show ?thesis using eq a bad False l r group_bisects.split [of groups h msgs w err st evs w1 w']
        by (auto simp: Let_def)
    qed
  qed
qed
section \<open>What the recursions keep\<close>

locale group_invariant = attempt_invariant h msgs Inv
  for h :: "('m, 'd, 'e) in_tx" and msgs :: "'m list"
    and Inv :: "nat set \<Rightarrow> result list \<Rightarrow> ('d, 'e) tx_state \<Rightarrow> bool" +
  assumes violation_inside: "Inv D rs st \<Longrightarrow> attempt h msgs ixs (st, evs) = (Inl err, st', evs') \<Longrightarrow>
      as_violation err = Some bl \<Longrightarrow> set bl \<subseteq> set ixs"
begin

text \<open>Blocking a part of the call, then running on what is left.\<close>

lemma block_pending:
  assumes p: "pending Inv msgs D ixs w" and bl: "set bl \<subseteq> set ixs" "distinct rest" "set rest = set ixs - set bl"
  shows "pending Inv msgs (D \<union> set bl) rest (w\<lparr>results := block h bl (results w)\<rparr>)"
proof -
  have "set bl \<inter> D = {}" "set bl \<subseteq> {..<length msgs}" using p bl(1) by (auto simp: pending_def)
  moreover have "Inv D (results w) (dbs w)" "length (results w) = length msgs"
    using p by (simp_all add: pending_def)
  ultimately have "Inv (D \<union> set bl) (block h bl (results w)) (dbs w)"
    unfolding block_def by (intro refuse) simp_all
  moreover have "set rest \<inter> (D \<union> set bl) = {}" "set rest \<subseteq> {..<length msgs}"
    using p bl(3) by (auto simp: pending_def)
  ultimately show ?thesis using p bl(2) by (simp add: pending_def block_def)
qed

lemma block_then:
  assumes p: "pending Inv msgs D ixs w" and bl: "set bl \<subseteq> set ixs" "distinct rest" "set rest = set ixs - set bl"
    and run: "\<And>w1. w1 = w\<lparr>results := block h bl (results w)\<rparr> \<Longrightarrow> pending Inv msgs (D \<union> set bl) rest w1 \<Longrightarrow>
      settled Inv msgs (D \<union> set bl) (set rest) w1 w'"
  shows "settled Inv msgs D (set ixs) w w'"
proof -
  let ?w1 = "w\<lparr>results := block h bl (results w)\<rparr>"
  have "pending Inv msgs (D \<union> set bl) rest ?w1" by (rule block_pending [OF p bl])
  then have "settled Inv msgs (D \<union> set bl) (set rest) ?w1 w'" using run by simp
  moreover have "D \<union> set bl \<union> set rest = D \<union> set ixs" using bl by blast
  moreover have "results ?w1 ! i = results w ! i" if "i \<notin> set ixs" for i
    using that bl by (auto simp: block_def intro!: nth_put_all_out)
  ultimately show ?thesis
    using bl(1) by (auto simp: settled_def bl(3))
qed

lemma ordereds_settle:
  assumes "ordereds h msgs grp known failed w b w'" "pending Inv msgs D grp w"
  shows "settled Inv msgs D (set grp) w w'"
  using assms
proof (induction arbitrary: D rule: ordereds.induct)
  case (empty failed w)
  then show ?case by (simp add: pending_def settled_def)
next
  case (commit grp w outcome st evs failed)
  then show ?case using commit_settles by simp
next
  case (blocked grp w err st evs bl b w' failed)
  have in_grp: "set bl \<subseteq> set grp"
    using violation_inside [OF _ blocked.hyps(2,3)] blocked.prems unfolding pending_def by blast
  have "settled Inv msgs D (set grp) (after_attempt w st evs) w'"
  proof (rule block_then [OF failure_pending [OF blocked.prems blocked.hyps(2)] in_grp])
    show "distinct (filter (\<lambda>i. i \<notin> set bl) grp)" using blocked.prems by (simp add: pending_def)
  qed (use blocked.IH in auto)
  then show ?case by (simp add: pending_w)
next
  case (retry grp w err st evs b w' failed)
  then show ?case using failure_pending [OF retry.prems retry.hyps(2)] by (simp add: pending_w)
next
  case (exhausted grp w err st evs failed)
  then show ?case
    using refuse_settles [OF failure_pending [OF exhausted.prems exhausted.hyps(2)], of "transient_result h err" evs]
    by (simp add: pending_w)
next
  case (fails grp w err st evs failed b w')
  then show ?case using failure_pending [OF fails.prems fails.hyps(2)] by (simp add: pending_w)
next
  case (single i err failed w)
  then show ?case using refuse_settles [OF single.prems, of "Nak err"] by simp
next
  case (prefix grp w err w1 failed)
  let ?l = "take (length grp div 2) grp" and ?r = "drop (length grp div 2) grp"
  have p: "pending Inv msgs D (?l @ ?r) w" using prefix.prems by simp
  have s: "settled Inv msgs D (set ?l) w w1"
    using prefix.IH [of D] pending_part [OF p] by (simp add: pending_w)
  show ?case
    using settled_then(2) [OF p s refuse_settles [OF settled_then(1) [OF p s]]]
    by (simp add: block_def)
next
  case (suffix grp w err w1 b w' failed)
  let ?l = "take (length grp div 2) grp" and ?r = "drop (length grp div 2) grp"
  have p: "pending Inv msgs D (?l @ ?r) w" using suffix.prems by simp
  have s: "settled Inv msgs D (set ?l) w w1"
    using suffix.IH(1) [of D] pending_part [OF p] by (simp add: pending_w)
  show ?case
    using settled_then(2) [OF p s suffix.IH(2) [OF settled_then(1) [OF p s]]] by simp
qed

lemma group_bisects_settle:
  assumes "group_bisects h msgs groups w w'" "pending Inv msgs D (concat groups) w"
  shows "settled Inv msgs D (set (concat groups)) w w'"
  using assms
proof (induction arbitrary: D rule: group_bisects.induct)
  case (empty groups w)
  then have "concat groups = []" by (simp only: flatten_empty)
  then show ?case using empty.prems by (simp only: pending_def settled_def list.set) simp
next
  case (commit groups w outcome st evs)
  have "pending Inv msgs D (flatten_groups groups) w"
    using commit.prems by (rule pending_set) (use commit.prems in \<open>simp_all add: flatten_groups_def pending_def\<close>)
  from commit_settles [OF this commit.hyps(2)] show ?case by simp
next
  case (blocked groups w err st evs bl w')
  have inside: "set bl \<subseteq> set (concat groups)"
    using violation_inside [OF _ blocked.hyps(2,3)] blocked.prems unfolding pending_def
    by (metis set_flatten)
  have "settled Inv msgs D (set (concat groups)) (after_attempt w st evs) w'"
  proof (rule block_then [OF failure_pending [OF blocked.prems blocked.hyps(2)] inside])
    show "distinct (concat (without_indexes groups bl))"
      using blocked.prems by (simp add: concat_without pending_def)
    show "set (concat (without_indexes groups bl)) = set (concat groups) - set bl"
      by (auto simp only: concat_without set_filter)
  qed (use blocked.IH in auto)
  then show ?case by (simp add: pending_w)
next
  case (retry groups w err st evs w')
  then show ?case using failure_pending [OF retry.prems retry.hyps(2)] by (simp add: pending_w)
next
  case (exhausted groups w err st evs)
  have "pending Inv msgs D (flatten_groups groups) w"
    using exhausted.prems
    by (rule pending_set) (use exhausted.prems in \<open>simp_all add: flatten_groups_def pending_def\<close>)
  from refuse_settles [OF failure_pending [OF this exhausted.hyps(2)], of "transient_result h err" evs]
  show ?case by (simp add: pending_w)
next
  case (one grp w err st evs b w')
  then show ?case
    using ordereds_settle [OF one.hyps(5) failure_pending [OF _ one.hyps(2)]] by (simp add: pending_w)
next
  case (split groups w err st evs w1 w')
  let ?l = "take (length groups div 2) groups" and ?r = "drop (length groups div 2) groups"
  have cat: "concat ?l @ concat ?r = concat groups" by (metis append_take_drop_id concat_append)
  have p: "pending Inv msgs D (concat ?l @ concat ?r) w" using split.prems cat by simp
  have s: "settled Inv msgs D (set (concat ?l)) w w1"
    using split.IH(1) [of D] failure_pending [OF pending_part [OF p] split.hyps(3)] by (simp add: pending_w)
  show ?case
    using settled_then(2) [OF p s split.IH(2) [OF settled_then(1) [OF p s]]] cat by simp
qed

end
section \<open>Order of the results\<close>

text \<open>
  \<open>order_ok\<close>: before an acknowledged settled message, every message with its order key
  is settled and acknowledged. \<open>ready\<close>: the earlier messages of the same order key are
  part of the call, or settled and acknowledged.
\<close>

definition order_ok :: "('m \<Rightarrow> string) \<Rightarrow> 'm list \<Rightarrow> nat set \<Rightarrow> result list \<Rightarrow> bool" where
  "order_ok okey msgs D rs \<longleftrightarrow>
     (\<forall>j \<in> D. acked (rs ! j) \<longrightarrow>
        (\<forall>i < j. okey (msgs ! i) = okey (msgs ! j) \<longrightarrow> i \<in> D \<and> acked (rs ! i)))"

definition ready :: "('m \<Rightarrow> string) \<Rightarrow> 'm list \<Rightarrow> nat set \<Rightarrow> result list \<Rightarrow> nat set \<Rightarrow> bool" where
  "ready okey msgs D rs A \<longleftrightarrow>
     (\<forall>j \<in> A. \<forall>i < j. okey (msgs ! i) = okey (msgs ! j) \<longrightarrow> i \<in> A \<or> i \<in> D \<and> acked (rs ! i))"

lemma order_ok_extend:
  assumes "order_ok okey msgs D rs" "\<And>i. i \<in> D \<Longrightarrow> rs' ! i = rs ! i"
    and "\<And>i j. j \<in> A \<Longrightarrow> acked (rs' ! j) \<Longrightarrow> i < j \<Longrightarrow> okey (msgs ! i) = okey (msgs ! j) \<Longrightarrow>
      i \<in> A \<and> acked (rs' ! i) \<or> i \<in> D \<and> acked (rs ! i)"
  shows "order_ok okey msgs (D \<union> A) rs'"
  using assms unfolding order_ok_def by (metis UnE UnI1 UnI2)

lemma order_ok_refuse:
  assumes "order_ok okey msgs D rs" "A \<inter> D = {}" "\<And>i. i \<notin> A \<Longrightarrow> rs' ! i = rs ! i"
    and "\<And>i. i \<in> A \<Longrightarrow> \<not> acked (rs' ! i)"
  shows "order_ok okey msgs (D \<union> A) rs'"
  by (rule order_ok_extend [OF assms(1)]) (use assms in auto)

lemma put_refused:
  "A \<subseteq> {..<length rs} \<Longrightarrow> set ixs = A \<Longrightarrow> \<not> acked r \<Longrightarrow> i \<in> A \<Longrightarrow> \<not> acked (put_all (\<lambda>_. r) ixs rs ! i)"
  by (auto simp: nth_put_all)

text \<open>The groups of a call: sorted, and each holds every message of the call with its keys.\<close>

definition key_closed :: "('m \<Rightarrow> string) \<Rightarrow> 'm list \<Rightarrow> nat list list \<Rightarrow> bool" where
  "key_closed okey msgs groups \<longleftrightarrow>
     (\<forall>g \<in> set groups. sorted g \<and>
        (\<forall>i \<in> set g. \<forall>j \<in> set (concat groups). okey (msgs ! j) = okey (msgs ! i) \<longrightarrow> j \<in> set g))"

lemma key_closed_sub:
  assumes "key_closed okey msgs groups" "set gs \<subseteq> set groups"
  shows "key_closed okey msgs gs"
proof -
  have "set (concat gs) \<subseteq> set (concat groups)" using assms(2) by auto
  then show ?thesis using assms unfolding key_closed_def by blast
qed

lemma key_closed_without:
  assumes c: "key_closed okey msgs groups"
  shows "key_closed okey msgs (without_indexes groups bl)"
  unfolding key_closed_def
proof
  fix g assume "g \<in> set (without_indexes groups bl)"
  then obtain g0 where g: "g0 \<in> set groups" "g = filter (\<lambda>i. i \<notin> set bl) g0"
    by (auto simp: without_indexes_def)
  have "j \<in> set g" if "i \<in> set g" "j \<in> set (filter (\<lambda>i. i \<notin> set bl) (concat groups))"
    "okey (msgs ! j) = okey (msgs ! i)" for i j
  proof -
    have "j \<in> set (concat groups)" "j \<notin> set bl" "i \<in> set g0" using that g by auto
    then have "j \<in> set g0" using c g(1) that(3) unfolding key_closed_def by blast
    then show ?thesis using \<open>j \<notin> set bl\<close> by (simp add: g(2))
  qed
  moreover have "sorted g0" using c g(1) unfolding key_closed_def by blast
  then have "sorted g" by (simp add: g(2) sorted_wrt_filter)
  ultimately show "sorted g \<and> (\<forall>i \<in> set g. \<forall>j \<in> set (concat (without_indexes groups bl)).
      okey (msgs ! j) = okey (msgs ! i) \<longrightarrow> j \<in> set g)"
    unfolding concat_without by blast
qed

lemma ready_part:
  assumes "key_closed okey msgs groups" "ready okey msgs D rs (set (concat groups))"
    and "set gs \<subseteq> set groups"
  shows "ready okey msgs D rs (set (concat gs))"
  unfolding ready_def
proof (intro ballI allI impI)
  fix j i assume j: "j \<in> set (concat gs)" and i: "i < j" "okey (msgs ! i) = okey (msgs ! j)"
  then obtain g where g: "g \<in> set gs" "j \<in> set g" by auto
  have "j \<in> set (concat groups)" using j assms(3) by auto
  then have "i \<in> set (concat groups) \<or> i \<in> D \<and> acked (rs ! i)"
    using assms(2) i unfolding ready_def by blast
  then show "i \<in> set (concat gs) \<or> i \<in> D \<and> acked (rs ! i)"
  proof
    assume "i \<in> set (concat groups)"
    then have "i \<in> set g" using assms(1,3) g i(2) unfolding key_closed_def by blast
    then show ?thesis using g(1) by auto
  qed blast
qed

lemma ready_rest:
  assumes "ready okey msgs D rs (set ixs)" "\<And>i. i \<in> D \<Longrightarrow> rs' ! i = rs ! i"
    and "\<forall>i \<in> set bl. \<forall>j \<in> set ixs. i < j \<and> okey (msgs ! i) = okey (msgs ! j) \<longrightarrow> j \<in> set bl"
  shows "ready okey msgs (D \<union> set bl) rs' (set ixs - set bl)"
  using assms unfolding ready_def by (metis DiffD1 DiffD2 DiffI UnI1)

lemma ready_grow:
  assumes "ready okey msgs D rs B" "\<And>i. i \<in> D \<Longrightarrow> rs' ! i = rs ! i"
  shows "ready okey msgs (D \<union> A) rs' B"
  using assms unfolding ready_def by (metis UnI1)

lemma sorted_halves:
  assumes "sorted (xs @ ys)" "distinct (xs @ ys)" "ready okey msgs D rs (set (xs @ ys))"
  shows "ready okey msgs D rs (set xs)"
    and "\<And>rs'. (\<And>i. i \<in> D \<Longrightarrow> rs' ! i = rs ! i) \<Longrightarrow> \<forall>i \<in> set xs. acked (rs' ! i) \<Longrightarrow>
      ready okey msgs (D \<union> set xs) rs' (set ys)"
proof -
  have "i \<in> set xs" if "j \<in> set xs" "i < j" "i \<in> set (xs @ ys)" for i j
    using that assms(1) by (fastforce simp: sorted_append)
  then show "ready okey msgs D rs (set xs)"
    using assms(3) unfolding ready_def by (metis UnI1 set_append)
  fix rs' assume "\<And>i. i \<in> D \<Longrightarrow> rs' ! i = rs ! i" "\<forall>i \<in> set xs. acked (rs' ! i)"
  then show "ready okey msgs (D \<union> set xs) rs' (set ys)"
    using assms(3) unfolding ready_def by (metis Un_iff set_append)
qed

locale order_invariant = group_invariant h msgs Inv
  for h :: "('m, 'd, 'e) in_tx" and msgs :: "'m list"
    and Inv :: "nat set \<Rightarrow> result list \<Rightarrow> ('d, 'e) tx_state \<Rightarrow> bool" +
  assumes all_taken: "Inv D rs st \<Longrightarrow> set ixs \<inter> D = {} \<Longrightarrow> distinct ixs \<Longrightarrow>
      set ixs \<subseteq> {..<length msgs} \<Longrightarrow> takes_all h msgs ixs st"
    and atomic: "Inv D rs st \<Longrightarrow> tx_atomic h \<and> no_foreign_violation h"
begin

lemma commit_order:
  assumes p: "pending Inv msgs D ixs w" and "order_key h = Some okey" and "sorted ixs"
    and a: "attempt h msgs ixs (dbs w, trace w) = (Inr outcome, st, evs)"
    and o: "order_ok okey msgs D (results w)" "ready okey msgs D (results w) (set ixs)"
  shows "order_ok okey msgs (D \<union> set ixs) (record_outcome ixs outcome (results w))"
proof -
  have "in_order okey msgs ixs outcome"
    using attempt_in_order [OF _ a assms(2)] p assms(3) atomic all_taken unfolding pending_def by blast
  then have order: "acked (recorded outcome i)"
    if "i \<in> set ixs" "j \<in> set ixs" "i < j" "okey (msgs ! i) = okey (msgs ! j)"
      "acked (recorded outcome j)" for i j
    using that unfolding in_order_def by blast
  have new: "record_outcome ixs outcome (results w) ! i = recorded outcome i" if "i \<in> set ixs" for i
    using that p by (auto simp: pending_def record_outcome_nth)
  show ?thesis
  proof (rule order_ok_extend [OF o(1)])
    show "record_outcome ixs outcome (results w) ! i = results w ! i" if "i \<in> D" for i
      using that p by (auto simp: pending_def record_outcome_def intro!: nth_put_all_out)
    show "i \<in> set ixs \<and> acked (record_outcome ixs outcome (results w) ! i) \<or> i \<in> D \<and> acked (results w ! i)"
      if "j \<in> set ixs" "acked (record_outcome ixs outcome (results w) ! j)" "i < j"
        "okey (msgs ! i) = okey (msgs ! j)" for i j
      using o(2) order [of i j] new that unfolding ready_def by metis
  qed
qed

text \<open>A violation blocks the later messages of a key, and leaves a call that is still ready.\<close>

lemma violation_order:
  assumes p: "pending Inv msgs D ixs w" and "order_key h = Some okey"
    and a: "attempt h msgs ixs' (dbs w, trace w) = (Inl err, st, evs)" "as_violation err = Some bl"
    and ixs': "set ixs' = set ixs" "sorted ixs'" "distinct ixs'"
    and o: "order_ok okey msgs D (results w)" "ready okey msgs D (results w) (set ixs)"
  shows "order_ok okey msgs (D \<union> set bl) (block h bl (results w))"
    and "ready okey msgs (D \<union> set bl) (block h bl (results w)) (set ixs - set bl)"
    and "set bl \<subseteq> set ixs"
proof -
  have "tx_atomic h" "no_foreign_violation h" "takes_all h msgs ixs' (dbs w)"
    using p ixs' atomic all_taken by (auto simp: pending_def)
  from attempt_violation [OF this(1,2) a] this(3) ixs' assms(2)
  have up: "\<forall>i \<in> set bl. \<forall>j \<in> set ixs. i < j \<and> okey (msgs ! i) = okey (msgs ! j) \<longrightarrow> j \<in> set bl"
    and "set bl \<subseteq> set ixs" by auto
  then show "set bl \<subseteq> set ixs" by blast
  have agree: "block h bl (results w) ! i = results w ! i" if "i \<notin> set bl" for i
    using that by (simp add: block_def nth_put_all_out)
  show "order_ok okey msgs (D \<union> set bl) (block h bl (results w))"
  proof (rule order_ok_refuse [OF o(1) _ agree])
    show "set bl \<inter> D = {}" using \<open>set bl \<subseteq> set ixs\<close> p by (auto simp: pending_def)
    show "\<not> acked (block h bl (results w) ! i)" if "i \<in> set bl" for i
      using that \<open>set bl \<subseteq> set ixs\<close> p by (auto simp: block_def pending_def nth_put_all)
  qed
  have "i \<notin> set bl" if "i \<in> D" for i using that \<open>set bl \<subseteq> set ixs\<close> p by (auto simp: pending_def)
  then show "ready okey msgs (D \<union> set bl) (block h bl (results w)) (set ixs - set bl)"
    using ready_rest [OF o(2) _ up, of "block h bl (results w)"] agree by blast
qed

lemma failure_order:
  "pending Inv msgs D ixs w \<Longrightarrow> order_ok okey msgs D (results w) \<Longrightarrow> set ixs' = set ixs \<Longrightarrow> \<not> acked r \<Longrightarrow>
     order_ok okey msgs (D \<union> set ixs) (put_all (\<lambda>_. r) ixs' (results w))"
  by (rule order_ok_refuse) (auto simp: pending_def nth_put_all nth_put_all_out subset_iff)

end

section \<open>The recursions keep the order\<close>

context order_invariant
begin

lemma ordereds_order:
  assumes "ordereds h msgs grp known failed w b w'" "order_key h = Some okey"
    and "pending Inv msgs D grp w" "sorted grp"
    and "order_ok okey msgs D (results w)" "ready okey msgs D (results w) (set grp)"
  shows "order_ok okey msgs (D \<union> set grp) (results w') \<and>
    (\<not> b \<longrightarrow> \<not> failed \<and> (\<forall>i \<in> set grp. acked (results w' ! i)))"
  using assms
proof (induction arbitrary: D rule: ordereds.induct)
  case (empty failed w)
  then show ?case by simp
next
  case (commit grp w outcome st evs failed)
  have "\<forall>i \<in> set grp. acked (record_outcome grp outcome (results w) ! i)" if "\<not> failed_in grp outcome"
    using that commit.prems
    by (auto simp: failed_in_def list_ex_iff pending_def record_outcome_nth recorded_def split: option.splits)
  then show ?case
    using commit_order [OF commit.prems(2,1,3) commit.hyps(2) commit.prems(4,5)] by auto
next
  case (blocked grp w err st evs bl b w' failed)
  let ?rest = "filter (\<lambda>i. i \<notin> set bl) grp"
  let ?w1 = "(after_attempt w st evs)\<lparr>results := block h bl (results w)\<rparr>"
  have "distinct grp" using blocked.prems(2) by (simp add: pending_def)
  note viol = violation_order [OF blocked.prems(2,1) blocked.hyps(2,3) refl blocked.prems(3) this
      blocked.prems(4,5)]
  have rest: "set ?rest = set grp - set bl" by auto
  have pend: "pending Inv msgs (D \<union> set bl) ?rest ?w1"
    using block_pending [OF failure_pending [OF blocked.prems(2) blocked.hyps(2)] viol(3) _ rest]
      \<open>distinct grp\<close> by simp
  have "order_ok okey msgs (D \<union> set bl \<union> set ?rest) (results w') \<and>
      (\<not> b \<longrightarrow> \<not> True \<and> (\<forall>i \<in> set ?rest. acked (results w' ! i)))"
    by (rule blocked.IH [OF blocked.prems(1) pend])
      (use blocked.prems(3) viol(1,2) in \<open>simp_all add: sorted_wrt_filter rest del: set_filter\<close>)
  moreover have "D \<union> set bl \<union> set ?rest = D \<union> set grp" using rest viol(3) by blast
  ultimately show ?case by simp
next
  case (retry grp w err st evs b w' failed)
  then show ?case
    using retry.IH [of D] failure_pending [OF retry.prems(2) retry.hyps(2), of evs] by (simp add: pending_w)
next
  case (exhausted grp w err st evs failed)
  then show ?case
    using failure_order [OF exhausted.prems(2,4) refl, of "transient_result h err"] by simp
next
  case (fails grp w err st evs failed b w')
  then show ?case
    using fails.IH [of D] failure_pending [OF fails.prems(2) fails.hyps(2), of evs] by simp
next
  case (single i err failed w)
  then show ?case
    using failure_order [OF single.prems(2,4) refl, of "Nak err"] by simp
next
  case (prefix grp w err w1 failed)
  let ?l = "take (length grp div 2) grp" and ?r = "drop (length grp div 2) grp"
  have p: "pending Inv msgs D (?l @ ?r) w" using prefix.prems by simp
  have s: "settled Inv msgs D (set ?l) w w1"
    using ordereds_settle [OF prefix.hyps(2), of D] pending_part [OF p] by (simp add: pending_w)
  have "ready okey msgs D (results w) (set ?l)"
    by (rule sorted_halves(1) [of ?l ?r]) (use prefix.prems in \<open>simp_all add: pending_def\<close>)
  then have l: "order_ok okey msgs (D \<union> set ?l) (results w1)"
    using prefix.IH [of D] pending_part [OF p] prefix.prems by (simp add: pending_w sorted_wrt_take)
  have "order_ok okey msgs (D \<union> set ?l \<union> set ?r) (block h ?r (results w1))"
    using failure_order [OF settled_then(1) [OF p s] l refl] by (simp add: block_def)
  then show ?case by (simp add: Un_assoc set_take_drop)
next
  case (suffix grp w err w1 b w' failed)
  let ?l = "take (length grp div 2) grp" and ?r = "drop (length grp div 2) grp"
  have p: "pending Inv msgs D (?l @ ?r) w" using suffix.prems by simp
  have s: "settled Inv msgs D (set ?l) w w1"
    using ordereds_settle [OF suffix.hyps(2), of D] pending_part [OF p] by (simp add: pending_w)
  have halves: "sorted (?l @ ?r)" "distinct (?l @ ?r)" "ready okey msgs D (results w) (set (?l @ ?r))"
    using suffix.prems by (simp_all add: pending_def)
  have l: "order_ok okey msgs (D \<union> set ?l) (results w1)" "\<forall>i \<in> set ?l. acked (results w1 ! i)"
    using suffix.IH(1) [of D] pending_part [OF p] suffix.prems sorted_halves(1) [OF halves]
    by (simp_all add: pending_w sorted_wrt_take)
  have agree: "results w1 ! i = results w ! i" if "i \<in> D" for i
    by (rule settled_agree [OF p s that])
  have r: "order_ok okey msgs (D \<union> set ?l \<union> set ?r) (results w') \<and>
      (\<not> b \<longrightarrow> \<not> False \<and> (\<forall>i \<in> set ?r. acked (results w' ! i)))"
    by (rule suffix.IH(2) [OF suffix.prems(1) settled_then(1) [OF p s] _ l(1)
          sorted_halves(2) [OF halves agree l(2)]])
      (use suffix.prems in \<open>simp_all add: sorted_wrt_drop\<close>)
  have "settled Inv msgs (D \<union> set ?l) (set ?r) w1 w'"
    by (rule ordereds_settle [OF suffix.hyps(3) settled_then(1) [OF p s]])
  then have "\<forall>i \<in> set ?l. acked (results w' ! i)"
    using l(2) settled_agree [of Inv msgs "D \<union> set ?l" ?r "[]" w1 w'] settled_then(1) [OF p s] by simp
  then show ?case using r
    by (simp add: Un_assoc set_take_drop) (metis UnE set_take_drop)
qed

lemma group_bisects_order:
  assumes "group_bisects h msgs groups w w'" "order_key h = Some okey"
    and "pending Inv msgs D (concat groups) w" "key_closed okey msgs groups"
    and "order_ok okey msgs D (results w)" "ready okey msgs D (results w) (set (concat groups))"
  shows "order_ok okey msgs (D \<union> set (concat groups)) (results w')"
  using assms
proof (induction arbitrary: D rule: group_bisects.induct)
  case (empty groups w)
  then have "concat groups = []" by (simp only: flatten_empty)
  then show ?case using empty.prems(4) by (simp only: list.set Un_empty_right)
next
  case (commit groups w outcome st evs)
  have p: "pending Inv msgs D (flatten_groups groups) w" "sorted (flatten_groups groups)"
    using commit.prems(2) pending_set [of Inv msgs D "concat groups" w "flatten_groups groups"]
    by (simp_all add: flatten_groups_def pending_def)
  then show ?case
    using commit_order [OF p(1) commit.prems(1) p(2) commit.hyps(2) commit.prems(4)] commit.prems(5)
    by simp
next
  case (blocked groups w err st evs bl w')
  let ?rest = "concat (without_indexes groups bl)"
  let ?w1 = "(after_attempt w st evs)\<lparr>results := block h bl (results w)\<rparr>"
  have d: "distinct (flatten_groups groups)" "sorted (flatten_groups groups)"
    using blocked.prems(2) by (simp_all add: flatten_groups_def pending_def)
  note viol = violation_order [OF blocked.prems(2,1) blocked.hyps(2,3) set_flatten d(2,1)
      blocked.prems(4,5)]
  have rest: "set ?rest = set (concat groups) - set bl" by (auto simp only: concat_without set_filter)
  have pend: "pending Inv msgs (D \<union> set bl) ?rest ?w1"
    using block_pending [OF failure_pending [OF blocked.prems(2) blocked.hyps(2)] viol(3) _ rest]
      blocked.prems(2) by (simp add: pending_def concat_without)
  have "order_ok okey msgs (D \<union> set bl \<union> set ?rest) (results w')"
    by (rule blocked.IH [OF blocked.prems(1) pend key_closed_without [OF blocked.prems(3)]])
      (use viol(1,2) rest in \<open>simp_all del: set_concat\<close>)
  moreover have "D \<union> set bl \<union> set ?rest = D \<union> set (concat groups)" using rest viol(3) by blast
  ultimately show ?case by simp
next
  case (retry groups w err st evs w')
  then show ?case
    using retry.IH [of D] failure_pending [OF retry.prems(2) retry.hyps(2), of evs] by (simp add: pending_w)
next
  case (exhausted groups w err st evs)
  then show ?case
    using failure_order [OF exhausted.prems(2,4) set_flatten, of "transient_result h err"] by simp
next
  case (one grp w err st evs b w')
  have p: "pending Inv msgs D grp (after_attempt w st evs)"
    using failure_pending [OF one.prems(2) one.hyps(2), of evs] by simp
  show ?case
    using ordereds_order [OF one.hyps(5) one.prems(1) p] one.prems by (simp add: key_closed_def)
next
  case (split groups w err st evs w1 w')
  let ?l = "take (length groups div 2) groups" and ?r = "drop (length groups div 2) groups"
  let ?w2 = "after_attempt w st (evs @ [OnBisect (length (flatten_groups groups)) (length groups) err])"
  have cat: "concat ?l @ concat ?r = concat groups" by (metis append_take_drop_id concat_append)
  have p: "pending Inv msgs D (concat ?l @ concat ?r) w" using split.prems cat by simp
  have pl: "pending Inv msgs D (concat ?l) ?w2"
    by (rule failure_pending [OF pending_part [OF p] split.hyps(3)])
  have s: "settled Inv msgs D (set (concat ?l)) w w1"
    using group_bisects_settle [OF split.hyps(6) pl] by (simp add: pending_w)
  have sub: "set ?l \<subseteq> set groups" "set ?r \<subseteq> set groups" by (simp_all add: set_take_subset set_drop_subset)
  note rd = ready_part [OF split.prems(3,5)]
  have "order_ok okey msgs (D \<union> set (concat ?l)) (results w1)"
    by (rule split.IH(1) [OF split.prems(1) pl key_closed_sub [OF split.prems(3) sub(1)]])
      (use split.prems(4) rd [OF sub(1)] in simp_all)
  moreover have agree: "results w1 ! i = results w ! i" if "i \<in> D" for i
    by (rule settled_agree [OF p s that])
  ultimately have "order_ok okey msgs (D \<union> set (concat ?l) \<union> set (concat ?r)) (results w')"
    using split.IH(2) [OF split.prems(1) settled_then(1) [OF p s] key_closed_sub [OF split.prems(3) sub(2)]]
      ready_grow [OF rd [OF sub(2)] agree] by blast
  moreover have "set (concat ?l) \<union> set (concat ?r) = set (concat groups)" by (metis cat set_append)
  ultimately show ?case by (metis Un_assoc)
qed

end

end
