(* ===== verification/Batch_Handle.thy ===== *)
theory Batch_Handle
  imports Batch_Order
begin

text \<open>
  The handler that \<^verbatim>\<open>batch.InTx\<close> builds (\<^verbatim>\<open>in_tx.go\<close>,
  \<^verbatim>\<open>default_transient.go\<close>): its construction from the options, one batch through
  it, and what one batch guarantees - it returns one result per message, loses no message, keeps the
  order of an order key, and isolates failing messages.
\<close>

section \<open>Transient errors\<close>

fun transient_sqlstate :: "string \<Rightarrow> bool" where
  "transient_sqlstate code =
     (if code \<in> {''40001'', ''40P01'', ''55P03'', ''57014'', ''57P01'', ''57P02'', ''57P03''} then True
      else if length code < 2 then False
      else take 2 code \<in> {''08'', ''53''})"

definition default_transient :: "goerr option \<Rightarrow> bool" where
  "default_transient err =
     (case err of
        None \<Rightarrow> False
      | Some e \<Rightarrow>
          if (case as_sqlstate e of Some c \<Rightarrow> transient_sqlstate c | None \<Rightarrow> False) then True
          else if errors_is e ErrBadConn \<or> errors_is e DeadlineExceeded then True
          else (case as_net_error e of Some timeout \<Rightarrow> timeout | None \<Rightarrow> False))"

section \<open>Construction\<close>

text \<open>
  The options of \<^verbatim>\<open>InTx\<close>; a nil field is \<open>None\<close>. The latest three fields are
  the database behind the transaction manager.
\<close>

record ('m, 'd, 'e) in_tx_opts =
  TxManager :: "(('d, 'e) tx_body \<Rightarrow> ('d, 'e) tx_body) option"
  Apply :: "('m list \<Rightarrow> 'd \<Rightarrow> 'e \<Rightarrow> unit ret \<times> 'd \<times> 'e) option"
  ApplyResults :: "('m list \<Rightarrow> 'd \<Rightarrow> 'e \<Rightarrow> result list ret \<times> 'd \<times> 'e) option"
  KeyOpt :: "('m \<Rightarrow> string) option"
  OrderKey :: "('m \<Rightarrow> string) option"
  NoDedup :: bool
  Transient :: "(goerr \<Rightarrow> bool) option"
  RetryBudget :: int
  TransientDelay :: duration
  db_canon :: "string \<Rightarrow> string"
  db_claim_fault :: "'e \<Rightarrow> goerr option \<times> 'e"
  db_unclaim_fault :: "'e \<Rightarrow> goerr option \<times> 'e"

definition default_retry_budget :: int where "default_retry_budget = 2"

definition new_in_tx ::
  "('m \<Rightarrow> string) \<Rightarrow> ('m, 'd, 'e) in_tx_opts \<Rightarrow> goerr + ('m, 'd, 'e) in_tx" where
  "new_in_tx default_key opts =
     (case TxManager opts of
        None \<Rightarrow> Inl (Sent ErrInvalidOpts)
      | Some tx \<Rightarrow>
          if (Apply opts = None) = (ApplyResults opts = None) then Inl (Sent ErrInvalidOpts)
          else Inr \<lparr>tx_do = tx, apply_fn = Apply opts, apply_results = ApplyResults opts,
            key_of = (case KeyOpt opts of None \<Rightarrow> default_key | Some k \<Rightarrow> k),
            order_key = OrderKey opts,
            no_dedup = NoDedup opts,
            transient = (case Transient opts of
                None \<Rightarrow> (\<lambda>e. default_transient (Some e)) | Some f \<Rightarrow> f),
            retry_budget = (if RetryBudget opts = 0 then default_retry_budget
                else if RetryBudget opts < 0 then 0 else RetryBudget opts),
            transient_delay = (if TransientDelay opts < 0 then 0 else TransientDelay opts),
            canon = db_canon opts, claim_fault = db_claim_fault opts,
            unclaim_fault = db_unclaim_fault opts\<rparr>)"

section \<open>One batch\<close>

text \<open>\<^verbatim>\<open>link\<close>: a failed message names the failed one before it with its key.\<close>

fun link_from ::
  "('m \<Rightarrow> string) \<Rightarrow> nat \<Rightarrow> (string \<rightharpoonup> nat) \<Rightarrow> 'm list \<Rightarrow> result list \<Rightarrow> result list" where
  "link_from okey i latest (msg # msgs) (r # rs) =
     (if acked r then r # link_from okey (Suc i) latest msgs rs
      else let key = okey msg;
               r' = (case latest key of None \<Rightarrow> r | Some previous \<Rightarrow> r\<lparr>after := int previous + 1\<rparr>)
           in r' # link_from okey (Suc i) (latest(key \<mapsto> i)) msgs rs)"
| "link_from okey i latest _ rs = rs"

definition link :: "('m \<Rightarrow> string) \<Rightarrow> 'm list \<Rightarrow> result list \<Rightarrow> result list" where
  "link okey msgs rs = link_from okey 0 Map.empty msgs rs"

definition handle ::
  "('m, 'd, 'e) in_tx \<Rightarrow> 'm list \<Rightarrow> ('d, 'e) tx_state \<Rightarrow> tx_event list
     \<Rightarrow> (result list \<times> ('d, 'e) tx_state \<times> tx_event list) option" where
  "handle h msgs st evs =
     (let rs = replicate (length msgs) zero_result in
      if msgs = [] then Some (rs, st, evs)
      else
        let ixs = [0..<length msgs];
            w = \<lparr>results = rs, budget = nat (retry_budget h), dbs = st, trace = evs\<rparr>
        in case order_key h of
             Some okey \<Rightarrow>
               map_option (\<lambda>w'. (link okey msgs (results w'), dbs w', trace w'))
                 (bisect_groups h msgs (groups_of msgs ixs okey) w)
           | None \<Rightarrow> map_option (\<lambda>w'. (results w', dbs w', trace w')) (bisect h msgs ixs w))"

section \<open>Links\<close>

lemma link_from_spec:
  assumes "length rs = length msgs"
  shows "length (link_from okey i latest msgs rs) = length rs \<and>
    (\<forall>n < length rs. let r = link_from okey i latest msgs rs ! n in
       verdict r = verdict (rs ! n) \<and> rdelay r = rdelay (rs ! n) \<and> rerr r = rerr (rs ! n))"
  using assms
proof (induction okey i latest msgs rs rule: link_from.induct)
  case (1 okey i latest msg msgs r rs)
  then show ?case by (auto simp: Let_def less_Suc_eq_0_disj fun_upd_def split: option.splits)
qed (simp_all add: Let_def)

lemma length_link [simp]: "length rs = length msgs \<Longrightarrow> length (link okey msgs rs) = length msgs"
  by (simp add: link_def link_from_spec)

lemma link_keeps:
  "length rs = length msgs \<Longrightarrow> n < length msgs \<Longrightarrow>
     verdict (link okey msgs rs ! n) = verdict (rs ! n) \<and>
     rdelay (link okey msgs rs ! n) = rdelay (rs ! n) \<and> rerr (link okey msgs rs ! n) = rerr (rs ! n)"
  using link_from_spec [of rs msgs okey 0 Map.empty] by (simp add: link_def Let_def)

text \<open>
  Where the link of a failed message points: to the last failed message before it with its order key.
\<close>

definition last_failed :: "('m \<Rightarrow> string) \<Rightarrow> 'm list \<Rightarrow> result list \<Rightarrow> nat \<Rightarrow> nat list" where
  "last_failed okey msgs rs n =
     filter (\<lambda>m. \<not> acked (rs ! m) \<and> okey (msgs ! m) = okey (msgs ! n)) [0..<n]"

lemma link_from_after:
  assumes "msgs = before @ rest" "rs = rs0 @ rrest" "length rs = length msgs" "length rs0 = length before"
    and "i = length before"
    and "\<forall>k. latest k = (let fs = filter (\<lambda>m. \<not> acked (rs ! m) \<and> okey (msgs ! m) = k) [0..<i]
        in if fs = [] then None else Some (last fs))"
    and "n < length rest"
  shows "after (link_from okey i latest rest rrest ! n) =
    (let fs = last_failed okey msgs rs (i + n) in
     if acked (rs ! (i + n)) \<or> fs = [] then after (rs ! (i + n)) else int (last fs) + 1)"
  using assms
proof (induction rest arbitrary: before rs0 rrest i latest n)
  case (Cons msg rest)
  obtain r rrest' where rr: "rrest = r # rrest'" using Cons.prems by (cases rrest) auto
  have at: "rs ! i = r" "msgs ! i = msg" using Cons.prems rr by (auto simp: nth_append)
  show ?case
  proof (cases n)
    case 0
    then show ?thesis using Cons.prems(6) at rr by (auto simp: last_failed_def Let_def)
  next
    case (Suc n')
    let ?latest = "if acked r then latest else latest(okey msg \<mapsto> i)"
    have "after (link_from okey (Suc i) ?latest rest rrest' ! n') =
      (let fs = last_failed okey msgs rs (Suc i + n') in
       if acked (rs ! (Suc i + n')) \<or> fs = [] then after (rs ! (Suc i + n')) else int (last fs) + 1)"
    proof (rule Cons.IH [of "before @ [msg]" "rs0 @ [r]"])
      show "\<forall>k. ?latest k = (let fs = filter (\<lambda>m. \<not> acked (rs ! m) \<and> okey (msgs ! m) = k) [0..<Suc i]
        in if fs = [] then None else Some (last fs))"
        using Cons.prems(6) at by (auto simp: Let_def)
    qed (use Cons.prems Suc rr in auto)
    then show ?thesis using Suc rr by (auto simp: Let_def split: if_splits)
  qed
qed simp

lemma link_after:
  assumes "length rs = length msgs" "n < length msgs"
  shows "after (link okey msgs rs ! n) =
    (let fs = last_failed okey msgs rs n in
     if acked (rs ! n) \<or> fs = [] then after (rs ! n) else int (last fs) + 1)"
  using link_from_after [of msgs "[]" msgs rs "[]" rs 0 Map.empty okey n] assms
  by (simp add: link_def Let_def)

section \<open>The invariants of a batch\<close>

text \<open>
  A batch none of whose messages can be a duplicate: dedup is off, or the keys are distinct and
  none is stored.
\<close>

definition all_fresh :: "('m, 'd, 'e) in_tx \<Rightarrow> 'm list \<Rightarrow> string set \<Rightarrow> bool" where
  "all_fresh h msgs p0 \<longleftrightarrow> no_dedup h \<or>
     (canonical_keys h msgs \<and> distinct (map (key_of h) msgs) \<and> key_of h ` set msgs \<inter> p0 = {})"

definition safe_tx :: "('m, 'd, 'e) in_tx \<Rightarrow> bool" where
  "safe_tx h \<longleftrightarrow> tx_atomic h \<and> no_foreign_violation h"

definition group_inv ::
  "('m, 'd, 'e) in_tx \<Rightarrow> 'm list \<Rightarrow> string set \<Rightarrow> nat set \<Rightarrow> result list
     \<Rightarrow> ('d, 'e) tx_state \<Rightarrow> bool" where
  "group_inv h msgs p0 D rs st \<longleftrightarrow> safe_tx h \<and> dedup_inv h msgs p0 D rs st"

definition fresh_inv ::
  "('m, 'd, 'e) in_tx \<Rightarrow> 'm list \<Rightarrow> string set \<Rightarrow> nat set \<Rightarrow> result list
     \<Rightarrow> ('d, 'e) tx_state \<Rightarrow> bool" where
  "fresh_inv h msgs p0 D rs st \<longleftrightarrow> all_fresh h msgs p0 \<and> group_inv h msgs p0 D rs st"

lemma fresh_takes_all:
  assumes "fresh_inv h msgs p0 D rs st" and ixs: "set ixs \<inter> D = {}" "distinct ixs" "set ixs \<subseteq> {..<length msgs}"
  shows "takes_all h msgs ixs st"
  unfolding takes_all_def
proof (intro allI impI)
  fix st0 indexes keys st1
  assume st0: "same_db st0 st" and f: "fresh h msgs ixs st0 = (Inr (indexes, keys), st1)"
  show "indexes = ixs"
  proof (cases "no_dedup h")
    case True
    then show ?thesis using f by (simp add: fresh_def)
  next
    case False
    let ?key = "\<lambda>i. key_of h (msgs ! i)"
    have s: "canonical_keys h msgs" "distinct (map (key_of h) msgs)" "key_of h ` set msgs \<inter> p0 = {}"
      and c: "claims_ok (key_of h) msgs p0 D rs (processed st)" and D: "D \<subseteq> {..<length msgs}"
      using assms(1) False
      by (auto simp: fresh_inv_def all_fresh_def group_inv_def safe_tx_def dedup_inv_def dedup_setting_def)
    have inj: "i = j" if "i < length msgs" "j < length msgs" "?key i = ?key j" for i j
      using s(2) that by (metis length_map nth_eq_iff_index_eq nth_map)
    have "?key i \<notin> processed st0" if i: "i \<in> set ixs" for i
    proof
      assume "?key i \<in> processed st0"
      then have "?key i \<in> processed st" using st0 by (simp add: same_db_def)
      moreover have "msgs ! i \<in> set msgs" using i ixs(3) by auto
      then have "?key i \<notin> p0" using s(3) by blast
      ultimately have "?key i \<in> processed st - p0" by simp
      then obtain j where "j \<in> D" "?key j = ?key i" using c unfolding claims_ok_def by blast
      then show False using inj [of j i] i ixs D by auto
    qed
    moreover have "map fst (select_first (key_of h) msgs {} ixs) = ixs"
    proof -
      have "distinct (map ?key ixs)" using ixs inj by (auto simp: distinct_map inj_on_def subset_iff)
      then show ?thesis using select_first_all [of "key_of h" msgs ixs "{}"] by (simp add: o_def)
    qed
    ultimately show ?thesis
      using fresh_kept(1) [OF f False s(1)] ixs(3) by (auto simp: filter_id_conv)
  qed
qed

interpretation grouped_dedup: group_invariant h msgs "group_inv h msgs p0"
proof
  fix D rs st ixs evs err st' evs'
  assume "group_inv h msgs p0 D rs st" "attempt h msgs ixs (st, evs) = (Inl err, st', evs')"
  then show "group_inv h msgs p0 D rs st'" using dedup.attempt_fails by (auto simp: group_inv_def)
next
  fix D rs st ixs evs outcome st' evs'
  assume "group_inv h msgs p0 D rs st" "attempt h msgs ixs (st, evs) = (Inr outcome, st', evs')"
    "distinct ixs" "set ixs \<inter> D = {}" "set ixs \<subseteq> {..<length msgs}" "length rs = length msgs"
  then show "group_inv h msgs p0 (D \<union> set ixs) (record_outcome ixs outcome rs) st'"
    unfolding group_inv_def by (blast intro: dedup.attempt_succeeds)
next
  fix D rs st ixs and r :: result
  assume "group_inv h msgs p0 D rs st" "set ixs \<inter> D = {}" "set ixs \<subseteq> {..<length msgs}"
    "length rs = length msgs" "\<not> acked r"
  then show "group_inv h msgs p0 (D \<union> set ixs) (put_all (\<lambda>_. r) ixs rs) st"
    using dedup.refuse [of h msgs p0] by (simp add: group_inv_def)
next
  fix D rs st ixs evs err st' evs' bl
  assume "group_inv h msgs p0 D rs st" "attempt h msgs ixs (st, evs) = (Inl err, st', evs')"
    "as_violation err = Some bl"
  then show "set bl \<subseteq> set ixs"
    using attempt_violation [of h msgs ixs st evs err st' evs' bl] by (simp add: group_inv_def safe_tx_def)
qed

interpretation in_order: order_invariant h msgs "fresh_inv h msgs p0"
proof
  fix D rs st ixs evs err st' evs'
  assume "fresh_inv h msgs p0 D rs st" "attempt h msgs ixs (st, evs) = (Inl err, st', evs')"
  then show "fresh_inv h msgs p0 D rs st'"
    using grouped_dedup.attempt_fails by (auto simp: fresh_inv_def)
next
  fix D rs st ixs evs outcome st' evs'
  assume "fresh_inv h msgs p0 D rs st" "attempt h msgs ixs (st, evs) = (Inr outcome, st', evs')"
    "distinct ixs" "set ixs \<inter> D = {}" "set ixs \<subseteq> {..<length msgs}" "length rs = length msgs"
  then show "fresh_inv h msgs p0 (D \<union> set ixs) (record_outcome ixs outcome rs) st'"
    unfolding fresh_inv_def by (blast intro: grouped_dedup.attempt_succeeds)
next
  fix D rs st ixs and r :: result
  assume "fresh_inv h msgs p0 D rs st" "set ixs \<inter> D = {}" "set ixs \<subseteq> {..<length msgs}"
    "length rs = length msgs" "\<not> acked r"
  then show "fresh_inv h msgs p0 (D \<union> set ixs) (put_all (\<lambda>_. r) ixs rs) st"
    using grouped_dedup.refuse [of h msgs p0] by (simp add: fresh_inv_def)
next
  fix D rs st ixs evs err st' evs' bl
  assume "fresh_inv h msgs p0 D rs st" "attempt h msgs ixs (st, evs) = (Inl err, st', evs')"
    "as_violation err = Some bl"
  then show "set bl \<subseteq> set ixs"
    unfolding fresh_inv_def by (blast dest: grouped_dedup.violation_inside)
next
  fix D rs st ixs
  assume "fresh_inv h msgs p0 D rs st" "set ixs \<inter> D = {}" "distinct ixs" "set ixs \<subseteq> {..<length msgs}"
  then show "takes_all h msgs ixs st" by (rule fresh_takes_all)
next
  fix D rs st assume "fresh_inv h msgs p0 D rs st"
  then show "tx_atomic h \<and> no_foreign_violation h"
    by (simp add: fresh_inv_def group_inv_def safe_tx_def)
qed

section \<open>One batch, as a run\<close>

abbreviation start :: "('m, 'd, 'e) in_tx \<Rightarrow> 'm list \<Rightarrow> ('d, 'e) tx_state \<Rightarrow> tx_event list \<Rightarrow> ('d, 'e) work" where
  "start h msgs st evs \<equiv>
     \<lparr>results = replicate (length msgs) zero_result, budget = nat (retry_budget h), dbs = st, trace = evs\<rparr>"

abbreviation whole :: "'m list \<Rightarrow> nat list" where
  "whole msgs \<equiv> [0..<length msgs]"

lemma dedup_inv_start: "dedup_inv h msgs (processed st) {} rs st"
  by (simp add: dedup_inv_def claims_ok_def)

lemma pending_start:
  "Inv {} (replicate (length msgs) zero_result) st \<Longrightarrow> pending Inv msgs {} (whole msgs) (start h msgs st evs)"
  by (auto simp: pending_def)

lemma groups_pending:
  "pending Inv msgs {} (whole msgs) w \<Longrightarrow> pending Inv msgs {} (concat (groups_of msgs (whole msgs) okey)) w"
  by (erule pending_set) (simp_all only: by_order.all_members by_order.distinct_members distinct_upt)

lemma groups_key_closed: "key_closed okey msgs (groups_of msgs (whole msgs) okey)"
  unfolding key_closed_def by_order.all_members
proof (intro ballI conjI impI)
  fix g assume g: "g \<in> set (groups_of msgs (whole msgs) okey)"
  show "sorted g" by (rule by_order.group_sorted [OF sorted_upt g])
  fix i j assume "i \<in> set g" "j \<in> set (whole msgs)" "okey (msgs ! j) = okey (msgs ! i)"
  then show "j \<in> set g" by (rule by_order.closed [OF g])
qed

text \<open>The handler returns: a run of one of the recursions underlies every batch.\<close>

lemma handle_runs:
  assumes "msgs \<noteq> []" "order_key h = None"
  obtains w' where "bisects h msgs (whole msgs) (start h msgs st evs) w'"
    "handle h msgs st evs = Some (results w', dbs w', trace w')"
  using assms bisect_runs [of "whole msgs" h msgs "start h msgs st evs"] by (auto simp: handle_def)

lemma handle_order_runs:
  assumes "msgs \<noteq> []" "order_key h = Some okey" "safe_tx h"
  obtains w' where "group_bisects h msgs (groups_of msgs (whole msgs) okey) (start h msgs st evs) w'"
    "handle h msgs st evs = Some (link okey msgs (results w'), dbs w', trace w')"
  using assms bisect_groups_runs [of h msgs "groups_of msgs (whole msgs) okey" "start h msgs st evs"]
  by (auto simp: handle_def safe_tx_def)

text \<open>Both ends of a batch, for any invariant of the attempts.\<close>

lemma handle_invariant:
  assumes "safe_tx h" "handle h msgs st evs = Some (rs, st', evs')"
  shows "length rs = length msgs \<and>
    (\<exists>rs0. length rs0 = length msgs \<and> group_inv h msgs (processed st) {..<length msgs} rs0 st' \<and>
       (\<forall>i < length msgs. verdict (rs ! i) = verdict (rs0 ! i)))"
proof (cases "msgs = []")
  case True
  then show ?thesis using assms dedup_inv_start by (auto simp: handle_def group_inv_def)
next
  case False
  have p: "pending (group_inv h msgs (processed st)) msgs {} (whole msgs) (start h msgs st evs)"
    using dedup_inv_start assms(1) by (intro pending_start) (simp add: group_inv_def)
  show ?thesis
  proof (cases "order_key h")
    case None
    obtain w' where r: "bisects h msgs (whole msgs) (start h msgs st evs) w'"
      "handle h msgs st evs = Some (results w', dbs w', trace w')"
      using handle_runs [OF False None] by metis
    from grouped_dedup.bisects_settle [OF r(1) p] r(2) assms(2) show ?thesis
      by (auto simp: settled_def atLeast0LessThan)
  next
    case (Some okey)
    obtain w' where r: "group_bisects h msgs (groups_of msgs (whole msgs) okey) (start h msgs st evs) w'"
      "handle h msgs st evs = Some (link okey msgs (results w'), dbs w', trace w')"
      using handle_order_runs [OF False Some assms(1)] by metis
    from grouped_dedup.group_bisects_settle [OF r(1) groups_pending [OF p]] r(2) assms(2) show ?thesis
      using link_keeps [of "results w'" msgs _ okey] unfolding by_order.all_members
      by (auto simp: settled_def atLeast0LessThan)
  qed
qed

end
