(* ===== verification/Batch_Guarantees.thy ===== *)
theory Batch_Guarantees
  imports Batch_Handle
begin

text \<open>
  What one batch through \<^verbatim>\<open>batch.InTx\<close> guarantees: how many attempts it makes,
  that a failing message is isolated, that the effect of a key is applied once, and the properties
  of \<^verbatim>\<open>handle\<close>, \<^verbatim>\<open>InTx\<close>, \<^verbatim>\<open>GroupByKey\<close>
  and \<^verbatim>\<open>CoalesceByKey\<close>.
\<close>

section \<open>The number of attempts\<close>

fun is_apply :: "tx_event \<Rightarrow> bool" where
  "is_apply (OnApply n f e) = True"
| "is_apply (OnBisect n g e) = False"

definition applies :: "tx_event list \<Rightarrow> nat" where
  "applies evs = length (filter is_apply evs)"

lemma applies_simps [simp]:
  "applies (evs @ [OnApply n f e]) = Suc (applies evs)"
  "applies (evs @ [OnBisect n g e']) = applies evs"
  by (simp_all add: applies_def)

lemma attempt_applies:
  "attempt h msgs ixs (st, evs) = (x, st', evs') \<Longrightarrow> applies evs' = Suc (applies evs)"
  using attempt_events [of h msgs ixs st evs x st' evs'] by auto

text \<open>The cost of a run: attempts made, beyond the retries its budget paid for.\<close>

definition cost_within :: "nat \<Rightarrow> ('d, 'e) work \<Rightarrow> ('d, 'e) work \<Rightarrow> bool" where
  "cost_within n w w' \<longleftrightarrow> applies (trace w') + budget w' \<le> applies (trace w) + budget w + n"

lemma bisects_cost:
  "bisects h msgs ixs w w' \<Longrightarrow> ixs \<noteq> [] \<Longrightarrow> cost_within (2 * length ixs - 1) w w'"
proof (induction rule: bisects.induct)
  case (commit ixs w outcome st evs)
  then show ?case using attempt_applies [OF commit.hyps(1)] by (cases ixs) (simp_all add: cost_within_def)
next
  case (retry ixs w err st evs w')
  then show ?case using attempt_applies [OF retry.hyps(1)] by (simp add: cost_within_def)
next
  case (exhausted ixs w err st evs)
  then show ?case using attempt_applies [OF exhausted.hyps(1)] by (cases ixs) (simp_all add: cost_within_def)
next
  case (single i w err st evs)
  then show ?case using attempt_applies [OF single.hyps(1)] by (simp add: cost_within_def)
next
  case (split ixs w err st evs w1 w')
  note two = middle_bounds [OF neq_Nil_length_ge2 [OF split.prems split.hyps(3)]]
  show ?case
    using split.IH(1) [OF two(1)] split.IH(2) [OF two(2)] attempt_applies [OF split.hyps(1)] two
    by (simp add: cost_within_def)
qed

lemma violation_shorter:
  assumes "safe_tx h" "attempt h msgs ixs (st, evs) = (Inl err, st', evs')" "as_violation err = Some bl"
    and "set ixs = set xs"
  shows "length (filter (\<lambda>i. i \<notin> set bl) xs) < length xs"
  using attempt_violation [of h msgs ixs st evs err st' evs' bl] assms filter_out_shorter [of bl xs]
  by (simp add: safe_tx_def)

lemma ordereds_cost:
  "ordereds h msgs grp known failed w b w' \<Longrightarrow> safe_tx h \<Longrightarrow>
     (known \<noteq> None \<longrightarrow> grp \<noteq> []) \<Longrightarrow>
     cost_within (2 * length grp - (if known = None then 1 else 2)) w w'"
proof (induction rule: ordereds.induct)
  case (empty failed w)
  then show ?case by (simp add: cost_within_def)
next
  case (commit grp w outcome st evs failed)
  then show ?case using attempt_applies [OF commit.hyps(2)] by (cases grp) (simp_all add: cost_within_def)
next
  case (blocked grp w err st evs bl b w' failed)
  then show ?case
    using violation_shorter [OF blocked.prems(1) blocked.hyps(2,3) refl] attempt_applies [OF blocked.hyps(2)]
    by (simp add: cost_within_def)
next
  case (retry grp w err st evs b w' failed)
  then show ?case using attempt_applies [OF retry.hyps(2)] by (simp add: cost_within_def)
next
  case (exhausted grp w err st evs failed)
  then show ?case using attempt_applies [OF exhausted.hyps(2)] by (cases grp) (simp_all add: cost_within_def)
next
  case (fails grp w err st evs failed b w')
  then show ?case using attempt_applies [OF fails.hyps(2)] by (cases grp) (simp_all add: cost_within_def)
next
  case (single i err failed w)
  then show ?case by (simp add: cost_within_def)
next
  case (prefix grp w err w1 failed)
  then have "grp \<noteq> []" by simp
  then show ?case using prefix middle_bounds [OF neq_Nil_length_ge2 [OF _ prefix.hyps(1)]]
    by (simp add: cost_within_def)
next
  case (suffix grp w err w1 b w' failed)
  then have "grp \<noteq> []" by simp
  then show ?case using suffix middle_bounds [OF neq_Nil_length_ge2 [OF _ suffix.hyps(1)]]
    by (simp add: cost_within_def)
qed

lemma concat_nonempty: "[] \<notin> set gs \<Longrightarrow> gs \<noteq> [] \<Longrightarrow> concat gs \<noteq> []"
  by (cases gs) auto

lemma group_bisects_cost:
  "group_bisects h msgs groups w w' \<Longrightarrow> safe_tx h \<Longrightarrow> [] \<notin> set groups \<Longrightarrow>
     cost_within (2 * length (concat groups) - 1) w w'"
proof (induction rule: group_bisects.induct)
  case (empty groups w)
  then show ?case by (simp add: cost_within_def)
next
  case (commit groups w outcome st evs)
  have "concat groups \<noteq> []" using commit.hyps(1) unfolding flatten_empty .
  with commit show ?case using attempt_applies [OF commit.hyps(2)]
    by (cases "concat groups") (simp_all add: cost_within_def)
next
  case (blocked groups w err st evs bl w')
  have "[] \<notin> set (without_indexes groups bl)" by (simp add: without_indexes_def)
  then show ?case
    using blocked.IH blocked.prems attempt_applies [OF blocked.hyps(2)]
      violation_shorter [OF blocked.prems(1) blocked.hyps(2,3) set_flatten]
    by (simp add: cost_within_def concat_without)
next
  case (retry groups w err st evs w')
  then show ?case using attempt_applies [OF retry.hyps(2)] by (simp add: cost_within_def)
next
  case (exhausted groups w err st evs)
  have "concat groups \<noteq> []" using exhausted.hyps(1) unfolding flatten_empty .
  with exhausted show ?case using attempt_applies [OF exhausted.hyps(2)]
    by (cases "concat groups") (simp_all add: cost_within_def)
next
  case (one grp w err st evs b w')
  then have "grp \<noteq> []" by auto
  then show ?case
    using ordereds_cost [OF one.hyps(5) one.prems(1)] attempt_applies [OF one.hyps(2)]
    by (cases grp) (simp_all add: cost_within_def)
next
  case (split groups w err st evs w1 w')
  let ?l = "take (length groups div 2) groups" and ?r = "drop (length groups div 2) groups"
  have "groups \<noteq> []" using split.hyps(1) by (auto simp: flatten_empty)
  note two = middle_bounds [OF neq_Nil_length_ge2 [OF this split.hyps(2)]]
  have out: "[] \<notin> set ?l" "[] \<notin> set ?r"
    using split.prems(2) by (auto dest: in_set_takeD in_set_dropD)
  define a b where "a = length (concat ?l)" and "b = length (concat ?r)"
  have "concat ?l \<noteq> []" "concat ?r \<noteq> []" using concat_nonempty out two(1,2) by blast+
  then have "0 < a" "0 < b" unfolding a_def b_def
    by (simp_all only: length_greater_0_conv not_False_eq_True)
  moreover have "a + b = length (concat groups)"
    unfolding a_def b_def by (metis append_take_drop_id concat_append length_append)
  ultimately show ?case
    using split.IH(1) [OF split.prems(1) out(1)] split.IH(2) [OF split.prems(1) out(2)]
      attempt_applies [OF split.hyps(3)]
    by (simp add: cost_within_def flip: a_def b_def)
qed

section \<open>Isolating a failing message\<close>

text \<open>
  A handler that fails exactly on the batches holding a bad message, over a database without
  faults.
\<close>

definition fails_on :: "('m, 'd, 'e) in_tx \<Rightarrow> ('m \<Rightarrow> bool) \<Rightarrow> bool" where
  "fails_on h bad \<longleftrightarrow> tx_do h = tx_once \<and> order_key h = None \<and> apply_results h = None \<and>
     (\<forall>e. fst (claim_fault h e) = None) \<and> \<not> transient h (Sent ErrHandlerPanic) \<and>
     (\<exists>f. apply_fn h = Some f \<and> (\<forall>ms d e. case fst (f ms d e) of
        Returned _ \<Rightarrow> \<not> list_ex bad ms
      | Failed err \<Rightarrow> list_ex bad ms \<and> \<not> transient h err
      | Panicked \<Rightarrow> list_ex bad ms))"

lemma fresh_no_fault:
  assumes "\<forall>e. fst (claim_fault h e) = None"
  obtains indexes keys st1 where "fresh h msgs ixs st = (Inr (indexes, keys), st1)"
proof (cases "fresh h msgs ixs st")
  case (Pair x st1)
  have "fst (claim_fault h (env st)) = None" using assms by blast
  then have "\<exists>v. x = Inr v" using Pair
    by (auto simp: fresh_def claim_keys_def Let_def split: if_splits prod.splits)
  then show ?thesis using that Pair by auto
qed

lemma fails_on_attempt:
  assumes "fails_on h bad" "takes_all h msgs ixs st" "ixs \<noteq> []"
    and a: "attempt h msgs ixs (st, evs) = (x, st', evs')"
  shows "case x of Inr outcome \<Rightarrow> outcome = Map.empty \<and> (\<forall>i \<in> set ixs. \<not> bad (msgs ! i))
    | Inl err \<Rightarrow> \<not> transient h err \<and> (\<exists>i \<in> set ixs. bad (msgs ! i))"
proof -
  obtain f where h: "tx_do h = tx_once" "apply_results h = None" "apply_fn h = Some f"
    "\<forall>e. fst (claim_fault h e) = None" "\<not> transient h (Sent ErrHandlerPanic)"
    and f: "\<And>ms d e. case fst (f ms d e) of Returned _ \<Rightarrow> \<not> list_ex bad ms
      | Failed err \<Rightarrow> list_ex bad ms \<and> \<not> transient h err | Panicked \<Rightarrow> list_ex bad ms"
    using assms(1) unfolding fails_on_def by blast
  obtain indexes keys st1 where fr: "fresh h msgs ixs st = (Inr (indexes, keys), st1)"
    using fresh_no_fault [OF h(4)] by metis
  then have ix: "indexes = ixs" using assms(2) unfolding takes_all_def by (metis same_db_refl)
  obtain v d e where v: "f (map ((!) msgs) ixs) (business st1) (env st1) = (v, d, e)"
    by (cases "f (map ((!) msgs) ixs) (business st1) (env st1)")
  then have "case v of Returned _ \<Rightarrow> \<not> list_ex bad (map ((!) msgs) ixs)
      | Failed err \<Rightarrow> list_ex bad (map ((!) msgs) ixs) \<and> \<not> transient h err
      | Panicked \<Rightarrow> list_ex bad (map ((!) msgs) ixs)" using f by (metis fst_conv)
  then show ?thesis using a fr v h(1,2,3,5) \<open>ixs \<noteq> []\<close>
    by (cases v) (auto simp: attempt_def attempt_body_def tx_once_def run_def ix list_ex_iff)
qed

context order_invariant
begin

lemma bisects_isolate:
  assumes "bisects h msgs ixs w w'" "fails_on h bad" "ixs \<noteq> []" "pending Inv msgs D ixs w"
  shows "\<forall>i \<in> set ixs. if bad (msgs ! i) then \<exists>err. results w' ! i = Nak err else results w' ! i = Ack"
  using assms
proof (induction arbitrary: D rule: bisects.induct)
  case (commit ixs w outcome st evs)
  have "takes_all h msgs ixs (dbs w)" using commit.prems(3) all_taken by (auto simp: pending_def)
  from fails_on_attempt [OF commit.prems(1) this commit.prems(2) commit.hyps(1)] commit.prems(3)
  show ?case by (auto simp: record_outcome_nth pending_def)
next
  case (retry ixs w err st evs w')
  have "takes_all h msgs ixs (dbs w)" using retry.prems(3) all_taken by (auto simp: pending_def)
  from fails_on_attempt [OF retry.prems(1) this retry.prems(2) retry.hyps(1)] retry.hyps(2)
  show ?case by simp
next
  case (exhausted ixs w err st evs)
  have "takes_all h msgs ixs (dbs w)" using exhausted.prems(3) all_taken by (auto simp: pending_def)
  from fails_on_attempt [OF exhausted.prems(1) this exhausted.prems(2) exhausted.hyps(1)] exhausted.hyps(2)
  show ?case by simp
next
  case (single i w err st evs)
  have "takes_all h msgs [i] (dbs w)" using single.prems(3) all_taken [of D "results w" "dbs w" "[i]"]
    by (auto simp: pending_def)
  from fails_on_attempt [OF single.prems(1) this single.prems(2) single.hyps(1)] single.prems(3)
  show ?case by (auto simp: pending_def)
next
  case (split ixs w err st evs w1 w')
  let ?l = "take (length ixs div 2) ixs" and ?r = "drop (length ixs div 2) ixs"
  note two = middle_bounds [OF neq_Nil_length_ge2 [OF split.prems(2) split.hyps(3)]]
  have p: "pending Inv msgs D (?l @ ?r) w" using split.prems by simp
  have pl: "pending Inv msgs D ?l (after_attempt w st (evs @ [OnBisect (length ixs) 1 err]))"
    by (rule failure_pending [OF pending_part [OF p] split.hyps(1)])
  have s: "settled Inv msgs D (set ?l) w w1"
    using bisects_settle [OF split.hyps(4) pl] by (simp add: pending_w)
  note pr = settled_then(1) [OF p s]
  have "results w' ! i = results w1 ! i" if "i \<in> set ?l" for i
    using settled_agree [of Inv msgs "D \<union> set ?l" ?r "[]" w1 w' i] bisects_settle [OF split.hyps(5) pr] pr that
    by simp
  moreover have "set ixs = set ?l \<union> set ?r" by (rule set_take_drop [symmetric])
  ultimately show ?case
    using split.IH(1) [OF split.prems(1) two(1) pl] split.IH(2) [OF split.prems(1) two(2) pr] by auto
qed

end
section \<open>Effects are applied once\<close>

text \<open>
  A handler whose whole effect is to append the messages it was given to a log: the log shows every
  application there ever was.
\<close>

definition logging :: "('m, 'm list, 'e) in_tx \<Rightarrow> bool" where
  "logging h \<longleftrightarrow> apply_results h = None \<and>
     (\<exists>f. apply_fn h = Some f \<and> (\<forall>ms d e. case f ms d e of
        (Returned _, d', _) \<Rightarrow> d' = d @ ms | _ \<Rightarrow> True))"

definition logged_once :: "('m \<Rightarrow> string) \<Rightarrow> string set \<Rightarrow> 'm list \<Rightarrow> string set \<Rightarrow> 'm list \<Rightarrow> bool" where
  "logged_once key p0 d0 p d \<longleftrightarrow> p0 \<subseteq> p \<and>
     (\<exists>ms. d = d0 @ ms \<and> distinct (map key ms) \<and> key ` set ms = p - p0)"

lemma logged_once_step:
  assumes "logged_once key p0 d0 p d" "distinct (map key ms)" "key ` set ms = p' - p" "p \<subseteq> p'"
  shows "logged_once key p0 d0 p' (d @ ms)"
proof -
  obtain ms0 where "d = d0 @ ms0" "distinct (map key ms0)" "key ` set ms0 = p - p0" "p0 \<subseteq> p"
    using assms(1) by (auto simp: logged_once_def)
  moreover from this have "distinct (map key (ms0 @ ms))" using assms by auto
  ultimately show ?thesis unfolding logged_once_def using assms
    by (intro conjI exI [of _ "ms0 @ ms"]) (auto simp: image_Un)
qed

lemma body_logs:
  assumes b: "attempt_body h msgs ixs (loc, st) = ((loc', st'), None)"
    and h: "logging h" "\<not> no_dedup h" "canonical_keys h msgs" and ixs: "distinct ixs" "\<forall>i \<in> set ixs. i < length msgs"
    and l: "logged_once (key_of h) p0 d0 (processed st) (business st)"
  shows "logged_once (key_of h) p0 d0 (processed st') (business st')"
proof -
  let ?key = "\<lambda>i. key_of h (msgs ! i)"
  let ?sel = "select_first (key_of h) msgs {} ixs"
  obtain f where f: "apply_results h = None" "apply_fn h = Some f"
    "\<And>ms d e. case f ms d e of (Returned _, d', _) \<Rightarrow> d' = d @ ms | _ \<Rightarrow> True"
    using h(1) unfolding logging_def by blast
  obtain outcome fr where loc: "loc = (outcome, fr)" by fastforce
  obtain indexes keys st1 where fr: "fresh h msgs ixs st = (Inr (indexes, keys), st1)"
    using b by (auto simp: attempt_body_def loc split: prod.splits sum.splits)
  note kept = fresh_kept [OF fr h(2,3) ixs(2)]
  let ?ms = "map ((!) msgs) indexes"
  have keys: "map (key_of h) ?ms = filter (\<lambda>k. k \<notin> processed st) (map snd ?sel)"
  proof -
    have snd: "map snd ?sel = map ?key (map fst ?sel)" by (subst select_first_pairs) simp
    show ?thesis unfolding snd by (simp only: kept(1) map_map filter_map o_def)
  qed
  have "set (map snd ?sel) = ?key ` set ixs"
    using select_first_keys [of "key_of h" msgs "{}" ixs] by simp
  moreover have "key_of h ` set ?ms = {k \<in> set (map snd ?sel). k \<notin> processed st}"
    using arg_cong [OF keys, of set] by (simp only: set_map set_filter)
  ultimately have "key_of h ` set ?ms = processed st1 - processed st" using kept(3) by auto
  moreover have "distinct (map (key_of h) ?ms)"
    unfolding keys by (intro distinct_filter select_first_distinct_keys)
  ultimately have step: "logged_once (key_of h) p0 d0 (processed st1) (business st @ ?ms)"
    using kept(3) by (intro logged_once_step [OF l]) auto
  show ?thesis
  proof (cases "indexes = []")
    case True
    then show ?thesis using b fr step kept(4) by (auto simp: attempt_body_def loc Let_def)
  next
    case False
    then obtain applied where r: "run h ?ms st1 = (Inr applied, st')"
      using b fr f by (auto simp: attempt_body_def loc Let_def split: prod.splits sum.splits)
    have "business st' = business st1 @ ?ms"
      using r f(1,2) f(3) [where ms = ?ms and d = "business st1" and e = "env st1"]
      by (auto simp: run_def split: prod.splits ret.splits)
    then show ?thesis using step kept(4) run_processed [OF r] by simp
  qed
qed

definition effect_inv ::
  "('m, 'm list, 'e) in_tx \<Rightarrow> 'm list \<Rightarrow> string set \<Rightarrow> 'm list \<Rightarrow> nat set \<Rightarrow> result list
     \<Rightarrow> ('m list, 'e) tx_state \<Rightarrow> bool" where
  "effect_inv h msgs p0 d0 D rs st \<longleftrightarrow> safe_tx h \<and> logging h \<and> \<not> no_dedup h \<and> canonical_keys h msgs \<and>
     logged_once (key_of h) p0 d0 (processed st) (business st)"

lemma effect_commit:
  assumes i: "effect_inv h msgs p0 d0 D rs st" and "distinct ixs" "set ixs \<subseteq> {..<length msgs}"
    and a: "attempt h msgs ixs (st, evs) = (Inr outcome, st', evs')"
  shows "effect_inv h msgs p0 d0 D' rs' st'"
proof -
  obtain loc where t: "tx_do h (attempt_body h msgs ixs) ((Map.empty, 0), st) = ((loc, st'), None)"
    using a by (auto simp: attempt_def Let_def split: prod.splits option.splits)
  have "tx_atomic h" using i by (simp add: effect_inv_def safe_tx_def)
  then obtain loc0 st0 where "same_db st0 st" "attempt_body h msgs ixs (loc0, st0) = ((loc, st'), None)"
    using tx_atomic_commit t by metis
  then show ?thesis using i assms(2,3) body_logs [of h msgs ixs loc0 st0 loc st' p0 d0]
    by (auto simp: effect_inv_def same_db_def)
qed

interpretation effects: group_invariant h msgs "effect_inv h msgs p0 d0"
proof
  fix D rs st ixs evs err st' evs'
  assume "effect_inv h msgs p0 d0 D rs st" "attempt h msgs ixs (st, evs) = (Inl err, st', evs')"
  then show "effect_inv h msgs p0 d0 D rs st'"
    using attempt_rolls_back [of h msgs ixs st evs err st' evs'] by (simp add: effect_inv_def safe_tx_def same_db_def)
next
  fix D rs st ixs evs outcome st' evs'
  assume "effect_inv h msgs p0 d0 D rs st" "attempt h msgs ixs (st, evs) = (Inr outcome, st', evs')"
    "distinct ixs" "set ixs \<inter> D = {}" "set ixs \<subseteq> {..<length msgs}" "length rs = length msgs"
  then show "effect_inv h msgs p0 d0 (D \<union> set ixs) (record_outcome ixs outcome rs) st'"
    by (intro effect_commit [of h msgs p0 d0 D rs st ixs evs outcome st' evs'])
next
  fix D rs st ixs and r :: result
  assume "effect_inv h msgs p0 d0 D rs st"
  then show "effect_inv h msgs p0 d0 (D \<union> set ixs) (put_all (\<lambda>_. r) ixs rs) st"
    by (simp add: effect_inv_def)
next
  fix D rs st ixs evs err st' evs' bl
  assume "effect_inv h msgs p0 d0 D rs st" "attempt h msgs ixs (st, evs) = (Inl err, st', evs')"
    "as_violation err = Some bl"
  then show "set bl \<subseteq> set ixs"
    using attempt_violation [of h msgs ixs st evs err st' evs' bl] by (simp add: effect_inv_def safe_tx_def)
qed
section \<open>Whole batches\<close>

lemma handle_effect:
  assumes "safe_tx h" "logging h" "\<not> no_dedup h" "canonical_keys h msgs"
    and "handle h msgs st evs = Some (rs, st', evs')"
  shows "logged_once (key_of h) (processed st) (business st) (processed st') (business st')"
proof -
  have i: "effect_inv h msgs (processed st) (business st) {} (replicate (length msgs) zero_result) st"
    using assms by (simp add: effect_inv_def logged_once_def)
  note p = pending_start [where Inv = "effect_inv h msgs (processed st) (business st)" and h = h and evs = evs, OF i]
  show ?thesis
  proof (cases "msgs = []")
    case True
    then show ?thesis using assms(5) by (simp add: handle_def logged_once_def)
  next
    case False
    show ?thesis
    proof (cases "order_key h")
      case None
      obtain w' where r: "bisects h msgs (whole msgs) (start h msgs st evs) w'"
        "handle h msgs st evs = Some (results w', dbs w', trace w')"
        using handle_runs [OF False None] by metis
      from effects.bisects_settle [OF r(1) p] r(2) assms(5) show ?thesis
        by (simp add: settled_def effect_inv_def)
    next
      case (Some okey)
      obtain w' where r: "group_bisects h msgs (groups_of msgs (whole msgs) okey) (start h msgs st evs) w'"
        "handle h msgs st evs = Some (link okey msgs (results w'), dbs w', trace w')"
        using handle_order_runs [OF False Some assms(1)] by metis
      from effects.group_bisects_settle [OF r(1) groups_pending [OF p]] r(2) assms(5) show ?thesis
        by (simp add: settled_def effect_inv_def)
    qed
  qed
qed

lemma handle_returns:
  assumes "safe_tx h"
  obtains rs st' evs' where "handle h msgs st evs = Some (rs, st', evs')" "length rs = length msgs"
proof -
  have "\<exists>r. handle h msgs st evs = Some r"
  proof (cases "msgs = []")
    case False
    then show ?thesis
      using handle_runs [where msgs = msgs and h = h and st = st and evs = evs]
        handle_order_runs [where msgs = msgs and h = h and st = st and evs = evs] assms
      by (metis option.exhaust)
  qed (simp add: handle_def)
  then show ?thesis using that handle_invariant [OF assms] by (metis prod_cases3)
qed

lemma handle_order:
  assumes "safe_tx h" "order_key h = Some okey" "all_fresh h msgs (processed st)" "msgs \<noteq> []"
  obtains rs0 st' evs' where "handle h msgs st evs = Some (link okey msgs rs0, st', evs')"
    "order_ok okey msgs {..<length msgs} rs0" "length rs0 = length msgs"
proof -
  obtain w' where r: "group_bisects h msgs (groups_of msgs (whole msgs) okey) (start h msgs st evs) w'"
    "handle h msgs st evs = Some (link okey msgs (results w'), dbs w', trace w')"
    using handle_order_runs [OF assms(4,2,1)] by metis
  have "fresh_inv h msgs (processed st) {} (replicate (length msgs) zero_result) st"
    using assms dedup_inv_start by (simp add: fresh_inv_def group_inv_def)
  note p = groups_pending [OF pending_start [where Inv = "fresh_inv h msgs (processed st)" and h = h and evs = evs, OF this],
      where okey = okey]
  have "order_ok okey msgs ({} \<union> set (concat (groups_of msgs (whole msgs) okey))) (results w')"
    by (rule in_order.group_bisects_order [OF r(1) assms(2) p groups_key_closed])
      (simp_all only: by_order.all_members order_ok_def ready_def, auto)
  moreover have "length (results w') = length msgs"
    using in_order.group_bisects_settle [OF r(1) p] by (simp add: settled_def)
  ultimately show ?thesis
    by (intro that [OF r(2)]) (simp_all only: by_order.all_members set_upt atLeast0LessThan Un_empty_left)
qed
section \<open>A concrete handler\<close>

text \<open>
  An instance on which the properties are evaluated: messages are pairs of an order key and a
  dedup key, the handler logs what it is given and fails on a dedup key \<open>''bad''\<close>.
\<close>

definition demo_apply ::
  "(string \<times> string) list \<Rightarrow> (string \<times> string) list \<Rightarrow> unit \<Rightarrow> unit ret \<times> (string \<times> string) list \<times> unit" where
  "demo_apply ms d e =
     (if list_ex (\<lambda>m. snd m = ''bad'') ms then (Failed (Foreign ''boom''), d, e)
      else (Returned (), d @ ms, e))"

definition demo :: "(string \<Rightarrow> string) \<Rightarrow> (string \<times> string \<Rightarrow> string) option
    \<Rightarrow> (string \<times> string, (string \<times> string) list, unit) in_tx" where
  "demo c okey = \<lparr>tx_do = tx_once, apply_fn = Some demo_apply, apply_results = None, key_of = snd,
     order_key = okey, no_dedup = False, transient = (\<lambda>e. default_transient (Some e)),
     retry_budget = 2, transient_delay = 0, canon = c,
     claim_fault = (\<lambda>e. (None, e)), unclaim_fault = (\<lambda>e. (None, e))\<rparr>"

definition demo_db :: "((string \<times> string) list, unit) tx_state" where
  "demo_db = \<lparr>processed = {''old''}, business = [], env = ()\<rparr>"

lemma demo_safe: "safe_tx (demo c okey)"
  using tx_once_atomic [of "demo c okey"]
  by (auto simp: safe_tx_def demo_def no_foreign_violation_def demo_apply_def split: if_splits)

lemma demo_canonical: "canonical_keys (demo id okey) msgs"
  by (simp add: canonical_keys_def demo_def)

lemma demo_logging: "logging (demo c okey)"
  by (simp add: logging_def demo_def demo_apply_def)

lemma demo_fails_on: "fails_on (demo c None) (\<lambda>m. snd m = ''bad'')"
  by (simp add: fails_on_def demo_def demo_apply_def default_transient_def)

text \<open>A batch with a failing message, a message behind it, and another order key.\<close>

definition demo_batch :: "(string \<times> string) list" where
  "demo_batch = [(''a'', ''k1''), (''a'', ''bad''), (''a'', ''k2''), (''b'', ''k3''), (''b'', ''k4'')]"

definition demo_results :: "result list" where
  "demo_results = [Ack, Nak (Foreign ''boom''), (NakDelay 0 (Sent ErrOrderBlocked))\<lparr>after := 2\<rparr>, Ack, Ack]"

lemma demo_run: "map_option fst (handle (demo id (Some fst)) demo_batch demo_db []) = Some demo_results"
  by code_simp

lemma demo_fresh: "all_fresh (demo id okey) demo_batch (processed demo_db)"
  by (simp add: all_fresh_def demo_def demo_batch_def demo_db_def canonical_keys_def)

section \<open>Properties\<close>

text \<open>
  C1. No message is lost and none is forgotten. With an atomic transaction manager, dedup on and keys
  the column renders as written, \<^verbatim>\<open>handle\<close> returns one result per message; no
  stored key disappears; every key stored by the batch belongs to an acknowledged message; and a
  message that is acknowledged has its key stored, unless a message of the same key in the batch is
  left to be delivered again.
\<close>
theorem handle_loses_nothing:
  assumes "tx_atomic h" "no_foreign_violation h" "\<not> no_dedup h" "canonical_keys h msgs"
  shows "\<exists>rs st' evs'. handle h msgs st evs = Some (rs, st', evs') \<and> length rs = length msgs \<and>
    processed st \<subseteq> processed st' \<and>
    (\<forall>k \<in> processed st' - processed st. \<exists>i < length msgs. key_of h (msgs ! i) = k \<and> acked (rs ! i)) \<and>
    (\<forall>i < length msgs. acked (rs ! i) \<longrightarrow> key_of h (msgs ! i) \<in> processed st' \<or>
       (\<exists>j < length msgs. key_of h (msgs ! j) = key_of h (msgs ! i) \<and> \<not> acked (rs ! j)))"
proof -
  have safe: "safe_tx h" using assms by (simp add: safe_tx_def)
  obtain rs st' evs' where r: "handle h msgs st evs = Some (rs, st', evs')" "length rs = length msgs"
    by (rule handle_returns [OF safe])
  then obtain rs0 where "group_inv h msgs (processed st) {..<length msgs} rs0 st'"
    and same: "\<forall>i < length msgs. verdict (rs ! i) = verdict (rs0 ! i)"
    using handle_invariant [OF safe r(1)] by blast
  then have c: "claims_ok (key_of h) msgs (processed st) {..<length msgs} rs0 (processed st')"
    using assms by (simp add: group_inv_def dedup_inv_def dedup_setting_def)
  then have "processed st \<subseteq> processed st'"
    "\<forall>k \<in> processed st' - processed st. \<exists>i < length msgs. key_of h (msgs ! i) = k \<and> acked (rs ! i)"
    "\<forall>i < length msgs. acked (rs ! i) \<longrightarrow> key_of h (msgs ! i) \<in> processed st' \<or>
       (\<exists>j < length msgs. key_of h (msgs ! j) = key_of h (msgs ! i) \<and> \<not> acked (rs ! j))"
    using same unfolding claims_ok_def by (simp, metis lessThan_iff, metis lessThan_iff)
  then show ?thesis using r by metis
qed

theorem handle_loses_nothing_witness:
  "\<exists>rs st' evs'. handle (demo id None) [(''a'', ''k1''), (''a'', ''bad'')] demo_db [] = Some (rs, st', evs') \<and>
    length rs = 2 \<and> processed demo_db \<subseteq> processed st'"
  using handle_loses_nothing [of "demo id None" "[(''a'', ''k1''), (''a'', ''bad'')]" demo_db "[]"]
    demo_safe [of id None] demo_canonical [of None]
  by (auto simp: safe_tx_def) (auto simp: demo_def)

text \<open>
  C6. The effect of a key is applied exactly once. When the handler's effect on the database is a log
  of the messages it was given, the log grows by messages of distinct keys, and these are exactly
  the keys the batch stored: whatever was retried, split or rolled back on the way.
\<close>
theorem handle_applies_once:
  assumes "safe_tx h" "logging h" "\<not> no_dedup h" "canonical_keys h msgs"
    and "handle h msgs st evs = Some (rs, st', evs')"
  shows "\<exists>ms. business st' = business st @ ms \<and> distinct (map (key_of h) ms) \<and>
    key_of h ` set ms = processed st' - processed st"
  using handle_effect [OF assms] by (auto simp: logged_once_def)

theorem handle_applies_once_witness:
  "\<exists>rs st' evs' ms. handle (demo id None) [(''a'', ''k1''), (''a'', ''bad'')] demo_db [] = Some (rs, st', evs') \<and>
    business st' = business demo_db @ ms \<and> distinct (map snd ms)"
proof -
  obtain rs st' evs' where
    r: "handle (demo id None) [(''a'', ''k1''), (''a'', ''bad'')] demo_db [] = Some (rs, st', evs')"
    by (rule handle_returns [OF demo_safe])
  have "\<not> no_dedup (demo id None)" "key_of (demo id None) = snd" by (simp_all add: demo_def)
  then show ?thesis
    using handle_applies_once [OF demo_safe demo_logging _ demo_canonical r] r by metis
qed

text \<open>
  C5. Order. With an order key, on a batch without duplicates, an acknowledged message never has an
  unacknowledged message of the same order key before it - however the groups were split, retried,
  blocked or cut short.
\<close>
theorem handle_keeps_order:
  assumes "safe_tx h" "order_key h = Some okey" "all_fresh h msgs (processed st)"
    and "handle h msgs st evs = Some (rs, st', evs')"
    and "i < j" "j < length msgs" "okey (msgs ! i) = okey (msgs ! j)" "acked (rs ! j)"
  shows "acked (rs ! i)"
proof -
  have "msgs \<noteq> []" using assms(6) by auto
  obtain rs0 st1 evs1 where w: "handle h msgs st evs = Some (link okey msgs rs0, st1, evs1)"
    and o: "order_ok okey msgs {..<length msgs} rs0" "length rs0 = length msgs"
    by (rule handle_order [where evs = evs, OF assms(1-3) \<open>msgs \<noteq> []\<close>])
  have rs: "rs = link okey msgs rs0" using w assms(4) by simp
  have "acked (rs0 ! j)" using link_keeps [OF o(2), of j okey] assms(6,8) rs by simp
  then have "acked (rs0 ! i)" using o(1) assms(5-7) by (auto simp: order_ok_def)
  then show ?thesis using link_keeps [OF o(2), of i okey] assms(5,6) rs by simp
qed

theorem handle_keeps_order_witness: "acked (demo_results ! 3)"
proof -
  obtain st' evs' where r: "handle (demo id (Some fst)) demo_batch demo_db [] = Some (demo_results, st', evs')"
    using demo_run by auto
  have "order_key (demo id (Some fst)) = Some fst" by (simp add: demo_def)
  from handle_keeps_order [OF demo_safe this demo_fresh r, of 3 4]
  show ?thesis by (simp add: demo_batch_def demo_results_def)
qed

text \<open>
  C27. Links. On the same batches, a failed message that has a failed message of its order key before
  it names the last of these, one past its position, in \<open>after\<close>.
\<close>
theorem handle_links_failures:
  assumes "safe_tx h" "order_key h = Some okey" "all_fresh h msgs (processed st)"
    and "handle h msgs st evs = Some (rs, st', evs')"
    and "n < length msgs" "\<not> acked (rs ! n)" "last_failed okey msgs rs n \<noteq> []"
  shows "after (rs ! n) = int (last (last_failed okey msgs rs n)) + 1"
proof -
  have "msgs \<noteq> []" using assms(5) by auto
  obtain rs0 st1 evs1 where w: "handle h msgs st evs = Some (link okey msgs rs0, st1, evs1)"
    and "order_ok okey msgs {..<length msgs} rs0" and o: "length rs0 = length msgs"
    by (rule handle_order [where evs = evs, OF assms(1-3) \<open>msgs \<noteq> []\<close>])
  have rs: "rs = link okey msgs rs0" using w assms(4) by simp
  have same: "acked (rs ! m) = acked (rs0 ! m)" if "m < length msgs" for m
    using link_keeps [OF o that, of okey] rs by simp
  have "last_failed okey msgs rs n = last_failed okey msgs rs0 n"
    unfolding last_failed_def using assms(5) same by (intro filter_cong) auto
  then show ?thesis using link_after [OF o assms(5), of okey] assms(6,7) rs same [OF assms(5)]
    by (simp add: Let_def)
qed

theorem handle_links_failures_witness: "after (demo_results ! 2) = 2"
proof -
  obtain st' evs' where r: "handle (demo id (Some fst)) demo_batch demo_db [] = Some (demo_results, st', evs')"
    using demo_run by auto
  have "order_key (demo id (Some fst)) = Some fst" by (simp add: demo_def)
  from handle_links_failures [OF demo_safe this demo_fresh r, of 2]
  show ?thesis
    by (simp add: demo_batch_def demo_results_def last_failed_def upt_rec NakDelay_def zero_result_def)
qed



text \<open>
  Bounded work. One batch of \<open>n\<close> messages makes at most \<open>2 * n - 1\<close>
  transactional attempts beside the retries its budget pays for, with or without an order key.
\<close>
theorem handle_attempts_bounded:
  assumes "safe_tx h" "msgs \<noteq> []" "handle h msgs st evs = Some (rs, st', evs')"
  shows "applies evs' \<le> applies evs + nat (retry_budget h) + (2 * length msgs - 1)"
proof (cases "order_key h")
  case None
  obtain w' where r: "bisects h msgs (whole msgs) (start h msgs st evs) w'"
    "handle h msgs st evs = Some (results w', dbs w', trace w')"
    using handle_runs [OF assms(2) None] by metis
  then show ?thesis using bisects_cost [OF r(1)] assms(2,3) by (simp add: cost_within_def)
next
  case (Some okey)
  let ?groups = "groups_of msgs (whole msgs) okey"
  obtain w' where r: "group_bisects h msgs ?groups (start h msgs st evs) w'"
    "handle h msgs st evs = Some (link okey msgs (results w'), dbs w', trace w')"
    using handle_order_runs [OF assms(2) Some assms(1)] by metis
  have "[] \<notin> set ?groups" using by_order.is_group [of "[]" msgs "whole msgs" okey] by blast
  moreover have "length (concat ?groups) = length msgs"
    using by_order.all_members [of msgs "whole msgs" okey]
      by_order.distinct_members [of "whole msgs" msgs okey] by (metis distinct_card distinct_upt length_upt minus_nat.diff_0)
  ultimately show ?thesis
    using group_bisects_cost [OF r(1) assms(1)] r(2) assms(3) by (simp add: cost_within_def)
qed

theorem handle_attempts_bounded_witness:
  "\<exists>rs st' evs'. handle (demo id (Some fst)) demo_batch demo_db [] = Some (rs, st', evs') \<and> applies evs' \<le> 11"
proof -
  obtain rs st' evs' where r: "handle (demo id (Some fst)) demo_batch demo_db [] = Some (rs, st', evs')"
    using handle_returns [OF demo_safe] by metis
  from handle_attempts_bounded [OF demo_safe _ r] r
  show ?thesis by (auto simp: demo_batch_def demo_def applies_def)
qed

text \<open>
  What the rendering of the key column decides. When the column renders a key differently from
  how the key function wrote it, as a \<^verbatim>\<open>uuid\<close> column does with upper-case
  digits, the claim stores the key, the lookup of the claimed keys misses it, and the message is
  acknowledged although it was never handed to the handler.
\<close>
theorem handle_drops_rendered_keys:
  assumes "tx_do h = tx_once" "order_key h = None" "\<not> no_dedup h" "\<And>e. claim_fault h e = (None, e)"
    and "canon h (key_of h m) \<noteq> key_of h m" "canon h (key_of h m) \<notin> processed st"
  shows "handle h [m] st evs =
    Some ([Ack], st\<lparr>processed := insert (canon h (key_of h m)) (processed st)\<rparr>, evs @ [OnApply 1 0 None])"
proof -
  have "attempt h [m] [0] (st, evs) =
      (Inr Map.empty, st\<lparr>processed := insert (canon h (key_of h m)) (processed st)\<rparr>, evs @ [OnApply 1 0 None])"
    using assms by (simp add: attempt_def attempt_body_def tx_once_def fresh_def claim_keys_def Let_def)
  then show ?thesis using assms(2)
    by (simp add: handle_def bisect.simps [of h "[m]" "[0]"] record_outcome_def)
qed

theorem handle_drops_rendered_keys_witness:
  "handle (demo (\<lambda>k. if k = ''A'' then ''a'' else k) None) [(''x'', ''A'')] demo_db [] =
    Some ([Ack], \<lparr>processed = {''a'', ''old''}, business = [], env = ()\<rparr>, [OnApply 1 0 None])"
  using handle_drops_rendered_keys [of "demo (\<lambda>k. if k = ''A'' then ''a'' else k) None" "(''x'', ''A'')" demo_db "[]"]
  by (simp add: demo_def demo_db_def)

text \<open>
  Construction. \<^verbatim>\<open>InTx\<close> accepts exactly the options with a transaction
  manager and one of the two callbacks; the handler it builds has a non-negative retry budget, 2 when
  none is given, and a non-negative transient delay.
\<close>
theorem new_in_tx_valid:
  "case new_in_tx default_key opts of
     Inl e \<Rightarrow> e = Sent ErrInvalidOpts \<and>
       (TxManager opts = None \<or> (Apply opts = None) = (ApplyResults opts = None))
   | Inr h \<Rightarrow> Some (tx_do h) = TxManager opts \<and> (apply_fn h = None) = (apply_results h \<noteq> None) \<and>
       retry_budget h = (if RetryBudget opts = 0 then 2 else max 0 (RetryBudget opts)) \<and>
       transient_delay h = max 0 (TransientDelay opts)"
  by (auto simp: new_in_tx_def default_retry_budget_def split: option.splits if_splits)

end
