(* ===== verification/Batch_Settle.thy ===== *)
theory Batch_Settle
  imports Batch_Types Frame
begin

text \<open>
  What a batch consumer does with the results of its handler (\<^verbatim>\<open>settle.go\<close>,
  \<^verbatim>\<open>hold.go\<close>, \<^verbatim>\<open>send_poison.go\<close>,
  \<^verbatim>\<open>delay_for_delivery.go\<close>, \<^verbatim>\<open>process.go\<close>,
  \<^verbatim>\<open>isolate.go\<close>): one settling call per message, chosen by its result, its
  delivery count and the messages of its order key before it.
\<close>

section \<open>The consumer\<close>

text \<open>
  The handler and the poison callback are the user's code: arbitrary functions of the state, which
  holds the broker's messages and, in its extension, whatever else they use. A handler that panics
  returns none. Both may settle messages themselves.
\<close>

record 'z consumer =
  chandler :: "msg list \<Rightarrow> 'z bus_scheme \<Rightarrow> result list option \<times> 'z bus_scheme"
  on_poison :: "(msg \<Rightarrow> goerr option \<Rightarrow> 'z bus_scheme \<Rightarrow> unit ret \<times> 'z bus_scheme) option"
  delays :: "duration list"
  max_attempts :: int
  max_deliver :: int

definition num_delivered :: "broker \<Rightarrow> 'z bus_scheme \<Rightarrow> msg \<Rightarrow> nat" where
  "num_delivered br b m = (case delivered br (raw_of b m) of None \<Rightarrow> 1 | Some n \<Rightarrow> n)"

definition first_delay :: "'z consumer \<Rightarrow> duration" where
  "first_delay c = delays c ! 0"

definition delay_for_delivery :: "'z consumer \<Rightarrow> nat \<Rightarrow> duration" where
  "delay_for_delivery c n =
     (let index = (if n > 1 then n - 1 else 0);
          index' = (if index \<ge> length (delays c) then length (delays c) - 1 else index)
      in delays c ! index')"

definition send_poison ::
  "'z consumer \<Rightarrow> broker \<Rightarrow> msg \<Rightarrow> goerr option \<Rightarrow> 'z bus_scheme \<Rightarrow> 'z bus_scheme" where
  "send_poison c br m reason b =
     (case on_poison c of
        None \<Rightarrow> snd (msg_call br m CallTerm b)
      | Some f \<Rightarrow>
          (case f m reason b of
             (Returned _, b') \<Rightarrow> snd (msg_call br m CallTerm b')
           | (_, b') \<Rightarrow> snd (msg_call br m (CallNakWithDelay (first_delay c)) b')))"

definition hold ::
  "'z consumer \<Rightarrow> broker \<Rightarrow> msg \<Rightarrow> result \<Rightarrow> duration \<Rightarrow> 'z bus_scheme
     \<Rightarrow> (settle_kind \<times> duration) \<times> 'z bus_scheme" where
  "hold c br m r flr b =
     (let n = num_delivered br b m in
      if max_deliver c > 0 \<and> int n \<ge> max_deliver c then
        ((settledPoison, 0),
         send_poison c br m (Some (case rerr r of None \<Rightarrow> Sent ErrAttemptsExhausted
           | Some e \<Rightarrow> Wrap (Sent ErrAttemptsExhausted) e)) b)
      else
        let delay = delay_for_delivery c n;
            delay' = (if rdelay r > 0 then rdelay r else delay);
            delay'' = max delay' flr
        in ((settledBlocked, delay''), snd (msg_call br m (CallNakWithDelay delay'') b)))"

definition retry ::
  "'z consumer \<Rightarrow> broker \<Rightarrow> msg \<Rightarrow> result \<Rightarrow> duration \<Rightarrow> 'z bus_scheme
     \<Rightarrow> (settle_kind \<times> duration) \<times> 'z bus_scheme" where
  "retry c br m r flr b =
     (if err_is (rerr r) ErrOrderBlocked then hold c br m r flr b
      else if err_is (rerr r) ErrPoison then ((settledPoison, 0), send_poison c br m (rerr r) b)
      else
        let n = num_delivered br b m in
        if max_attempts c > 0 \<and> int n \<ge> max_attempts c then
          ((settledPoison, 0),
           send_poison c br m (case rerr r of None \<Rightarrow> Some (Sent ErrAttemptsExhausted) | Some e \<Rightarrow> Some e) b)
        else
          let delay = delay_for_delivery c n;
              delay' = (if verdict r = VerdictNakDelay \<and> rdelay r > 0 then rdelay r else delay);
              delay'' = max delay' flr
          in ((settledRetry, delay''), snd (msg_call br m (CallNakWithDelay delay'') b)))"

definition apply_result ::
  "'z consumer \<Rightarrow> broker \<Rightarrow> msg \<Rightarrow> result \<Rightarrow> duration \<Rightarrow> 'z bus_scheme
     \<Rightarrow> (settle_kind \<times> duration) \<times> 'z bus_scheme" where
  "apply_result c br m r flr b =
     (case verdict r of
        VerdictAck \<Rightarrow> ((settledAck, 0), snd (msg_call br m CallAck b))
      | VerdictSkip \<Rightarrow> ((settledSkip, 0), snd (msg_call br m CallAck b))
      | VerdictTerm \<Rightarrow> ((settledPoison, 0), send_poison c br m (rerr r) b)
      | _ \<Rightarrow> retry c br m r flr b)"

section \<open>Settling a batch\<close>

text \<open>\<^verbatim>\<open>frameStarts\<close>: for every message the position of the first of its frame.\<close>

fun starts_from :: "nat \<Rightarrow> (msg \<times> nat) option \<Rightarrow> msg list \<Rightarrow> nat list" where
  "starts_from i prev [] = []"
| "starts_from i prev (m # ms) =
     (let start = (case prev of
            Some (p, s) \<Rightarrow> if same_frame p m then s else i
          | None \<Rightarrow> i)
      in start # starts_from (Suc i) (Some (m, start)) ms)"

definition frame_starts :: "msg list \<Rightarrow> nat list" where
  "frame_starts msgs = starts_from 0 None msgs"

definition return_floor :: "duration list \<Rightarrow> nat list \<Rightarrow> nat \<Rightarrow> result \<Rightarrow> duration" where
  "return_floor returns starts index r =
     (let previous = after r - 1 in
      if previous < 0 \<or> previous \<ge> int index then 0
      else returns ! (starts ! nat previous))"

definition result_at :: "result list \<Rightarrow> nat \<Rightarrow> result" where
  "result_at results i = (if i < length results then results ! i else Nak (Sent ErrMissingResult))"

fun settle_loop ::
  "'z consumer \<Rightarrow> broker \<Rightarrow> result list \<Rightarrow> nat list \<Rightarrow> nat \<Rightarrow> msg list \<Rightarrow> duration list
     \<Rightarrow> settle_event \<Rightarrow> 'z bus_scheme \<Rightarrow> settle_event \<times> 'z bus_scheme" where
  "settle_loop c br results starts i [] returns tally b = (tally, b)"
| "settle_loop c br results starts i (m # ms) returns tally b =
     (let r = result_at results i;
          flr = return_floor returns starts i r;
          ((kind, delay), b') = apply_result c br m r flr b;
          start = starts ! i
      in settle_loop c br results starts (Suc i) ms
           (returns[start := max (max (returns ! start) delay) flr]) (with_kind tally kind) b')"

definition settle ::
  "'z consumer \<Rightarrow> broker \<Rightarrow> msg list \<Rightarrow> result list \<Rightarrow> 'z bus_scheme
     \<Rightarrow> settle_event \<times> 'z bus_scheme" where
  "settle c br msgs results b =
     settle_loop c br results (frame_starts msgs) 0 msgs (replicate (length msgs) 0) 0 b"

section \<open>Processing a batch\<close>

definition is_settled :: "broker \<Rightarrow> msg \<Rightarrow> 'z bus_scheme \<Rightarrow> bool \<times> 'z bus_scheme" where
  "is_settled br m b = (let (err, b') = msg_call br m CallInProgress b
     in (err_is err ErrMsgAlreadyAckd, b'))"

fun isolate ::
  "'z consumer \<Rightarrow> broker \<Rightarrow> msg list \<Rightarrow> settle_event \<Rightarrow> 'z bus_scheme
     \<Rightarrow> settle_event \<times> 'z bus_scheme" where
  "isolate c br [] tally b = (tally, b)"
| "isolate c br (m # ms) tally b =
     (case is_settled br m b of
        (True, b1) \<Rightarrow> isolate c br ms tally b1
      | (False, b1) \<Rightarrow>
          (case chandler c [m] b1 of
             (None, b2) \<Rightarrow>
               let ((kind, _), b3) = apply_result c br m (Nak (Sent ErrHandlerPanic)) 0 b2
               in isolate c br ms (plus_event tally (with_kind 0 kind)) b3
           | (Some results, b2) \<Rightarrow>
               let (event, b3) = settle c br [m] results b2
               in isolate c br ms (plus_event tally event) b3))"

definition process_batch ::
  "'z consumer \<Rightarrow> broker \<Rightarrow> msg list \<Rightarrow> 'z bus_scheme \<Rightarrow> settle_event \<times> 'z bus_scheme" where
  "process_batch c br msgs b =
     (case chandler c msgs b of
        (None, b') \<Rightarrow> isolate c br msgs 0 b'
      | (Some results, b') \<Rightarrow> settle c br msgs results b')"

text \<open>The heartbeat, on a tick.\<close>

fun progress_unsettled :: "broker \<Rightarrow> msg list \<Rightarrow> 'z bus_scheme \<Rightarrow> 'z bus_scheme" where
  "progress_unsettled br [] b = b"
| "progress_unsettled br (m # ms) b = progress_unsettled br ms (snd (msg_call br m CallInProgress b))"

fun nak_all :: "broker \<Rightarrow> msg list \<Rightarrow> 'z bus_scheme \<Rightarrow> 'z bus_scheme" where
  "nak_all br [] b = b"
| "nak_all br (m # ms) b = nak_all br ms (snd (msg_call br m CallNak b))"

text \<open>
  The wrapper the handler sees (\<^verbatim>\<open>itemMsg\<close>) forwards every call and keeps the
  kind of the first settlement that succeeded.
\<close>

record item_msg =
  inner :: msg
  ikind :: settle_kind
  isettled :: bool

definition item_record :: "settle_kind \<Rightarrow> goerr option \<Rightarrow> item_msg \<Rightarrow> item_msg" where
  "item_record kind err it =
     (if err \<noteq> None then it
      else if isettled it then it
      else it\<lparr>isettled := True, ikind := kind\<rparr>)"

fun item_kind :: "call \<Rightarrow> settle_kind option" where
  "item_kind CallAck = Some settledAck"
| "item_kind CallDoubleAck = Some settledAck"
| "item_kind CallNak = Some settledRetry"
| "item_kind (CallNakWithDelay _) = Some settledRetry"
| "item_kind CallTerm = Some settledPoison"
| "item_kind (CallTermWithReason _) = Some settledPoison"
| "item_kind CallInProgress = None"

definition item_call ::
  "broker \<Rightarrow> call \<Rightarrow> item_msg \<times> 'z bus_scheme \<Rightarrow> goerr option \<times> item_msg \<times> 'z bus_scheme" where
  "item_call br c = (\<lambda>(it, b). let (err, b') = msg_call br (inner it) c b in
     (err, (case item_kind c of None \<Rightarrow> it | Some k \<Rightarrow> item_record k err it), b'))"

section \<open>What settles a message\<close>

text \<open>
  A poison callback that leaves the broker's messages to the consumer: \<open>ok\<close> says when it
  succeeds.
\<close>

definition quiet :: "'z consumer \<Rightarrow> (msg \<Rightarrow> goerr option \<Rightarrow> bool) \<Rightarrow> bool" where
  "quiet c ok \<longleftrightarrow> (case on_poison c of None \<Rightarrow> True
     | Some f \<Rightarrow> \<forall>m e b. \<exists>v. f m e b = (v, b) \<and> (v = Returned ()) = ok m e)"

definition poison_call :: "'z consumer \<Rightarrow> (msg \<Rightarrow> goerr option \<Rightarrow> bool) \<Rightarrow> msg \<Rightarrow> goerr option \<Rightarrow> call" where
  "poison_call c ok m e =
     (if on_poison c = None \<or> ok m e then CallTerm else CallNakWithDelay (first_delay c))"

lemma send_poison_quiet:
  "quiet c ok \<Longrightarrow> send_poison c br m e b = snd (msg_call br m (poison_call c ok m e) b)"
proof (cases "on_poison c")
  case (Some f)
  assume "quiet c ok"
  then have "\<forall>m e b. \<exists>v. f m e b = (v, b) \<and> (v = Returned ()) = ok m e"
    by (simp add: quiet_def Some)
  then obtain v where "f m e b = (v, b)" "(v = Returned ()) = ok m e" by blast
  then show ?thesis using Some by (cases v) (auto simp: send_poison_def poison_call_def)
qed (simp add: send_poison_def poison_call_def)

text \<open>
  The decision for one message, from its delivery count, its result and its floor: its kind, the one
  call made on it, and the delay reported for the messages behind it.
\<close>

definition decide ::
  "'z consumer \<Rightarrow> (msg \<Rightarrow> goerr option \<Rightarrow> bool) \<Rightarrow> nat \<Rightarrow> msg \<Rightarrow> result \<Rightarrow> duration
     \<Rightarrow> settle_kind \<times> call \<times> duration" where
  "decide c ok n m r flr =
     (let poison = (\<lambda>e. (settledPoison, poison_call c ok m e, 0));
          back = (\<lambda>kind own. let d = max (if own then rdelay r else delay_for_delivery c n) flr
            in (kind, CallNakWithDelay d, d))
      in if verdict r = VerdictAck then (settledAck, CallAck, 0)
         else if verdict r = VerdictSkip then (settledSkip, CallAck, 0)
         else if verdict r = VerdictTerm then poison (rerr r)
         else if err_is (rerr r) ErrOrderBlocked then
           (if max_deliver c > 0 \<and> int n \<ge> max_deliver c
            then poison (map_option (Wrap (Sent ErrAttemptsExhausted)) (rerr r))
            else back settledBlocked (rdelay r > 0))
         else if err_is (rerr r) ErrPoison then poison (rerr r)
         else if max_attempts c > 0 \<and> int n \<ge> max_attempts c
         then poison (Some (case rerr r of None \<Rightarrow> Sent ErrAttemptsExhausted | Some e \<Rightarrow> e))
         else back settledRetry (verdict r = VerdictNakDelay \<and> rdelay r > 0))"

lemma apply_result_decide:
  assumes "quiet c ok" "decide c ok (num_delivered br b m) m r flr = (kind, cl, d)"
  shows "apply_result c br m r flr b = ((kind, d), snd (msg_call br m cl b))"
proof -
  have wrap: "rerr r = Some e" if "err_is (rerr r) ErrOrderBlocked" "rerr r \<noteq> None \<Longrightarrow> rerr r = Some e" for e
    using that by (cases "rerr r") auto
  show ?thesis
  proof (cases "verdict r = VerdictNak \<or> verdict r = VerdictNakDelay")
    case False
    then show ?thesis using assms
      by (cases "verdict r") (auto simp: apply_result_def decide_def send_poison_quiet Let_def)
  next
    case True
    then have "apply_result c br m r flr b = retry c br m r flr b"
      by (auto simp: apply_result_def)
    then show ?thesis using assms True
      by (cases "rerr r")
        (auto simp: retry_def hold_def decide_def send_poison_quiet Let_def split: if_splits)
  qed
qed

lemma decide_kind:
  "decide c ok n m r flr = (kind, cl, d) \<Longrightarrow>
     cl \<noteq> CallInProgress \<and> (cl = CallAck \<longleftrightarrow> acked r) \<and> (failure kind = '''' \<longleftrightarrow> acked r) \<and>
     (kind = settledRetry \<or> kind = settledBlocked \<longrightarrow> cl = CallNakWithDelay d \<and> flr \<le> d)"
  by (cases "verdict r") (auto simp: decide_def poison_call_def Let_def split: if_splits)

section \<open>The calls of a batch\<close>

fun do_calls :: "broker \<Rightarrow> (msg \<times> call) list \<Rightarrow> 'z bus_scheme \<Rightarrow> 'z bus_scheme" where
  "do_calls br [] b = b"
| "do_calls br ((m, cl) # rest) b = do_calls br rest (snd (msg_call br m cl b))"

text \<open>The decisions of a batch, for the delivery counts \<open>D\<close>.\<close>

fun plan ::
  "'z consumer \<Rightarrow> (msg \<Rightarrow> goerr option \<Rightarrow> bool) \<Rightarrow> (msg \<Rightarrow> nat) \<Rightarrow> result list \<Rightarrow> nat list \<Rightarrow> nat
     \<Rightarrow> msg list \<Rightarrow> duration list \<Rightarrow> (settle_kind \<times> call \<times> duration) list" where
  "plan c ok D results starts i [] returns = []"
| "plan c ok D results starts i (m # ms) returns =
     (let r = result_at results i;
          flr = return_floor returns starts i r;
          (kind, cl, d) = decide c ok (D m) m r flr
      in (kind, cl, d) # plan c ok D results starts (Suc i) ms
           (returns[starts ! i := max (max (returns ! (starts ! i)) d) flr]))"

lemma length_plan [simp]: "length (plan c ok D results starts i ms returns) = length ms"
  by (induction c ok D results starts i ms returns rule: plan.induct) (simp_all add: Let_def split: prod.split)

lemma settle_element_raw: "settle_element i nak d f = (r, f') \<Longrightarrow> raw f' = raw f"
  by (auto simp: settle_element_def Let_def split: if_splits)

lemma raw_of_update: "raw f = raw (fs ! fi) \<Longrightarrow> raw (fs[fi := f] ! fj) = raw (fs ! fj)"
proof (cases "fi < length fs")
  case True
  assume "raw f = raw (fs ! fi)"
  then show ?thesis using True by (cases "fi = fj") simp_all
qed (simp add: list_update_beyond)

lemma raw_of_call: "raw_of (snd (msg_call br m cl b)) m' = raw_of b m'"
proof (cases m)
  case (Raw k)
  then show ?thesis by (cases m') (simp_all add: send_def Let_def)
next
  case (Elem fi i)
  have res: "raw (frames (snd (resolve_element br fi i nak d dbl b)) ! fj) = raw (frames b ! fj)" for nak d dbl fj
  proof -
    obtain r f where st: "settle_element i nak d (frames b ! fi) = (r, f)" by fastforce
    have "raw ((frames b)[fi := f] ! fj) = raw (frames b ! fj)"
      by (rule raw_of_update) (rule settle_element_raw [OF st])
    then show ?thesis by (cases r) (simp_all add: resolve_element_def st send_def Let_def)
  qed
  have prog: "raw (frames (snd (progress br fi i b)) ! fj) = raw (frames b ! fj)" for fj
    by (auto simp: progress_def send_def Let_def raw_of_update)
  show ?thesis using res prog Elem by (cases m'; cases cl) simp_all
qed

lemma num_delivered_call [simp]: "num_delivered br (snd (msg_call br m cl b)) = num_delivered br b"
  by (rule ext) (simp add: num_delivered_def raw_of_call)

text \<open>Settling a batch makes the planned calls, in order, and tallies the planned kinds.\<close>

lemma settle_loop_plan:
  assumes "quiet c ok" "D = num_delivered br b"
  shows "settle_loop c br results starts i ms returns tally b =
    (let p = plan c ok D results starts i ms returns in
     (foldl with_kind tally (map fst p), do_calls br (zip ms (map (fst \<circ> snd) p)) b))"
  using assms(2)
proof (induction ms arbitrary: i returns tally b)
  case (Cons m ms)
  obtain kind cl d where dec: "decide c ok (D m) m (result_at results i)
      (return_floor returns starts i (result_at results i)) = (kind, cl, d)"
    by (metis prod_cases3)
  note ap = apply_result_decide [OF assms(1) dec [unfolded Cons.prems]]
  have "D = num_delivered br (snd (msg_call br m cl b))" using Cons.prems by simp
  from Cons.IH [OF this] show ?case by (simp add: Let_def dec ap)
qed simp

definition batch_plan ::
  "'z consumer \<Rightarrow> (msg \<Rightarrow> goerr option \<Rightarrow> bool) \<Rightarrow> broker \<Rightarrow> msg list \<Rightarrow> result list \<Rightarrow> 'z bus_scheme
     \<Rightarrow> (settle_kind \<times> call \<times> duration) list" where
  "batch_plan c ok br msgs results b =
     plan c ok (num_delivered br b) results (frame_starts msgs) 0 msgs (replicate (length msgs) 0)"

lemma settle_plan:
  assumes "quiet c ok"
  shows "settle c br msgs results b =
    (let p = batch_plan c ok br msgs results b in
     (foldl with_kind 0 (map fst p), do_calls br (zip msgs (map (fst \<circ> snd) p)) b))"
  unfolding settle_def batch_plan_def by (rule settle_loop_plan [OF assms refl])

lemma plan_decides:
  assumes "k < length ms"
  shows "\<exists>flr. plan c ok D results starts i ms returns ! k =
    decide c ok (D (ms ! k)) (ms ! k) (result_at results (i + k)) flr"
  using assms
proof (induction ms arbitrary: i returns k)
  case (Cons m ms)
  then show ?case
  proof (cases k)
    case 0
    then show ?thesis
      by (intro exI [of _ "return_floor returns starts i (result_at results i)"])
        (simp add: Let_def split: prod.split)
  next
    case (Suc k')
    from Cons.IH [of k' "Suc i"] Cons.prems Suc show ?thesis by (auto simp: Let_def split: prod.split)
  qed
qed simp

section \<open>Floors\<close>

text \<open>
  The returned delays a plan keeps: every message sent back so far is within the entry of its frame.
\<close>

definition covered :: "nat list \<Rightarrow> (settle_kind \<times> call \<times> duration) list \<Rightarrow> duration list \<Rightarrow> bool" where
  "covered starts p returns \<longleftrightarrow> (\<forall>k < length p. snd (snd (p ! k)) \<le> returns ! (starts ! k))"

lemma plan_floors:
  assumes "covered starts p returns" "length p = i" "\<forall>k < i + length ms. starts ! k < length returns"
    and "q < length ms" "after (result_at results (i + q)) = int j + 1" "j < i + q"
    and "k < i + q" "starts ! k = starts ! j"
  shows "\<exists>flr. plan c ok D results starts i ms returns ! q =
      decide c ok (D (ms ! q)) (ms ! q) (result_at results (i + q)) flr \<and>
    snd (snd ((p @ plan c ok D results starts i ms returns) ! k)) \<le> flr"
  using assms
proof (induction ms arbitrary: i returns p q)
  case (Cons m ms)
  let ?r = "result_at results i" and ?flr = "return_floor returns starts i (result_at results i)"
  obtain kind cl d where dec: "decide c ok (D m) m ?r ?flr = (kind, cl, d)" by (metis prod_cases3)
  let ?returns = "returns[starts ! i := max (max (returns ! (starts ! i)) d) ?flr]"
  show ?case
  proof (cases q)
    case 0
    then have "?flr = returns ! (starts ! k)" "k < length p"
      using Cons.prems by (auto simp: return_floor_def Let_def)
    then have "snd (snd (p ! k)) \<le> ?flr" using Cons.prems(1) by (simp add: covered_def)
    then show ?thesis using 0 dec \<open>k < length p\<close> by (intro exI [of _ ?flr]) (simp add: nth_append Let_def)
  next
    case (Suc q')
    have "covered starts (p @ [(kind, cl, d)]) ?returns"
      unfolding covered_def
    proof (intro allI impI)
      fix k' assume k': "k' < length (p @ [(kind, cl, d)])"
      have b: "starts ! k' < length returns" using k' Cons.prems(2,3) by simp
      show "snd (snd ((p @ [(kind, cl, d)]) ! k')) \<le> ?returns ! (starts ! k')"
      proof (cases "k' < length p")
        case True
        then have "snd (snd (p ! k')) \<le> returns ! (starts ! k')"
          using Cons.prems(1) by (simp add: covered_def)
        then show ?thesis using True b
          by (cases "starts ! k' = starts ! i") (simp_all add: nth_append max_def)
      next
        case False
        then have "k' = i" using k' Cons.prems(2) by simp
        then show ?thesis using b Cons.prems(2) by (simp add: nth_append max_def)
      qed
    qed
    from Cons.IH [OF this, of "Suc i" q'] Cons.prems Suc show ?thesis
      by (simp add: Let_def dec)
  qed
qed simp

lemma length_starts_from: "length (starts_from i prev ms) = length ms"
  by (induction i prev ms rule: starts_from.induct) (simp_all add: Let_def)

lemma starts_from_bound:
  "k < length ms \<Longrightarrow> (case prev of None \<Rightarrow> True | Some (p, s) \<Rightarrow> s < i) \<Longrightarrow> starts_from i prev ms ! k \<le> i + k"
proof (induction i prev ms arbitrary: k rule: starts_from.induct)
  case (2 i prev m ms)
  let ?s = "case prev of Some (p, s) \<Rightarrow> if same_frame p m then s else i | None \<Rightarrow> i"
  have "?s \<le> i" using "2.prems"(2) by (auto split: option.split)
  then show ?case using "2.IH" [OF refl, of "k - 1"] "2.prems"(1) by (cases k) (auto simp: Let_def)
qed simp

lemma frame_starts_bound: "k < length msgs \<Longrightarrow> frame_starts msgs ! k \<le> k"
  using starts_from_bound [where k = k and ms = msgs and prev = None and i = 0] by (simp add: frame_starts_def)

text \<open>The position \<open>frame_starts\<close> gives is the first of an unbroken run of one frame.\<close>

lemma batch_plan_decides:
  assumes "k < length msgs"
  obtains flr where "batch_plan c ok br msgs results b ! k =
    decide c ok (num_delivered br b (msgs ! k)) (msgs ! k) (result_at results k) flr"
  using plan_decides [OF assms, of c ok "num_delivered br b" results "frame_starts msgs" 0]
  by (auto simp: batch_plan_def)

lemma length_batch_plan [simp]: "length (batch_plan c ok br msgs results b) = length msgs"
  by (simp add: batch_plan_def)

lemma batch_plan_floors:
  assumes "i < length msgs" "after (result_at results i) = int j + 1" "j < i"
    and "k < i" "frame_starts msgs ! k = frame_starts msgs ! j"
  shows "\<exists>flr. batch_plan c ok br msgs results b ! i =
      decide c ok (num_delivered br b (msgs ! i)) (msgs ! i) (result_at results i) flr \<and>
    snd (snd (batch_plan c ok br msgs results b ! k)) \<le> flr"
proof -
  have "\<forall>k < 0 + length msgs. frame_starts msgs ! k < length (replicate (length msgs) (0 :: duration))"
    using frame_starts_bound by (auto intro: le_less_trans)
  from plan_floors [OF _ _ this, of "[]" i results j k c ok "num_delivered br b"] assms
  show ?thesis by (simp add: batch_plan_def covered_def)
qed

lemma total_foldl: "total (foldl with_kind t ks) = total t + length ks"
  by (induction ks arbitrary: t) simp_all

lemma settle_loop_total: "total (fst (settle_loop c br results starts i ms returns tally b)) = total tally + length ms"
proof (induction ms arbitrary: i returns tally b)
  case (Cons m ms)
  then show ?case by (simp add: Let_def split: prod.split)
qed simp

lemma settle_total: "total (fst (settle c br msgs results b)) = length msgs"
  by (simp add: settle_def settle_loop_total)

section \<open>Settling the elements of a frame\<close>

text \<open>The calls of a list made on the elements of frame \<open>fi\<close>, by element.\<close>

fun on_frame :: "nat \<Rightarrow> (msg \<times> call) list \<Rightarrow> (nat \<times> call) list" where
  "on_frame fi [] = []"
| "on_frame fi ((Elem fj i, cl) # rest) =
     (if fj = fi then (i, cl) # on_frame fi rest else on_frame fi rest)"
| "on_frame fi ((Raw m, cl) # rest) = on_frame fi rest"

text \<open>A call on a message of another broker message leaves a frame alone.\<close>

lemma call_elsewhere:
  fixes br :: broker and m :: msg and cl :: call and b :: "'z bus_scheme"
  defines "b' \<equiv> snd (msg_call br m cl b)"
  assumes "raw_of b m \<noteq> raw (frames b ! fi)"
  shows "frames b' ! fi = frames b ! fi \<and> length (frames b') = length (frames b) \<and>
    closings (raw (frames b ! fi)) (calls b') = closings (raw (frames b ! fi)) (calls b)"
proof (cases m)
  case (Raw k)
  then show ?thesis using assms(2) by (simp add: b'_def send_def Let_def closings_def)
next
  case (Elem fj i)
  then have ne: "raw (frames b ! fj) \<noteq> raw (frames b ! fi)" "fj \<noteq> fi" using assms(2) by auto
  have resolve: "frames (snd (resolve_element br fj i nak d dbl b)) ! fi = frames b ! fi \<and>
      length (frames (snd (resolve_element br fj i nak d dbl b))) = length (frames b) \<and>
      closings (raw (frames b ! fi)) (calls (snd (resolve_element br fj i nak d dbl b))) =
      closings (raw (frames b ! fi)) (calls b)" for nak d dbl
  proof -
    obtain r f where st: "settle_element i nak d (frames b ! fj) = (r, f)" by fastforce
    have "raw f \<noteq> raw (frames b ! fi)" using settle_element_raw [OF st] ne by simp
    then show ?thesis using ne
      by (cases r) (simp_all add: resolve_element_def st send_def Let_def closings_def)
  qed
  have "frames (snd (progress br fj i b)) ! fi = frames b ! fi \<and>
      length (frames (snd (progress br fj i b))) = length (frames b) \<and>
      closings (raw (frames b ! fi)) (calls (snd (progress br fj i b))) =
      closings (raw (frames b ! fi)) (calls b)"
    using ne by (simp add: progress_def send_def Let_def closings_def)
  then show ?thesis using resolve Elem by (cases cl) (simp_all add: b'_def)
qed

text \<open>
  Every message of the batch is an element of the frame, or belongs to another broker message.
\<close>

definition frame_apart :: "nat \<Rightarrow> nat \<Rightarrow> 'z bus_scheme \<Rightarrow> msg set \<Rightarrow> bool" where
  "frame_apart fi n b ms \<longleftrightarrow>
     (\<forall>m \<in> ms. (\<exists>i < n. m = Elem fi i) \<or> raw_of b m \<noteq> raw (frames b ! fi))"

lemma frame_apart_call: "frame_apart fi n (snd (msg_call br m cl b)) ms = frame_apart fi n b ms"
  using raw_of_call [of br m cl b "Elem fi 0"] by (simp add: frame_apart_def raw_of_call)

lemma on_frame_bound:
  "frame_apart fi n b (fst ` set ops) \<Longrightarrow> \<forall>(j, c) \<in> set (on_frame fi ops). j < n"
  by (induction fi ops rule: on_frame.induct) (auto simp: frame_apart_def)

lemma do_calls_abs:
  assumes "frame_abs n s (frames b ! fi)" "fi < length (frames b)" "frame_apart fi n b (fst ` set ops)"
  shows "let s' = foldl count_settlement s (on_frame fi ops); b' = do_calls br ops b in
    closings (raw (frames b ! fi)) (calls b') = closings (raw (frames b ! fi)) (calls b) @
      (if counted s \<noteq> {..<n} \<and> counted s' = {..<n} then [closing_call s'] else [])"
  using assms
proof (induction br ops b arbitrary: s rule: do_calls.induct)
  case (2 br m cl rest b)
  let ?b = "snd (msg_call br m cl b)"
  have raw: "raw (frames ?b ! fi) = raw (frames b ! fi)"
    using raw_of_call [of br m cl b "Elem fi 0"] by simp
  have apart: "frame_apart fi n ?b (fst ` set rest)"
    using "2.prems"(3) by (simp add: frame_apart_call) (simp add: frame_apart_def)
  note IH = "2.IH" [unfolded Let_def, OF _ _ apart, unfolded raw]
  show ?case
  proof (cases "\<exists>i < n. m = Elem fi i")
    case True
    then obtain i where i: "i < n" "m = Elem fi i" by blast
    let ?s = "count_settlement s (i, cl)"
    note step = element_call_abs [OF "2.prems"(1,2) i(1), of cl br]
    have b: "?b = snd (element_call br fi i cl b)" using i by simp
    have bound: "\<forall>(j, c) \<in> set (on_frame fi rest). j < n"
      by (rule on_frame_bound [of fi n b]) (use "2.prems"(3) in \<open>simp add: frame_apart_def\<close>)
    note full = foldl_full [OF _ bound, of ?s]
    have grows: "counted s \<subseteq> counted ?s" by (auto simp: count_settlement_def)
    have sub: "counted ?s \<subseteq> {..<n}" using step by (simp add: frame_abs_def)
    have IH': "closings (raw (frames b ! fi)) (calls (do_calls br rest ?b)) =
        closings (raw (frames b ! fi)) (calls ?b) @
        (if counted ?s \<noteq> {..<n} \<and> counted (foldl count_settlement ?s (on_frame fi rest)) = {..<n}
         then [closing_call (foldl count_settlement ?s (on_frame fi rest))] else [])"
      by (rule IH) (use step b "2.prems"(2) in simp_all)
    show ?thesis using step full grows sub IH' i b
      by (cases "counted ?s = {..<n}") (auto simp: Let_def)
  next
    case False
    then have "raw_of b m \<noteq> raw (frames b ! fi)"
      using "2.prems"(3) by (auto simp: frame_apart_def)
    note out = call_elsewhere [OF this, of br cl]
    have "on_frame fi ((m, cl) # rest) = on_frame fi rest"
      using False "2.prems"(3) by (cases m) (auto simp: frame_apart_def)
    moreover have "closings (raw (frames b ! fi)) (calls (do_calls br rest ?b)) =
        closings (raw (frames b ! fi)) (calls ?b) @
        (if counted s \<noteq> {..<n} \<and> counted (foldl count_settlement s (on_frame fi rest)) = {..<n}
         then [closing_call (foldl count_settlement s (on_frame fi rest))] else [])"
      by (rule IH) (use out "2.prems"(1,2) in simp_all)
    ultimately show ?thesis using out by (simp add: Let_def)
  qed
qed simp

lemma foldl_all_count:
  assumes "distinct (map fst ops)" "counted s \<inter> fst ` set ops = {}" "\<forall>(i, c) \<in> set ops. c \<noteq> CallInProgress"
  shows "foldl count_settlement s ops = s @ ops"
  using assms
proof (induction ops arbitrary: s)
  case (Cons ic ops)
  obtain i c where [simp]: "ic = (i, c)" by fastforce
  have "count_settlement s (i, c) = s @ [(i, c)]" using Cons.prems by (auto simp: count_settlement_def)
  moreover have "counted (s @ [(i, c)]) \<inter> fst ` set ops = {}" using Cons.prems by auto
  ultimately show ?case using Cons.IH [of "s @ [(i, c)]"] Cons.prems by simp
qed simp

lemma on_frame_fst: "(i, c) \<in> set (on_frame fi ops) \<Longrightarrow> (Elem fi i, c) \<in> set ops"
  by (induction fi ops rule: on_frame.induct) (auto split: if_splits)

lemma on_frame_has: "(Elem fi i, c) \<in> set ops \<Longrightarrow> (i, c) \<in> set (on_frame fi ops)"
  by (induction fi ops rule: on_frame.induct) auto

lemma on_frame_distinct: "distinct (map fst ops) \<Longrightarrow> distinct (map fst (on_frame fi ops))"
proof (induction fi ops rule: on_frame.induct)
  case (2 fi fj i cl rest)
  have "i \<notin> fst ` set (on_frame fj rest)" if "fi = fj"
    using "2.prems" that by (force dest: on_frame_fst)
  then show ?case using 2 by auto
qed simp_all

section \<open>Properties\<close>

text \<open>What a batch handler's results and the poison callback decide, for every message of a batch.\<close>

lemma settle_decides:
  assumes "quiet c ok"
  obtains cs where "snd (settle c br msgs results b) = do_calls br (zip msgs cs) b"
    "length cs = length msgs" "cs = map (fst \<circ> snd) (batch_plan c ok br msgs results b)"
    "\<And>k. k < length msgs \<Longrightarrow> cs ! k \<noteq> CallInProgress \<and> (cs ! k = CallAck) = acked (result_at results k)"
proof
  let ?p = "batch_plan c ok br msgs results b"
  let ?cs = "map (fst \<circ> snd) ?p"
  show "snd (settle c br msgs results b) = do_calls br (zip msgs ?cs) b"
    using settle_plan [OF assms] by (simp add: Let_def)
  show "?cs ! k \<noteq> CallInProgress \<and> (?cs ! k = CallAck) = acked (result_at results k)"
    if k: "k < length msgs" for k
  proof -
    obtain kind cl d where pk: "?p ! k = (kind, cl, d)" by (metis prod_cases3)
    obtain flr where "?p ! k =
        decide c ok (num_delivered br b (msgs ! k)) (msgs ! k) (result_at results k) flr"
      by (rule batch_plan_decides [OF k])
    then have "decide c ok (num_delivered br b (msgs ! k)) (msgs ! k) (result_at results k) flr = (kind, cl, d)"
      using pk by simp
    from decide_kind [OF this] show ?thesis using k pk by simp
  qed
qed simp_all

lemma failed_foldl: "failed_count (foldl with_kind t ks) = failed_count t + length (filter (\<lambda>k. failure k \<noteq> '''') ks)"
  by (induction ks arbitrary: t) (simp_all add: failed_count_with)

text \<open>
  One settling call per message. Whatever the handler returns, too few results or too many, every
  message of the batch gets exactly one settling call, in the order of the batch: an acknowledgement
  exactly when its result is an ack or a skip. The tally counts every message once, and as failed
  exactly those that were not acknowledged.
\<close>
theorem settle_one_call_each:
  assumes "quiet c ok"
  shows "\<exists>cs. length cs = length msgs \<and>
    snd (settle c br msgs results b) = do_calls br (zip msgs cs) b \<and>
    (\<forall>k < length msgs. cs ! k \<noteq> CallInProgress \<and> (cs ! k = CallAck) = acked (result_at results k)) \<and>
    total (fst (settle c br msgs results b)) = length msgs \<and>
    failed_count (fst (settle c br msgs results b)) =
      length (filter (\<lambda>k. \<not> acked (result_at results k)) [0..<length msgs])"
proof -
  let ?p = "batch_plan c ok br msgs results b"
  obtain cs where cs: "snd (settle c br msgs results b) = do_calls br (zip msgs cs) b"
    "length cs = length msgs" "cs = map (fst \<circ> snd) ?p"
    "\<And>k. k < length msgs \<Longrightarrow> cs ! k \<noteq> CallInProgress \<and> (cs ! k = CallAck) = acked (result_at results k)"
    by (rule settle_decides [OF assms, of br msgs results b]) blast
  have kinds: "failure (fst (?p ! k)) \<noteq> '''' \<longleftrightarrow> \<not> acked (result_at results k)" if k: "k < length msgs" for k
  proof -
    obtain kind cl d where pk: "?p ! k = (kind, cl, d)" by (metis prod_cases3)
    obtain flr where "?p ! k =
        decide c ok (num_delivered br b (msgs ! k)) (msgs ! k) (result_at results k) flr"
      by (rule batch_plan_decides [OF k])
    then have "decide c ok (num_delivered br b (msgs ! k)) (msgs ! k) (result_at results k) flr = (kind, cl, d)"
      using pk by simp
    from decide_kind [OF this] show ?thesis using pk by simp
  qed
  have map: "map fst ?p = map (\<lambda>k. fst (?p ! k)) [0..<length msgs]"
    by (rule nth_equalityI) simp_all
  have "filter (\<lambda>k. failure (fst (?p ! k)) \<noteq> '''') [0..<length msgs] =
      filter (\<lambda>k. \<not> acked (result_at results k)) [0..<length msgs]"
    by (rule filter_cong) (use kinds in auto)
  then have "failed_count (fst (settle c br msgs results b)) =
      length (filter (\<lambda>k. \<not> acked (result_at results k)) [0..<length msgs])"
    unfolding settle_plan [OF assms] Let_def fst_conv failed_foldl map by (simp add: filter_map comp_def)
  then show ?thesis using cs settle_total [of c br msgs results b] by blast
qed

definition demo_consumer :: "unit consumer" where
  "demo_consumer = \<lparr>chandler = (\<lambda>ms b. (Some (map (\<lambda>_. Ack) ms), b)), on_poison = None,
     delays = [second, 5 * second], max_attempts = 3, max_deliver = -1\<rparr>"

lemma demo_quiet: "quiet demo_consumer (\<lambda>_ _. True)"
  by (simp add: quiet_def demo_consumer_def)

theorem settle_one_call_each_witness:
  "\<exists>cs. length cs = 2 \<and> (cs ! 0 = CallAck) = True \<and> (cs ! 1 = CallAck) = False"
  using settle_one_call_each [OF demo_quiet, of "[Raw 1, Raw 2]" demo_broker
      "[Ack]" "\<lparr>calls = [], ticks = 0, frames = []\<rparr>"]
  by (auto simp: result_at_def numeral_2_eq_2 All_less_Suc)

lemma batch_closes_frame:
  assumes "quiet c ok" "distinct msgs" "fresh_frame n (frames b ! fi)" "0 < n" "fi < length (frames b)"
    and "frame_apart fi n b (set msgs)" "\<forall>i < n. Elem fi i \<in> set msgs"
  shows "\<exists>cs. length cs = length msgs \<and>
    (\<forall>k < length msgs. cs ! k \<noteq> CallInProgress \<and> (cs ! k = CallAck) = acked (result_at results k)) \<and>
    closings (raw (frames b ! fi)) (calls (snd (settle c br msgs results b))) =
      closings (raw (frames b ! fi)) (calls b) @ [closing_call (on_frame fi (zip msgs cs))]"
proof -
  obtain cs where cs: "snd (settle c br msgs results b) = do_calls br (zip msgs cs) b"
    "length cs = length msgs"
    "\<And>k. k < length msgs \<Longrightarrow> cs ! k \<noteq> CallInProgress \<and> (cs ! k = CallAck) = acked (result_at results k)"
    by (rule settle_decides [OF assms(1), of br msgs results b]) blast
  let ?ops = "zip msgs cs"
  have nip: "cl \<noteq> CallInProgress" if "(m, cl) \<in> set ?ops" for m cl
    using that cs(2,3) by (auto simp: in_set_zip)
  have fsts: "map fst ?ops = msgs" "fst ` set ?ops = set msgs"
    using cs(2) by (simp_all flip: set_map)
  have all: "foldl count_settlement [] (on_frame fi ?ops) = on_frame fi ?ops"
    using foldl_all_count [of "on_frame fi ?ops" "[]"] on_frame_distinct [of ?ops fi]
    by (simp add: fsts assms(2)) (use nip on_frame_fst in blast)
  have "counted (on_frame fi ?ops) = {..<n}"
  proof
    show "counted (on_frame fi ?ops) \<subseteq> {..<n}"
      using on_frame_bound [of fi n b ?ops] assms(6) by (auto simp: fsts counted_def)
    show "{..<n} \<subseteq> counted (on_frame fi ?ops)"
    proof
      fix i assume "i \<in> {..<n}"
      then have "Elem fi i \<in> fst ` set ?ops" using assms(7) fsts(2) by simp
      then obtain cl where "(Elem fi i, cl) \<in> set ?ops" by force
      then show "i \<in> counted (on_frame fi ?ops)" using on_frame_has unfolding counted_def by force
    qed
  qed
  then have "closings (raw (frames b ! fi)) (calls (do_calls br ?ops b)) =
      closings (raw (frames b ! fi)) (calls b) @ [closing_call (on_frame fi ?ops)]"
    using do_calls_abs [OF fresh_frame_abs [OF assms(3)] assms(5), of ?ops br] assms(4,6)
    by (auto simp: fsts all Let_def)
  then show ?thesis using cs by metis
qed

text \<open>
  C19. A batch settles its frames. When a batch carries every element of a fresh frame, and no other
  message of the batch belongs to the frame's broker message, settling the batch settles the broker
  message of the frame exactly once, by the call its elements' decisions ask for: a negative
  acknowledgement with the largest delay of a failed element, an acknowledgement otherwise.
\<close>
theorem settle_closes_frame:
  assumes "quiet c ok" "distinct msgs" "fresh_frame n (frames b ! fi)" "0 < n" "fi < length (frames b)"
    and "frame_apart fi n b (set msgs)" "\<forall>i < n. Elem fi i \<in> set msgs"
  shows "\<exists>cs. length cs = length msgs \<and>
    (\<forall>k < length msgs. cs ! k \<noteq> CallInProgress \<and> (cs ! k = CallAck) = acked (result_at results k)) \<and>
    closings (raw (frames b ! fi)) (calls (snd (settle c br msgs results b))) =
      closings (raw (frames b ! fi)) (calls b) @ [closing_call (on_frame fi (zip msgs cs))]"
  by (rule batch_closes_frame [OF assms])

theorem settle_closes_frame_witness:
  "\<exists>cs. length cs = 3 \<and> (cs ! 1 = CallAck) = False \<and>
     closings 7 (calls (snd (settle demo_consumer demo_broker [Raw 1, Elem 0 0, Elem 0 1] [Ack]
       \<lparr>calls = [], ticks = 0, frames = [demo_frame 2]\<rparr>))) =
     [closing_call (on_frame 0 (zip [Raw 1, Elem 0 0, Elem 0 1] cs))]"
proof -
  let ?b = "\<lparr>calls = [], ticks = 0, frames = [demo_frame 2]\<rparr>"
  let ?ms = "[Raw 1, Elem 0 0, Elem 0 1]"
  have raw: "raw (frames ?b ! 0) = 7" by (simp add: demo_frame_def)
  have "\<exists>cs. length cs = length ?ms \<and>
    (\<forall>k < length ?ms. cs ! k \<noteq> CallInProgress \<and> (cs ! k = CallAck) = acked (result_at [Ack] k)) \<and>
    closings (raw (frames ?b ! 0)) (calls (snd (settle demo_consumer demo_broker ?ms [Ack] ?b))) =
      closings (raw (frames ?b ! 0)) (calls ?b) @ [closing_call (on_frame 0 (zip ?ms cs))]"
    by (rule settle_closes_frame [OF demo_quiet, of _ 2])
      (auto simp: fresh_frame_def demo_frame_def frame_apart_def less_2_cases_iff)
  then show ?thesis unfolding raw
    by (auto simp: result_at_def All_less_Suc numeral_3_eq_3 closings_def)
qed

lemma first_delay_ladder: "delays c \<noteq> [] \<Longrightarrow> delay_for_delivery c n \<in> set (delays c)"
  by (auto simp: delay_for_delivery_def Let_def)

text \<open>
  C17. A message never comes back before the one it waits for. When the poison callback does its work,
  a message whose result points at an earlier one of its key (\<open>after\<close>) and that is sent
  back is sent back no sooner than any message sent back from the frame of that earlier message, the
  earlier message included.
\<close>
theorem settle_returns_in_order:
  assumes "quiet c (\<lambda>_ _. True)"
  shows "\<exists>cs. length cs = length msgs \<and>
    snd (settle c br msgs results b) = do_calls br (zip msgs cs) b \<and>
    (\<forall>i < length msgs. \<forall>j < i. \<forall>k < i. after (result_at results i) = int j + 1 \<longrightarrow>
       frame_starts msgs ! k = frame_starts msgs ! j \<longrightarrow>
       (case (cs ! k, cs ! i) of (CallNakWithDelay dk, CallNakWithDelay di) \<Rightarrow> dk \<le> di | _ \<Rightarrow> True))"
proof -
  let ?p = "batch_plan c (\<lambda>_ _. True) br msgs results b"
  obtain cs where cs: "snd (settle c br msgs results b) = do_calls br (zip msgs cs) b"
    "length cs = length msgs" "cs = map (fst \<circ> snd) ?p"
    by (rule settle_decides [OF assms, of br msgs results b]) blast
  have delay: "cl = CallNakWithDelay d' \<Longrightarrow> d' = d \<and> flr \<le> d"
    if "decide c (\<lambda>_ _. True) n m r flr = (kind, cl, d)" for n m r flr kind cl d d'
    using that
    by (cases "verdict r") (auto simp: decide_def poison_call_def Let_def split: if_splits)
  have "dk \<le> di" if "i < length msgs" "j < i" "k < i" "after (result_at results i) = int j + 1"
    "frame_starts msgs ! k = frame_starts msgs ! j" "cs ! k = CallNakWithDelay dk" "cs ! i = CallNakWithDelay di"
    for i j k dk di
  proof -
    have kl: "k < length msgs" using that(1,3) by simp
    note order = batch_plan_floors [OF that(1,4,2,3,5), of c "\<lambda>_ _. True" br b]
    note at_k = that(6) and at_i = that(7) and il = that(1)
    obtain kk ck ddk where pk: "?p ! k = (kk, ck, ddk)" by (metis prod_cases3)
    obtain ki ci ddi where pi: "?p ! i = (ki, ci, ddi)" by (metis prod_cases3)
    have ck: "ck = CallNakWithDelay dk" and ci: "ci = CallNakWithDelay di"
      using at_k at_i kl il pk pi unfolding cs(3) by simp_all
    obtain fk where "decide c (\<lambda>_ _. True) (num_delivered br b (msgs ! k)) (msgs ! k)
        (result_at results k) fk = (kk, ck, ddk)"
      using batch_plan_decides [OF kl, of c "\<lambda>_ _. True" br results b] pk by metis
    from delay [OF this ck] have "dk = ddk" ..
    moreover obtain fi where fi: "decide c (\<lambda>_ _. True) (num_delivered br b (msgs ! i)) (msgs ! i)
        (result_at results i) fi = (ki, ci, ddi)" "ddk \<le> fi"
      using order unfolding pk pi by (metis snd_conv)
    moreover have "di = ddi \<and> fi \<le> ddi" by (rule delay [OF fi(1) ci])
    ultimately show ?thesis by simp
  qed
  then have "\<forall>i < length msgs. \<forall>j < i. \<forall>k < i. after (result_at results i) = int j + 1 \<longrightarrow>
       frame_starts msgs ! k = frame_starts msgs ! j \<longrightarrow>
       (case (cs ! k, cs ! i) of (CallNakWithDelay dk, CallNakWithDelay di) \<Rightarrow> dk \<le> di | _ \<Rightarrow> True)"
    by (simp split: call.split)
  then show ?thesis using cs by blast
qed

theorem settle_returns_in_order_witness:
  "\<exists>cs. length cs = 2 \<and>
     (case (cs ! 0, cs ! 1) of (CallNakWithDelay dk, CallNakWithDelay di) \<Rightarrow> dk \<le> di | _ \<Rightarrow> True)"
proof -
  let ?b = "\<lparr>calls = [], ticks = 0, frames = []\<rparr> :: bus"
  let ?rs = "[NakDelay 9 (Foreign ''x''), (NakDelay 1 (Foreign ''y''))\<lparr>after := 1\<rparr>]"
  obtain cs where cs: "length cs = length [Raw 1, Raw 2]"
    "\<forall>i < length [Raw 1, Raw 2]. \<forall>j < i. \<forall>k < i. after (result_at ?rs i) = int j + 1 \<longrightarrow>
       frame_starts [Raw 1, Raw 2] ! k = frame_starts [Raw 1, Raw 2] ! j \<longrightarrow>
       (case (cs ! k, cs ! i) of (CallNakWithDelay dk, CallNakWithDelay di) \<Rightarrow> dk \<le> di | _ \<Rightarrow> True)"
    using settle_returns_in_order [OF demo_quiet, of "[Raw 1, Raw 2]" demo_broker ?rs ?b] by blast
  from cs(2) [rule_format, of 1 0 0] cs(1) show ?thesis
    by (intro exI [of _ cs]) (simp add: result_at_def)
qed

text \<open>
  A failing poison callback breaks that order. When it fails, the head it was called for is sent
  back with the first delay of the ladder, but the floor it leaves behind is 0: a message of its key
  that retries with a shorter delay comes back before it.
\<close>
theorem poison_failure_reorders:
  assumes "quiet c (\<lambda>_ _. False)" "on_poison c \<noteq> None" "max_attempts c \<le> 0" "0 < t" "t < first_delay c"
    and "\<not> errors_is e ErrOrderBlocked" "\<not> errors_is e ErrPoison"
  shows "calls (snd (settle c br [Raw m, Raw n] [Term e', (NakDelay t e)\<lparr>after := 1\<rparr>] b)) =
    calls b @ [(m, CallNakWithDelay (first_delay c)), (n, CallNakWithDelay t)] \<and> t < first_delay c"
proof -
  have "batch_plan c (\<lambda>_ _. False) br [Raw m, Raw n] [Term e', (NakDelay t e)\<lparr>after := 1\<rparr>] b =
      [(settledPoison, CallNakWithDelay (first_delay c), 0), (settledRetry, CallNakWithDelay t, t)]"
    using assms
    by (simp add: batch_plan_def frame_starts_def Let_def result_at_def return_floor_def decide_def
        poison_call_def numeral_2_eq_2 Term_def zero_result_def max_def)
  then show ?thesis using settle_plan [OF assms(1), of br "[Raw m, Raw n]"] assms(5)
    by (simp add: Let_def send_def)
qed

definition demo_failing :: "unit consumer" where
  "demo_failing = demo_consumer\<lparr>on_poison := Some (\<lambda>m e b. (Failed (Foreign ''dlq down''), b)),
     max_attempts := 0\<rparr>"

theorem poison_failure_reorders_witness:
  "calls (snd (settle demo_failing demo_broker [Raw 1, Raw 2]
     [Term (Foreign ''bad''), (NakDelay millisecond (Foreign ''locked''))\<lparr>after := 1\<rparr>]
     \<lparr>calls = [], ticks = 0, frames = []\<rparr>)) =
   [(1, CallNakWithDelay second), (2, CallNakWithDelay millisecond)]"
proof -
  have "quiet demo_failing (\<lambda>_ _. False)" by (simp add: quiet_def demo_failing_def)
  moreover have "first_delay demo_failing = second"
    by (simp add: first_delay_def demo_failing_def demo_consumer_def)
  ultimately show ?thesis
    using poison_failure_reorders [of demo_failing millisecond "Foreign ''locked''" demo_broker 1 2
        "Foreign ''bad''" "\<lparr>calls = [], ticks = 0, frames = []\<rparr>"]
    by (simp add: demo_failing_def)
qed

lemma plus_event_total: "total (plus_event e f) = total e + total f"
  using total_plus [of e f] by (simp add: plus_settle_event_def)

lemma isolate_total: "total (fst (isolate c br ms tally b)) \<le> total tally + length ms"
proof (induction ms arbitrary: tally b)
  case (Cons m ms)
  obtain st b1 where s: "is_settled br m b = (st, b1)" by fastforce
  show ?case
  proof (cases st)
    case True
    then show ?thesis using Cons.IH [of tally b1] s by simp
  next
    case False
    obtain rs b2 where h: "chandler c [m] b1 = (rs, b2)" by fastforce
    show ?thesis
    proof (cases rs)
      case None
      obtain kind d b3 where a: "apply_result c br m (Nak (Sent ErrHandlerPanic)) 0 b2 = ((kind, d), b3)"
        by (metis prod.exhaust)
      show ?thesis using Cons.IH [of "plus_event tally (with_kind 0 kind)" b3] s h a False None
        by (simp add: plus_event_total)
    next
      case (Some results)
      obtain ev b3 where a: "settle c br [m] results b2 = (ev, b3)" by fastforce
      have "total ev = 1" using settle_total [of c br "[m]" results b2] a by simp
      then show ?thesis using Cons.IH [of "plus_event tally ev" b3] s h a False Some
        by (simp add: plus_event_total)
    qed
  qed
qed simp

text \<open>The call made on a message whose handler panics.\<close>

definition panic_call :: "'z consumer \<Rightarrow> (msg \<Rightarrow> goerr option \<Rightarrow> bool) \<Rightarrow> broker \<Rightarrow> nat \<Rightarrow> call" where
  "panic_call c ok br m =
     fst (snd (decide c ok (case delivered br m of None \<Rightarrow> 1 | Some n \<Rightarrow> n) (Raw m)
       (Nak (Sent ErrHandlerPanic)) 0))"

lemma isolate_calls:
  assumes "\<And>ms b. chandler c ms b = (if \<exists>m \<in> set ms. bad m then None else Some (map (\<lambda>_. Ack) ms), b)"
    and "\<And>h. \<not> err_is (reply br h) ErrMsgAlreadyAckd" and "quiet c ok"
  shows "calls (snd (isolate c br (map Raw ms) tally b)) = calls b @ concat (map (\<lambda>m.
    [(m, CallInProgress), (m, if bad (Raw m) then panic_call c ok br m else CallAck)]) ms)"
proof (induction ms arbitrary: tally b)
  case (Cons m ms)
  obtain b1 where s: "is_settled br (Raw m) b = (False, b1)" "calls b1 = calls b @ [(m, CallInProgress)]"
    using assms(2) by (simp add: is_settled_def send_def Let_def)
  show ?case
  proof (cases "bad (Raw m)")
    case True
    let ?d = "decide c ok (num_delivered br b1 (Raw m)) (Raw m) (Nak (Sent ErrHandlerPanic)) 0"
    obtain kind cl d where d: "?d = (kind, cl, d)" by (metis prod_cases3)
    then have cl: "cl = panic_call c ok br m" by (simp add: panic_call_def num_delivered_def)
    show ?thesis using apply_result_decide [OF assms(3) d] s True assms(1) cl
      by (simp add: Cons.IH send_def Let_def)
  next
    case False
    have "settle c br [Raw m] [Ack] b1 = (with_kind 0 settledAck, snd (msg_call br (Raw m) CallAck b1))"
      by (simp add: settle_def frame_starts_def Let_def result_at_def apply_result_def)
    then show ?thesis using s False assms(1) by (simp add: Cons.IH send_def Let_def)
  qed
qed simp

text \<open>
  A panic costs only the message that causes it. When the handler panics on every batch that
  holds a bad message and acknowledges every other, a batch with a bad message is retried message by
  message: each is asked first whether it is settled already, then a good one is acknowledged and a
  bad one goes the way of a failed message.
\<close>
theorem panic_isolated:
  assumes "\<And>ms b. chandler c ms b = (if \<exists>m \<in> set ms. bad m then None else Some (map (\<lambda>_. Ack) ms), b)"
    and "\<And>h. \<not> err_is (reply br h) ErrMsgAlreadyAckd" and "quiet c ok"
    and "\<exists>m \<in> set ms. bad (Raw m)"
  shows "calls (snd (process_batch c br (map Raw ms) b)) = calls b @ concat (map (\<lambda>m.
    [(m, CallInProgress), (m, if bad (Raw m) then panic_call c ok br m else CallAck)]) ms)"
  using isolate_calls [OF assms(1-3)] assms(4) by (simp add: process_batch_def assms(1))

definition demo_panicking :: "unit consumer" where
  "demo_panicking = demo_consumer\<lparr>chandler := (\<lambda>ms b.
     (if \<exists>m \<in> set ms. m = Raw 2 then None else Some (map (\<lambda>_. Ack) ms), b))\<rparr>"

theorem panic_isolated_witness:
  "calls (snd (process_batch demo_panicking demo_broker (map Raw [1, 2, 3])
     \<lparr>calls = [], ticks = 0, frames = []\<rparr>)) =
   [(1, CallInProgress), (1, CallAck), (2, CallInProgress), (2, CallNakWithDelay second),
    (3, CallInProgress), (3, CallAck)]"
proof -
  have "panic_call demo_panicking (\<lambda>_ _. True) demo_broker 2 = CallNakWithDelay second"
    by (simp add: panic_call_def decide_def demo_panicking_def demo_consumer_def demo_broker_def
        delay_for_delivery_def max_def)
  then show ?thesis
    using panic_isolated [of demo_panicking "\<lambda>m. m = Raw 2" demo_broker "\<lambda>_ _. True" "[1, 2, 3]"
        "\<lparr>calls = [], ticks = 0, frames = []\<rparr>"]
    by (simp add: demo_panicking_def quiet_def demo_consumer_def demo_broker_def)
qed

end
