(* ===== verification/Batch_Fetch.thy ===== *)
theory Batch_Fetch imports Batch_Settle Frame_Codec begin

text \<open>
  The loop of a batch consumer (\<^verbatim>\<open>fetch.go\<close>, \<^verbatim>\<open>loop.go\<close>,
  \<^verbatim>\<open>unpack.go\<close>): filling a batch from the broker, unpacking its frames, and one
  round after another until the consumer is stopped or gone.
\<close>

section \<open>The consumer's surroundings\<close>

datatype fetch_opt = FetchContext duration | FetchMaxWait duration | FetchPriorityGroup string

text \<open>What a fetch brings: an error at once, or messages and the error the batch ended with.\<close>

datatype fetched = FetchFailed goerr | Fetched "nat list" "goerr option"

text \<open>The broker's answers, the clock, and whether the consumer was told to stop, by number of reading.\<close>

record fetch_env =
  fetch_at :: "nat \<Rightarrow> int \<Rightarrow> fetch_opt list \<Rightarrow> fetched"
  clock_at :: "nat \<Rightarrow> int"
  stop_at :: "nat \<Rightarrow> bool"

record fetch_config =
  fmax :: int
  linger :: duration
  min_batch :: int
  linger_max :: duration
  heartbeat_every :: duration
  pin_group :: string

record feed = bus +
  reads :: nat
  fetch_log :: "nat list"

definition read_next :: "'z feed_scheme \<Rightarrow> nat \<times> 'z feed_scheme" where
  "read_next b = (reads b, b\<lparr>reads := Suc (reads b)\<rparr>)"

section \<open>Fetching\<close>

definition is_quiet_fetch_err :: "goerr \<Rightarrow> bool" where
  "is_quiet_fetch_err e \<longleftrightarrow> (\<exists>q \<in> set [ErrTimeoutNats, ErrNoMessages, Canceled, DeadlineExceeded]. errors_is e q)"

definition is_fatal_fetch_err :: "goerr \<Rightarrow> bool" where
  "is_fatal_fetch_err e \<longleftrightarrow> errors_is e ErrConsumerDeleted \<or> errors_is e ErrConsumerNotFound"

definition fetch_opts :: "fetch_config \<Rightarrow> fetch_opt \<Rightarrow> fetch_opt list" where
  "fetch_opts cfg opt = (if pin_group cfg = [] then [opt] else [opt, FetchPriorityGroup (pin_group cfg)])"

definition collect ::
  "fetch_env \<Rightarrow> fetch_config \<Rightarrow> int \<Rightarrow> fetch_opt \<Rightarrow> 'z feed_scheme \<Rightarrow> (nat list \<times> goerr option) \<times> 'z feed_scheme" where
  "collect env cfg want opt b =
     (let (n, b1) = read_next b in
      case fetch_at env n want (fetch_opts cfg opt) of
        FetchFailed e \<Rightarrow> (([], Some e), b1)
      | Fetched ms None \<Rightarrow> ((ms, None), b1)
      | Fetched ms (Some e) \<Rightarrow>
          (if is_quiet_fetch_err e then ((ms, None), b1)
           else if errors_is e ErrPinIDMismatch then ((ms, None), b1)
           else ((ms, Some e), b1)))"

text \<open>The loop of \<^verbatim>\<open>fillToMin\<close>, up to its deadline.\<close>

partial_function (option) fill_loop ::
  "fetch_env \<Rightarrow> fetch_config \<Rightarrow> int \<Rightarrow> nat list \<Rightarrow> 'z feed_scheme
     \<Rightarrow> ((nat list \<times> goerr option) \<times> 'z feed_scheme) option" where
  "fill_loop env cfg deadline msgs b =
     (if \<not> (int (length msgs) < min_batch cfg \<and> int (length msgs) < fmax cfg) then Some ((msgs, None), b)
      else let (s, b1) = read_next b in
        if stop_at env s then Some ((msgs, None), b1)
        else let (n, b2) = read_next b1; remaining = deadline - clock_at env n in
          if remaining \<le> 0 then Some ((msgs, None), b2)
          else
            let wait = min (linger cfg) remaining;
                wait' = (if wait < millisecond then millisecond else wait);
                ((rest, err), b3) = collect env cfg (fmax cfg - int (length msgs)) (FetchMaxWait wait') b2
            in if err \<noteq> None then Some ((msgs @ rest, err), b3)
               else fill_loop env cfg deadline (msgs @ rest) b3)"

definition fill_to_min ::
  "fetch_env \<Rightarrow> fetch_config \<Rightarrow> nat list \<Rightarrow> int \<Rightarrow> 'z feed_scheme
     \<Rightarrow> ((nat list \<times> goerr option) \<times> 'z feed_scheme) option" where
  "fill_to_min env cfg msgs started b =
     (if min_batch cfg \<le> 0 \<or> linger_max cfg \<le> 0 then Some ((msgs, None), b)
      else fill_loop env cfg (started + linger_max cfg) msgs b)"

definition fetch_rest ::
  "fetch_env \<Rightarrow> fetch_config \<Rightarrow> nat list \<Rightarrow> 'z feed_scheme
     \<Rightarrow> ((nat list \<times> goerr option) \<times> 'z feed_scheme) option" where
  "fetch_rest env cfg msgs b =
     (let room = fmax cfg - int (length msgs) in
      if room \<le> 0 then Some ((msgs, None), b)
      else
        let (n, b1) = read_next b;
            ((rest, err), b2) = collect env cfg room (FetchMaxWait (linger cfg)) b1
        in if err \<noteq> None then Some ((msgs @ rest, err), b2)
           else fill_to_min env cfg (msgs @ rest) (clock_at env n) b2)"

definition idle_poll :: duration where "idle_poll = 5 * second"

definition fetch_batch ::
  "fetch_env \<Rightarrow> fetch_config \<Rightarrow> bool \<Rightarrow> 'z feed_scheme
     \<Rightarrow> ((nat list \<times> goerr option) \<times> 'z feed_scheme) option" where
  "fetch_batch env cfg idle b =
     (if \<not> idle then fetch_rest env cfg [] b
      else
        let ((first, err), b1) = collect env cfg 1 (FetchContext idle_poll) b in
        if err \<noteq> None \<or> first = [] then Some ((first, err), b1)
        else let (s, b2) = read_next b1 in
          if stop_at env s then Some ((first, None), b2) else fetch_rest env cfg first b2)"

section \<open>Unpacking\<close>

fun unpack_all ::
  "'z consumer \<Rightarrow> broker \<Rightarrow> msgpack \<Rightarrow> (nat \<Rightarrow> content) \<Rightarrow> duration \<Rightarrow> nat list \<Rightarrow> 'z bus_scheme
     \<Rightarrow> msg list \<times> 'z bus_scheme" where
  "unpack_all c br mp contents hb [] b = ([], b)"
| "unpack_all c br mp contents hb (m # ms) b =
     (case unpack mp contents hb m b of
        (Inl err, b1) \<Rightarrow> unpack_all c br mp contents hb ms (send_poison c br (Raw m) (Some err) b1)
      | (Inr elems, b1) \<Rightarrow>
          let (rest, b2) = unpack_all c br mp contents hb ms b1 in (elems @ rest, b2))"

section \<open>One round of the loop\<close>

datatype next_round = Stopped "goerr option" | Again bool

definition loop_round ::
  "'z feed_ext consumer \<Rightarrow> broker \<Rightarrow> msgpack \<Rightarrow> (nat \<Rightarrow> content) \<Rightarrow> fetch_env \<Rightarrow> fetch_config \<Rightarrow> bool
     \<Rightarrow> 'z feed_scheme \<Rightarrow> (next_round \<times> 'z feed_scheme) option" where
  "loop_round c br mp contents env cfg idle b =
     (case fetch_batch env cfg idle b of
        None \<Rightarrow> None
      | Some ((msgs, err), b1) \<Rightarrow>
          let b2 = b1\<lparr>fetch_log := fetch_log b1 @ [length msgs]\<rparr> in
          if err \<noteq> None \<and> is_fatal_fetch_err (the err) then Some (Stopped err, nak_all br (map Raw msgs) b2)
          else let (s, b3) = read_next b2 in
            if stop_at env s then Some (Stopped None, nak_all br (map Raw msgs) b3)
            else if err \<noteq> None \<and> msgs = [] then Some (Again idle, b3)
            else
              let idle' = int (length msgs) < fmax cfg in
              if msgs = [] then Some (Again idle', b3)
              else
                let (ms, b4) = unpack_all c br mp contents (heartbeat_every cfg) msgs b3 in
                if ms = [] then Some (Again idle', b4) else Some (Again idle', snd (process_batch c br ms b4)))"

text \<open>The loop, with the error of a consumer that is gone.\<close>

partial_function (option) consume_loop ::
  "'z feed_ext consumer \<Rightarrow> broker \<Rightarrow> msgpack \<Rightarrow> (nat \<Rightarrow> content) \<Rightarrow> fetch_env \<Rightarrow> fetch_config \<Rightarrow> bool
     \<Rightarrow> 'z feed_scheme \<Rightarrow> (goerr option \<times> 'z feed_scheme) option" where
  "consume_loop c br mp contents env cfg idle b =
     (let (s, b0) = read_next b in
      if stop_at env s then Some (None, b0)
      else case loop_round c br mp contents env cfg idle b0 of
             None \<Rightarrow> None
           | Some (Stopped e, b1) \<Rightarrow> Some (e, b1)
           | Some (Again idle', b1) \<Rightarrow> consume_loop c br mp contents env cfg idle' b1)"

section \<open>A batch is filled and bounded\<close>

text \<open>The broker never answers with more messages than it was asked for, and the clock goes on.\<close>

definition obeys :: "fetch_env \<Rightarrow> bool" where
  "obeys env \<longleftrightarrow> (\<forall>n want opts. case fetch_at env n want opts of
     FetchFailed e \<Rightarrow> True | Fetched ms err \<Rightarrow> int (length ms) \<le> max 0 want)"

definition clock_goes_on :: "fetch_env \<Rightarrow> bool" where
  "clock_goes_on env \<longleftrightarrow> (\<forall>t. \<exists>k. \<forall>n \<ge> k. t \<le> clock_at env n)"

text \<open>Two states that differ in the number of readings only.\<close>

definition same_bus :: "'z feed_scheme \<Rightarrow> 'z feed_scheme \<Rightarrow> bool" where
  "same_bus b b' \<longleftrightarrow> (\<exists>n. b' = b\<lparr>reads := n\<rparr>)"

lemma same_bus_trans: "same_bus b b' \<Longrightarrow> same_bus b' b'' \<Longrightarrow> same_bus b b''"
  by (auto simp: same_bus_def)

lemma same_bus_reads [simp]: "same_bus b (b\<lparr>reads := n\<rparr>)"
  by (auto simp: same_bus_def)

lemma same_bus_self [simp]: "same_bus b b"
proof -
  have "b = b\<lparr>reads := reads b\<rparr>" by simp
  then show ?thesis unfolding same_bus_def by blast
qed

lemma same_bus_fields: "same_bus b b' \<Longrightarrow> calls b' = calls b \<and> frames b' = frames b"
  by (auto simp: same_bus_def)

lemma collect_spec:
  assumes "collect env cfg want opt b = ((ms, err), b')"
  shows "b' = b\<lparr>reads := Suc (reads b)\<rparr> \<and> (obeys env \<longrightarrow> int (length ms) \<le> max 0 want)"
proof -
  have "obeys env \<longrightarrow> (case fetch_at env (reads b) want (fetch_opts cfg opt) of
      FetchFailed e \<Rightarrow> True | Fetched ms err \<Rightarrow> int (length ms) \<le> max 0 want)"
    unfolding obeys_def by blast
  then show ?thesis using assms
    by (auto simp: collect_def read_next_def split: fetched.splits option.splits if_splits)
qed

text \<open>
  The fill loop ends: each turn reads the clock, and after \<open>k\<close> readings the deadline is over.
\<close>

lemma fill_loop_ends:
  assumes "\<forall>n \<ge> k. deadline \<le> clock_at env n" and "obeys env" and "int (length msgs) \<le> fmax cfg"
  shows "\<exists>ms err b'. fill_loop env cfg deadline msgs b = Some ((ms, err), b') \<and>
    int (length ms) \<le> fmax cfg \<and> same_bus b b'"
  using assms(3)
proof (induction "k - reads b" arbitrary: msgs b rule: less_induct)
  case less
  let ?b1 = "b\<lparr>reads := Suc (reads b)\<rparr>" and ?b2 = "b\<lparr>reads := Suc (Suc (reads b))\<rparr>"
  let ?remaining = "deadline - clock_at env (Suc (reads b))"
  let ?wait = "if min (linger cfg) ?remaining < millisecond then millisecond else min (linger cfg) ?remaining"
  obtain rest err b3 where c: "collect env cfg (fmax cfg - int (length msgs)) (FetchMaxWait ?wait) ?b2 =
      ((rest, err), b3)" by (metis prod.collapse)
  note spec = collect_spec [OF c]
  have len: "int (length (msgs @ rest)) \<le> fmax cfg" using spec assms(2) less.prems by auto
  note unroll = fill_loop.simps [of env cfg deadline msgs b]
  show ?case
  proof (cases "int (length msgs) < min_batch cfg \<and> int (length msgs) < fmax cfg \<and>
      \<not> stop_at env (reads b) \<and> \<not> ?remaining \<le> 0 \<and> err = None")
    case True
    have early: "reads b < k"
    proof (rule ccontr)
      assume "\<not> reads b < k"
      then have "deadline \<le> clock_at env (Suc (reads b))" using assms(1) by simp
      then show False using True by simp
    qed
    have "\<exists>ms err b'. fill_loop env cfg deadline (msgs @ rest) b3 = Some ((ms, err), b') \<and>
        int (length ms) \<le> fmax cfg \<and> same_bus b3 b'"
      by (rule less.hyps [OF _ len]) (use spec early in simp)
    moreover have "fill_loop env cfg deadline msgs b = fill_loop env cfg deadline (msgs @ rest) b3"
      using True c unfolding unroll by (simp add: read_next_def Let_def)
    moreover have "same_bus b b3" using spec by auto
    ultimately show ?thesis using same_bus_trans by metis
  next
    case False
    have "same_bus b b3" using spec by auto
    then show ?thesis using False c len less.prems unfolding unroll
      by (auto simp: read_next_def Let_def)
  qed
qed

lemma fetch_rest_ends:
  assumes "clock_goes_on env" "obeys env" "int (length msgs) \<le> fmax cfg"
  shows "\<exists>ms err b'. fetch_rest env cfg msgs b = Some ((ms, err), b') \<and>
    int (length ms) \<le> fmax cfg \<and> same_bus b b'"
proof -
  let ?b1 = "b\<lparr>reads := Suc (reads b)\<rparr>"
  obtain rest err b2 where c: "collect env cfg (fmax cfg - int (length msgs)) (FetchMaxWait (linger cfg)) ?b1 =
      ((rest, err), b2)" by (metis prod.collapse)
  note spec = collect_spec [OF c]
  have len: "int (length (msgs @ rest)) \<le> fmax cfg" using spec assms(2,3) by auto
  have sb: "same_bus b b2" using spec by auto
  obtain k where k: "\<forall>n \<ge> k. clock_at env (reads b) + linger_max cfg \<le> clock_at env n"
    using assms(1) unfolding clock_goes_on_def by blast
  obtain ms e b' where f: "fill_loop env cfg (clock_at env (reads b) + linger_max cfg) (msgs @ rest) b2 =
      Some ((ms, e), b')" "int (length ms) \<le> fmax cfg" "same_bus b2 b'"
    using fill_loop_ends [OF k assms(2) len] by blast
  show ?thesis using c f len sb assms(3) same_bus_trans [OF sb f(3)]
    by (auto simp: fetch_rest_def fill_to_min_def read_next_def Let_def)
qed

text \<open>Every fetch ends, with no more messages than the batch may hold.\<close>

lemma fetch_ends:
  assumes "clock_goes_on env" "obeys env" "1 \<le> fmax cfg"
  shows "\<exists>ms err b'. fetch_batch env cfg idle b = Some ((ms, err), b') \<and>
    int (length ms) \<le> fmax cfg \<and> same_bus b b'"
proof (cases idle)
  case False
  then show ?thesis using fetch_rest_ends [OF assms(1,2), of "[]" cfg b] assms(3) by (simp add: fetch_batch_def)
next
  case True
  obtain first err b1 where c: "collect env cfg 1 (FetchContext idle_poll) b = ((first, err), b1)"
    by (metis prod.collapse)
  note spec = collect_spec [OF c]
  have len: "int (length first) \<le> fmax cfg" using spec assms(2,3) by auto
  let ?b2 = "b1\<lparr>reads := Suc (reads b1)\<rparr>"
  have sb: "same_bus b b1" "same_bus b ?b2" using spec by auto
  obtain ms e b' where f: "fetch_rest env cfg first ?b2 = Some ((ms, e), b')"
    "int (length ms) \<le> fmax cfg" "same_bus ?b2 b'"
    using fetch_rest_ends [OF assms(1,2) len] by blast
  show ?thesis using True c f len sb same_bus_trans [OF sb(2) f(3)]
    by (auto simp: fetch_batch_def read_next_def Let_def)
qed

section \<open>What becomes of a fetched message\<close>

lemma unpack_cases:
  assumes "unpack mp contents hb m b = (r, b')"
  obtains (bad) e where "r = Inl e" "b' = b"
  | (plain) "r = Inr [Raw m]" "b' = b"
  | (framed) n f where "0 < n" "fresh_frame n f" "raw f = m" "b' = b\<lparr>frames := frames b @ [f]\<rparr>"
      "r = Inr (map (Elem (length (frames b))) [0..<n])"
proof -
  have pos: "0 < length es" if "decode mp d = Inr es" for d es
  proof -
    obtain k rest trailing where "0 < k" "decode_elements mp (nat k) rest [] = Inr (es, trailing)"
      using \<open>decode mp d = Inr es\<close> by (fastforce simp: decode_def not_le split: sum.splits if_splits)
    moreover have "decode_elements mp n rest acc = Inr (es, trailing) \<Longrightarrow> length es = length acc + n" for n rest acc
      by (induction mp n rest acc rule: decode_elements.induct) (auto split: sum.splits)
    ultimately show ?thesis by force
  qed
  have fresh: "fresh_frame (length es) \<lparr>raw = m, unsettled = int (length es), ffailed = False, fdelay = 0,
      throttle = t, last_beat = None, elements = ems\<rparr>"
    if "build_elements (csubject (contents m)) 0 es [] = Inr ems" for es ems t
    using build_elements_inv [OF that] by (auto simp: fresh_frame_def)
  show thesis
  proof (cases "is_frame (contents m)")
    case False
    then show thesis using assms plain by (simp add: unpack_def)
  next
    case True
    show thesis
    proof (cases r)
      case (Inl e)
      then show thesis using assms bad True by (auto simp: unpack_def Let_def split: sum.splits if_splits)
    next
      case (Inr ms)
      then obtain es ems where "decode mp (cdata (contents m)) = Inr es"
        "build_elements (csubject (contents m)) 0 es [] = Inr ems"
        "ms = map (Elem (length (frames b))) [0..<length es]"
        "b' = b\<lparr>frames := frames b @ [\<lparr>raw = m, unsettled = int (length es), ffailed = False, fdelay = 0,
            throttle = go_div hb 2, last_beat = None, elements = ems\<rparr>]\<rparr>"
        using assms True by (auto simp: unpack_def Let_def split: sum.splits if_splits)
      then show thesis using framed [OF pos fresh] Inr by simp
    qed
  qed
qed

lemma call_closings_other:
  assumes "raw_of b m \<noteq> k"
  shows "closings k (calls (snd (msg_call br m cl b))) = closings k (calls b)"
proof (cases m)
  case (Raw j)
  then show ?thesis using assms by (simp add: send_def Let_def closings_def)
next
  case (Elem fj i)
  have "closings k (calls (snd (resolve_element br fj i nak d dbl b))) = closings k (calls b)" for nak d dbl
  proof -
    obtain r f where st: "settle_element i nak d (frames b ! fj) = (r, f)" by fastforce
    then show ?thesis using settle_element_raw [OF st] assms Elem
      by (cases r) (simp_all add: resolve_element_def send_def Let_def closings_def)
  qed
  moreover have "closings k (calls (snd (progress br fj i b))) = closings k (calls b)"
    using assms Elem by (simp add: progress_def send_def Let_def closings_def)
  ultimately show ?thesis using Elem by (cases cl) simp_all
qed

lemma do_calls_closings_other:
  "\<forall>m \<in> fst ` set ops. raw_of b m \<noteq> k \<Longrightarrow> closings k (calls (do_calls br ops b)) = closings k (calls b)"
  by (induction br ops b rule: do_calls.induct) (simp_all add: call_closings_other raw_of_call)

text \<open>One call on a broker message, among calls on others, closes it once.\<close>

lemma do_calls_closings_one:
  assumes "distinct (map fst ops)" "(Raw k, cl) \<in> set ops" "cl \<noteq> CallInProgress"
    and "\<forall>m \<in> fst ` set ops. m \<noteq> Raw k \<longrightarrow> raw_of b m \<noteq> k"
  shows "closings k (calls (do_calls br ops b)) = closings k (calls b) @ [cl]"
  using assms
proof (induction br ops b rule: do_calls.induct)
  case (2 br m c rest b)
  show ?case
  proof (cases "m = Raw k")
    case True
    have "m \<notin> fst ` set rest" using "2.prems"(1) by simp
    then have "(m, cl) \<notin> set rest" by (metis fst_conv image_eqI)
    then have "c = cl" using "2.prems"(2) True by simp
    let ?b = "snd (msg_call br m c b)"
    have "\<forall>m' \<in> fst ` set rest. raw_of ?b m' \<noteq> k"
    proof
      fix m' assume m': "m' \<in> fst ` set rest"
      then have "m' \<noteq> Raw k" using \<open>m \<notin> fst ` set rest\<close> True by blast
      then have "raw_of b m' \<noteq> k" using "2.prems"(4) m' by (metis image_insert insertCI list.simps(15))
      then show "raw_of ?b m' \<noteq> k" by (simp add: raw_of_call)
    qed
    from do_calls_closings_other [OF this] True \<open>c = cl\<close> "2.prems"(3) show ?thesis
      by (simp add: send_def Let_def closings_def)
  next
    case False
    have other: "raw_of b m \<noteq> k" using False "2.prems"(4) by simp
    let ?b = "snd (msg_call br m c b)"
    have "closings k (calls (do_calls br rest ?b)) = closings k (calls ?b) @ [cl]"
      by (rule "2.IH") (use "2.prems" False in \<open>simp_all add: raw_of_call\<close>)
    then show ?thesis using call_closings_other [OF other, of br c] by simp
  qed
qed simp

lemma nak_all_calls: "nak_all br ms b = do_calls br (map (\<lambda>m. (m, CallNak)) ms) b"
  by (induction ms arbitrary: b) simp_all

text \<open>
  What unpacking leaves of the broker message \<open>k\<close>: the message itself, all elements of
  its frame on a new frame state, or nothing when its frame was refused and the message closed.
\<close>

definition unpacked_as :: "nat \<Rightarrow> msg list \<Rightarrow> 'z bus_scheme \<Rightarrow> 'z bus_scheme \<Rightarrow> bool" where
  "unpacked_as k out b b' \<longleftrightarrow>
     (Raw k \<in> set out \<and> (\<forall>m \<in> set out. m \<noteq> Raw k \<longrightarrow> raw_of b' m \<noteq> k) \<and>
        closings k (calls b') = closings k (calls b)) \<or>
     (\<exists>fi n. fi < length (frames b') \<and> 0 < n \<and> fresh_frame n (frames b' ! fi) \<and> raw (frames b' ! fi) = k \<and>
        frame_apart fi n b' (set out) \<and> (\<forall>i < n. Elem fi i \<in> set out) \<and>
        closings k (calls b') = closings k (calls b)) \<or>
     ((\<forall>m \<in> set out. raw_of b' m \<noteq> k) \<and> (\<exists>cl. closings k (calls b') = closings k (calls b) @ [cl]))"

lemma unpacked_as_since:
  "unpacked_as k out b b' \<Longrightarrow> closings k (calls b) = closings k (calls b0) \<Longrightarrow> unpacked_as k out b0 b'"
  by (simp add: unpacked_as_def)

lemma unpacked_as_more:
  assumes "unpacked_as k out b b'" "\<forall>m \<in> set new. raw_of b' m \<noteq> k"
  shows "unpacked_as k (new @ out) b b'"
proof -
  have apart: "frame_apart fi n b' (set (new @ out))"
    if "frame_apart fi n b' (set out)" "raw (frames b' ! fi) = k" for fi n
    unfolding frame_apart_def set_append
  proof
    fix m assume "m \<in> set new \<union> set out"
    then show "(\<exists>i < n. m = Elem fi i) \<or> raw_of b' m \<noteq> raw (frames b' ! fi)"
    proof
      assume "m \<in> set new"
      then show ?thesis using assms(2) that(2) by simp
    next
      assume "m \<in> set out"
      then show ?thesis using that(1) unfolding frame_apart_def by blast
    qed
  qed
  have only: "\<forall>m \<in> set (new @ out). m \<noteq> Raw k \<longrightarrow> raw_of b' m \<noteq> k"
    if "\<forall>m \<in> set out. m \<noteq> Raw k \<longrightarrow> raw_of b' m \<noteq> k"
  proof
    fix m assume "m \<in> set (new @ out)"
    then show "m \<noteq> Raw k \<longrightarrow> raw_of b' m \<noteq> k" using that assms(2) by (cases "m \<in> set new") simp_all
  qed
  from assms(1)[unfolded unpacked_as_def] show ?thesis
  proof (elim disjE exE conjE)
    assume "Raw k \<in> set out" "\<forall>m \<in> set out. m \<noteq> Raw k \<longrightarrow> raw_of b' m \<noteq> k"
      "closings k (calls b') = closings k (calls b)"
    then show ?thesis using only unfolding unpacked_as_def by (intro disjI1) simp
  next
    fix fi n
    assume "fi < length (frames b')" "0 < n" "fresh_frame n (frames b' ! fi)" "raw (frames b' ! fi) = k"
      "frame_apart fi n b' (set out)" "\<forall>i < n. Elem fi i \<in> set out"
      "closings k (calls b') = closings k (calls b)"
    then show ?thesis using apart unfolding unpacked_as_def
      by (intro disjI2 disjI1 exI [of _ fi] exI [of _ n]) simp
  next
    fix cl
    assume "\<forall>m \<in> set out. raw_of b' m \<noteq> k" "closings k (calls b') = closings k (calls b) @ [cl]"
    then show ?thesis using assms(2) unfolding unpacked_as_def by (intro disjI2) auto
  qed
qed

lemma send_poison_raw:
  assumes "quiet c ok"
  shows "\<exists>cl. send_poison c br (Raw m) e b = b\<lparr>calls := calls b @ [(m, cl)]\<rparr> \<and> cl \<noteq> CallInProgress"
  using send_poison_quiet [OF assms, of br "Raw m" e b] by (auto simp: send_def poison_call_def Let_def)

lemma unpack_all_spec:
  assumes "quiet c ok" "distinct ms" "unpack_all c br mp contents hb ms b = (out, b')"
  shows "distinct out \<and> (\<exists>fs. frames b' = frames b @ fs) \<and>
    (\<forall>fi i. Elem fi i \<in> set out \<longrightarrow> length (frames b) \<le> fi \<and> fi < length (frames b')) \<and>
    (\<forall>m \<in> set out. raw_of b' m \<in> set ms) \<and>
    (\<forall>k. k \<notin> set ms \<longrightarrow> closings k (calls b') = closings k (calls b)) \<and>
    (\<forall>k \<in> set ms. unpacked_as k out b b')"
  using assms(2,3)
proof (induction ms arbitrary: b out)
  case (Cons m ms)
  obtain r b1 where u: "unpack mp contents hb m b = (r, b1)" by fastforce
  from u show ?case
  proof (cases rule: unpack_cases)
    case (bad e)
    obtain cl where p: "send_poison c br (Raw m) (Some e) b = b\<lparr>calls := calls b @ [(m, cl)]\<rparr>" "cl \<noteq> CallInProgress"
      using send_poison_raw [OF assms(1)] by blast
    let ?b = "b\<lparr>calls := calls b @ [(m, cl)]\<rparr>"
    have "unpack_all c br mp contents hb ms ?b = (out, b')" using Cons.prems(2) u bad p(1) by simp
    from Cons.IH [OF _ this] Cons.prems(1) have IH:
      "distinct out" "\<exists>fs. frames b' = frames b @ fs"
      "\<forall>fi i. Elem fi i \<in> set out \<longrightarrow> length (frames b) \<le> fi \<and> fi < length (frames b')"
      "\<forall>m \<in> set out. raw_of b' m \<in> set ms"
      "\<forall>k. k \<notin> set ms \<longrightarrow> closings k (calls b') = closings k (calls ?b)"
      "\<forall>k \<in> set ms. unpacked_as k out ?b b'"
      by simp_all
    have other: "closings k (calls ?b) = closings k (calls b)" if "k \<noteq> m" for k
      using that by (simp add: closings_def)
    have "closings m (calls b') = closings m (calls b) @ [cl]"
      using IH(5) Cons.prems(1) p(2) by (simp add: closings_def)
    then have "unpacked_as m out b b'" using IH(4) Cons.prems(1) unfolding unpacked_as_def by auto
    moreover have "unpacked_as k out b b'" if "k \<in> set ms" for k
    proof -
      have "k \<noteq> m" using that Cons.prems(1) by auto
      then show ?thesis using unpacked_as_since [OF bspec [OF IH(6) that] other] by simp
    qed
    ultimately show ?thesis using IH other by auto
  next
    case plain
    obtain rest where rest: "unpack_all c br mp contents hb ms b = (rest, b')" "out = Raw m # rest"
      using Cons.prems(2) u plain by (auto split: prod.splits)
    from Cons.IH [OF _ rest(1)] Cons.prems(1) have IH:
      "distinct rest" "\<exists>fs. frames b' = frames b @ fs"
      "\<forall>fi i. Elem fi i \<in> set rest \<longrightarrow> length (frames b) \<le> fi \<and> fi < length (frames b')"
      "\<forall>m \<in> set rest. raw_of b' m \<in> set ms"
      "\<forall>k. k \<notin> set ms \<longrightarrow> closings k (calls b') = closings k (calls b)"
      "\<forall>k \<in> set ms. unpacked_as k rest b b'"
      by simp_all
    have m: "m \<notin> set ms" "Raw m \<notin> set rest" using Cons.prems(1) IH(4) by auto
    have "unpacked_as m out b b'" using IH(4,5) m unfolding unpacked_as_def rest(2) by auto
    moreover have "unpacked_as k out b b'" if "k \<in> set ms" for k
    proof -
      have "k \<noteq> m" using that m by auto
      then show ?thesis using unpacked_as_more [OF bspec [OF IH(6) that], of "[Raw m]"] rest(2) by simp
    qed
    ultimately show ?thesis using IH m rest(2) by auto
  next
    case (framed n f)
    let ?fi = "length (frames b)"
    obtain rest where rest: "unpack_all c br mp contents hb ms b1 = (rest, b')"
      "out = map (Elem ?fi) [0..<n] @ rest"
      using Cons.prems(2) u framed by (auto split: prod.splits)
    from Cons.IH [OF _ rest(1)] Cons.prems(1) framed(4) have IH:
      "distinct rest" "\<exists>fs. frames b' = (frames b @ [f]) @ fs"
      "\<forall>fi i. Elem fi i \<in> set rest \<longrightarrow> Suc ?fi \<le> fi \<and> fi < length (frames b')"
      "\<forall>m \<in> set rest. raw_of b' m \<in> set ms"
      "\<forall>k. k \<notin> set ms \<longrightarrow> closings k (calls b') = closings k (calls b1)"
      "\<forall>k \<in> set ms. unpacked_as k rest b1 b'"
      by simp_all
    have calls: "calls b1 = calls b" using framed(4) by simp
    have at: "frames b' ! ?fi = f" "?fi < length (frames b')" using IH(2) by auto
    have m: "m \<notin> set ms" using Cons.prems(1) by simp
    have new: "\<forall>i. Elem ?fi i \<notin> set rest" using IH(3) by force
    have raw: "raw_of b' m' \<in> set (m # ms)" if "m' \<in> set out" for m'
      using that at framed(3) IH(4) rest(2) by auto
    have place: "length (frames b) \<le> fi \<and> fi < length (frames b')" if "Elem fi i \<in> set out" for fi i
    proof (cases "Elem fi i \<in> set rest")
      case True
      then show ?thesis using IH(3) by (meson Suc_leD)
    next
      case False
      then show ?thesis using that at(2) rest(2) by auto
    qed
    have frs: "\<exists>fs. frames b' = frames b @ fs" using IH(2) by auto
    have clo: "closings k (calls b') = closings k (calls b)" if "k \<notin> set (m # ms)" for k
      using that IH(5) calls by simp
    have mine: "m' \<in> set (map (Elem ?fi) [0..<n]) \<Longrightarrow> raw_of b' m' = m" for m'
      using at framed(3) by auto
    have "frame_apart ?fi n b' (set out)"
      using IH(4) m at framed(3) unfolding frame_apart_def rest(2) by auto
    then have "unpacked_as m out b b'"
      using at framed IH(5) m calls unfolding unpacked_as_def rest(2) by (intro disjI2 disjI1 exI [of _ ?fi] exI [of _ n]) auto
    moreover have "unpacked_as k out b b'" if k: "k \<in> set ms" for k
    proof -
      have "k \<noteq> m" using k m by auto
      then have "\<forall>m' \<in> set (map (Elem ?fi) [0..<n]). raw_of b' m' \<noteq> k" using mine by blast
      moreover have "unpacked_as k rest b b'" using IH(6) k calls by (simp add: unpacked_as_def)
      ultimately show ?thesis unfolding rest(2) by (intro unpacked_as_more)
    qed
    moreover have "distinct out" unfolding rest(2) using IH(1) new by (auto simp: distinct_map inj_on_def)
    ultimately show ?thesis using raw place frs clo by simp
  qed
qed simp

text \<open>Settling what was unpacked closes each broker message once, counted from before the unpacking.\<close>

lemma settle_unpacked:
  assumes "quiet c ok" "distinct out" "unpacked_as k out b0 b"
  shows "\<exists>cl. closings k (calls (snd (settle c br out rs b))) = closings k (calls b0) @ [cl]"
proof -
  obtain cs where cs: "snd (settle c br out rs b) = do_calls br (zip out cs) b" "length cs = length out"
    "\<And>j. j < length out \<Longrightarrow> cs ! j \<noteq> CallInProgress"
    by (rule settle_decides [OF assms(1), of br out rs b]) blast
  have fsts: "map fst (zip out cs) = out" "fst ` set (zip out cs) = set out"
    using cs(2) by simp_all (metis list.set_map map_fst_zip)
  from assms(3)[unfolded unpacked_as_def] show ?thesis
  proof (elim disjE exE conjE)
    assume plain: "Raw k \<in> set out" "\<forall>m \<in> set out. m \<noteq> Raw k \<longrightarrow> raw_of b m \<noteq> k"
      "closings k (calls b) = closings k (calls b0)"
    then obtain j where j: "j < length out" "out ! j = Raw k" by (auto simp: in_set_conv_nth)
    then have "(Raw k, cs ! j) \<in> set (zip out cs)" using cs(2) by (force simp: set_zip)
    have "closings k (calls (do_calls br (zip out cs) b)) = closings k (calls b) @ [cs ! j]"
      by (rule do_calls_closings_one [OF _ \<open>(Raw k, cs ! j) \<in> set (zip out cs)\<close> cs(3) [OF j(1)]])
        (use assms(2) plain(2) fsts in simp_all)
    then show ?thesis unfolding cs(1) plain(3) by blast
  next
    fix fi n
    assume fr: "fi < length (frames b)" "0 < n" "fresh_frame n (frames b ! fi)" "raw (frames b ! fi) = k"
      "frame_apart fi n b (set out)" "\<forall>i < n. Elem fi i \<in> set out"
      "closings k (calls b) = closings k (calls b0)"
    from batch_closes_frame [OF assms(1,2) fr(3,2,1,5,6), of rs br] show ?thesis using fr(4,7) by auto
  next
    fix cl
    assume "\<forall>m \<in> set out. raw_of b m \<noteq> k" "closings k (calls b) = closings k (calls b0) @ [cl]"
    then show ?thesis
      using do_calls_closings_other [of "zip out cs" b k br, unfolded fsts] unfolding cs(1)
      by (intro exI [of _ cl]) simp
  qed
qed

text \<open>A handler that returns results, and leaves the settling to the consumer.\<close>

definition hands_back :: "'z feed_ext consumer \<Rightarrow> bool" where
  "hands_back c \<longleftrightarrow> (\<forall>ms b. \<exists>rs. chandler c ms b = (Some rs, b))"

text \<open>The bookkeeping of a round: the messages of \<open>ms\<close> are closed once, the others are not.\<close>

definition closes_each :: "nat list \<Rightarrow> 'z bus_scheme \<Rightarrow> 'z bus_scheme \<Rightarrow> bool" where
  "closes_each ms b b' \<longleftrightarrow> 
     (\<forall>k \<in> set ms. \<exists>cl. closings k (calls b') = closings k (calls b) @ [cl]) \<and>
     (\<forall>k. k \<notin> set ms \<longrightarrow> closings k (calls b') = closings k (calls b))"

lemma nak_all_closes:
  assumes "distinct ms"
  shows "closes_each ms b (nak_all br (map Raw ms) b)"
proof -
  let ?ops = "map (\<lambda>m. (m, CallNak)) (map Raw ms)"
  have "closings k (calls (do_calls br ?ops b)) = closings k (calls b) @ [CallNak]" if "k \<in> set ms" for k
    by (rule do_calls_closings_one) (use assms that in \<open>auto simp: comp_def distinct_map inj_on_def\<close>)
  moreover have "closings k (calls (do_calls br ?ops b)) = closings k (calls b)" if "k \<notin> set ms" for k
    by (rule do_calls_closings_other) (use that in auto)
  ultimately show ?thesis unfolding closes_each_def nak_all_calls by metis
qed

lemma batch_closes:
  fixes b :: "'z feed_scheme"
  assumes "quiet c ok" "hands_back c" "distinct ms" "unpack_all c br mp contents hb ms b = (out, b')"
  shows "closes_each ms b (snd (process_batch c br out b'))"
proof -
  note spec = unpack_all_spec [OF assms(1,3,4)]
  obtain rs where rs: "chandler c out b' = (Some rs, b')" using assms(2) unfolding hands_back_def by blast
  obtain cs where cs: "snd (settle c br out rs b') = do_calls br (zip out cs) b'" "length cs = length out"
    by (rule settle_decides [OF assms(1), of br out rs b']) blast
  have "fst ` set (zip out cs) = set out" using cs(2) by (metis list.set_map map_fst_zip)
  then have "closings k (calls (do_calls br (zip out cs) b')) = closings k (calls b)" if "k \<notin> set ms" for k
    using do_calls_closings_other [of "zip out cs" b' k br] spec that by auto
  moreover have "\<exists>cl. closings k (calls (snd (settle c br out rs b'))) = closings k (calls b) @ [cl]"
    if "k \<in> set ms" for k
    by (rule settle_unpacked [OF assms(1)]) (use spec that in blast)+
  ultimately show ?thesis unfolding closes_each_def by (simp add: process_batch_def rs cs(1))
qed

lemma unpack_all_empty:
  assumes "quiet c ok" "distinct ms" "unpack_all c br mp contents hb ms b = ([], b')"
  shows "closes_each ms b b'"
  using unpack_all_spec [OF assms] unfolding closes_each_def unpacked_as_def by auto

lemma closes_each_since:
  "closes_each ms b b' \<Longrightarrow> calls b = calls b0 \<Longrightarrow> closes_each ms b0 b'"
  by (simp add: closes_each_def)

text \<open>
  C3. A round of the loop ends, and loses no message. Against a broker that never hands out more
  than it was asked for, and a clock that goes on, a round of the consumer's loop always ends, its
  batch holds at most \<open>max\<close> messages, and every message it fetched is closed exactly
  once and no other message is: negatively acknowledged when the consumer is gone or stopped,
  given to the poison callback when its frame cannot be read, by its own result when it is a plain
  message, and by the call its elements ask for when it is a frame.
\<close>
theorem round_closes_each:
  assumes "clock_goes_on env" "obeys env" "1 \<le> fmax cfg" "quiet c ok" "hands_back c"
  shows "\<exists>ms err b1 nx b'. fetch_batch env cfg idle b = Some ((ms, err), b1) \<and> int (length ms) \<le> fmax cfg \<and>
    loop_round c br mp contents env cfg idle b = Some (nx, b') \<and>
    (distinct ms \<longrightarrow> closes_each ms b b')"
proof -
  obtain ms err b1 where f: "fetch_batch env cfg idle b = Some ((ms, err), b1)"
    "int (length ms) \<le> fmax cfg" "same_bus b b1"
    using fetch_ends [OF assms(1-3)] by blast
  let ?b2 = "b1\<lparr>fetch_log := fetch_log b1 @ [length ms]\<rparr>"
  let ?b3 = "?b2\<lparr>reads := Suc (reads ?b2)\<rparr>"
  have b2: "calls ?b2 = calls b" "calls ?b3 = calls b" using same_bus_fields [OF f(3)] by simp_all
  obtain out b4 where u: "unpack_all c br mp contents (heartbeat_every cfg) ms ?b3 = (out, b4)" by fastforce
  have nothing: "ms = [] \<Longrightarrow> closes_each ms b ?b3" using b2 by (simp add: closes_each_def)
  have work: "distinct ms \<Longrightarrow> closes_each ms b (snd (process_batch c br out b4))"
    by (rule closes_each_since [OF batch_closes [OF assms(4,5) _ u] b2(2)])
  have refused: "distinct ms \<Longrightarrow> out = [] \<Longrightarrow> closes_each ms b b4"
    by (rule closes_each_since [OF unpack_all_empty [OF assms(4)] b2(2)]) (use u in simp_all)
  have naks: "distinct ms \<Longrightarrow> closes_each ms b (nak_all br (map Raw ms) ?b2)"
    "distinct ms \<Longrightarrow> closes_each ms b (nak_all br (map Raw ms) ?b3)"
    using nak_all_closes closes_each_since b2 by blast+
  show ?thesis
  proof (cases "loop_round c br mp contents env cfg idle b")
    case None
    then show ?thesis using f(1) u
      by (auto simp: loop_round_def read_next_def Let_def split: if_splits)
  next
    case (Some r)
    obtain nx b' where r: "r = (nx, b')" by fastforce
    have "distinct ms \<longrightarrow> closes_each ms b b'"
      using Some [unfolded r] f(1) u work refused naks nothing
      by (auto simp: loop_round_def read_next_def Let_def split: if_splits)
    then show ?thesis using f Some r by blast
  qed
qed

definition demo_fetch :: fetch_env where
  "demo_fetch = \<lparr>fetch_at = \<lambda>n want opts. Fetched (if n = 0 \<and> 0 < want then [7] else []) None,
     clock_at = int, stop_at = \<lambda>n. False\<rparr>"

definition demo_fetch_config :: fetch_config where
  "demo_fetch_config = \<lparr>fmax = 2, linger = 1, min_batch = 0, linger_max = 0, heartbeat_every = 0, pin_group = []\<rparr>"

definition demo_feed :: feed where
  "demo_feed = \<lparr>calls = [], ticks = 0, frames = [], reads = 0, fetch_log = []\<rparr>"

definition demo_feed_consumer :: "unit feed_ext consumer" where
  "demo_feed_consumer = \<lparr>chandler = \<lambda>ms b. (Some (map (\<lambda>_. Ack) ms), b), on_poison = None,
     delays = [second], max_attempts = 3, max_deliver = 0\<rparr>"

lemma demo_fetch_ok: "obeys demo_fetch" "clock_goes_on demo_fetch"
proof -
  show "obeys demo_fetch" by (auto simp: obeys_def demo_fetch_def)
  have "\<exists>k. \<forall>n \<ge> k. t \<le> int n" for t by (rule exI [of _ "nat t"]) auto
  then show "clock_goes_on demo_fetch" by (simp add: clock_goes_on_def demo_fetch_def)
qed

definition demo_contents :: "nat \<Rightarrow> content" where
  "demo_contents m = \<lparr>csubject = ''orders'', cheaders = Map.empty, cdata = []\<rparr>"

theorem round_closes_each_witness:
  "\<exists>nx b' cl. loop_round demo_feed_consumer demo_broker demo_msgpack demo_contents demo_fetch demo_fetch_config True demo_feed = Some (nx, b') \<and>
     closings 7 (calls b') = [cl]"
proof -
  have "quiet demo_feed_consumer (\<lambda>_ _. True)" "hands_back demo_feed_consumer"
    by (simp_all add: quiet_def hands_back_def demo_feed_consumer_def)
  from round_closes_each [OF demo_fetch_ok(2,1) _ this, of demo_fetch_config True demo_feed demo_broker demo_msgpack demo_contents]
  obtain ms err b1 nx b' where r: "fetch_batch demo_fetch demo_fetch_config True demo_feed = Some ((ms, err), b1)"
    "loop_round demo_feed_consumer demo_broker demo_msgpack demo_contents demo_fetch demo_fetch_config True demo_feed = Some (nx, b')"
    "distinct ms \<longrightarrow> closes_each ms demo_feed b'"
    by (auto simp: demo_fetch_config_def)
  have "ms = [7]" using r(1)
    by (auto simp: fetch_batch_def collect_def read_next_def demo_fetch_def demo_fetch_config_def demo_feed_def
        fetch_rest_def fill_to_min_def Let_def)
  then show ?thesis using r(2,3) by (auto simp: closes_each_def demo_feed_def closings_def)
qed

text \<open>The loop ends only when the consumer was told to stop, or is gone.\<close>

lemma loop_round_stops:
  assumes "loop_round c br mp contents env cfg idle b = Some (Stopped r, b')"
  shows "case r of None \<Rightarrow> \<exists>n. stop_at env n | Some e \<Rightarrow> is_fatal_fetch_err e"
  using assms by (auto simp: loop_round_def read_next_def Let_def split: option.splits prod.splits if_splits)

lemma consume_loop_stops:
  assumes "consume_loop c br mp contents env cfg idle b = Some (r, b')"
  shows "case r of None \<Rightarrow> \<exists>n. stop_at env n | Some e \<Rightarrow> is_fatal_fetch_err e"
proof -
  let ?P = "\<lambda>(c :: 'z feed_ext consumer) (br :: broker) (mp :: msgpack) (contents :: nat \<Rightarrow> content) env
      (cfg :: fetch_config) (idle :: bool) (b :: 'z feed_scheme) y. case fst y of None \<Rightarrow> \<exists>n. stop_at env n | Some e \<Rightarrow> is_fatal_fetch_err e"
  have "?P c br mp contents env cfg idle b (r, b')"
  proof (rule consume_loop.raw_induct [where P = ?P, OF _ assms])
    fix loop :: "'z feed_ext consumer \<Rightarrow> broker \<Rightarrow> msgpack \<Rightarrow> (nat \<Rightarrow> content) \<Rightarrow> fetch_env \<Rightarrow> fetch_config \<Rightarrow> bool
       \<Rightarrow> 'z feed_scheme \<Rightarrow> (goerr option \<times> 'z feed_scheme) option"
      and c br mp contents env cfg idle b y
    assume IH: "\<And>c br mp contents env cfg idle b y. loop c br mp contents env cfg idle b = Some y \<Longrightarrow>
        ?P c br mp contents env cfg idle b y"
      and step: "(let (s, b0) = read_next b in
        if stop_at env s then Some (None, b0)
        else case loop_round c br mp contents env cfg idle b0 of
               None \<Rightarrow> None
             | Some (Stopped e, b1) \<Rightarrow> Some (e, b1)
             | Some (Again idle', b1) \<Rightarrow> loop c br mp contents env cfg idle' b1) = Some y"
    show "?P c br mp contents env cfg idle b y"
      using step
      by (auto simp: read_next_def Let_def split: if_splits option.splits prod.splits next_round.splits
          dest!: IH loop_round_stops)
  qed
  then show ?thesis by simp
qed

end
