(* ===== verification/Subjects.thy ===== *)
theory Subjects
  imports Go_Strings
begin

text \<open>
  NATS subjects: which subjects a pattern matches (\<^verbatim>\<open>pkg/outbox/subject_matches.go\<close>),
  which patterns are valid (\<^verbatim>\<open>pkg/outbox/resolve_framing.go\<close>), and whether two
  patterns overlap (\<^verbatim>\<open>consumer-opts-builder/subjects_overlap.go\<close>), proved to
  decide whether some subject matches both.
\<close>

section \<open>Matching\<close>

text \<open>The loop of \<^verbatim>\<open>subjectMatches\<close> over the tokens of the pattern.\<close>

fun match_loop :: "string list \<Rightarrow> string list \<Rightarrow> nat \<Rightarrow> string list \<Rightarrow> bool" where
  "match_loop pats toks i [] = (length pats = length toks)"
| "match_loop pats toks i (t # rest) =
     (if t = ''>'' then length toks > i
      else if i \<ge> length toks then False
      else if t \<noteq> ''*'' \<and> t \<noteq> toks ! i then False
      else match_loop pats toks (Suc i) rest)"

definition subject_matches :: "string \<Rightarrow> string \<Rightarrow> bool" where
  "subject_matches pattern subject =
     (let pats = split_at CHR ''.'' pattern; toks = split_at CHR ''.'' subject
      in match_loop pats toks 0 pats)"

fun matches_any_pattern :: "string \<Rightarrow> string list \<Rightarrow> bool" where
  "matches_any_pattern subject [] = False"
| "matches_any_pattern subject (p # ps) =
     (if subject_matches p subject then True else matches_any_pattern subject ps)"

lemma matches_any_pattern_iff: "matches_any_pattern s ps \<longleftrightarrow> (\<exists>p \<in> set ps. subject_matches p s)"
  by (induction ps) simp_all

section \<open>Valid patterns\<close>

fun valid_tokens :: "nat \<Rightarrow> nat \<Rightarrow> string list \<Rightarrow> bool" where
  "valid_tokens n i [] = True"
| "valid_tokens n i (t # ts) =
     (if t = '''' \<or> contains_any t [CHR '' '', CHR 0x09, CHR 0x0d, CHR 0x0a] then False
      else if t = ''>'' \<and> int i \<noteq> int n - 1 then False
      else if length t > 1 \<and> contains_any t ''*>'' then False
      else valid_tokens n (Suc i) ts)"

definition valid_subject_pattern :: "string \<Rightarrow> bool" where
  "valid_subject_pattern pattern =
     (if pattern = '''' then False
      else let tokens = split_at CHR ''.'' pattern in valid_tokens (length tokens) 0 tokens)"

section \<open>Overlap\<close>

text \<open>\<open>i < length left \<and> i < length right\<close> is the loop's condition.\<close>

function overlap_loop :: "string list \<Rightarrow> string list \<Rightarrow> nat \<Rightarrow> bool" where
  "overlap_loop left right i =
     (if i < length left \<and> i < length right then
        (if left ! i = ''>'' \<or> right ! i = ''>'' then True
         else if left ! i \<noteq> ''*'' \<and> right ! i \<noteq> ''*'' \<and> left ! i \<noteq> right ! i then False
         else overlap_loop left right (Suc i))
      else length left = length right)"
  by pat_completeness auto
termination by (relation "measure (\<lambda>(l, r, i). length l - i)") auto

declare overlap_loop.simps [simp del]

definition subjects_overlap :: "string \<Rightarrow> string \<Rightarrow> bool" where
  "subjects_overlap p q = overlap_loop (split_at CHR ''.'' p) (split_at CHR ''.'' q) 0"

section \<open>The meaning of a pattern\<close>

text \<open>A token matches itself, \<open>*\<close> any one token, \<open>>\<close> one or more to the end.\<close>

fun tokens_match :: "string list \<Rightarrow> string list \<Rightarrow> bool" where
  "tokens_match [] ss \<longleftrightarrow> ss = []"
| "tokens_match (p # ps) [] \<longleftrightarrow> False"
| "tokens_match (p # ps) (s # ss) \<longleftrightarrow> p = ''>'' \<or> (p = ''*'' \<or> p = s) \<and> tokens_match ps ss"

lemma match_loop_tokens:
  assumes "i \<le> length toks" "i \<le> length pats" "rest = drop i pats"
  shows "match_loop pats toks i rest \<longleftrightarrow> tokens_match rest (drop i toks)"
  using assms
proof (induction pats toks i rest rule: match_loop.induct)
  case (1 pats toks i)
  then show ?case by auto
next
  case (2 pats toks i t rest)
  have "rest = drop (Suc i) pats" "i < length pats"
    using "2.prems"(3) by (metis drop_Suc list.sel(3) tl_drop) (metis "2.prems"(3) drop_all list.distinct(1) not_le)
  then show ?case using "2.IH" "2.prems"
    by (cases "i < length toks") (auto simp flip: Cons_nth_drop_Suc)
qed

lemma subject_matches_tokens:
  "subject_matches p s \<longleftrightarrow> tokens_match (split_at CHR ''.'' p) (split_at CHR ''.'' s)"
  by (simp add: subject_matches_def Let_def match_loop_tokens)

text \<open>A valid pattern: non-empty tokens, a wildcard only as a whole token, \<open>>\<close> only last.\<close>

definition good_token :: "string \<Rightarrow> bool" where
  "good_token t \<longleftrightarrow> t \<noteq> '''' \<and> \<not> contains_any t [CHR '' '', CHR 0x09, CHR 0x0d, CHR 0x0a] \<and>
     (t = ''*'' \<or> t = ''>'' \<or> \<not> contains_any t ''*>'')"

definition good_pattern :: "string list \<Rightarrow> bool" where
  "good_pattern ts \<longleftrightarrow> ts \<noteq> [] \<and> (\<forall>t \<in> set ts. good_token t) \<and> ''>'' \<notin> set (butlast ts)"

lemma wild_token:
  "(length t > 1 \<and> contains_any t ''*>'') = (\<not> (t = ''*'' \<or> t = ''>'' \<or> \<not> contains_any t ''*>''))"
proof (cases "length t > 1")
  case False
  then show ?thesis by (cases t) (auto simp: contains_any_def)
qed auto

lemma valid_tokens_iff:
  assumes "n = i + length ts"
  shows "valid_tokens n i ts \<longleftrightarrow> (\<forall>t \<in> set ts. good_token t) \<and> ''>'' \<notin> set (butlast ts)"
  using assms
proof (induction ts arbitrary: i)
  case (Cons t ts)
  have at_end: "(int i \<noteq> int n - 1) = (ts \<noteq> [])" using Cons.prems by auto
  have "valid_tokens n i (t # ts) \<longleftrightarrow> good_token t \<and> \<not> (t = ''>'' \<and> ts \<noteq> []) \<and> valid_tokens n (Suc i) ts"
    unfolding valid_tokens.simps wild_token at_end good_token_def by argo
  moreover have "''>'' \<notin> set (butlast (t # ts)) \<longleftrightarrow> \<not> (t = ''>'' \<and> ts \<noteq> []) \<and> ''>'' \<notin> set (butlast ts)"
    by (cases ts) auto
  moreover have "n = Suc i + length ts" using Cons.prems by simp
  ultimately show ?case using Cons.IH [of "Suc i"] by (simp only: list.simps(15) ball_simps) blast
qed simp

lemma valid_pattern_iff: "valid_subject_pattern p \<longleftrightarrow> good_pattern (split_at CHR ''.'' p)"
  by (auto simp: valid_subject_pattern_def Let_def valid_tokens_iff good_pattern_def good_token_def)

text \<open>A subject a publisher can use: valid, without wildcards.\<close>

definition concrete :: "string list \<Rightarrow> bool" where
  "concrete ts \<longleftrightarrow> ts \<noteq> [] \<and> (\<forall>t \<in> set ts. good_token t \<and> t \<noteq> ''*'' \<and> t \<noteq> ''>'')"

fun overlap_tokens :: "string list \<Rightarrow> string list \<Rightarrow> bool" where
  "overlap_tokens [] [] \<longleftrightarrow> True"
| "overlap_tokens [] (q # qs) \<longleftrightarrow> False"
| "overlap_tokens (p # ps) [] \<longleftrightarrow> False"
| "overlap_tokens (p # ps) (q # qs) \<longleftrightarrow>
     p = ''>'' \<or> q = ''>'' \<or> (p = ''*'' \<or> q = ''*'' \<or> p = q) \<and> overlap_tokens ps qs"

lemma overlap_loop_tokens:
  "i \<le> length l \<Longrightarrow> i \<le> length r \<Longrightarrow> overlap_loop l r i \<longleftrightarrow> overlap_tokens (drop i l) (drop i r)"
proof (induction l r i rule: overlap_loop.induct)
  case (1 l r i)
  show ?case
  proof (cases "i < length l \<and> i < length r")
    case True
    then show ?thesis using 1 by (subst overlap_loop.simps) (auto simp flip: Cons_nth_drop_Suc)
  next
    case False
    then have "drop i l = [] \<or> drop i r = []" by auto
    then show ?thesis using False 1 
      by (subst overlap_loop.simps) (cases "drop i l"; cases "drop i r"; auto)
  qed
qed

text \<open>Some token fits a good token other than the two wildcards, and those too.\<close>

abbreviation plain :: "string \<Rightarrow> bool" where
  "plain t \<equiv> good_token t \<and> t \<noteq> ''*'' \<and> t \<noteq> ''>''"

lemma plain_a [simp]: "plain ''a''"
  by (simp add: good_token_def contains_any_def)

text \<open>A subject a pattern matches: every wildcard becomes a token.\<close>

definition instance_of :: "string list \<Rightarrow> string list" where
  "instance_of ts = map (\<lambda>t. if t = ''*'' \<or> t = ''>'' then ''a'' else t) ts"

lemma instance_matches: "''>'' \<notin> set (butlast ps) \<Longrightarrow> tokens_match ps (instance_of ps)"
  by (induction ps) (auto simp: instance_of_def split: if_splits)

lemma instance_plain: "\<forall>t \<in> set ps. good_token t \<Longrightarrow>
     \<forall>t \<in> set (instance_of ps). plain t \<and> (t = ''a'' \<or> t \<in> set ps)"
  using plain_a by (auto simp: instance_of_def)

lemma rest_matches: "ss \<noteq> [] \<Longrightarrow> tokens_match (''>'' # ps) ss"
  by (cases ss) simp_all

lemma instance_nonempty [simp]: "instance_of (p # ps) \<noteq> []"
  by (simp add: instance_of_def)

lemma overlap_witness:
  assumes "\<forall>t \<in> set ps. good_token t" "\<forall>t \<in> set qs. good_token t"
    and "''>'' \<notin> set (butlast ps)" "''>'' \<notin> set (butlast qs)" "overlap_tokens ps qs"
  shows "\<exists>ss. (\<forall>t \<in> set ss. plain t \<and> (t = ''a'' \<or> t \<in> set ps \<union> set qs)) \<and>
    tokens_match ps ss \<and> tokens_match qs ss"
  using assms
proof (induction ps qs rule: overlap_tokens.induct)
  case 1
  then show ?case by (intro exI [of _ "[]"]) simp
next
  case (4 p ps q qs)
  consider "p = ''>''" | "p \<noteq> ''>''" "q = ''>''" | "p \<noteq> ''>''" "q \<noteq> ''>''" by blast
  then show ?case
  proof cases
    case 1
    show ?thesis
    proof (rule exI [of _ "instance_of (q # qs)"], intro conjI)
      show "\<forall>t \<in> set (instance_of (q # qs)). plain t \<and> (t = ''a'' \<or> t \<in> set (p # ps) \<union> set (q # qs))"
        using instance_plain [OF "4.prems"(2)] by (metis UnCI)
    qed (unfold 1, rule rest_matches [OF instance_nonempty], rule instance_matches [OF "4.prems"(4)])
  next
    case 2
    show ?thesis
    proof (rule exI [of _ "instance_of (p # ps)"], intro conjI)
      show "\<forall>t \<in> set (instance_of (p # ps)). plain t \<and> (t = ''a'' \<or> t \<in> set (p # ps) \<union> set (q # qs))"
        using instance_plain [OF "4.prems"(1)] by (metis UnCI)
    qed (unfold 2, rule instance_matches [OF "4.prems"(3)], rule rest_matches [OF instance_nonempty])
  next
    case 3
    have "''>'' \<notin> set (butlast ps)" "''>'' \<notin> set (butlast qs)"
      using "4.prems"(3,4) by (auto split: if_splits)
    then obtain ss where ss: "\<forall>t \<in> set ss. plain t \<and> (t = ''a'' \<or> t \<in> set ps \<union> set qs)" "tokens_match ps ss" "tokens_match qs ss"
      using "4.IH" "4.prems" 3 by auto
    have "(p = ''*'' \<or> q = ''*'' \<or> p = q)" "plain p \<or> p = ''*''" "plain q \<or> q = ''*''"
      using "4.prems"(1,2,5) 3 by simp_all
    then obtain t where t: "plain t" "t = ''a'' \<or> t = p \<or> t = q" "p = ''*'' \<or> p = t" "q = ''*'' \<or> q = t"
      using plain_a by metis
    show ?thesis
    proof (intro exI [of _ "t # ss"] conjI)
      show "\<forall>t' \<in> set (t # ss). plain t' \<and> (t' = ''a'' \<or> t' \<in> set (p # ps) \<union> set (q # qs))"
        using t(1,2) ss(1) by fastforce
    qed (use t ss in simp_all)
  qed
qed simp_all

lemma overlap_complete:
  "tokens_match ps ss \<Longrightarrow> tokens_match qs ss \<Longrightarrow> ps \<noteq> [] \<Longrightarrow> qs \<noteq> [] \<Longrightarrow> overlap_tokens ps qs"
proof (induction ps ss arbitrary: qs rule: tokens_match.induct)
  case (3 p ps s ss)
  obtain q qs' where q: "qs = q # qs'" using "3.prems" by (cases qs) auto
  show ?case
  proof (cases "p = ''>'' \<or> q = ''>''")
    case False
    then have m: "tokens_match ps ss" "tokens_match qs' ss" "p = ''*'' \<or> p = s" "q = ''*'' \<or> q = s"
      using "3.prems" q by auto
    have "overlap_tokens ps qs'"
    proof (cases "ps = [] \<or> qs' = []")
      case True
      then show ?thesis using m(1,2) by (cases ps; cases qs'; cases ss) simp_all
    next
      case False
      then show ?thesis using "3.IH" [of qs'] m(1,2) \<open>\<not> (p = ''>'' \<or> q = ''>'')\<close> by blast
    qed
    then show ?thesis using m(3,4) q by auto
  qed (use q in auto)
qed auto

section \<open>Properties\<close>

text \<open>
  Pattern matching follows the meaning of a pattern: for a valid one, a subject matches exactly
  when they agree token by token, \<open>*\<close> standing for any token, up to a final \<open>>\<close>,
  which stands for one or more tokens.
\<close>
theorem subject_matches_meaning:
  fixes p s :: string
  assumes "valid_subject_pattern p"
  defines "ps \<equiv> split_at CHR ''.'' p" and "ss \<equiv> split_at CHR ''.'' s"
  shows "subject_matches p s \<longleftrightarrow>
    (if last ps = ''>'' then length ps \<le> length ss else length ps = length ss) \<and>
    (\<forall>i < length ps. ps ! i = ''>'' \<or> ps ! i = ''*'' \<or> i < length ss \<and> ps ! i = ss ! i)"
proof -
  have "tokens_match ps ss \<longleftrightarrow>
      (if ps \<noteq> [] \<and> last ps = ''>'' then length ps \<le> length ss else length ps = length ss) \<and>
      (\<forall>i < length ps. ps ! i = ''>'' \<or> ps ! i = ''*'' \<or> i < length ss \<and> ps ! i = ss ! i)"
    if "''>'' \<notin> set (butlast ps)" for ps ss
    using that
  proof (induction ps ss rule: tokens_match.induct)
    case (3 p ps s ss)
    show ?case
    proof (cases ps)
      case Nil
      then show ?thesis by (cases ss) auto
    next
      case (Cons p' ps')
      then have "p \<noteq> ''>''" "''>'' \<notin> set (butlast ps)" using "3.prems" by auto
      then show ?thesis using "3.IH" Cons by (auto simp: All_less_Suc2)
    qed
  qed auto
  then show ?thesis using assms(1) unfolding valid_pattern_iff subject_matches_tokens good_pattern_def
    by (simp add: ps_def ss_def)
qed

theorem subject_matches_meaning_witness:
  "subject_matches ''cmd.*.>'' ''cmd.a.b.c'' \<and> \<not> subject_matches ''cmd.*.>'' ''cmd.a''"
  using subject_matches_meaning [of "''cmd.*.>''" "''cmd.a.b.c''"]
    subject_matches_meaning [of "''cmd.*.>''" "''cmd.a''"]
  by (simp add: valid_subject_pattern_def contains_any_def All_less_Suc2)

text \<open>
  C31. The overlap test is exact: two valid patterns overlap exactly when some subject without
  wildcards matches both.
\<close>
theorem subjects_overlap_exact:
  assumes "valid_subject_pattern p" "valid_subject_pattern q"
  shows "subjects_overlap p q \<longleftrightarrow>
    (\<exists>s. concrete (split_at CHR ''.'' s) \<and> subject_matches p s \<and> subject_matches q s)"
proof -
  let ?ps = "split_at CHR ''.'' p" and ?qs = "split_at CHR ''.'' q"
  have good: "good_pattern ?ps" "good_pattern ?qs" using assms by (simp_all add: valid_pattern_iff)
  have "subjects_overlap p q \<longleftrightarrow> overlap_tokens ?ps ?qs"
    by (simp add: subjects_overlap_def overlap_loop_tokens)
  also have "\<dots> \<longleftrightarrow> (\<exists>s. concrete (split_at CHR ''.'' s) \<and> subject_matches p s \<and> subject_matches q s)"
  proof
    assume o: "overlap_tokens ?ps ?qs"
    obtain ss where ss: "\<forall>t \<in> set ss. plain t \<and> (t = ''a'' \<or> t \<in> set ?ps \<union> set ?qs)" "tokens_match ?ps ss" "tokens_match ?qs ss"
      using overlap_witness [OF _ _ _ _ o] good unfolding good_pattern_def by blast
    have "\<forall>t \<in> set ss. CHR ''.'' \<notin> set t" using ss(1) split_no_sep [of _ "CHR ''.''"] by fastforce
    then have "split_at CHR ''.'' (join_at CHR ''.'' ss) = ss" using ss(2) 
      by (intro split_join) (cases ss; cases ?ps; auto)
    then show "\<exists>s. concrete (split_at CHR ''.'' s) \<and> subject_matches p s \<and> subject_matches q s"
      using ss good(1) by (intro exI [of _ "join_at CHR ''.'' ss"])
        (auto simp: concrete_def subject_matches_tokens good_pattern_def)
  qed (auto simp: subject_matches_tokens intro: overlap_complete)
  finally show ?thesis .
qed

theorem subjects_overlap_exact_witness:
  "(\<exists>s. concrete (split_at CHR ''.'' s) \<and> subject_matches ''a.*.c'' s \<and> subject_matches ''a.b.>'' s) \<and>
   \<not> (\<exists>s. concrete (split_at CHR ''.'' s) \<and> subject_matches ''a.*'' s \<and> subject_matches ''a.b.>'' s)"
  using subjects_overlap_exact [of "''a.*.c''" "''a.b.>''"] subjects_overlap_exact [of "''a.*''" "''a.b.>''"]
  by (simp add: valid_subject_pattern_def contains_any_def subjects_overlap_def overlap_loop.simps)

end
