(* ===== verification/Outbox_Retry.thy ===== *)
theory Outbox_Retry
  imports Go_Prelude
begin

text \<open>
  When an outbox event is tried again (\<^verbatim>\<open>pkg/outbox/relay.go\<close>,
  \<^verbatim>\<open>retry_delay.go\<close>, \<^verbatim>\<open>tx_drain_outcome.go\<close>): the exponential
  backoff, its jitter, and the errors that do not count as an attempt.
\<close>

section \<open>Backoff\<close>

text \<open>The loop of \<^verbatim>\<open>nextAttemptDelay\<close>, with the iterations it has left.\<close>

fun double_loop :: "nat \<Rightarrow> duration \<Rightarrow> duration \<Rightarrow> duration" where
  "double_loop 0 delay mx = (if mx > 0 \<and> delay > mx then mx else delay)"
| "double_loop (Suc k) delay mx =
     (if mx > 0 \<and> delay \<ge> mx then mx else double_loop k (wrap64 (delay * 2)) mx)"

definition next_attempt_delay :: "int \<Rightarrow> duration \<Rightarrow> duration \<Rightarrow> duration" where
  "next_attempt_delay attempt base mx =
     (if base \<le> 0 then 0
      else
        let attempt' = (if attempt < 1 then 1 else attempt)
        in double_loop (nat (attempt' - 1)) base mx)"

section \<open>Jitter\<close>

text \<open>\<open>rnd n\<close> is the number drawn below \<open>n\<close>.\<close>

definition jittered :: "bool \<Rightarrow> (int \<Rightarrow> int) \<Rightarrow> duration \<Rightarrow> duration" where
  "jittered on rnd delay =
     (if \<not> on then delay
      else
        let spread = go_div delay 2 in
        if spread \<le> 0 then delay
        else
          let extended = wrap64 (delay + rnd spread) in
          if extended < delay then delay else extended)"

record retry_config =
  RetryBackoffBase :: duration
  RetryBackoffMax :: duration
  RetryJitter :: bool
  TxDrainPublishTimeout :: duration
  MaxAttempts :: int

definition retry_delay :: "'z retry_config_scheme \<Rightarrow> (int \<Rightarrow> int) \<Rightarrow> int \<Rightarrow> duration" where
  "retry_delay cfg rnd attempts =
     jittered (RetryJitter cfg) rnd (next_attempt_delay attempts (RetryBackoffBase cfg) (RetryBackoffMax cfg))"

definition unknown_retry_floor :: duration where
  "unknown_retry_floor = 5 * second"

definition unknown_retry_delay :: "'z retry_config_scheme \<Rightarrow> (int \<Rightarrow> int) \<Rightarrow> duration" where
  "unknown_retry_delay cfg rnd =
     jittered (RetryJitter cfg) rnd (max (TxDrainPublishTimeout cfg) unknown_retry_floor)"

section \<open>Errors that are not the event's fault\<close>

definition is_transport_error :: "goerr \<Rightarrow> bool" where
  "is_transport_error e \<longleftrightarrow> errors_is e ErrNoServers \<or> errors_is e ErrConnectionClosed \<or>
     errors_is e ErrDisconnected \<or> errors_is e ErrConnectionReconnecting"

definition unknown_outcome :: "goerr \<Rightarrow> bool" where
  "unknown_outcome e \<longleftrightarrow> errors_is e DeadlineExceeded \<or> errors_is e Canceled \<or> errors_is e ErrTimeoutNats \<or>
     errors_is e ErrAsyncPublishTimeout \<or> errors_is e ErrTooManyStalledMsgs \<or> is_transport_error e"

section \<open>Arithmetic\<close>

text \<open>With a bound the doubling never leaves 64 bits.\<close>

lemma double_loop_capped:
  assumes "0 < delay" "0 < mx" "mx \<le> 2 ^ 62"
  shows "double_loop k delay mx = min mx (delay * 2 ^ k)"
  using assms(1)
proof (induction k arbitrary: delay)
  case (Suc k)
  show ?case
  proof (cases "delay \<ge> mx")
    case True
    have "(1 :: int) \<le> 2 ^ Suc k" by (rule one_le_power) simp
    then have "delay * 1 \<le> delay * 2 ^ Suc k" by (rule mult_left_mono) (use Suc.prems in simp)
    then have "mx \<le> delay * 2 ^ Suc k" using True by linarith
    then show ?thesis using True assms(2) by (simp add: min_def)
  next
    case False
    then have "wrap64 (delay * 2) = delay * 2" using Suc.prems assms(3) by (intro wrap64_id) simp_all
    then show ?thesis using Suc.IH [of "delay * 2"] Suc.prems False by (simp add: ac_simps)
  qed
qed (use assms in simp)

lemma next_attempt_capped:
  assumes "0 < base" "0 < mx" "mx \<le> 2 ^ 62"
  shows "next_attempt_delay a base mx = min mx (base * 2 ^ nat (max a 1 - 1))"
proof -
  have "nat ((if a < 1 then 1 else a) - 1) = nat (max a 1 - 1)" by (simp add: max_def)
  then show ?thesis using assms double_loop_capped [OF assms] by (simp add: next_attempt_delay_def Let_def)
qed

text \<open>Without one it wraps.\<close>

lemma wrap64_double: "wrap64 (wrap64 x * n) = wrap64 (x * n)"
proof -
  have "(wrap64 x * n) mod 2 ^ 64 = (x * n) mod 2 ^ 64"
  proof -
    have "wrap64 x mod 2 ^ 64 = x mod 2 ^ 64" by (simp add: wrap64_def mod_diff_left_eq)
    then show ?thesis by (metis mod_mult_left_eq)
  qed
  then have "(wrap64 x * n + 2 ^ 63) mod 2 ^ 64 = (x * n + 2 ^ 63) mod 2 ^ 64" by (metis mod_add_left_eq)
  then show ?thesis by (simp add: wrap64_def)
qed

lemma double_loop_uncapped:
  assumes "mx \<le> 0" "- (2 ^ 63) \<le> delay" "delay < 2 ^ 63"
  shows "double_loop k delay mx = wrap64 (delay * 2 ^ k)"
  using assms(2,3)
proof (induction k arbitrary: delay)
  case 0
  then show ?case using wrap64_id assms(1) by simp
next
  case (Suc k)
  have "double_loop k (wrap64 (delay * 2)) mx = wrap64 (wrap64 (delay * 2) * 2 ^ k)"
    using Suc.IH [of "wrap64 (delay * 2)"] wrap64_range [of "delay * 2"] by simp
  also have "\<dots> = wrap64 (delay * 2 ^ Suc k)" unfolding wrap64_double by (simp add: ac_simps)
  finally show ?case using assms(1) by simp
qed

lemma jittered_bounds:
  assumes "0 \<le> delay" "delay < 2 ^ 63" "\<And>n. 0 < n \<Longrightarrow> 0 \<le> rnd n \<and> rnd n < n"
  shows "delay \<le> jittered on rnd delay \<and> jittered on rnd delay \<le> delay + delay div 2 \<and>
    (0 < delay div 2 \<longrightarrow> jittered on rnd delay < delay + delay div 2)"
proof -
  let ?s = "delay div 2"
  have div: "go_div delay 2 = ?s" using assms(1) by (simp add: go_div_nonneg)
  show ?thesis
  proof (cases "on \<and> 0 < ?s")
    case True
    let ?r = "rnd ?s"
    have r: "0 \<le> ?r" "?r < ?s" using assms(3) True by blast+
    have "?s \<le> delay" using assms(1) by simp
    consider "delay + ?r < 2 ^ 63" | "2 ^ 63 \<le> delay + ?r" by linarith
    then show ?thesis
    proof cases
      case 1
      then have "wrap64 (delay + ?r) = delay + ?r" using r assms(1) by (intro wrap64_id) simp_all
      then show ?thesis using True r div by (simp add: jittered_def Let_def)
    next
      case 2
      have "delay + ?r < 2 ^ 64" using r \<open>?s \<le> delay\<close> assms(2) by simp
      then have "(delay + ?r + 2 ^ 63 - 2 ^ 64) mod 2 ^ 64 = delay + ?r + 2 ^ 63 - 2 ^ 64"
        using 2 by (intro mod_pos_pos_trivial) simp_all
      then have "(delay + ?r + 2 ^ 63) mod 2 ^ 64 = delay + ?r + 2 ^ 63 - 2 ^ 64"
        by (metis minus_mod_self2)
      then have "wrap64 (delay + ?r) = delay + ?r - 2 ^ 64" unfolding wrap64_def by simp
      then have "wrap64 (delay + ?r) < delay" using r \<open>?s \<le> delay\<close> assms(2) by simp
      then show ?thesis using True r div by (simp add: jittered_def Let_def)
    qed
  next
    case False
    then have "jittered on rnd delay = delay" using div by (auto simp: jittered_def Let_def)
    then show ?thesis using assms(1) by simp
  qed
qed

section \<open>Properties\<close>

text \<open>
  The backoff doubles and stays bounded: with a positive base and a maximum up to
  \<open>2 ^ 62\<close> nanoseconds, about 146 years, attempt \<open>a\<close> waits \<open>base * 2 ^ (a - 1)\<close>,
  at most the maximum, however many attempts there were; nothing overflows.
\<close>
theorem backoff_exponential:
  assumes "0 < base" "0 < mx" "mx \<le> 2 ^ 62"
  shows "next_attempt_delay a base mx = min mx (base * 2 ^ nat (max a 1 - 1))"
  by (rule next_attempt_capped [OF assms])

theorem backoff_exponential_witness:
  "next_attempt_delay 20 (2 * second) (5 * minute) = 5 * minute \<and>
   next_attempt_delay 3 (2 * second) (5 * minute) = 8 * second"
  by (subst backoff_exponential, simp_all)+

text \<open>
  Without a maximum the backoff overflows: it is the doubled base modulo \<open>2 ^ 64\<close>, which is
  negative for some attempts, and 0, a retry without a pause, from the 65th attempt on.
\<close>
theorem backoff_wraps:
  assumes "0 < base" "base < 2 ^ 63" "mx \<le> 0" "65 \<le> a"
  shows "next_attempt_delay a base mx = 0"
proof -
  have "next_attempt_delay a base mx = wrap64 (base * 2 ^ nat (a - 1))"
    using assms double_loop_uncapped [of mx base] by (simp add: next_attempt_delay_def Let_def)
  also have "nat (a - 1) = 64 + nat (a - 65)" using assms(4) by simp
  also have "base * 2 ^ (64 + nat (a - 65)) = (base * 2 ^ nat (a - 65)) * 2 ^ 64" by (simp add: power_add)
  also have "wrap64 \<dots> = 0" by (simp add: wrap64_def)
  finally show ?thesis .
qed

theorem backoff_wraps_witness:
  "next_attempt_delay 65 (2 * second) 0 = 0 \<and> next_attempt_delay 34 (2 * second) 0 < 0"
proof
  show "next_attempt_delay 65 (2 * second) 0 = 0" by (rule backoff_wraps) simp_all
  show "next_attempt_delay 34 (2 * second) 0 < 0"
    using double_loop_uncapped [of 0 "2 * second" 33]
    by (simp add: next_attempt_delay_def wrap64_def)
qed

text \<open>
  Jitter only lengthens a pause, by less than half of it: an event never comes back earlier than
  its backoff, and within one and a half times it.
\<close>
theorem retry_delay_bounds:
  assumes "0 < RetryBackoffBase cfg" "0 < RetryBackoffMax cfg" "RetryBackoffMax cfg \<le> 2 ^ 62"
    and "\<And>n. 0 < n \<Longrightarrow> 0 \<le> rnd n \<and> rnd n < n"
  shows "let d = min (RetryBackoffMax cfg) (RetryBackoffBase cfg * 2 ^ nat (max a 1 - 1)) in
    d \<le> retry_delay cfg rnd a \<and> retry_delay cfg rnd a \<le> d + d div 2"
proof -
  define d where "d = min (RetryBackoffMax cfg) (RetryBackoffBase cfg * 2 ^ nat (max a 1 - 1))"
  have j: "retry_delay cfg rnd a = jittered (RetryJitter cfg) rnd d"
    unfolding retry_delay_def next_attempt_capped [OF assms(1-3)] d_def ..
  have "d \<le> RetryBackoffMax cfg" by (simp add: d_def)
  then have "d < 2 ^ 63" using assms(3) by simp
  moreover have "0 \<le> d" using assms(1,2) unfolding d_def by simp
  ultimately have "d \<le> jittered (RetryJitter cfg) rnd d \<and> jittered (RetryJitter cfg) rnd d \<le> d + d div 2"
    using jittered_bounds [of d rnd "RetryJitter cfg"] assms(4) by blast
  then show ?thesis unfolding Let_def j d_def .
qed

definition demo_retry :: retry_config where
  "demo_retry = \<lparr>RetryBackoffBase = 2 * second, RetryBackoffMax = 5 * minute, RetryJitter = True,
     TxDrainPublishTimeout = 2 * second, MaxAttempts = 20\<rparr>"

theorem retry_delay_bounds_witness:
  "4 * second \<le> retry_delay demo_retry (\<lambda>n. n - 1) 2 \<and> retry_delay demo_retry (\<lambda>n. n - 1) 2 \<le> 6 * second"
proof -
  have d: "min (RetryBackoffMax demo_retry) (RetryBackoffBase demo_retry * 2 ^ nat (max 2 1 - 1)) = 4 * second"
    by (simp add: demo_retry_def)
  have "let d = min (RetryBackoffMax demo_retry) (RetryBackoffBase demo_retry * 2 ^ nat (max 2 1 - 1)) in
    d \<le> retry_delay demo_retry (\<lambda>n. n - 1) 2 \<and> retry_delay demo_retry (\<lambda>n. n - 1) 2 \<le> d + d div 2"
    by (rule retry_delay_bounds) (simp_all add: demo_retry_def)
  then show ?thesis unfolding d Let_def by simp
qed

end
