(* ===== verification/Outbox_Latest.thy ===== *)
theory Outbox_Latest
  imports Go_Strings "HOL-Library.Word"
begin

text \<open>
  Events superseded inside one outbox batch (\<^verbatim>\<open>pkg/outbox/latest_only.go\<close>,
  \<^verbatim>\<open>relay_latest_indexes.go\<close>): of the events of a latest-only subject only one
  is published, chosen by version where every one has a version, by position otherwise.
\<close>

section \<open>Events\<close>

text \<open>
  A map of headers is the list of its entries in the order a \<^verbatim>\<open>range\<close> visits
  them, which Go leaves open.
\<close>

type_synonym headers = "(string \<times> string) list"

record relay_event =
  event_id :: string
  topic :: string
  payload :: "8 word list"
  hdrs :: headers
  attempts :: int
  created_at :: int

definition kv_subject_prefix :: string where "kv_subject_prefix = ''$KV.''"
definition LatestVersionHeader :: string where "LatestVersionHeader = ''Brokerfx-Latest-Version''"

fun has_any_prefix :: "string \<Rightarrow> string list \<Rightarrow> bool" where
  "has_any_prefix t [] = False"
| "has_any_prefix t (p # ps) = (if has_prefix t p then True else has_any_prefix t ps)"

section \<open>Prefixes\<close>

fun add_prefixes :: "string list \<Rightarrow> string set \<Rightarrow> string list \<Rightarrow> string list \<times> string set" where
  "add_prefixes [] seen prefixes = (prefixes, seen)"
| "add_prefixes (p # ps) seen prefixes =
     (let p' = trim_space p in
      if p' = '''' then add_prefixes ps seen prefixes
      else if p' \<in> seen then add_prefixes ps seen prefixes
      else add_prefixes ps (insert p' seen) (prefixes @ [p']))"

definition latest_only_prefixes :: "string list \<Rightarrow> string list \<Rightarrow> string list" where
  "latest_only_prefixes configured fromEnv =
     (let (prefixes, seen) = add_prefixes configured {kv_subject_prefix} [kv_subject_prefix]
      in fst (add_prefixes fromEnv seen prefixes))"

section \<open>The latest of each subject\<close>

fun event_version :: "headers \<Rightarrow> int \<times> bool" where
  "event_version [] = (0, False)"
| "event_version ((k, v) # rest) =
     (if canonical_header k \<noteq> canonical_header LatestVersionHeader then event_version rest
      else (case parse_int (trim_space v) of None \<Rightarrow> (0, False) | Some n \<Rightarrow> (n, True)))"

record latest_candidate =
  index :: nat
  version :: int
  allVersion :: bool

fun latest_loop ::
  "string list \<Rightarrow> nat \<Rightarrow> relay_event list \<Rightarrow> (string \<rightharpoonup> latest_candidate) \<Rightarrow> (string \<rightharpoonup> latest_candidate)" where
  "latest_loop prefixes i [] candidates = candidates"
| "latest_loop prefixes i (e # es) candidates =
     (if \<not> has_any_prefix (topic e) prefixes then latest_loop prefixes (Suc i) es candidates
      else
        let (ver, versioned) = event_version (hdrs e) in
        case candidates (topic e) of
          None \<Rightarrow> latest_loop prefixes (Suc i) es
            (candidates(topic e \<mapsto> \<lparr>index = i, version = ver, allVersion = versioned\<rparr>))
        | Some current \<Rightarrow>
            let allv = (allVersion current \<and> versioned);
                next1 = current\<lparr>allVersion := allv\<rparr>;
                next2 = (if \<not> allv \<or> ver \<ge> version current
                         then next1\<lparr>index := i, version := ver\<rparr> else next1)
            in latest_loop prefixes (Suc i) es (candidates(topic e \<mapsto> next2)))"

definition latest_indexes :: "relay_event list \<Rightarrow> string list \<Rightarrow> (string \<rightharpoonup> nat)" where
  "latest_indexes events prefixes = (\<lambda>t. map_option index (latest_loop prefixes 0 events Map.empty t))"

definition superseded :: "(string \<rightharpoonup> nat) \<Rightarrow> nat \<Rightarrow> relay_event \<Rightarrow> bool" where
  "superseded latest i e = (case latest (topic e) of None \<Rightarrow> False | Some l \<Rightarrow> l \<noteq> i)"

text \<open>\<^verbatim>\<open>OutboxRelay.latestIndexes\<close>, with the count its observer is told, none when it is 0.\<close>

definition relay_latest_indexes :: "string list \<Rightarrow> relay_event list \<Rightarrow> (string \<rightharpoonup> nat) \<times> nat option" where
  "relay_latest_indexes latestOnly events =
     (let indexes = latest_indexes events latestOnly;
          n = length (filter (\<lambda>(i, e). superseded indexes i e) (enumerate 0 events))
      in (indexes, if n = 0 then None else Some n))"

section \<open>What the latest is\<close>

abbreviation ver :: "relay_event list \<Rightarrow> nat \<Rightarrow> int" where
  "ver es i \<equiv> fst (event_version (hdrs (es ! i)))"

definition all_versioned :: "relay_event list \<Rightarrow> string \<Rightarrow> bool" where
  "all_versioned es t \<longleftrightarrow> (\<forall>e \<in> set es. topic e = t \<longrightarrow> snd (event_version (hdrs e)))"

definition positions :: "relay_event list \<Rightarrow> string \<Rightarrow> nat set" where
  "positions es t = {i. i < length es \<and> topic (es ! i) = t}"

definition is_latest :: "relay_event list \<Rightarrow> string \<Rightarrow> nat \<Rightarrow> bool" where
  "is_latest es t i \<longleftrightarrow> i \<in> positions es t \<and>
     (\<forall>j \<in> positions es t.
       if all_versioned es t then ver es j < ver es i \<or> ver es j = ver es i \<and> j \<le> i else j \<le> i)"

lemma is_latest_unique:
  assumes "is_latest es t i" "is_latest es t j"
  shows "i = j"
proof -
  have ij: "i \<in> positions es t" "j \<in> positions es t" using assms by (simp_all add: is_latest_def)
  show ?thesis
  proof (cases "all_versioned es t")
    case True
    then have "ver es j < ver es i \<or> ver es j = ver es i \<and> j \<le> i"
      "ver es i < ver es j \<or> ver es i = ver es j \<and> i \<le> j"
      using assms ij unfolding is_latest_def by metis+
    then show ?thesis by linarith
  next
    case False
    then have "j \<le> i" "i \<le> j" using assms ij unfolding is_latest_def by metis+
    then show ?thesis by simp
  qed
qed

lemma all_versioned_snoc:
  "all_versioned (es @ [e]) t \<longleftrightarrow> all_versioned es t \<and> (topic e = t \<longrightarrow> snd (event_version (hdrs e)))"
  by (auto simp: all_versioned_def)

lemma positions_snoc: "positions (es @ [e]) t = (if topic e = t then insert (length es) (positions es t) else positions es t)"
  by (auto simp: positions_def nth_append less_Suc_eq)

lemma positions_less: "i \<in> positions es t \<Longrightarrow> i < length es"
  by (simp add: positions_def)

lemma ver_append: "i < length es \<Longrightarrow> ver (es @ [e]) i = ver es i"
  by (simp add: nth_append)

lemma is_latest_other:
  assumes "topic e \<noteq> t"
  shows "is_latest (es @ [e]) t i \<longleftrightarrow> is_latest es t i"
proof -
  have "positions (es @ [e]) t = positions es t" "all_versioned (es @ [e]) t = all_versioned es t"
    using assms by (simp_all add: positions_snoc all_versioned_snoc)
  moreover have "\<forall>j \<in> positions es t. ver (es @ [e]) j = ver es j"
    using positions_less ver_append by blast
  ultimately show ?thesis unfolding is_latest_def by (cases "i \<in> positions es t") simp_all
qed

lemma is_latest_first:
  assumes "\<forall>x \<in> set es. topic x \<noteq> topic e"
  shows "is_latest (es @ [e]) (topic e) (length es)"
proof -
  have "positions es (topic e) = {}" using assms by (auto simp: positions_def)
  then show ?thesis by (simp add: is_latest_def positions_snoc)
qed

lemma is_latest_new:
  assumes "is_latest es (topic e) i"
    and "\<not> all_versioned (es @ [e]) (topic e) \<or> ver es i \<le> fst (event_version (hdrs e))"
  shows "is_latest (es @ [e]) (topic e) (length es)"
  unfolding is_latest_def positions_snoc
proof (simp, intro ballI impI conjI)
  fix j assume j: "j \<in> positions es (topic e)" and "all_versioned (es @ [e]) (topic e)"
  then have "ver es j \<le> ver es i" using assms(1)
    unfolding is_latest_def all_versioned_snoc by (metis order.refl order.strict_implies_order)
  then show "ver (es @ [e]) j < fst (event_version (hdrs e)) \<or>
      ver (es @ [e]) j = fst (event_version (hdrs e)) \<and> j \<le> length es"
    using assms(2) \<open>all_versioned (es @ [e]) (topic e)\<close> positions_less [OF j] ver_append [OF positions_less [OF j]]
    by simp linarith
qed (auto dest: positions_less)

lemma is_latest_old:
  assumes "is_latest es (topic e) i" "all_versioned (es @ [e]) (topic e)"
    and "fst (event_version (hdrs e)) < ver es i"
  shows "is_latest (es @ [e]) (topic e) i"
proof -
  have i: "i \<in> positions es (topic e)" and av: "all_versioned es (topic e)"
    using assms(1,2) by (simp_all add: is_latest_def all_versioned_snoc)
  have len: "i < length es" by (rule positions_less [OF i])
  have "ver (es @ [e]) j < ver es i \<or> ver (es @ [e]) j = ver es i \<and> j \<le> i"
    if "j \<in> insert (length es) (positions es (topic e))" for j
  proof (cases "j = length es")
    case True
    then show ?thesis using assms(3) by simp
  next
    case False
    then have j: "j \<in> positions es (topic e)" using that by simp
    have "ver es j < ver es i \<or> ver es j = ver es i \<and> j \<le> i"
      using assms(1) av j unfolding is_latest_def by metis
    then show ?thesis using ver_append [OF positions_less [OF j]] by simp
  qed
  then show ?thesis unfolding is_latest_def positions_snoc ver_append [OF len] using i assms(2) by simp
qed

text \<open>What the loop knows of the events it has seen.\<close>

definition candidates_ok :: "string list \<Rightarrow> relay_event list \<Rightarrow> (string \<rightharpoonup> latest_candidate) \<Rightarrow> bool" where
  "candidates_ok prefixes es cs \<longleftrightarrow> (\<forall>t. case cs t of
       None \<Rightarrow> has_any_prefix t prefixes \<longrightarrow> (\<forall>e \<in> set es. topic e \<noteq> t)
     | Some c \<Rightarrow> has_any_prefix t prefixes \<and> allVersion c = all_versioned es t \<and>
         version c = ver es (index c) \<and> is_latest es t (index c))"

lemma candidates_okD:
  "candidates_ok prefixes es cs \<Longrightarrow> cs t = Some c \<Longrightarrow>
     has_any_prefix t prefixes \<and> allVersion c = all_versioned es t \<and>
     version c = ver es (index c) \<and> is_latest es t (index c)"
  "candidates_ok prefixes es cs \<Longrightarrow> cs t = None \<Longrightarrow> has_any_prefix t prefixes \<Longrightarrow> \<forall>e \<in> set es. topic e \<noteq> t"
proof -
  assume ok: "candidates_ok prefixes es cs"
  note at = ok [unfolded candidates_ok_def, THEN spec, of t]
  show "cs t = Some c \<Longrightarrow> has_any_prefix t prefixes \<and> allVersion c = all_versioned es t \<and>
     version c = ver es (index c) \<and> is_latest es t (index c)"
    using at by simp
  show "cs t = None \<Longrightarrow> has_any_prefix t prefixes \<Longrightarrow> \<forall>e \<in> set es. topic e \<noteq> t"
    using at by simp
qed

lemma candidates_ok_step:
  assumes ok: "candidates_ok prefixes es cs"
    and same: "\<And>t. t \<noteq> topic e \<Longrightarrow> cs' t = cs t"
    and here: "case cs' (topic e) of
       None \<Rightarrow> \<not> has_any_prefix (topic e) prefixes
     | Some c \<Rightarrow> has_any_prefix (topic e) prefixes \<and> allVersion c = all_versioned (es @ [e]) (topic e) \<and>
         version c = ver (es @ [e]) (index c) \<and> is_latest (es @ [e]) (topic e) (index c)"
  shows "candidates_ok prefixes (es @ [e]) cs'"
  unfolding candidates_ok_def
proof
  fix t
  show "case cs' t of
       None \<Rightarrow> has_any_prefix t prefixes \<longrightarrow> (\<forall>x \<in> set (es @ [e]). topic x \<noteq> t)
     | Some c \<Rightarrow> has_any_prefix t prefixes \<and> allVersion c = all_versioned (es @ [e]) t \<and>
         version c = ver (es @ [e]) (index c) \<and> is_latest (es @ [e]) t (index c)"
  proof (cases "t = topic e")
    case True
    then show ?thesis using here by (simp split: option.splits)
  next
    case False
    show ?thesis
    proof (cases "cs t")
      case None
      then show ?thesis using candidates_okD(2) [OF ok None] same [OF False] False by auto
    next
      case (Some c)
      note c = candidates_okD(1) [OF ok Some]
      then have "index c < length es" by (simp add: is_latest_def positions_def)
      then have "ver (es @ [e]) (index c) = ver es (index c)" by (simp add: nth_append)
      then show ?thesis using c Some same [OF False] is_latest_other [of e t es] False
        by (simp add: all_versioned_snoc)
    qed
  qed
qed

lemma latest_loop_ok:
  "candidates_ok prefixes es cs \<Longrightarrow> candidates_ok prefixes (es @ new) (latest_loop prefixes (length es) new cs)"
proof (induction new arbitrary: es cs)
  case (Cons e new)
  define cs' where "cs' = (if \<not> has_any_prefix (topic e) prefixes then cs
      else let (v, versioned) = event_version (hdrs e) in
        case cs (topic e) of
          None \<Rightarrow> cs(topic e \<mapsto> \<lparr>index = length es, version = v, allVersion = versioned\<rparr>)
        | Some current \<Rightarrow>
            let allv = (allVersion current \<and> versioned);
                next1 = current\<lparr>allVersion := allv\<rparr>;
                next2 = (if \<not> allv \<or> v \<ge> version current
                         then next1\<lparr>index := length es, version := v\<rparr> else next1)
            in cs(topic e \<mapsto> next2))"
  have step: "latest_loop prefixes (length es) (e # new) cs = latest_loop prefixes (length (es @ [e])) new cs'"
    by (simp add: cs'_def Let_def split: prod.split option.split)
  have "candidates_ok prefixes (es @ [e]) cs'"
  proof (rule candidates_ok_step [OF Cons.prems])
    show "cs' t = cs t" if "t \<noteq> topic e" for t
      using that by (simp add: cs'_def Let_def split: prod.split option.split)
    show "case cs' (topic e) of
       None \<Rightarrow> \<not> has_any_prefix (topic e) prefixes
     | Some c \<Rightarrow> has_any_prefix (topic e) prefixes \<and> allVersion c = all_versioned (es @ [e]) (topic e) \<and>
         version c = ver (es @ [e]) (index c) \<and> is_latest (es @ [e]) (topic e) (index c)"
    proof (cases "has_any_prefix (topic e) prefixes")
      case False
      then have "cs (topic e) = None"
        using candidates_okD(1) [OF Cons.prems, of "topic e"] by (cases "cs (topic e)") auto
      then show ?thesis using False by (simp add: cs'_def)
    next
      case True
      obtain v versioned where v: "event_version (hdrs e) = (v, versioned)" by fastforce
      show ?thesis
      proof (cases "cs (topic e)")
        case None
        note fresh = candidates_okD(2) [OF Cons.prems None True]
        then have "all_versioned es (topic e)" by (auto simp: all_versioned_def)
        then show ?thesis using None True v is_latest_first [OF fresh]
          by (simp add: cs'_def all_versioned_snoc)
      next
        case (Some c)
        note c = candidates_okD(1) [OF Cons.prems Some]
        then have len: "index c < length es" by (simp add: is_latest_def positions_def)
        have allv: "all_versioned (es @ [e]) (topic e) = (allVersion c \<and> versioned)"
          using c v by (simp add: all_versioned_snoc)
        show ?thesis
        proof (cases "\<not> (allVersion c \<and> versioned) \<or> version c \<le> v")
          case newer: True
          then have "is_latest (es @ [e]) (topic e) (length es)"
            using is_latest_new [of es e "index c"] c v allv by simp
          then show ?thesis using Some True v newer allv by (simp add: cs'_def Let_def)
        next
          case older: False
          then have "is_latest (es @ [e]) (topic e) (index c)"
            using is_latest_old [of es e "index c"] c v allv by simp
          then show ?thesis using Some True v older allv c len by (simp add: cs'_def Let_def nth_append)
        qed
      qed
    qed
  qed
  from Cons.IH [OF this] show ?case unfolding step by simp
qed simp

section \<open>Properties\<close>

text \<open>
  C37. Of a latest-only subject exactly one event of the batch is kept: when every event of the subject
  has a version, the last one with the highest version, otherwise the last one. A subject without a
  latest-only prefix supersedes nothing.
\<close>
theorem latest_indexes_latest:
  "case latest_indexes events prefixes t of
     None \<Rightarrow> \<not> has_any_prefix t prefixes \<or> t \<notin> topic ` set events
   | Some i \<Rightarrow> has_any_prefix t prefixes \<and> is_latest events t i"
proof -
  have "candidates_ok prefixes [] Map.empty" by (simp add: candidates_ok_def)
  from latest_loop_ok [OF this, of events]
  have ok: "candidates_ok prefixes events (latest_loop prefixes 0 events Map.empty)" by simp
  show ?thesis
  proof (cases "latest_loop prefixes 0 events Map.empty t")
    case None
    then show ?thesis using candidates_okD(2) [OF ok None] by (auto simp: latest_indexes_def)
  next
    case (Some c)
    then show ?thesis using candidates_okD(1) [OF ok Some] by (simp add: latest_indexes_def)
  qed
qed

lemma add_prefixes_adds:
  "distinct pre \<Longrightarrow> \<exists>new. add_prefixes ps (set pre) pre = (pre @ new, set (pre @ new)) \<and>
     distinct (pre @ new) \<and> set new = trim_space ` set ps - {''''} - set pre"
proof (induction ps arbitrary: pre)
  case (Cons p ps)
  let ?p = "trim_space p"
  show ?case
  proof (cases "?p = '''' \<or> ?p \<in> set pre")
    case True
    then have "add_prefixes (p # ps) (set pre) pre = add_prefixes ps (set pre) pre" by (auto simp: Let_def)
    moreover have "trim_space ` set (p # ps) - {''''} - set pre = trim_space ` set ps - {''''} - set pre"
      using True by auto
    ultimately show ?thesis using Cons.IH [OF Cons.prems] by simp
  next
    case False
    then have step: "add_prefixes (p # ps) (set pre) pre = add_prefixes ps (set (pre @ [?p])) (pre @ [?p])"
      by (simp add: Let_def)
    have "distinct (pre @ [?p])" using Cons.prems False by simp
    from Cons.IH [OF this] obtain new where new:
      "add_prefixes ps (set (pre @ [?p])) (pre @ [?p]) = (pre @ ?p # new, set (pre @ ?p # new))"
      "distinct (pre @ ?p # new)" "set new = trim_space ` set ps - {''''} - set (pre @ [?p])"
      by auto
    have "set (?p # new) = trim_space ` set (p # ps) - {''''} - set pre" using new(3) False by auto
    then show ?thesis unfolding step using new(1,2) by (intro exI [of _ "?p # new"] conjI)
  qed
qed auto

text \<open>
  The prefixes in force are the key-value prefix and every trimmed, non-empty prefix of the
  configuration and of the environment, each once.
\<close>
theorem latest_only_prefixes_set:
  "set (latest_only_prefixes configured fromEnv) =
     insert kv_subject_prefix ({p. \<exists>q \<in> set (configured @ fromEnv). p = trim_space q} - {''''}) \<and>
   distinct (latest_only_prefixes configured fromEnv)"
proof -
  obtain n1 where n1: "add_prefixes configured (set [kv_subject_prefix]) [kv_subject_prefix] =
      ([kv_subject_prefix] @ n1, set ([kv_subject_prefix] @ n1))" "distinct ([kv_subject_prefix] @ n1)"
    "set n1 = trim_space ` set configured - {''''} - set [kv_subject_prefix]"
    using add_prefixes_adds [of "[kv_subject_prefix]" configured] by auto
  obtain n2 where n2: "add_prefixes fromEnv (set ([kv_subject_prefix] @ n1)) ([kv_subject_prefix] @ n1) =
      (([kv_subject_prefix] @ n1) @ n2, set (([kv_subject_prefix] @ n1) @ n2))"
    "distinct (([kv_subject_prefix] @ n1) @ n2)"
    "set n2 = trim_space ` set fromEnv - {''''} - set ([kv_subject_prefix] @ n1)"
    using add_prefixes_adds [OF n1(2), of fromEnv] by metis
  have "latest_only_prefixes configured fromEnv = ([kv_subject_prefix] @ n1) @ n2"
    using n1(1) n2(1) by (simp add: latest_only_prefixes_def)
  moreover have "kv_subject_prefix \<noteq> ''''" by (simp add: kv_subject_prefix_def)
  ultimately show ?thesis using n1(3) n2(2,3) by (auto simp: image_iff)
qed

definition demo_snapshot :: "string \<Rightarrow> relay_event" where
  "demo_snapshot v = \<lparr>event_id = v, topic = ''$KV.b.k'', payload = [], hdrs = [(LatestVersionHeader, v)],
     attempts = 0, created_at = 0\<rparr>"

theorem latest_indexes_latest_witness:
  "is_latest [demo_snapshot ''5'', demo_snapshot ''3''] ''$KV.b.k'' 0"
proof -
  have "latest_indexes [demo_snapshot ''5'', demo_snapshot ''3''] [kv_subject_prefix] ''$KV.b.k'' = Some 0"
    by code_simp
  then show ?thesis
    using latest_indexes_latest [where events = "[demo_snapshot ''5'', demo_snapshot ''3'']"
      and prefixes = "[kv_subject_prefix]" and t = "''$KV.b.k''"]
    by simp
qed

end
