(* ===== verification/Outbox_Frames.thy ===== *)
theory Outbox_Frames
  imports Outbox_Latest Subjects Frame_Codec
begin

text \<open>
  How the relay packs the events of a batch into frames (\<^verbatim>\<open>pkg/outbox/frame_events.go\<close>,
  \<^verbatim>\<open>frameable.go\<close>, \<^verbatim>\<open>frame_max_bytes.go\<close>,
  \<^verbatim>\<open>publish_framed.go\<close>), and, with the codec of \<^verbatim>\<open>pkg/nats/frame\<close>,
  what a consumer gets out of them.
\<close>

section \<open>What may be framed\<close>

record producer_event =
  psubject :: string
  pheaders :: headers
  ppayload :: "byte list"

record framing =
  patterns :: "string list"
  maxElements :: int
  maxBytes :: int

definition frame_header_reserve :: int where "frame_header_reserve = 1024"
definition min_frame_max_bytes :: int where "min_frame_max_bytes = 1024"

definition frames_active :: "framing option \<Rightarrow> bool" where
  "frames_active fr \<longleftrightarrow> (case fr of None \<Rightarrow> False | Some f \<Rightarrow> patterns f \<noteq> [])"

text \<open>\<open>max_payload\<close> is none when the producer does not report one.\<close>

definition frame_max_bytes :: "framing \<Rightarrow> int option \<Rightarrow> int" where
  "frame_max_bytes f max_payload =
     (case max_payload of
        None \<Rightarrow> maxBytes f
      | Some pl \<Rightarrow>
          if pl \<le> 0 \<or> maxBytes f \<le> pl - frame_header_reserve then maxBytes f
          else max (pl - frame_header_reserve) min_frame_max_bytes)"

definition header_value :: "headers \<Rightarrow> string \<Rightarrow> string" where
  "header_value hs k = (case map_of hs k of None \<Rightarrow> '''' | Some v \<Rightarrow> v)"

definition keeps_frame_out :: "string \<Rightarrow> bool" where
  "keeps_frame_out h =
     (let lower = map to_lower h
      in has_prefix lower ''nats-expected-'' \<or> lower = ''nats-ttl'' \<or> lower = ''nats-rollup'')"

fun any_keeps_out :: "headers \<Rightarrow> bool" where
  "any_keeps_out [] = False"
| "any_keeps_out ((k, v) # rest) = (if \<not> keeps_frame_out k then any_keeps_out rest else True)"

definition frameable :: "framing \<Rightarrow> string list \<Rightarrow> producer_event \<Rightarrow> bool" where
  "frameable f latestOnly e =
     (if \<not> matches_any_pattern (psubject e) (patterns f) \<or> has_prefix (psubject e) kv_subject_prefix \<or>
         header_value (pheaders e) MsgIDHeader = '''' then False
      else if has_any_prefix (psubject e) latestOnly then False
      else \<not> any_keeps_out (pheaders e))"

section \<open>Packing\<close>

definition header_of :: "headers \<Rightarrow> header" where
  "header_of hs = (\<lambda>k. map_option (\<lambda>v. [v]) (map_of hs k))"

definition element_of :: "producer_event \<Rightarrow> element" where
  "element_of e = \<lparr>Subject = psubject e, Headers = Some (header_of (pheaders e)), Payload = ppayload e\<rparr>"

definition frame_element ::
  "msgpack \<Rightarrow> framing \<Rightarrow> string list \<Rightarrow> int \<Rightarrow> producer_event \<Rightarrow> byte list option" where
  "frame_element mp f latestOnly mx e =
     (if \<not> frameable f latestOnly e then None
      else (case marshal mp (element_of e) of
              Inl _ \<Rightarrow> None
            | Inr enc \<Rightarrow> if int (length enc) + int max_array_header > mx then None else Some enc))"

text \<open>A frame being built; \<open>open\<close> names it by its place in the list of groups.\<close>

record wire_frame =
  members :: "nat list"
  encoded :: "byte list list"
  fsize :: int

type_synonym packing = "wire_frame list \<times> (string \<rightharpoonup> nat) \<times> bool"

definition frame_place ::
  "framing \<Rightarrow> int \<Rightarrow> nat \<Rightarrow> string \<Rightarrow> byte list option \<Rightarrow> packing \<Rightarrow> packing" where
  "frame_place f mx i subj enc = (\<lambda>(groups, opens, framed).
     case enc of
       None \<Rightarrow> (groups @ [\<lparr>members = [i], encoded = [], fsize = 0\<rparr>], opens(subj := None), framed)
     | Some d \<Rightarrow>
         let at1 = (case opens subj of
               None \<Rightarrow> None
             | Some g \<Rightarrow>
                 if int (length (members (groups ! g))) \<ge> maxElements f \<or>
                    fsize (groups ! g) + int (length d) > mx then None else Some g);
             (groups', opens', g) = (case at1 of
               None \<Rightarrow> (groups @ [\<lparr>members = [], encoded = [], fsize = int max_array_header\<rparr>],
                         opens(subj \<mapsto> length groups), length groups)
             | Some g \<Rightarrow> (groups, opens, g));
             w = groups' ! g;
             w' = \<lparr>members = members w @ [i], encoded = encoded w @ [d], fsize = fsize w + int (length d)\<rparr>
         in (groups'[g := w'], opens', framed \<or> length (members w') > 1))"

fun frame_loop ::
  "msgpack \<Rightarrow> framing \<Rightarrow> string list \<Rightarrow> int \<Rightarrow> nat \<Rightarrow> producer_event list \<Rightarrow> packing \<Rightarrow> packing" where
  "frame_loop mp f latestOnly mx i [] st = st"
| "frame_loop mp f latestOnly mx i (e # es) st =
     frame_loop mp f latestOnly mx (Suc i) es
       (frame_place f mx i (psubject e) (frame_element mp f latestOnly mx e) st)"

definition wire_event :: "(string \<Rightarrow> string) \<Rightarrow> producer_event list \<Rightarrow> wire_frame \<Rightarrow> producer_event" where
  "wire_event sha events g =
     (if length (members g) = 1 then events ! (members g ! 0)
      else
        let ids = map (\<lambda>j. header_value (pheaders (events ! j)) MsgIDHeader) (members g)
        in \<lparr>psubject = psubject (events ! (members g ! 0)), pheaders = wire_headers sha ids,
            ppayload = join (encoded g)\<rparr>)"

definition wire_events ::
  "(string \<Rightarrow> string) \<Rightarrow> producer_event list \<Rightarrow> wire_frame list \<Rightarrow> producer_event list \<times> nat list list" where
  "wire_events sha events groups = (map (wire_event sha events) groups, map members groups)"

text \<open>What \<^verbatim>\<open>OnFramed\<close> is told: messages, frames, elements.\<close>

definition framed_event :: "wire_frame list \<Rightarrow> nat \<times> nat \<times> nat" where
  "framed_event groups =
     (let fs = filter (\<lambda>g. length (members g) \<noteq> 1) groups
      in (length groups, length fs, sum_list (map (length \<circ> members) fs)))"

text \<open>None stands for the events as they are, without frames.\<close>

definition frame_events ::
  "msgpack \<Rightarrow> (string \<Rightarrow> string) \<Rightarrow> framing option \<Rightarrow> string list \<Rightarrow> int option \<Rightarrow> producer_event list
     \<Rightarrow> (producer_event list \<times> nat list list) option" where
  "frame_events mp sha fr latestOnly max_payload events =
     (case fr of
        None \<Rightarrow> None
      | Some f \<Rightarrow>
          if \<not> frames_active fr \<or> length events < 2 then None
          else (case frame_loop mp f latestOnly (frame_max_bytes f max_payload) 0 events ([], Map.empty, False) of
                  (groups, _, framed) \<Rightarrow>
                    if \<not> framed then None else Some (wire_events sha events groups)))"

section \<open>Publishing\<close>

fun spread_errs :: "nat list list \<Rightarrow> nat \<Rightarrow> goerr option list \<Rightarrow> goerr option list \<Rightarrow> goerr option list" where
  "spread_errs [] position wire_errs errs = errs"
| "spread_errs (ixs # rest) position wire_errs errs =
     (if position \<ge> length wire_errs then spread_errs rest (Suc position) wire_errs errs
      else spread_errs rest (Suc position) wire_errs (put_all (\<lambda>_. wire_errs ! position) ixs errs))"

definition publish_framed ::
  "(producer_event list \<Rightarrow> (producer_event list \<times> nat list list) option) \<Rightarrow>
     (producer_event list \<Rightarrow> 's \<Rightarrow> goerr option list \<times> 's) \<Rightarrow> producer_event list \<Rightarrow> 's
     \<Rightarrow> goerr option list \<times> 's" where
  "publish_framed pack publish events s =
     (case pack events of
        None \<Rightarrow> publish events s
      | Some (wire, ms) \<Rightarrow>
          let (wire_errs, s') = publish wire s
          in (spread_errs ms 0 wire_errs (replicate (length events) None), s'))"

section \<open>The invariant of packing\<close>

definition group_ok :: "msgpack \<Rightarrow> framing \<Rightarrow> int \<Rightarrow> producer_event list \<Rightarrow> wire_frame \<Rightarrow> bool" where
  "group_ok mp f mx es g \<longleftrightarrow> members g \<noteq> [] \<and> sorted_wrt (<) (members g) \<and>
     (\<forall>j \<in> set (members g). psubject (es ! j) = psubject (es ! (members g ! 0))) \<and>
     (encoded g = [] \<and> length (members g) = 1 \<or>
      list_all2 (\<lambda>j d. marshal mp (element_of (es ! j)) = Inr d) (members g) (encoded g) \<and>
      fsize g = int max_array_header + int (length (concat (encoded g))) \<and> fsize g \<le> mx \<and>
      (length (members g) = 1 \<or> int (length (members g)) \<le> maxElements f))"

lemma group_okD:
  assumes "group_ok mp f mx es g"
  shows "members g \<noteq> []" "sorted_wrt (<) (members g)"
    "\<And>j. j \<in> set (members g) \<Longrightarrow> psubject (es ! j) = psubject (es ! (members g ! 0))"
    "length (members g) \<noteq> 1 \<Longrightarrow>
       list_all2 (\<lambda>j d. marshal mp (element_of (es ! j)) = Inr d) (members g) (encoded g) \<and>
       fsize g = int max_array_header + int (length (concat (encoded g))) \<and> fsize g \<le> mx \<and>
       int (length (members g)) \<le> maxElements f"
  using assms unfolding group_ok_def by blast+

definition groups_ordered :: "producer_event list \<Rightarrow> wire_frame list \<Rightarrow> bool" where
  "groups_ordered es gs \<longleftrightarrow> (\<forall>a b x y. a < b \<longrightarrow> b < length gs \<longrightarrow> x \<in> set (members (gs ! a)) \<longrightarrow>
     y \<in> set (members (gs ! b)) \<longrightarrow> psubject (es ! x) = psubject (es ! y) \<longrightarrow> x < y)"

lemma groups_orderedD:
  "groups_ordered es gs \<Longrightarrow> a < b \<Longrightarrow> b < length gs \<Longrightarrow> x \<in> set (members (gs ! a)) \<Longrightarrow>
     y \<in> set (members (gs ! b)) \<Longrightarrow> psubject (es ! x) = psubject (es ! y) \<Longrightarrow> x < y"
  unfolding groups_ordered_def by blast

definition opens_ok :: "producer_event list \<Rightarrow> wire_frame list \<Rightarrow> (string \<rightharpoonup> nat) \<Rightarrow> bool" where
  "opens_ok es gs opens \<longleftrightarrow> (\<forall>s g. opens s = Some g \<longrightarrow> g < length gs \<and> encoded (gs ! g) \<noteq> [] \<and>
     psubject (es ! (members (gs ! g) ! 0)) = s \<and>
     (\<forall>b y. g < b \<longrightarrow> b < length gs \<longrightarrow> y \<in> set (members (gs ! b)) \<longrightarrow> psubject (es ! y) \<noteq> s))"

definition packing_ok :: "msgpack \<Rightarrow> framing \<Rightarrow> int \<Rightarrow> producer_event list \<Rightarrow> nat \<Rightarrow> packing \<Rightarrow> bool" where
  "packing_ok mp f mx es n = (\<lambda>(gs, opens, framed).
     mset (concat (map members gs)) = mset [0..<n] \<and> (\<forall>g \<in> set gs. group_ok mp f mx es g) \<and>
     groups_ordered es gs \<and> opens_ok es gs opens \<and>
     (framed \<longleftrightarrow> (\<exists>g \<in> set gs. length (members g) > 1)))"

lemma packed_below:
  assumes "mset (concat (map members gs)) = mset [0..<n]" "a < length gs" "x \<in> set (members (gs ! a))"
  shows "x < n"
proof -
  have "x \<in> set (concat (map members gs))" using assms(2,3) by force
  also have "\<dots> = set [0..<n]" by (rule mset_eq_setD [OF assms(1)])
  finally show ?thesis by simp
qed

text \<open>A new group at the end.\<close>

lemma packing_new:
  assumes ok: "packing_ok mp f mx es i (gs, opens, framed)"
    and g: "group_ok mp f mx es g" "members g = [i]"
    and opn: "opens' = opens(psubject (es ! i) := None) \<or>
      encoded g \<noteq> [] \<and> opens' = opens(psubject (es ! i) \<mapsto> length gs)"
  shows "packing_ok mp f mx es (Suc i) (gs @ [g], opens', framed)"
proof -
  have mset: "mset (concat (map members gs)) = mset [0..<i]" and ord: "groups_ordered es gs"
    and opens: "opens_ok es gs opens" using ok by (simp_all add: packing_ok_def)
  have "mset (concat (map members (gs @ [g]))) = mset [0..<Suc i]" using mset g(2) by simp
  moreover have "\<forall>g \<in> set (gs @ [g]). group_ok mp f mx es g" using ok g(1) by (simp add: packing_ok_def)
  moreover have "groups_ordered es (gs @ [g])"
    unfolding groups_ordered_def
  proof (intro allI impI)
    fix a b x y assume ab: "a < b" "b < length (gs @ [g])" "x \<in> set (members ((gs @ [g]) ! a))"
      "y \<in> set (members ((gs @ [g]) ! b))" "psubject (es ! x) = psubject (es ! y)"
    then have x: "x \<in> set (members (gs ! a))" "a < length gs" by (simp_all add: nth_append)
    show "x < y"
    proof (cases "b < length gs")
      case True
      then have "y \<in> set (members (gs ! b))" using ab(4) by (simp add: nth_append)
      then show ?thesis by (rule groups_orderedD [OF ord ab(1) True x(1) _ ab(5)])
    next
      case False
      then have "y = i" using ab(2,4) g(2) by (simp add: nth_append)
      then show ?thesis using packed_below [OF mset x(2,1)] by simp
    qed
  qed
  moreover have "opens_ok es (gs @ [g]) opens'"
    unfolding opens_ok_def
  proof (intro allI impI)
    fix s k assume k: "opens' s = Some k"
    show "k < length (gs @ [g]) \<and> encoded ((gs @ [g]) ! k) \<noteq> [] \<and>
        psubject (es ! (members ((gs @ [g]) ! k) ! 0)) = s \<and>
        (\<forall>b y. k < b \<longrightarrow> b < length (gs @ [g]) \<longrightarrow> y \<in> set (members ((gs @ [g]) ! b)) \<longrightarrow> psubject (es ! y) \<noteq> s)"
    proof (cases "s = psubject (es ! i)")
      case True
      then have "encoded g \<noteq> [] \<and> k = length gs" using k opn by auto
      then show ?thesis using True g(2) by (simp add: nth_append)
    next
      case False
      then have "opens s = Some k" using k opn by auto
      then have "k < length gs" "encoded (gs ! k) \<noteq> []" "psubject (es ! (members (gs ! k) ! 0)) = s"
        "\<forall>b y. k < b \<longrightarrow> b < length gs \<longrightarrow> y \<in> set (members (gs ! b)) \<longrightarrow> psubject (es ! y) \<noteq> s"
        using opens unfolding opens_ok_def by blast+
      moreover have "psubject (es ! y) \<noteq> s"
        if "k < b" "b < length (gs @ [g])" "y \<in> set (members ((gs @ [g]) ! b))" for b y
        using that calculation(4) False g(2) by (cases "b < length gs") (auto simp: nth_append less_Suc_eq)
      ultimately show ?thesis by (simp add: nth_append)
    qed
  qed
  moreover have "framed \<longleftrightarrow> (\<exists>g \<in> set (gs @ [g]). length (members g) > 1)"
    using ok g(2) by (simp add: packing_ok_def)
  ultimately show ?thesis by (simp add: packing_ok_def)
qed

text \<open>A member more for an open group.\<close>

lemma packing_extend:
  assumes ok: "packing_ok mp f mx es i (gs, opens, framed)" and k: "opens (psubject (es ! i)) = Some k"
    and g: "members g = members (gs ! k) @ [i]" "encoded g \<noteq> []" "group_ok mp f mx es g"
  shows "packing_ok mp f mx es (Suc i) (gs[k := g], opens, True)"
proof -
  have mset: "mset (concat (map members gs)) = mset [0..<i]" and ord: "groups_ordered es gs"
    and opens: "opens_ok es gs opens" and all: "\<forall>g \<in> set gs. group_ok mp f mx es g"
    using ok by (simp_all add: packing_ok_def)
  have kl: "k < length gs" and after_k:
    "\<And>b y. k < b \<Longrightarrow> b < length gs \<Longrightarrow> y \<in> set (members (gs ! b)) \<Longrightarrow> psubject (es ! y) \<noteq> psubject (es ! i)"
    using opens k unfolding opens_ok_def by blast+
  have ne: "members (gs ! k) \<noteq> []" using all kl by (simp add: group_ok_def)
  have at_k: "members (gs[k := g] ! b) = (if b = k then members (gs ! k) @ [i] else members (gs ! b))" for b
    using g(1) kl by (cases "b = k") simp_all
  have "mset (concat (map members (gs[k := g]))) = mset [0..<Suc i]"
  proof -
    have split: "gs = take k gs @ gs ! k # drop (Suc k) gs" by (rule id_take_nth_drop [OF kl])
    have "mset (concat (map members gs)) = mset (concat (map members (take k gs))) + mset (members (gs ! k)) +
        mset (concat (map members (drop (Suc k) gs)))"
      by (subst split) simp
    moreover have "gs[k := g] = take k gs @ g # drop (Suc k) gs" by (rule upd_conv_take_nth_drop [OF kl])
    ultimately show ?thesis using mset g(1) by simp
  qed
  moreover have "\<forall>g' \<in> set (gs[k := g]). group_ok mp f mx es g'"
    using all g(3) set_update_subset_insert [of gs k g] by blast
  moreover have "groups_ordered es (gs[k := g])"
    unfolding groups_ordered_def
  proof (intro allI impI)
    fix a b x y assume ab: "a < b" "b < length (gs[k := g])" "x \<in> set (members (gs[k := g] ! a))"
      "y \<in> set (members (gs[k := g] ! b))" "psubject (es ! x) = psubject (es ! y)"
    have old: "x' < y'" if "x' \<in> set (members (gs ! a))" "y' \<in> set (members (gs ! b))"
      "psubject (es ! x') = psubject (es ! y')" for x' y'
      by (rule groups_orderedD [OF ord ab(1) _ that]) (use ab(2) in simp)
    show "x < y"
    proof (cases "x \<in> set (members (gs ! a))")
      case True
      show ?thesis
      proof (cases "y \<in> set (members (gs ! b))")
        case False
        then have "y = i" using ab(4) by (auto simp: at_k split: if_splits)
        then show ?thesis using packed_below [OF mset _ True] ab(1,2) by simp
      qed (rule old [OF True _ ab(5)])
    next
      case False
      then have x: "x = i" "a = k" using ab(3) by (auto simp: at_k split: if_splits)
      then have "y \<in> set (members (gs ! b))" using ab(1,4) by (simp add: at_k)
      then show ?thesis using after_k [of b y] x ab(1,2,5) by simp
    qed
  qed
  moreover have "opens_ok es (gs[k := g]) opens"
    unfolding opens_ok_def
  proof (intro allI impI)
    fix s k' assume k': "opens s = Some k'"
    have s: "k' < length gs" "encoded (gs ! k') \<noteq> []" "psubject (es ! (members (gs ! k') ! 0)) = s"
      "\<And>b y. k' < b \<Longrightarrow> b < length gs \<Longrightarrow> y \<in> set (members (gs ! b)) \<Longrightarrow> psubject (es ! y) \<noteq> s"
      using opens k' unfolding opens_ok_def by blast+
    have here: "psubject (es ! i) = psubject (es ! (members (gs ! k) ! 0))"
      using opens k unfolding opens_ok_def by metis
    show "k' < length (gs[k := g]) \<and> encoded (gs[k := g] ! k') \<noteq> [] \<and>
        psubject (es ! (members (gs[k := g] ! k') ! 0)) = s \<and>
        (\<forall>b y. k' < b \<longrightarrow> b < length (gs[k := g]) \<longrightarrow> y \<in> set (members (gs[k := g] ! b)) \<longrightarrow> psubject (es ! y) \<noteq> s)"
    proof (intro conjI allI impI)
      show "encoded (gs[k := g] ! k') \<noteq> []" using s(2) g(2) kl by (cases "k = k'") simp_all
      show "psubject (es ! (members (gs[k := g] ! k') ! 0)) = s" using s(3) ne
        by (cases "k' = k") (simp_all add: at_k nth_append)
      fix b y assume b: "k' < b" "b < length (gs[k := g])" "y \<in> set (members (gs[k := g] ! b))"
      show "psubject (es ! y) \<noteq> s"
      proof (cases "y \<in> set (members (gs ! b))")
        case True
        then show ?thesis using s(4) b by simp
      next
        case False
        then have y: "y = i" "b = k" using b(3) by (auto simp: at_k split: if_splits)
        have "members (gs ! k) ! 0 \<in> set (members (gs ! k))" using ne by simp
        then show ?thesis using s(4) [of k] b y here kl by simp
      qed
    qed (use s in simp)
  qed
  moreover have "\<exists>g \<in> set (gs[k := g]). length (members g) > 1"
    using g(1) ne kl set_update_memI [OF kl, of g] by (intro bexI [of _ g]) simp_all
  ultimately show ?thesis by (simp add: packing_ok_def)
qed

lemma frame_element_some:
  "frame_element mp f latestOnly mx e = Some d \<Longrightarrow>
     frameable f latestOnly e \<and> marshal mp (element_of e) = Inr d \<and> int (length d) + int max_array_header \<le> mx"
  by (auto simp: frame_element_def split: if_splits sum.splits)

lemma frame_place_ok:
  assumes ok: "packing_ok mp f mx es i (gs, opens, framed)" and e: "e = es ! i"
    and enc: "enc = frame_element mp f latestOnly mx e"
  shows "packing_ok mp f mx es (Suc i) (frame_place f mx i (psubject e) enc (gs, opens, framed))"
proof (cases enc)
  case None
  have "group_ok mp f mx es \<lparr>members = [i], encoded = [], fsize = 0\<rparr>" by (simp add: group_ok_def)
  from packing_new [OF ok this, of "opens(psubject e := None)"] show ?thesis
    using None e by (simp add: frame_place_def)
next
  case (Some d)
  have d: "marshal mp (element_of (es ! i)) = Inr d" "int (length d) + int max_array_header \<le> mx"
    using frame_element_some [of mp f latestOnly mx e d] Some enc e by simp_all
  let ?fits = "\<lambda>g. \<not> (int (length (members (gs ! g))) \<ge> maxElements f \<or> fsize (gs ! g) + int (length d) > mx)"
  consider (fresh) "opens (psubject e) = None \<or> (\<exists>g. opens (psubject e) = Some g \<and> \<not> ?fits g)"
    | (joins) g where "opens (psubject e) = Some g" "?fits g"
    by (cases "opens (psubject e)") auto
  then show ?thesis
  proof cases
    case fresh
    let ?g = "\<lparr>members = [i], encoded = [d], fsize = int max_array_header + int (length d)\<rparr>"
    have "group_ok mp f mx es ?g" using d by (simp add: group_ok_def)
    from packing_new [OF ok this, of "opens(psubject e \<mapsto> length gs)"]
    have "packing_ok mp f mx es (Suc i) (gs @ [?g], opens(psubject e \<mapsto> length gs), framed)"
      using e by simp
    moreover have "frame_place f mx i (psubject e) enc (gs, opens, framed) =
        (gs @ [?g], opens(psubject e \<mapsto> length gs), framed)"
      using fresh Some by (auto simp: frame_place_def Let_def)
    ultimately show ?thesis by simp
  next
    case joins
    let ?w = "gs ! g"
    let ?g = "\<lparr>members = members ?w @ [i], encoded = encoded ?w @ [d], fsize = fsize ?w + int (length d)\<rparr>"
    have mset: "mset (concat (map members gs)) = mset [0..<i]" and opens: "opens_ok es gs opens"
      and all: "\<forall>g \<in> set gs. group_ok mp f mx es g" using ok by (simp_all add: packing_ok_def)
    have g: "g < length gs" "encoded ?w \<noteq> []" "psubject (es ! (members ?w ! 0)) = psubject e"
      using opens joins(1) unfolding opens_ok_def by blast+
    have w: "group_ok mp f mx es ?w" using all g(1) by simp
    then have wne: "members ?w \<noteq> []" by (simp add: group_ok_def)
    have enc_w: "list_all2 (\<lambda>j d. marshal mp (element_of (es ! j)) = Inr d) (members ?w) (encoded ?w)"
      "fsize ?w = int max_array_header + int (length (concat (encoded ?w)))"
      using w g(2) by (simp_all add: group_ok_def)
    have below: "\<forall>x \<in> set (members ?w). x < i" using packed_below [OF mset g(1)] by blast
    have "group_ok mp f mx es ?g"
      unfolding group_ok_def
    proof (intro conjI)
      show "sorted_wrt (<) (members ?g)" using w below by (simp add: group_ok_def sorted_wrt_append)
      show "\<forall>j \<in> set (members ?g). psubject (es ! j) = psubject (es ! (members ?g ! 0))"
        using w wne g(3) e by (simp add: group_ok_def nth_append)
      show "encoded ?g = [] \<and> length (members ?g) = 1 \<or>
        list_all2 (\<lambda>j d. marshal mp (element_of (es ! j)) = Inr d) (members ?g) (encoded ?g) \<and>
        fsize ?g = int max_array_header + int (length (concat (encoded ?g))) \<and> fsize ?g \<le> mx \<and>
        (length (members ?g) = 1 \<or> int (length (members ?g)) \<le> maxElements f)"
        using enc_w d(1) joins(2) by (simp add: list_all2_appendI)
    qed simp
    from packing_extend [OF ok _ _ _ this, of g]
    have "packing_ok mp f mx es (Suc i) (gs[g := ?g], opens, True)" using joins(1) e by simp
    moreover have "frame_place f mx i (psubject e) enc (gs, opens, framed) = (gs[g := ?g], opens, True)"
      using joins Some wne by (simp add: frame_place_def Let_def)
    ultimately show ?thesis by simp
  qed
qed

lemma frame_loop_ok:
  "packing_ok mp f mx all_es i st \<Longrightarrow> rest = drop i all_es \<Longrightarrow> i \<le> length all_es \<Longrightarrow>
     packing_ok mp f mx all_es (length all_es) (frame_loop mp f latestOnly mx i rest st)"
proof (induction mp f latestOnly mx i rest st rule: frame_loop.induct)
  case (2 mp f latestOnly mx i e es st)
  obtain gs opens framed where st: "st = (gs, opens, framed)" by (metis prod_cases3)
  have i: "i < length all_es" using "2.prems"(2) by (metis drop_all list.distinct(1) not_le)
  then have e: "e = all_es ! i" "es = drop (Suc i) all_es"
    using "2.prems"(2) by (metis Cons_nth_drop_Suc list.inject)+
  have "packing_ok mp f mx all_es (Suc i) (frame_place f mx i (psubject e) (frame_element mp f latestOnly mx e) st)"
    using frame_place_ok [OF "2.prems"(1) [unfolded st] e(1) HOL.refl] by (simp add: st)
  from "2.IH" [OF this e(2)] i show ?case by simp
qed (simp add: le_antisym)

lemma frame_events_packing:
  assumes "frame_events mp sha (Some f) latestOnly max_payload events = Some (wire, ms)"
  obtains groups opens where
    "packing_ok mp f (frame_max_bytes f max_payload) events (length events) (groups, opens, True)"
    "wire = map (wire_event sha events) groups" "ms = map members groups"
proof -
  obtain groups opens framed where loop:
    "frame_loop mp f latestOnly (frame_max_bytes f max_payload) 0 events ([], Map.empty, False) =
      (groups, opens, framed)" by (metis prod_cases3)
  have "packing_ok mp f (frame_max_bytes f max_payload) events 0 ([], Map.empty, False)"
    by (simp add: packing_ok_def groups_ordered_def opens_ok_def)
  from frame_loop_ok [OF this] have "packing_ok mp f (frame_max_bytes f max_payload) events (length events)
      (groups, opens, framed)" using loop by (metis drop0 le0)
  moreover have "framed" "wire = map (wire_event sha events) groups" "ms = map members groups"
    using assms loop by (auto simp: frame_events_def wire_events_def split: if_splits)
  ultimately show ?thesis using that by simp
qed

lemma sorted_wrt_concat:
  assumes "\<forall>xs \<in> set xss. sorted_wrt R xs"
    and "\<And>a b x y. a < b \<Longrightarrow> b < length xss \<Longrightarrow> x \<in> set (xss ! a) \<Longrightarrow> y \<in> set (xss ! b) \<Longrightarrow> R x y"
  shows "sorted_wrt R (concat xss)"
  using assms
proof (induction xss)
  case (Cons xs xss)
  have "R x y" if "x \<in> set xs" "y \<in> set (concat xss)" for x y
  proof -
    obtain ys where "ys \<in> set xss" "y \<in> set ys" using \<open>y \<in> set (concat xss)\<close> by auto
    then obtain b where "b < length xss" "y \<in> set (xss ! b)" by (metis in_set_conv_nth)
    then show ?thesis using Cons.prems(2) [of 0 "Suc b" x y] \<open>x \<in> set xs\<close> by simp
  qed
  moreover have "sorted_wrt R (concat xss)"
    by (rule Cons.IH) (use Cons.prems(1) Cons.prems(2) [of "Suc _" "Suc _"] in auto)
  ultimately show ?case using Cons.prems(1) by (simp add: sorted_wrt_append)
qed simp

lemma packing_subject_order:
  assumes "packing_ok mp f mx es n (gs, opens, framed)"
  shows "filter (\<lambda>j. psubject (es ! j) = s) (concat (map members gs)) = filter (\<lambda>j. psubject (es ! j) = s) [0..<n]"
proof -
  let ?R = "\<lambda>x y. psubject (es ! x) = psubject (es ! y) \<longrightarrow> x < y"
  let ?P = "\<lambda>j. psubject (es ! j) = s"
  have ok: "mset (concat (map members gs)) = mset [0..<n]" "\<forall>g \<in> set gs. group_ok mp f mx es g"
    "groups_ordered es gs" using assms by (simp_all add: packing_ok_def)
  have "sorted_wrt ?R (concat (map members gs))"
  proof (rule sorted_wrt_concat)
    have "sorted_wrt ?R (members g)" if "g \<in> set gs" for g
      by (rule sorted_wrt_mono_rel [OF _ group_okD(2) [OF bspec [OF ok(2) that]]]) simp
    then show "\<forall>xs \<in> set (map members gs). sorted_wrt ?R xs" by simp
    show "?R x y" if "a < b" "b < length (map members gs)" "x \<in> set (map members gs ! a)"
      "y \<in> set (map members gs ! b)" for a b x y
      using groups_orderedD [OF ok(3) that(1)] that by simp
  qed
  then have "sorted_wrt ?R (filter ?P (concat (map members gs)))" by (rule sorted_wrt_filter)
  then have "sorted (filter ?P (concat (map members gs)))"
    by (rule sorted_wrt_mono_rel [rotated]) auto
  then have "sort (filter ?P [0..<n]) = filter ?P (concat (map members gs))"
    by (rule properties_for_sort [rotated]) (simp add: mset_filter ok(1))
  moreover have "sort (filter ?P [0..<n]) = filter ?P [0..<n]"
    by (rule sorted_sort_id) (rule sorted_wrt_filter, simp)
  ultimately show ?thesis by simp
qed

lemma wire_event_subject: "group_ok mp f mx es g \<Longrightarrow> psubject (wire_event sha es g) = psubject (es ! (members g ! 0))"
  by (simp add: wire_event_def Let_def)

lemma list_all2_map_iff: "list_all2 (\<lambda>j d. F j = Inr d) js ds \<Longrightarrow> list_all2 (\<lambda>e d. e = Inr d) (map F js) ds"
  by (simp add: list_all2_map1)

section \<open>Errors of a frame\<close>

lemma length_spread_errs [simp]: "length (spread_errs ms k werrs errs) = length errs"
  by (induction ms k werrs errs rule: spread_errs.induct) simp_all

lemma spread_errs_out: "j \<notin> set (concat ms) \<Longrightarrow> spread_errs ms k werrs errs ! j = errs ! j"
  by (induction ms k werrs errs rule: spread_errs.induct) (simp_all add: nth_put_all_out)

lemma spread_errs_in:
  assumes "distinct (concat ms)" "k < length ms" "j \<in> set (ms ! k)" "j < length errs"
  shows "spread_errs ms p werrs errs ! j = (if p + k < length werrs then werrs ! (p + k) else errs ! j)"
  using assms
proof (induction ms p werrs errs arbitrary: k rule: spread_errs.induct)
  case (2 ixs rest position werrs errs)
  show ?case
  proof (cases k)
    case 0
    then have "j \<in> set ixs" using "2.prems"(3) by simp
    then have "j \<notin> set (concat rest)" using "2.prems"(1) by auto
    then show ?thesis using 0 \<open>j \<in> set ixs\<close> "2.prems"(4)
      by (simp add: spread_errs_out nth_put_all_in)
  next
    case (Suc k')
    then have k: "k' < length rest" "j \<in> set (rest ! k')" "distinct (concat rest)" using "2.prems" by simp_all
    then have "j \<notin> set ixs" using "2.prems"(1) by (auto dest: nth_mem)
    then show ?thesis using Suc "2.IH" [of k'] k "2.prems"(4)
      by (cases "position \<ge> length werrs") (simp_all add: nth_put_all_out)
  qed
qed simp

section \<open>Properties\<close>

text \<open>
  C14. Packing loses nothing and keeps the order of every subject: read frame by frame, the events of a
  subject are exactly the events of the batch of that subject, in their order; a frame holds events
  of one subject only, and an event that is not framed is published as it is.
\<close>
theorem frame_events_order:
  assumes "frame_events mp sha (Some f) latestOnly max_payload events = Some (wire, ms)"
  shows "length wire = length ms \<and>
    filter (\<lambda>j. psubject (events ! j) = s) (concat ms) =
      filter (\<lambda>j. psubject (events ! j) = s) [0..<length events] \<and>
    (\<forall>k < length ms. ms ! k \<noteq> [] \<and> (\<forall>j \<in> set (ms ! k). psubject (events ! j) = psubject (wire ! k)) \<and>
      (if length (ms ! k) = 1 then wire ! k = events ! (ms ! k ! 0) else True))"
proof -
  obtain groups opens where g:
    "packing_ok mp f (frame_max_bytes f max_payload) events (length events) (groups, opens, True)"
    "wire = map (wire_event sha events) groups" "ms = map members groups"
    by (rule frame_events_packing [OF assms])
  have each: "ms ! k \<noteq> [] \<and> (\<forall>j \<in> set (ms ! k). psubject (events ! j) = psubject (wire ! k)) \<and>
      (if length (ms ! k) = 1 then wire ! k = events ! (ms ! k ! 0) else True)" if k: "k < length ms" for k
  proof -
    have ok: "group_ok mp f (frame_max_bytes f max_payload) events (groups ! k)"
      using g(1,3) k by (simp add: packing_ok_def)
    have at_k: "ms ! k = members (groups ! k)" "wire ! k = wire_event sha events (groups ! k)"
      using k g(2,3) by simp_all
    have "\<forall>j \<in> set (ms ! k). psubject (events ! j) = psubject (wire ! k)"
      unfolding at_k wire_event_subject [OF ok] using group_okD(3) [OF ok] by blast
    moreover have "length (ms ! k) = 1 \<Longrightarrow> wire ! k = events ! (ms ! k ! 0)"
      unfolding at_k by (simp add: wire_event_def)
    ultimately show ?thesis using group_okD(1) [OF ok] at_k(1) by simp
  qed
  moreover have "length wire = length ms" using g(2,3) by simp
  moreover have "filter (\<lambda>j. psubject (events ! j) = s) (concat ms) =
      filter (\<lambda>j. psubject (events ! j) = s) [0..<length events]"
    unfolding g(3) by (rule packing_subject_order [OF g(1)])
  ultimately show ?thesis by blast
qed



text \<open>
  Every event of a frame has the outcome of its frame: the error of the broker message it was
  published in. Where the producer returned fewer errors than it was given messages, the events of
  the messages left out are reported as published.
\<close>
theorem publish_framed_errors:
  assumes "frame_events mp sha (Some f) latestOnly max_payload events = Some (wire, ms)"
    and "publish wire s = (werrs, s')" "k < length ms" "j \<in> set (ms ! k)"
  shows "\<exists>errs. publish_framed (frame_events mp sha (Some f) latestOnly max_payload) publish events s = (errs, s') \<and>
    length errs = length events \<and> errs ! j = (if k < length werrs then werrs ! k else None)"
proof -
  obtain groups opens where g:
    "packing_ok mp f (frame_max_bytes f max_payload) events (length events) (groups, opens, True)"
    "wire = map (wire_event sha events) groups" "ms = map members groups"
    by (rule frame_events_packing [OF assms(1)])
  have mset: "mset (concat ms) = mset [0..<length events]" using g(1,3) by (simp add: packing_ok_def)
  have "distinct (concat ms)" by (rule mset_eq_imp_distinct_iff [OF mset, THEN iffD2]) simp
  moreover have "j < length events" using packed_below [OF mset [unfolded g(3)]] assms(3,4) g(3) by simp
  ultimately have "spread_errs ms 0 werrs (replicate (length events) None) ! j =
      (if k < length werrs then werrs ! k else None)"
    using spread_errs_in [of ms k j "replicate (length events) None" 0 werrs] assms(3,4) by simp
  then show ?thesis using assms(1,2) by (simp add: publish_framed_def)
qed

section \<open>An example\<close>

definition demo_event :: "byte \<Rightarrow> producer_event" where
  "demo_event x = \<lparr>psubject = ''s'', pheaders = [(MsgIDHeader, ''i'')], ppayload = [x]\<rparr>"

definition demo_packer :: msgpack where
  "demo_packer = demo_msgpack\<lparr>
     decode_element := (\<lambda>bs. case bs of
        x # rest \<Rightarrow> Inr (element_of (demo_event x), rest) | [] \<Rightarrow> Inl (Foreign ''eof'')),
     marshal := (\<lambda>e. if e = element_of (demo_event (Payload e ! 0)) then Inr (Payload e) else Inl (Foreign ''x''))\<rparr>"

definition demo_framing :: framing where
  "demo_framing = \<lparr>patterns = [''>''], maxElements = 16, maxBytes = 1024\<rparr>"

lemma demo_marshal: "marshal demo_packer (element_of (demo_event x)) = Inr [x]"
  by (simp add: demo_packer_def element_of_def demo_event_def)

lemma demo_element_framed: "frame_element demo_packer demo_framing [] 1024 (demo_event x) = Some [x]"
proof -
  have "frameable demo_framing [] (demo_event x)"
    by (simp add: frameable_def demo_framing_def demo_event_def subject_matches_def header_value_def
        MsgIDHeader_def has_prefix_def kv_subject_prefix_def keeps_frame_out_def to_lower_def)
  then show ?thesis by (simp add: frame_element_def demo_marshal max_array_header_def)
qed

lemma demo_framed:
  "frame_events demo_packer (\<lambda>s. s) (Some demo_framing) [] None [demo_event 1, demo_event 2] =
     Some ([\<lparr>psubject = ''s'', pheaders = wire_headers (\<lambda>s. s) [''i'', ''i''], ppayload = join [[1], [2]]\<rparr>], [[0, 1]])"
proof -
  have "frame_max_bytes demo_framing None = 1024" by (simp add: frame_max_bytes_def demo_framing_def)
  moreover have "frames_active (Some demo_framing)" by (simp add: frames_active_def demo_framing_def)
  moreover have "psubject (demo_event x) = ''s''" "header_value (pheaders (demo_event x)) MsgIDHeader = ''i''" for x
    by (simp_all add: demo_event_def header_value_def)
  moreover have "maxElements demo_framing = 16" by (simp add: demo_framing_def)
  ultimately show ?thesis
    by (simp add: frame_events_def frame_place_def demo_element_framed wire_events_def wire_event_def
        Let_def max_array_header_def)
qed

theorem frame_events_order_witness:
  "filter (\<lambda>j. psubject ([demo_event 1, demo_event 2] ! j) = ''s'') (concat [[0, 1]]) =
   filter (\<lambda>j. psubject ([demo_event 1, demo_event 2] ! j) = ''s'') [0..<length [demo_event 1, demo_event 2]]"
  using frame_events_order [OF demo_framed, of "''s''"] by (rule conjunct1 [OF conjunct2])


theorem publish_framed_errors_witness:
  "\<exists>errs. publish_framed (frame_events demo_packer (\<lambda>s. s) (Some demo_framing) [] None)
       (\<lambda>evs n. ([Some (Sent ErrTimeoutNats)], n + length evs)) [demo_event 1, demo_event 2] 0 = (errs, 1) \<and>
     length errs = length [demo_event 1, demo_event 2] \<and> errs ! 1 = Some (Sent ErrTimeoutNats)"
  using publish_framed_errors [OF demo_framed, of "\<lambda>evs n. ([Some (Sent ErrTimeoutNats)], n + length evs)" 0
      "[Some (Sent ErrTimeoutNats)]" 1 0 1] by simp


end
