(* ===== verification/Outbox_Config.thy ===== *)
theory Outbox_Config
  imports Outbox_Retry Outbox_Frames
begin

text \<open>
  The configuration of the relay (\<^verbatim>\<open>pkg/outbox/config.go\<close>,
  \<^verbatim>\<open>env_*.go\<close>, \<^verbatim>\<open>resolve_framing.go\<close> and the resolution in
  \<^verbatim>\<open>NewRelay\<close>): defaults, what the environment overrides, and the ranges the relay
  can rely on afterwards.
\<close>

section \<open>Configuration\<close>

record config = retry_config +
  Mode :: string
  BatchSize :: int
  TickInterval :: duration
  DeleteOlderThan :: duration
  StallThreshold :: duration
  StatsInterval :: duration
  CleanupInterval :: duration
  RetainParked :: duration
  Paused :: bool
  Batched :: bool
  Linger :: duration
  ClaimV2 :: bool
  ClaimTimeout :: duration
  StallReclaimInterval :: duration
  PendingGaugeInterval :: duration
  CleanupBatch :: int
  LatestOnlyPrefixes :: string
  TxDrain :: bool
  FrameSubjects :: string

definition ModeDeleteAfterSend :: string where "ModeDeleteAfterSend = ''delete_after_send''"
definition ModeUpdateAfterSend :: string where "ModeUpdateAfterSend = ''update_after_send''"

definition default_config :: config where
  "default_config = \<lparr>
     RetryBackoffBase = 0, RetryBackoffMax = 0, RetryJitter = False, TxDrainPublishTimeout = 0, MaxAttempts = 0,
     Mode = ModeUpdateAfterSend, BatchSize = 100, TickInterval = 2 * second, DeleteOlderThan = 60 * minute,
     StallThreshold = 5 * minute, StatsInterval = 0, CleanupInterval = 0, RetainParked = 0, Paused = False,
     Batched = False, Linger = 0, ClaimV2 = False, ClaimTimeout = 0, StallReclaimInterval = 0,
     PendingGaugeInterval = 0, CleanupBatch = 0, LatestOnlyPrefixes = '''', TxDrain = False, FrameSubjects = ''''\<rparr>"

definition recommended_config :: config where
  "recommended_config = default_config\<lparr>
     CleanupInterval := 24 * 60 * minute, DeleteOlderThan := 7 * 24 * 60 * minute,
     RetainParked := 30 * 24 * 60 * minute, MaxAttempts := 20, RetryBackoffBase := 2 * second,
     RetryBackoffMax := 5 * minute, StatsInterval := minute\<rparr>"

definition keep_throughput_knobs :: "config \<Rightarrow> config \<Rightarrow> config" where
  "keep_throughput_knobs dst src = dst\<lparr>
     PendingGaugeInterval := PendingGaugeInterval src, CleanupBatch := CleanupBatch src,
     LatestOnlyPrefixes := LatestOnlyPrefixes src, TxDrain := TxDrain src,
     TxDrainPublishTimeout := TxDrainPublishTimeout src, FrameSubjects := FrameSubjects src\<rparr>"

section \<open>Reading the environment\<close>

definition env_true :: "environment \<Rightarrow> string \<Rightarrow> bool" where
  "env_true env name = (let value = trim_space (getenv env name) in equal_fold value ''true'' \<or> value = ''1'')"

definition env_paused :: "environment \<Rightarrow> bool" where
  "env_paused env = (let v = trim_space (getenv env ''BROKERFX_OUTBOX_RELAY_PAUSED'')
     in equal_fold v ''true'' \<or> v = ''1'')"

definition env_batched :: "environment \<Rightarrow> bool" where
  "env_batched env = (let v = trim_space (getenv env ''BROKERFX_OUTBOX_RELAY_BATCHED'')
     in equal_fold v ''true'' \<or> v = ''1'')"

definition env_claim_v2 :: "environment \<Rightarrow> bool" where
  "env_claim_v2 env = (let v = trim_space (getenv env ''BROKERFX_OUTBOX_CLAIM_V2'')
     in equal_fold v ''true'' \<or> v = ''1'')"

definition env_positive_duration :: "environment \<Rightarrow> string \<Rightarrow> duration option" where
  "env_positive_duration env name =
     (let value = trim_space (getenv env name) in
      if value = '''' then None
      else (case parse_duration env value of
              None \<Rightarrow> None
            | Some d \<Rightarrow> if d \<le> 0 then None else Some d))"

definition env_non_negative_duration :: "environment \<Rightarrow> string \<Rightarrow> duration option" where
  "env_non_negative_duration env name =
     (let value = trim_space (getenv env name) in
      if value = '''' then None
      else (case parse_duration env value of
              None \<Rightarrow> None
            | Some d \<Rightarrow> if d < 0 then None else Some d))"

definition env_non_negative_int :: "environment \<Rightarrow> string \<Rightarrow> int option" where
  "env_non_negative_int env name =
     (let value = trim_space (getenv env name) in
      if value = '''' then None
      else (case parse_int value of
              None \<Rightarrow> None
            | Some d \<Rightarrow> if d < 0 then None else Some d))"

definition split_list :: "string \<Rightarrow> string list" where
  "split_list value =
     (let value' = trim_space value in if value' = '''' then [] else split_at CHR '','' value')"

definition env_retry_jitter_on :: "environment \<Rightarrow> bool" where
  "env_retry_jitter_on env =
     (let value = trim_space (getenv env ''BROKERFX_OUTBOX_RETRY_JITTER'') in
      if value = '''' \<or> value = ''0'' \<or> equal_fold value ''false'' then False
      else env_true env ''BROKERFX_OUTBOX_RETRY_JITTER'')"

section \<open>Resolution\<close>

definition resolve_batched :: "environment \<Rightarrow> config \<Rightarrow> config" where
  "resolve_batched env cfg =
     (let cfg1 = (if env_batched env then cfg\<lparr>Batched := True\<rparr> else cfg)
      in if Batched cfg1 \<and> Linger cfg1 \<le> 0 then cfg1\<lparr>Linger := 5 * millisecond\<rparr> else cfg1)"

definition claim_overrides :: "environment \<Rightarrow> config \<Rightarrow> config" where
  "claim_overrides env cfg =
     (let cfg1 = (case env_positive_duration env ''BROKERFX_OUTBOX_CLAIM_TIMEOUT'' of
            None \<Rightarrow> cfg | Some d \<Rightarrow> cfg\<lparr>ClaimTimeout := d\<rparr>);
          cfg2 = (case env_positive_duration env ''BROKERFX_OUTBOX_STALL_THRESHOLD'' of
            None \<Rightarrow> cfg1 | Some d \<Rightarrow> cfg1\<lparr>StallThreshold := d\<rparr>);
          cfg3 = (case env_positive_duration env ''BROKERFX_OUTBOX_STALL_RECLAIM_INTERVAL'' of
            None \<Rightarrow> cfg2 | Some d \<Rightarrow> cfg2\<lparr>StallReclaimInterval := d\<rparr>)
      in if env_claim_v2 env then cfg3\<lparr>ClaimV2 := True\<rparr> else cfg3)"

definition claim_defaults :: "config \<Rightarrow> config" where
  "claim_defaults cfg =
     (let cfg1 = (if ClaimTimeout cfg \<le> 0 then cfg\<lparr>ClaimTimeout := 5 * second\<rparr> else cfg)
      in if StallReclaimInterval cfg1 \<le> 0 then
           let cfg2 = cfg1\<lparr>StallReclaimInterval := minute\<rparr> in
           if StallThreshold cfg2 > 0 \<and> StallThreshold cfg2 < StallReclaimInterval cfg2
           then cfg2\<lparr>StallReclaimInterval := StallThreshold cfg2\<rparr> else cfg2
         else cfg1)"

definition resolve_claim :: "environment \<Rightarrow> config \<Rightarrow> config" where
  "resolve_claim env cfg = claim_defaults (claim_overrides env cfg)"

definition resolve_throughput :: "environment \<Rightarrow> config \<Rightarrow> config" where
  "resolve_throughput env cfg =
     (let cfg1 = (case env_non_negative_duration env ''BROKERFX_OUTBOX_PENDING_GAUGE_INTERVAL'' of
            None \<Rightarrow> cfg | Some d \<Rightarrow> cfg\<lparr>PendingGaugeInterval := d\<rparr>);
          cfg2 = (case env_non_negative_int env ''BROKERFX_OUTBOX_CLEANUP_BATCH'' of
            None \<Rightarrow> cfg1 | Some d \<Rightarrow> cfg1\<lparr>CleanupBatch := d\<rparr>);
          cfg3 = (if env_true env ''BROKERFX_OUTBOX_TX_DRAIN'' then cfg2\<lparr>TxDrain := True\<rparr> else cfg2);
          cfg4 = (case env_positive_duration env ''BROKERFX_OUTBOX_TX_DRAIN_PUBLISH_TIMEOUT'' of
            None \<Rightarrow> cfg3 | Some d \<Rightarrow> cfg3\<lparr>TxDrainPublishTimeout := d\<rparr>)
      in if TxDrain cfg4 \<and> TxDrainPublishTimeout cfg4 \<le> 0
         then cfg4\<lparr>TxDrainPublishTimeout := 2 * second\<rparr> else cfg4)"

definition validate_throughput :: "config \<Rightarrow> bool" where
  "validate_throughput cfg \<longleftrightarrow> \<not> (TxDrain cfg \<and> TxDrainPublishTimeout cfg \<ge> 25 * second)"

definition resolve_retry :: "environment \<Rightarrow> config \<Rightarrow> config" where
  "resolve_retry env cfg =
     (let cfg1 = (if env_retry_jitter_on env then cfg\<lparr>RetryJitter := True\<rparr> else cfg) in
      case env_positive_duration env ''BROKERFX_OUTBOX_RETRY_BACKOFF_BASE'' of
        None \<Rightarrow> cfg1
      | Some base \<Rightarrow>
          if RetryBackoffBase cfg1 \<noteq> 0 then cfg1
          else
            let max_delay = (case env_positive_duration env ''BROKERFX_OUTBOX_RETRY_BACKOFF_MAX'' of
                  None \<Rightarrow> 5 * second | Some d \<Rightarrow> d)
            in cfg1\<lparr>RetryBackoffBase := base, RetryBackoffMax := max max_delay base\<rparr>)"

text \<open>The configuration \<^verbatim>\<open>NewRelay\<close> builds; a relay without a mode takes the defaults.\<close>

definition with_mode :: "config \<Rightarrow> config" where
  "with_mode cfg =
     (if Mode cfg = '''' then
        (keep_throughput_knobs default_config cfg)\<lparr>
           Batched := Batched cfg, Linger := Linger cfg, ClaimV2 := ClaimV2 cfg,
           ClaimTimeout := ClaimTimeout cfg, StallReclaimInterval := StallReclaimInterval cfg\<rparr>
      else cfg)"

definition with_stall :: "config \<Rightarrow> config" where
  "with_stall cfg =
     (if StallThreshold cfg \<le> 0 then cfg\<lparr>StallThreshold := StallThreshold default_config\<rparr> else cfg)"

definition relay_config :: "environment \<Rightarrow> config \<Rightarrow> config" where
  "relay_config env cfg =
     (let cfg1 = with_mode cfg;
          cfg2 = resolve_batched env cfg1;
          cfg3 = with_stall cfg2
      in resolve_retry env (resolve_throughput env (resolve_claim env cfg3)))"

section \<open>Framing\<close>

fun valid_patterns :: "string list \<Rightarrow> string list" where
  "valid_patterns [] = []"
| "valid_patterns (p # ps) =
     (let p' = trim_space p in
      if \<not> valid_subject_pattern p' then valid_patterns ps else p' # valid_patterns ps)"

definition resolve_framing :: "environment \<Rightarrow> config \<Rightarrow> framing" where
  "resolve_framing env cfg =
     (let raw_list = (case env_lookup env ''BROKERFX_FRAME_SUBJECTS'' of None \<Rightarrow> FrameSubjects cfg | Some v \<Rightarrow> v);
          f1 = \<lparr>patterns = valid_patterns (split_list raw_list), maxElements = 16, maxBytes = 262144\<rparr>;
          f2 = (case env_non_negative_int env ''BROKERFX_FRAME_MAX_ELEMENTS'' of
            None \<Rightarrow> f1
          | Some v \<Rightarrow> if v < 2 \<or> v > 1024 then f1 else f1\<lparr>maxElements := v\<rparr>)
      in case env_non_negative_int env ''BROKERFX_FRAME_MAX_BYTES'' of
           None \<Rightarrow> f2
         | Some v \<Rightarrow> if v < min_frame_max_bytes then f2 else f2\<lparr>maxBytes := v\<rparr>)"

definition relay_latest_only :: "environment \<Rightarrow> config \<Rightarrow> string list" where
  "relay_latest_only env cfg =
     latest_only_prefixes (split_list (LatestOnlyPrefixes cfg))
       (split_list (getenv env ''BROKERFX_OUTBOX_LATEST_ONLY_PREFIXES''))"

section \<open>Ranges\<close>

lemma env_positive_durationD: "env_positive_duration env name = Some d \<Longrightarrow> 0 < d"
  by (auto simp: env_positive_duration_def Let_def split: if_splits option.splits)

lemma env_non_negative_intD: "env_non_negative_int env name = Some d \<Longrightarrow> 0 \<le> d"
  by (auto simp: env_non_negative_int_def Let_def split: if_splits option.splits)

lemma valid_patterns_valid: "p \<in> set (valid_patterns ps) \<Longrightarrow> valid_subject_pattern p"
  by (induction ps) (auto simp: Let_def split: if_splits)

lemma resolve_batched_fields [simp]:
  "StallThreshold (resolve_batched env cfg) = StallThreshold cfg" "Mode (resolve_batched env cfg) = Mode cfg"
  by (simp_all add: resolve_batched_def Let_def)

lemma claim_overrides_fields [simp]:
  "Batched (claim_overrides env cfg) = Batched cfg" "Linger (claim_overrides env cfg) = Linger cfg"
  "Mode (claim_overrides env cfg) = Mode cfg"
  "StallThreshold (claim_overrides env cfg) =
     (case env_positive_duration env ''BROKERFX_OUTBOX_STALL_THRESHOLD'' of None \<Rightarrow> StallThreshold cfg | Some d \<Rightarrow> d)"
  "ClaimTimeout (claim_overrides env cfg) =
     (case env_positive_duration env ''BROKERFX_OUTBOX_CLAIM_TIMEOUT'' of None \<Rightarrow> ClaimTimeout cfg | Some d \<Rightarrow> d)"
  "StallReclaimInterval (claim_overrides env cfg) =
     (case env_positive_duration env ''BROKERFX_OUTBOX_STALL_RECLAIM_INTERVAL'' of
        None \<Rightarrow> StallReclaimInterval cfg | Some d \<Rightarrow> d)"
  "ClaimV2 (claim_overrides env cfg) = (env_claim_v2 env \<or> ClaimV2 cfg)"
  by (simp_all add: claim_overrides_def Let_def split: option.split)

lemma claim_defaults_fields [simp]:
  "Batched (claim_defaults cfg) = Batched cfg" "Linger (claim_defaults cfg) = Linger cfg"
  "Mode (claim_defaults cfg) = Mode cfg" "StallThreshold (claim_defaults cfg) = StallThreshold cfg"
  "ClaimV2 (claim_defaults cfg) = ClaimV2 cfg" "0 < ClaimTimeout (claim_defaults cfg)"
  "0 < StallReclaimInterval (claim_defaults cfg)"
  "0 < ClaimTimeout cfg \<Longrightarrow> ClaimTimeout (claim_defaults cfg) = ClaimTimeout cfg"
  "0 < StallReclaimInterval cfg \<Longrightarrow> StallReclaimInterval (claim_defaults cfg) = StallReclaimInterval cfg"
  by (simp_all add: claim_defaults_def Let_def)

lemma resolve_claim_fields [simp]:
  "Batched (resolve_claim env cfg) = Batched cfg" "Linger (resolve_claim env cfg) = Linger cfg"
  "Mode (resolve_claim env cfg) = Mode cfg"
  by (simp_all add: resolve_claim_def)

lemma resolve_throughput_fields [simp]:
  "Batched (resolve_throughput env cfg) = Batched cfg" "Linger (resolve_throughput env cfg) = Linger cfg"
  "Mode (resolve_throughput env cfg) = Mode cfg" "StallThreshold (resolve_throughput env cfg) = StallThreshold cfg"
  "ClaimTimeout (resolve_throughput env cfg) = ClaimTimeout cfg"
  "StallReclaimInterval (resolve_throughput env cfg) = StallReclaimInterval cfg"
  "RetryBackoffBase (resolve_throughput env cfg) = RetryBackoffBase cfg"
  "RetryBackoffMax (resolve_throughput env cfg) = RetryBackoffMax cfg"
  by (simp_all add: resolve_throughput_def Let_def split: option.split)

lemma resolve_retry_fields [simp]:
  "Batched (resolve_retry env cfg) = Batched cfg" "Linger (resolve_retry env cfg) = Linger cfg"
  "Mode (resolve_retry env cfg) = Mode cfg" "StallThreshold (resolve_retry env cfg) = StallThreshold cfg"
  "ClaimTimeout (resolve_retry env cfg) = ClaimTimeout cfg"
  "StallReclaimInterval (resolve_retry env cfg) = StallReclaimInterval cfg"
  "TxDrain (resolve_retry env cfg) = TxDrain cfg"
  "TxDrainPublishTimeout (resolve_retry env cfg) = TxDrainPublishTimeout cfg"
  by (simp_all add: resolve_retry_def Let_def split: option.split)

lemma resolve_batched_linger: "Batched (resolve_batched env cfg) \<Longrightarrow> 0 < Linger (resolve_batched env cfg)"
  by (auto simp: resolve_batched_def Let_def split: if_splits)

lemma resolve_claim_ranges:
  "0 < StallThreshold cfg \<Longrightarrow> 0 < StallThreshold (resolve_claim env cfg) \<and>
     0 < ClaimTimeout (resolve_claim env cfg) \<and> 0 < StallReclaimInterval (resolve_claim env cfg)"
  by (auto simp: resolve_claim_def dest: env_positive_durationD split: option.split)

lemma resolve_throughput_timeout:
  "TxDrain (resolve_throughput env cfg) \<Longrightarrow> 0 < TxDrainPublishTimeout (resolve_throughput env cfg)"
  by (auto simp: resolve_throughput_def Let_def split: option.splits if_splits)

lemma with_stall_fields [simp]:
  "Batched (with_stall cfg) = Batched cfg" "Linger (with_stall cfg) = Linger cfg"
  "Mode (with_stall cfg) = Mode cfg"
  by (simp_all add: with_stall_def)

lemma with_stall_positive: "0 < StallThreshold (with_stall cfg)"
  by (simp add: with_stall_def default_config_def)

lemma with_mode_mode: "Mode (with_mode cfg) \<noteq> ''''"
  by (simp add: with_mode_def keep_throughput_knobs_def default_config_def ModeUpdateAfterSend_def)

text \<open>What each step leaves behind, and that it does nothing where it finds that.\<close>

definition batched_done :: "environment \<Rightarrow> config \<Rightarrow> bool" where
  "batched_done env c \<longleftrightarrow> (env_batched env \<longrightarrow> Batched c) \<and> (Batched c \<longrightarrow> 0 < Linger c)"

definition is_set :: "'a option \<Rightarrow> 'a \<Rightarrow> bool" where
  "is_set v x \<longleftrightarrow> (case v of None \<Rightarrow> True | Some y \<Rightarrow> x = y)"

definition claim_done :: "environment \<Rightarrow> config \<Rightarrow> bool" where
  "claim_done env c \<longleftrightarrow>
     is_set (env_positive_duration env ''BROKERFX_OUTBOX_CLAIM_TIMEOUT'') (ClaimTimeout c) \<and>
     is_set (env_positive_duration env ''BROKERFX_OUTBOX_STALL_THRESHOLD'') (StallThreshold c) \<and>
     is_set (env_positive_duration env ''BROKERFX_OUTBOX_STALL_RECLAIM_INTERVAL'') (StallReclaimInterval c) \<and>
     (env_claim_v2 env \<longrightarrow> ClaimV2 c) \<and> 0 < ClaimTimeout c \<and> 0 < StallReclaimInterval c"

definition throughput_done :: "environment \<Rightarrow> config \<Rightarrow> bool" where
  "throughput_done env c \<longleftrightarrow>
     is_set (env_non_negative_duration env ''BROKERFX_OUTBOX_PENDING_GAUGE_INTERVAL'') (PendingGaugeInterval c) \<and>
     is_set (env_non_negative_int env ''BROKERFX_OUTBOX_CLEANUP_BATCH'') (CleanupBatch c) \<and>
     (env_true env ''BROKERFX_OUTBOX_TX_DRAIN'' \<longrightarrow> TxDrain c) \<and>
     is_set (env_positive_duration env ''BROKERFX_OUTBOX_TX_DRAIN_PUBLISH_TIMEOUT'') (TxDrainPublishTimeout c) \<and>
     (TxDrain c \<longrightarrow> 0 < TxDrainPublishTimeout c)"

definition retry_done :: "environment \<Rightarrow> config \<Rightarrow> bool" where
  "retry_done env c \<longleftrightarrow> (env_retry_jitter_on env \<longrightarrow> RetryJitter c) \<and>
     (env_positive_duration env ''BROKERFX_OUTBOX_RETRY_BACKOFF_BASE'' = None \<or> RetryBackoffBase c \<noteq> 0)"

lemma resolve_batched_id: "batched_done env c \<Longrightarrow> resolve_batched env c = c"
  by (cases c) (auto simp: batched_done_def resolve_batched_def Let_def)

lemma claim_overrides_id:
  assumes "is_set (env_positive_duration env ''BROKERFX_OUTBOX_CLAIM_TIMEOUT'') (ClaimTimeout c)"
    and "is_set (env_positive_duration env ''BROKERFX_OUTBOX_STALL_THRESHOLD'') (StallThreshold c)"
    and "is_set (env_positive_duration env ''BROKERFX_OUTBOX_STALL_RECLAIM_INTERVAL'') (StallReclaimInterval c)"
    and "env_claim_v2 env \<longrightarrow> ClaimV2 c"
  shows "claim_overrides env c = c"
proof -
  have "(case env_positive_duration env ''BROKERFX_OUTBOX_CLAIM_TIMEOUT'' of
      None \<Rightarrow> c | Some d \<Rightarrow> c\<lparr>ClaimTimeout := d\<rparr>) = c"
    using assms(1) by (cases c) (simp add: is_set_def split: option.splits)
  moreover have "(case env_positive_duration env ''BROKERFX_OUTBOX_STALL_THRESHOLD'' of
      None \<Rightarrow> c | Some d \<Rightarrow> c\<lparr>StallThreshold := d\<rparr>) = c"
    using assms(2) by (cases c) (simp add: is_set_def split: option.splits)
  moreover have "(case env_positive_duration env ''BROKERFX_OUTBOX_STALL_RECLAIM_INTERVAL'' of
      None \<Rightarrow> c | Some d \<Rightarrow> c\<lparr>StallReclaimInterval := d\<rparr>) = c"
    using assms(3) by (cases c) (simp add: is_set_def split: option.splits)
  moreover have "(if env_claim_v2 env then c\<lparr>ClaimV2 := True\<rparr> else c) = c"
    using assms(4) by (cases c) simp
  ultimately show ?thesis unfolding claim_overrides_def Let_def by metis
qed

lemma resolve_claim_id: "claim_done env c \<Longrightarrow> resolve_claim env c = c"
  by (simp add: claim_done_def resolve_claim_def claim_overrides_id) (simp add: claim_defaults_def Let_def)

lemma resolve_throughput_id: "throughput_done env c \<Longrightarrow> resolve_throughput env c = c"
  by (cases c) (auto simp: throughput_done_def is_set_def resolve_throughput_def Let_def split: option.splits)

lemma resolve_retry_id: "retry_done env c \<Longrightarrow> resolve_retry env c = c"
  by (cases c) (auto simp: retry_done_def resolve_retry_def Let_def split: option.splits)

lemma resolve_batched_done: "batched_done env (resolve_batched env c)"
  by (auto simp: batched_done_def resolve_batched_def Let_def)

lemma resolve_claim_done: "0 < StallThreshold c \<Longrightarrow> claim_done env (resolve_claim env c)"
proof -
  assume "0 < StallThreshold c"
  have "is_set (env_positive_duration env ''BROKERFX_OUTBOX_CLAIM_TIMEOUT'') (ClaimTimeout (resolve_claim env c))"
  proof (cases "env_positive_duration env ''BROKERFX_OUTBOX_CLAIM_TIMEOUT''")
    case (Some d)
    then show ?thesis using env_positive_durationD [OF Some] by (simp add: is_set_def resolve_claim_def)
  qed (simp add: is_set_def)
  moreover have "is_set (env_positive_duration env ''BROKERFX_OUTBOX_STALL_RECLAIM_INTERVAL'')
      (StallReclaimInterval (resolve_claim env c))"
  proof (cases "env_positive_duration env ''BROKERFX_OUTBOX_STALL_RECLAIM_INTERVAL''")
    case (Some d)
    then show ?thesis using env_positive_durationD [OF Some] by (simp add: is_set_def resolve_claim_def)
  qed (simp add: is_set_def)
  ultimately show ?thesis
    by (simp add: claim_done_def) (simp add: is_set_def resolve_claim_def split: option.split)
qed

lemma resolve_throughput_done: "throughput_done env (resolve_throughput env c)"
  by (auto simp: throughput_done_def is_set_def resolve_throughput_def Let_def dest: env_positive_durationD
      split: option.splits)

lemma resolve_retry_done: "retry_done env (resolve_retry env c)"
  by (auto simp: retry_done_def resolve_retry_def Let_def dest: env_positive_durationD split: option.splits)

text \<open>No step undoes another.\<close>

lemma done_claim: "batched_done env (resolve_claim env c) = batched_done env c"
  by (simp add: batched_done_def)

lemma done_throughput:
  "batched_done env (resolve_throughput env c) = batched_done env c"
  "claim_done env (resolve_throughput env c) = claim_done env c"
proof -
  have "ClaimV2 (resolve_throughput env c) = ClaimV2 c"
    by (simp add: resolve_throughput_def Let_def split: option.split)
  then show "claim_done env (resolve_throughput env c) = claim_done env c" by (simp add: claim_done_def)
qed (simp add: batched_done_def)

lemma done_retry:
  "batched_done env (resolve_retry env c) = batched_done env c"
  "claim_done env (resolve_retry env c) = claim_done env c"
  "throughput_done env (resolve_retry env c) = throughput_done env c"
proof -
  have "ClaimV2 (resolve_retry env c) = ClaimV2 c" "CleanupBatch (resolve_retry env c) = CleanupBatch c"
    "PendingGaugeInterval (resolve_retry env c) = PendingGaugeInterval c"
    by (simp_all add: resolve_retry_def Let_def split: option.split)
  then show "claim_done env (resolve_retry env c) = claim_done env c"
    "throughput_done env (resolve_retry env c) = throughput_done env c"
    by (simp_all add: claim_done_def throughput_done_def)
qed (simp add: batched_done_def)

section \<open>Properties\<close>


text \<open>
  Frames are within their ranges: only valid subject patterns, between 2 and 1024 elements, at least
  1024 bytes, also after the clamp to the payload the server accepts, which is respected as long as it
  leaves that minimum.
\<close>
theorem resolve_framing_ranges:
  "let f = resolve_framing env cfg; mx = frame_max_bytes f max_payload in
     filter valid_subject_pattern (patterns f) = patterns f \<and> 2 \<le> maxElements f \<and> maxElements f \<le> 1024 \<and>
     min_frame_max_bytes \<le> maxBytes f \<and> min_frame_max_bytes \<le> mx \<and> mx \<le> maxBytes f \<and>
     (case max_payload of None \<Rightarrow> True
      | Some pl \<Rightarrow> if pl < min_frame_max_bytes + frame_header_reserve then True
          else mx + frame_header_reserve \<le> pl)"
proof -
  let ?f = "resolve_framing env cfg"
  obtain raw_list where pats: "patterns ?f = valid_patterns (split_list raw_list)"
  proof
    show "patterns ?f = valid_patterns (split_list
        (case env_lookup env ''BROKERFX_FRAME_SUBJECTS'' of None \<Rightarrow> FrameSubjects cfg | Some v \<Rightarrow> v))"
      by (simp add: resolve_framing_def Let_def split: option.split)
  qed
  have elems: "2 \<le> maxElements ?f \<and> maxElements ?f \<le> 1024" "min_frame_max_bytes \<le> maxBytes ?f"
    by (auto simp: resolve_framing_def Let_def min_frame_max_bytes_def split: option.split)
  have "filter valid_subject_pattern (patterns ?f) = patterns ?f"
    unfolding pats by (rule filter_True) (use valid_patterns_valid in blast)
  then show ?thesis using elems
    by (auto simp: Let_def frame_max_bytes_def min_frame_max_bytes_def frame_header_reserve_def split: option.split)
qed

text \<open>
  Resolving is stable: a relay built again from the configuration of a relay, in the same
  environment, has the same configuration.
\<close>
theorem relay_config_stable: "relay_config env (relay_config env cfg) = relay_config env cfg"
proof -
  let ?c3 = "with_stall (resolve_batched env (with_mode cfg))"
  define c where "c = relay_config env cfg"
  have c: "c = resolve_retry env (resolve_throughput env (resolve_claim env ?c3))"
    by (simp add: c_def relay_config_def Let_def)
  have "batched_done env ?c3" using resolve_batched_done [of env "with_mode cfg"] by (simp add: batched_done_def)
  then have "batched_done env c" unfolding c by (simp add: done_retry done_throughput done_claim)
  moreover have "claim_done env c" unfolding c done_retry done_throughput
    by (rule resolve_claim_done [OF with_stall_positive])
  moreover have "throughput_done env c" unfolding c done_retry by (rule resolve_throughput_done)
  moreover have "retry_done env c" unfolding c by (rule resolve_retry_done)
  moreover have "with_mode c = c" unfolding c using with_mode_mode [of cfg] by (simp add: with_mode_def)
  moreover have "0 < StallThreshold c"
    using resolve_claim_ranges [OF with_stall_positive, of env "resolve_batched env (with_mode cfg)"]
    by (simp add: c)
  then have "with_stall c = c" by (simp add: with_stall_def)
  ultimately have "relay_config env c = c"
    by (simp add: relay_config_def resolve_batched_id resolve_claim_id resolve_throughput_id resolve_retry_id)
  then show ?thesis by (simp add: c_def)
qed

text \<open>
  The backoff of the environment only fills a gap: it is ignored when the configuration has a
  base, and taken whole otherwise, with a maximum that is never below the base.
\<close>
theorem resolve_retry_fills:
  "let cfg' = resolve_retry env cfg in
     if RetryBackoffBase cfg \<noteq> 0 \<or> env_positive_duration env ''BROKERFX_OUTBOX_RETRY_BACKOFF_BASE'' = None
     then RetryBackoffBase cfg' = RetryBackoffBase cfg \<and> RetryBackoffMax cfg' = RetryBackoffMax cfg
     else env_positive_duration env ''BROKERFX_OUTBOX_RETRY_BACKOFF_BASE'' = Some (RetryBackoffBase cfg') \<and>
       0 < RetryBackoffBase cfg' \<and> RetryBackoffBase cfg' \<le> RetryBackoffMax cfg'"
  by (auto simp: resolve_retry_def Let_def dest: env_positive_durationD split: option.split)

end
