(* ===== verification/Outbox_Relay.thy ===== *)
theory Outbox_Relay
  imports Outbox_Config
begin

text \<open>
  The relay and its table (\<^verbatim>\<open>pkg/outbox/relay.go\<close>,
  \<^verbatim>\<open>relay_batched.go\<close>, \<^verbatim>\<open>claim_*.go\<close>,
  \<^verbatim>\<open>tx_drain*.go\<close>, \<^verbatim>\<open>schema.go\<close>): claiming events, publishing
  them and settling their rows, by the claim path and by the transaction that deletes and publishes at
  once.
\<close>

section \<open>The table\<close>

datatype outbox_state = StatePending | StateInFlight | StateDone | StateParked

record outbox_row =
  rid :: string
  rtopic :: string
  rpayload :: "byte list"
  rstate :: outbox_state
  rattempts :: int
  rlast_error :: "goerr option"
  rnext_attempt :: "int option"
  rheaders :: "byte list"
  rcreated :: int
  rupdated :: int

record database =
  rows :: "outbox_row list"
  retries :: "(string \<times> goerr) list"

record schema_caps =
  V2 :: bool
  Retries :: bool
  DrainSafe :: bool
  IDType :: string

definition no_caps :: schema_caps where
  "no_caps = \<lparr>V2 = False, Retries = False, DrainSafe = False, IDType = ''''\<rparr>"

record caps_cache =
  caps :: schema_caps
  resolved :: bool
  last_try :: "int option"          \<comment> \<open>\<open>haveTry\<close> and \<open>lastTry\<close>\<close>

text \<open>The calls of the observer.\<close>

datatype observed =
    OnPublished nat
  | OnFailed nat
  | OnParked string string goerr
  | OnSuperseded nat

record outbox =
  db :: database
  cache :: caps_cache
  last_reclaim :: "int option"
  drain_failures :: nat
  drain_off :: bool
  observed :: "observed list"
  steps :: nat

text \<open>
  What is not the relay's: the clock, the database's failures and other transactions' locks, whether
  it is paused or told to stop, jitter, the schema query, the JSON and time library. Every reading is
  numbered by \<open>steps\<close>.
\<close>

record relay_env =
  now_at :: "nat \<Rightarrow> int"
  db_err :: "nat \<Rightarrow> goerr option"
  locked_at :: "nat \<Rightarrow> string \<Rightarrow> bool"
  paused_at :: "nat \<Rightarrow> bool"
  done_at :: "nat \<Rightarrow> bool"
  expired_at :: "nat \<Rightarrow> bool"
  arrived_at :: "nat \<Rightarrow> nat \<Rightarrow> bool"   \<comment> \<open>whether a result came in before the deadline\<close>
  order_at :: "nat \<Rightarrow> nat list"            \<comment> \<open>the order in which goroutines got to run\<close>
  jitter_at :: "nat \<Rightarrow> int \<Rightarrow> int"
  detect_at :: "nat \<Rightarrow> goerr + schema_caps"
  touched_at :: "nat \<Rightarrow> int \<Rightarrow> int"     \<comment> \<open>what gorm writes to \<open>updated_at\<close>\<close>
  unmarshal :: "byte list \<Rightarrow> headers option"

record 'z relay =
  config :: config
  rframes :: "framing option"
  latest_only :: "string list"
  signer :: "(string \<Rightarrow> headers \<Rightarrow> byte list \<Rightarrow> goerr + headers) option"
  respan :: "headers \<Rightarrow> headers \<Rightarrow> headers"
  packer :: msgpack
  sha256 :: "string \<Rightarrow> string"
  max_payload :: "int option"
  produce :: "producer_event \<Rightarrow> 'z outbox_scheme \<Rightarrow> goerr option \<times> 'z outbox_scheme"
  produce_batch :: "(producer_event list \<Rightarrow> 'z outbox_scheme \<Rightarrow> goerr option list \<times> 'z outbox_scheme) option"
  observes :: bool

definition tick :: "'z outbox_scheme \<Rightarrow> nat \<times> 'z outbox_scheme" where
  "tick w = (steps w, w\<lparr>steps := Suc (steps w)\<rparr>)"

text \<open>One statement, which fails or changes the database.\<close>

definition exec :: "relay_env \<Rightarrow> (nat \<Rightarrow> database \<Rightarrow> database) \<Rightarrow> 'z outbox_scheme \<Rightarrow> goerr option \<times> 'z outbox_scheme" where
  "exec env upd w =
     (let (n, w1) = tick w in
      case db_err env n of Some e \<Rightarrow> (Some e, w1) | None \<Rightarrow> (None, w1\<lparr>db := upd n (db w1)\<rparr>))"

text \<open>A transaction: begin, body, commit; a failure of any leaves the database as it was.\<close>

definition transaction ::
  "relay_env \<Rightarrow> ('z outbox_scheme \<Rightarrow> (goerr + 'a) \<times> 'z outbox_scheme) \<Rightarrow> 'z outbox_scheme
     \<Rightarrow> (goerr + 'a) \<times> 'z outbox_scheme" where
  "transaction env body w =
     (let (n, w1) = tick w in
      case db_err env n of
        Some e \<Rightarrow> (Inl e, w1)
      | None \<Rightarrow>
          (case body w1 of
             (Inl e, w2) \<Rightarrow> (Inl e, w2\<lparr>db := db w\<rparr>)
           | (Inr x, w2) \<Rightarrow>
               let (m, w3) = tick w2 in
               (case db_err env m of
                  Some e \<Rightarrow> (Inl e, w3\<lparr>db := db w\<rparr>)
                | None \<Rightarrow> (Inr x, w3))))"

section \<open>What the schema has\<close>

definition caps_get :: "relay_env \<Rightarrow> duration \<Rightarrow> 'z outbox_scheme \<Rightarrow> (goerr + schema_caps) \<times> 'z outbox_scheme" where
  "caps_get env recheck w =
     (let c = cache w in
      if resolved c then (Inr (caps c), w)
      else
        let (n, w1) = tick w in
        if (case last_try c of None \<Rightarrow> False | Some t \<Rightarrow> now_at env n - t < recheck) then (Inr (caps c), w1)
        else (case detect_at env n of
                Inl e \<Rightarrow> (Inl e, w1)
              | Inr found \<Rightarrow>
                  let (m, w2) = tick w1;
                      c' = \<lparr>caps = found, resolved = V2 found \<and> Retries found, last_try = Some (now_at env m)\<rparr>
                  in (Inr found, w2\<lparr>cache := c'\<rparr>)))"

definition caps_recheck :: duration where "caps_recheck = 5 * second"

definition ensure_caps :: "relay_env \<Rightarrow> 'z outbox_scheme \<Rightarrow> schema_caps \<times> 'z outbox_scheme" where
  "ensure_caps env w =
     (case caps_get env caps_recheck w of (Inl _, w') \<Rightarrow> (no_caps, w') | (Inr c, w') \<Rightarrow> (c, w'))"

section \<open>Claiming\<close>

definition decode_row :: "relay_env \<Rightarrow> outbox_row \<Rightarrow> relay_event" where
  "decode_row env r =
     \<lparr>event_id = rid r, topic = rtopic r, payload = rpayload r,
      hdrs = (if rheaders r \<noteq> [] then (case unmarshal env (rheaders r) of None \<Rightarrow> [] | Some h \<Rightarrow> h) else []),
      attempts = rattempts r, created_at = rcreated r\<rparr>"

text \<open>\<^verbatim>\<open>ORDER BY ... LIMIT ... FOR UPDATE SKIP LOCKED\<close>.\<close>

definition pick :: "(outbox_row \<Rightarrow> int) \<Rightarrow> int \<Rightarrow> (outbox_row \<Rightarrow> bool) \<Rightarrow> (string \<Rightarrow> bool) \<Rightarrow> outbox_row list \<Rightarrow> outbox_row list" where
  "pick key n P locked rs = take (nat n) (sort_key key (filter (\<lambda>r. P r \<and> \<not> locked (rid r)) rs))"

definition due :: "int \<Rightarrow> outbox_row \<Rightarrow> bool" where
  "due now r \<longleftrightarrow> rstate r = StatePending \<and> (case rnext_attempt r of None \<Rightarrow> True | Some t \<Rightarrow> t \<le> now)"

definition stalled :: "int \<Rightarrow> outbox_row \<Rightarrow> bool" where
  "stalled before r \<longleftrightarrow> rstate r = StateInFlight \<and> rupdated r < before"

definition on_ids :: "string set \<Rightarrow> (outbox_row \<Rightarrow> outbox_row) \<Rightarrow> outbox_row list \<Rightarrow> outbox_row list" where
  "on_ids ids f = map (\<lambda>r. if rid r \<in> ids then f r else r)"

definition with_ids :: "string set \<Rightarrow> outbox_row list \<Rightarrow> outbox_row list" where
  "with_ids ids = filter (\<lambda>r. rid r \<in> ids)"

definition without_ids :: "string set \<Rightarrow> outbox_row list \<Rightarrow> outbox_row list" where
  "without_ids ids = filter (\<lambda>r. rid r \<notin> ids)"

definition reclaim_due :: "int option \<Rightarrow> int \<Rightarrow> duration \<Rightarrow> bool" where
  "reclaim_due lst now interval =
     (case lst of None \<Rightarrow> True | Some l \<Rightarrow> if l > now then True else now - l \<ge> interval)"

definition reclaim_stalled :: "relay_env \<Rightarrow> config \<Rightarrow> int \<Rightarrow> 'z outbox_scheme \<Rightarrow> 'z outbox_scheme" where
  "reclaim_stalled env cfg now w =
     snd (exec env (\<lambda>n d.
       let ids = rid ` set (pick rupdated (BatchSize cfg * 10) (stalled (now - StallThreshold cfg))
                              (locked_at env n) (rows d))
       in d\<lparr>rows := on_ids ids (\<lambda>r. r\<lparr>rstate := StatePending, rupdated := now\<rparr>) (rows d)\<rparr>) w)"

definition reclaim_when_due :: "relay_env \<Rightarrow> config \<Rightarrow> int \<Rightarrow> 'z outbox_scheme \<Rightarrow> 'z outbox_scheme" where
  "reclaim_when_due env cfg now w =
     (if reclaim_due (last_reclaim w) now (StallReclaimInterval cfg)
      then reclaim_stalled env cfg now (w\<lparr>last_reclaim := Some now\<rparr>) else w)"

text \<open>The statement \<^verbatim>\<open>UPDATE ... RETURNING\<close>, its rows sorted as the relay sorts them.\<close>

definition claim_rows ::
  "relay_env \<Rightarrow> config \<Rightarrow> int \<Rightarrow> (outbox_row \<Rightarrow> bool) \<Rightarrow> 'z outbox_scheme
     \<Rightarrow> (goerr + outbox_row list) \<times> 'z outbox_scheme" where
  "claim_rows env cfg now P w =
     (let (n, w1) = tick w in
      case db_err env n of
        Some e \<Rightarrow> (Inl e, w1)
      | None \<Rightarrow>
          let d = db w1;
              ids = rid ` set (pick rcreated (BatchSize cfg) P (locked_at env n) (rows d));
              rs = on_ids ids (\<lambda>r. r\<lparr>rstate := StateInFlight, rupdated := now\<rparr>) (rows d)
          in (Inr (sort_key rcreated (with_ids ids rs)), w1\<lparr>db := d\<lparr>rows := rs\<rparr>\<rparr>))"

definition claim_batch_v2 ::
  "relay_env \<Rightarrow> config \<Rightarrow> 'z outbox_scheme \<Rightarrow> (goerr + relay_event list) \<times> 'z outbox_scheme" where
  "claim_batch_v2 env cfg w =
     (let (n, w1) = tick w;
          now = now_at env n;
          w2 = reclaim_when_due env cfg now w1
      in case transaction env (\<lambda>w.
             case claim_rows env cfg now (due now) w of
               (Inl e, w') \<Rightarrow> (Inl e, w')
             | (Inr rs, w') \<Rightarrow>
                 let (m, w'') = tick w' in
                 if expired_at env m then (Inl (Sent DeadlineExceeded), w'') else (Inr rs, w'')) w2 of
           (Inl e, w3) \<Rightarrow> (Inl e, w3)
         | (Inr rs, w3) \<Rightarrow> (Inr (map (decode_row env) rs), w3))"

definition claim_batch ::
  "relay_env \<Rightarrow> config \<Rightarrow> 'z outbox_scheme \<Rightarrow> (goerr + relay_event list) \<times> 'z outbox_scheme" where
  "claim_batch env cfg w =
     (if ClaimV2 cfg then claim_batch_v2 env cfg w
      else
        let (n, w1) = tick w; now = now_at env n in
        case claim_rows env cfg now (\<lambda>r. due now r \<or> stalled (now - StallThreshold cfg) r) w1 of
          (Inl e, w2) \<Rightarrow> (Inl e, w2)
        | (Inr rs, w2) \<Rightarrow> (Inr (map (decode_row env) rs), w2))"

section \<open>Publishing\<close>

definition trace_header_keys :: "string list" where
  "trace_header_keys = [''traceparent'', ''tracestate'', ''baggage'']"

definition has_header_fold :: "headers \<Rightarrow> string \<Rightarrow> bool" where
  "has_header_fold hs key \<longleftrightarrow> (\<exists>(k, v) \<in> set hs. equal_fold k key)"

definition is_trace_header :: "string \<Rightarrow> bool" where
  "is_trace_header key \<longleftrightarrow> (\<exists>t \<in> set trace_header_keys. equal_fold key t)"

definition lower_trace_headers :: "headers \<Rightarrow> headers" where
  "lower_trace_headers hs = map (\<lambda>(k, v). (map to_lower k, v)) (filter (\<lambda>(k, v). is_trace_header k) hs)"

text \<open>\<open>respan\<close> injects the span opened from the first headers into the second.\<close>

definition start_relay_span :: "'z relay \<Rightarrow> relay_event \<Rightarrow> headers" where
  "start_relay_span rl ev =
     (if \<not> has_header_fold (hdrs ev) ''traceparent'' then hdrs ev
      else respan rl (lower_trace_headers (hdrs ev)) (filter (\<lambda>(k, v). \<not> is_trace_header k) (hdrs ev)))"

definition apply_signature :: "'z relay \<Rightarrow> string \<Rightarrow> headers \<Rightarrow> byte list \<Rightarrow> goerr + headers" where
  "apply_signature rl subject hs pl =
     (case signer rl of
        None \<Rightarrow> Inr hs
      | Some sign \<Rightarrow> if has_prefix subject kv_subject_prefix then Inr hs else sign subject hs pl)"

definition build_event :: "'z relay \<Rightarrow> relay_event \<Rightarrow> goerr + producer_event" where
  "build_event rl ev =
     (let hs = filter (\<lambda>(k, v). canonical_header k \<noteq> MsgIDHeader) (hdrs ev) @ [(MsgIDHeader, event_id ev)]
      in case apply_signature rl (topic ev) hs (payload ev) of
           Inl e \<Rightarrow> Inl e
         | Inr hs' \<Rightarrow> Inr \<lparr>psubject = topic ev, pheaders = hs', ppayload = payload ev\<rparr>)"

definition traced_producer_event :: "'z relay \<Rightarrow> relay_event \<Rightarrow> goerr + producer_event" where
  "traced_producer_event rl ev = build_event rl (ev\<lparr>hdrs := start_relay_span rl ev\<rparr>)"

type_synonym outcome = "string \<times> goerr option"

text \<open>The first loop of \<^verbatim>\<open>publishBatched\<close> and of \<^verbatim>\<open>drainPublish\<close>.\<close>

fun prepare ::
  "'z relay \<Rightarrow> (string \<rightharpoonup> nat) \<Rightarrow> nat \<Rightarrow> relay_event list \<Rightarrow> outcome list \<times> nat list \<times> producer_event list
     \<Rightarrow> outcome list \<times> nat list \<times> producer_event list" where
  "prepare rl latest i [] acc = acc"
| "prepare rl latest i (ev # evs) (outcomes, waiting, pevs) =
     (if superseded latest i ev
      then prepare rl latest (Suc i) evs (outcomes @ [(event_id ev, None)], waiting, pevs)
      else (case traced_producer_event rl ev of
              Inl e \<Rightarrow> prepare rl latest (Suc i) evs (outcomes @ [(event_id ev, Some e)], waiting, pevs)
            | Inr pe \<Rightarrow>
                prepare rl latest (Suc i) evs (outcomes @ [(event_id ev, None)], waiting @ [i], pevs @ [pe])))"

text \<open>The last loop: the error of every position.\<close>

fun fill_errs :: "nat \<Rightarrow> nat list \<Rightarrow> goerr option list \<Rightarrow> outcome list \<Rightarrow> outcome list" where
  "fill_errs position [] errs outcomes = outcomes"
| "fill_errs position (i # ixs) errs outcomes =
     fill_errs (Suc position) ixs errs
       (if position < length errs then outcomes[i := (fst (outcomes ! i), errs ! position)] else outcomes)"

fun produce_each ::
  "'z relay \<Rightarrow> producer_event list \<Rightarrow> 'z outbox_scheme \<Rightarrow> goerr option list \<times> 'z outbox_scheme" where
  "produce_each rl [] w = ([], w)"
| "produce_each rl (e # es) w =
     (let (err, w1) = produce rl e w; (errs, w2) = produce_each rl es w1 in (err # errs, w2))"

definition produce_all ::
  "'z relay \<Rightarrow> producer_event list \<Rightarrow> 'z outbox_scheme \<Rightarrow> goerr option list \<times> 'z outbox_scheme" where
  "produce_all rl events w =
     (case produce_batch rl of Some f \<Rightarrow> f events w | None \<Rightarrow> produce_each rl events w)"

definition observe :: "'z relay \<Rightarrow> observed list \<Rightarrow> 'z outbox_scheme \<Rightarrow> 'z outbox_scheme" where
  "observe rl os w = (if observes rl then w\<lparr>observed := observed w @ os\<rparr> else w)"

definition publish_events ::
  "'z relay \<Rightarrow> (producer_event list \<Rightarrow> 'z outbox_scheme \<Rightarrow> goerr option list \<times> 'z outbox_scheme)
     \<Rightarrow> relay_event list \<Rightarrow> 'z outbox_scheme \<Rightarrow> outcome list \<times> 'z outbox_scheme" where
  "publish_events rl send_all events w =
     (let (latest, dropped) = relay_latest_indexes (latest_only rl) events;
          w1 = (case dropped of None \<Rightarrow> w | Some n \<Rightarrow> observe rl [OnSuperseded n] w);
          (outcomes, waiting, pevs) = prepare rl latest 0 events ([], [], [])
      in if pevs = [] then (outcomes, w1)
         else
           let (errs, w2) = publish_framed (frame_events (packer rl) (sha256 rl) (rframes rl) (latest_only rl)
                 (max_payload rl)) send_all pevs w1
           in (fill_errs 0 waiting errs outcomes, w2))"

definition publish_batched ::
  "'z relay \<Rightarrow> relay_event list \<Rightarrow> 'z outbox_scheme \<Rightarrow> outcome list \<times> 'z outbox_scheme" where
  "publish_batched rl = publish_events rl (produce_all rl)"

section \<open>Settling, by the claim path\<close>

definition retry_at :: "relay_env \<Rightarrow> config \<Rightarrow> int \<Rightarrow> nat \<Rightarrow> int" where
  "retry_at env cfg tries n = now_at env n + retry_delay cfg (jitter_at env n) tries"

text \<open>\<^verbatim>\<open>revertFailedV2\<close> for one outcome.\<close>

definition revert_row :: "relay_env \<Rightarrow> config \<Rightarrow> int \<Rightarrow> goerr \<Rightarrow> nat \<Rightarrow> outbox_row \<Rightarrow> outbox_row" where
  "revert_row env cfg known err n r =
     (let transport = is_transport_error err;
          tries = (if transport then known else known + 1);
          nxt = (if transport then None else Some (retry_at env cfg tries n));
          parked = (MaxAttempts cfg > 0 \<and> tries \<ge> MaxAttempts cfg)
      in r\<lparr>rstate := (if parked then StateParked else StatePending), rattempts := tries,
           rlast_error := Some err, rnext_attempt := (if parked then None else nxt)\<rparr>)"

definition known_attempts :: "relay_event list \<Rightarrow> string \<Rightarrow> int" where
  "known_attempts events eid =
     (case map_of (rev (map (\<lambda>ev. (event_id ev, attempts ev)) events)) eid of None \<Rightarrow> 0 | Some a \<Rightarrow> a)"

definition known_topic :: "relay_event list \<Rightarrow> string \<Rightarrow> string" where
  "known_topic events eid =
     (case map_of (rev (map (\<lambda>ev. (event_id ev, topic ev)) events)) eid of None \<Rightarrow> '''' | Some t \<Rightarrow> t)"

fun revert_failed_v2 ::
  "'z relay \<Rightarrow> relay_env \<Rightarrow> relay_event list \<Rightarrow> (string \<times> goerr) list \<Rightarrow> 'z outbox_scheme \<Rightarrow> 'z outbox_scheme" where
  "revert_failed_v2 rl env events [] w = w"
| "revert_failed_v2 rl env events ((eid, err) # rest) w =
     (let cfg = config rl; known = known_attempts events eid;
          (n, w0) = tick w;
          new = revert_row env cfg known err n;
          parked = (MaxAttempts cfg > 0 \<and> (if is_transport_error err then known else known + 1) \<ge> MaxAttempts cfg);
          (e, w1) = exec env (\<lambda>m d. d\<lparr>rows := on_ids {eid} (\<lambda>r. (new r)\<lparr>rupdated := touched_at env m (rupdated r)\<rparr>) (rows d)\<rparr>) w0
      in revert_failed_v2 rl env events rest
           (if e = None \<and> parked then observe rl [OnParked eid (known_topic events eid) err] w1 else w1))"

definition settle_outcomes ::
  "'z relay \<Rightarrow> relay_env \<Rightarrow> schema_caps \<Rightarrow> relay_event list \<Rightarrow> string list \<Rightarrow> (string \<times> goerr) list
     \<Rightarrow> 'z outbox_scheme \<Rightarrow> 'z outbox_scheme" where
  "settle_outcomes rl env cp events ok failed w =
     (let w1 = (if failed = [] then w
           else
             let w2 = (if V2 cp then revert_failed_v2 rl env events failed w
                   else snd (exec env (\<lambda>n d. d\<lparr>rows := on_ids (fst ` set failed)
                          (\<lambda>r. r\<lparr>rstate := StatePending, rupdated := touched_at env n (rupdated r)\<rparr>) (rows d)\<rparr>) w));
                 (cp', w3) = ensure_caps env w2
             in if Retries cp' then snd (exec env (\<lambda>n d. d\<lparr>retries := retries d @ failed\<rparr>) w3) else w3);
          w4 = (if ok = [] then w1
           else if Mode (config rl) = ModeUpdateAfterSend
           then snd (exec env (\<lambda>n d. d\<lparr>rows := on_ids (set ok)
                  (\<lambda>r. r\<lparr>rstate := StateDone, rupdated := touched_at env n (rupdated r)\<rparr>) (rows d)\<rparr>) w1)
           else snd (exec env (\<lambda>n d. d\<lparr>rows := without_ids (set ok) (rows d)\<rparr>) w1))
      in observe rl ((if ok = [] then [] else [OnPublished (length ok)]) @
           (if failed = [] then [] else [OnFailed (length failed)])) w4)"

definition successes :: "outcome list \<Rightarrow> string list" where
  "successes os = map fst (filter (\<lambda>(i, e). e = None) os)"

definition failures :: "outcome list \<Rightarrow> (string \<times> goerr) list" where
  "failures os = map (\<lambda>(i, e). (i, the e)) (filter (\<lambda>(i, e). e \<noteq> None) os)"

definition process_batched ::
  "'z relay \<Rightarrow> relay_env \<Rightarrow> schema_caps \<Rightarrow> 'z outbox_scheme \<Rightarrow> bool \<times> 'z outbox_scheme" where
  "process_batched rl env cp w =
     (let (p, w0) = tick w in
      if paused_at env p then (False, w0)
      else (case claim_batch env (config rl) w0 of
              (Inl _, w1) \<Rightarrow> (False, w1)
            | (Inr events, w1) \<Rightarrow>
                if events = [] then (False, w1)
                else
                  let (outcomes, w2) = publish_batched rl events w1;
                      w3 = settle_outcomes rl env cp events (successes outcomes) (failures outcomes) w2
                  in (int (length events) \<ge> BatchSize (config rl) \<and> failures outcomes = [], w3)))"

section \<open>What the relay never does to an event\<close>

text \<open>Two rows hold the same event.\<close>

definition same_event :: "outbox_row \<Rightarrow> outbox_row \<Rightarrow> bool" where
  "same_event r r' \<longleftrightarrow> rid r' = rid r \<and> rtopic r' = rtopic r \<and> rpayload r' = rpayload r \<and>
     rheaders r' = rheaders r \<and> rcreated r' = rcreated r"

lemma same_event_refl [simp]: "same_event r r"
  by (simp add: same_event_def)

lemma same_event_trans: "same_event r s \<Longrightarrow> same_event s t \<Longrightarrow> same_event r t"
  by (simp add: same_event_def)

text \<open>Every event is still in the table, but for those whose ids are in \<open>gone\<close>.\<close>

definition keeps :: "string set \<Rightarrow> database \<Rightarrow> database \<Rightarrow> bool" where
  "keeps gone d d' \<longleftrightarrow> (\<forall>r \<in> set (rows d). rid r \<in> gone \<or> (\<exists>r' \<in> set (rows d'). same_event r r'))"

named_theorems keeps_intros "operations that keep every event"

lemma keeps_refl [simp, keeps_intros]: "keeps gone d d"
  by (auto simp: keeps_def intro: same_event_refl)

lemma keeps_trans: "keeps gone d d' \<Longrightarrow> keeps gone d' d'' \<Longrightarrow> keeps gone d d''"
  unfolding keeps_def by (metis same_event_def same_event_trans)

lemma keeps_on_ids [keeps_intros]:
  "(\<And>r. same_event r (f r)) \<Longrightarrow> keeps gone d (d\<lparr>rows := on_ids ids f (rows d)\<rparr>)"
proof -
  assume same: "\<And>r. same_event r (f r)"
  have "\<exists>r' \<in> set (on_ids ids f (rows d)). same_event r r'" if "r \<in> set (rows d)" for r
    by (rule bexI [of _ "if rid r \<in> ids then f r else r"]) (use same that in \<open>simp_all add: on_ids_def\<close>)
  then show ?thesis by (simp add: keeps_def)
qed

lemma keeps_without_ids [keeps_intros]:
  "ids \<subseteq> gone \<Longrightarrow> keeps gone d (d\<lparr>rows := without_ids ids (rows d)\<rparr>)"
  unfolding keeps_def without_ids_def by (auto intro: same_event_refl)

lemma keeps_retries [simp]: "keeps gone d (d'\<lparr>retries := x\<rparr>) = keeps gone d d'"
  by (simp add: keeps_def)

lemma keeps_exec [keeps_intros]:
  "(\<And>n. keeps gone (db w) (upd n (db w))) \<Longrightarrow> keeps gone (db w) (db (snd (exec env upd w)))"
  by (simp add: exec_def tick_def split: option.split)

lemma tick_db [simp]: "db (snd (tick w)) = db w"
  by (simp add: tick_def)

lemma observe_db [simp]: "db (observe rl os w) = db w"
  by (simp add: observe_def)

lemma caps_get_db: "db (snd (caps_get env t w)) = db w"
  by (auto simp: caps_get_def tick_def Let_def split: option.split sum.split)

lemma ensure_caps_db: "ensure_caps env w = (c, w') \<Longrightarrow> db w' = db w"
  using caps_get_db [of env caps_recheck w] by (auto simp: ensure_caps_def split: prod.splits sum.splits)

lemma keeps_transaction:
  assumes "\<And>w x w'. body w = (Inr x, w') \<Longrightarrow> keeps gone (db w) (db w')"
  shows "keeps gone (db w) (db (snd (transaction env body w)))"
proof -
  obtain r w2 where b: "body (w\<lparr>steps := Suc (steps w)\<rparr>) = (r, w2)" by fastforce
  show ?thesis
  proof (cases r)
    case (Inl e)
    then show ?thesis using b by (simp add: transaction_def tick_def split: option.split)
  next
    case (Inr x)
    then show ?thesis using b assms [OF b [unfolded Inr]]
      by (simp add: transaction_def tick_def split: option.split)
  qed
qed

lemma reclaim_when_due_keeps: "keeps gone (db w) (db (reclaim_when_due env cfg now w))"
proof -
  have "keeps gone (db (w\<lparr>last_reclaim := Some now\<rparr>)) (db (reclaim_stalled env cfg now (w\<lparr>last_reclaim := Some now\<rparr>)))"
    unfolding reclaim_stalled_def Let_def
    by (rule keeps_exec, rule keeps_on_ids) (simp add: same_event_def)
  then show ?thesis by (simp add: reclaim_when_due_def)
qed

lemma claim_rows_keeps: "keeps gone (db w) (db (snd (claim_rows env cfg now P w)))"
proof -
  have "same_event r (r\<lparr>rstate := StateInFlight, rupdated := now\<rparr>)" for r by (simp add: same_event_def)
  from keeps_on_ids [OF this] show ?thesis
    by (simp add: claim_rows_def tick_def Let_def split: option.split)
qed

lemma claim_batch_keeps: "keeps gone (db w) (db (snd (claim_batch env cfg w)))"
proof (cases "ClaimV2 cfg")
  case False
  let ?w = "w\<lparr>steps := Suc (steps w)\<rparr>"
  let ?P = "\<lambda>r. due (now_at env (steps w)) r \<or> stalled (now_at env (steps w) - StallThreshold cfg) r"
  have "db (snd (claim_batch env cfg w)) = db (snd (claim_rows env cfg (now_at env (steps w)) ?P ?w))"
    using False by (simp add: claim_batch_def tick_def Let_def split: prod.split sum.split)
  then show ?thesis using claim_rows_keeps [of gone ?w env cfg "now_at env (steps w)" ?P] by simp
next
  case True
  let ?now = "now_at env (steps w)"
  let ?w = "reclaim_when_due env cfg ?now (w\<lparr>steps := Suc (steps w)\<rparr>)"
  let ?body = "\<lambda>w :: 'a outbox_scheme. case claim_rows env cfg ?now (due ?now) w of
             (Inl e, w') \<Rightarrow> (Inl e, w')
           | (Inr rs, w') \<Rightarrow>
               let (m, w'') = tick w' in
               if expired_at env m then (Inl (Sent DeadlineExceeded), w'') else (Inr rs, w'')"
  have "keeps gone (db w') (db w'')" if "?body w' = (Inr x, w'')" for w' x w''
    using that claim_rows_keeps [of gone w' env cfg ?now "due ?now"]
    by (auto simp: tick_def split: prod.splits sum.splits if_splits)
  then have "keeps gone (db ?w) (db (snd (transaction env ?body ?w)))" by (rule keeps_transaction)
  moreover have "db (snd (claim_batch env cfg w)) = db (snd (transaction env ?body ?w))"
    using True by (simp add: claim_batch_def claim_batch_v2_def tick_def Let_def split: prod.split sum.split)
  moreover have "keeps gone (db w) (db ?w)"
    using reclaim_when_due_keeps [of gone "w\<lparr>steps := Suc (steps w)\<rparr>" env cfg ?now] by simp
  ultimately show ?thesis using keeps_trans by metis
qed

text \<open>A producer leaves the table to the relay.\<close>

definition producer_keeps :: "'z relay \<Rightarrow> bool" where
  "producer_keeps rl \<longleftrightarrow> (\<forall>e w. db (snd (produce rl e w)) = db w) \<and>
     (case produce_batch rl of None \<Rightarrow> True | Some f \<Rightarrow> \<forall>es w. db (snd (f es w)) = db w)"

lemma produce_all_db: "producer_keeps rl \<Longrightarrow> db (snd (produce_all rl es w)) = db w"
proof -
  assume p: "producer_keeps rl"
  have "db (snd (produce_each rl es w)) = db w" for es w
  proof (induction es arbitrary: w)
    case (Cons e es)
    obtain err w1 errs w2 where e: "produce rl e w = (err, w1)" "produce_each rl es w1 = (errs, w2)" by fastforce
    have "db w1 = db w" using p e(1) unfolding producer_keeps_def by (metis snd_conv)
    then show ?case using Cons.IH [of w1] e by simp
  qed simp
  then show ?thesis using p by (auto simp: produce_all_def producer_keeps_def split: option.split)
qed

lemma publish_framed_state:
  "(\<And>es s. F (snd (publish es s)) = F s) \<Longrightarrow> F (snd (publish_framed pack publish es s)) = F s"
proof -
  assume keeps: "\<And>es s. F (snd (publish es s)) = F s"
  show ?thesis
  proof (cases "pack es")
    case (Some wm)
    obtain wire ms errs s' where "wm = (wire, ms)" "publish wire s = (errs, s')" by fastforce
    then show ?thesis using Some keeps [of wire s] by (simp add: publish_framed_def)
  qed (simp add: publish_framed_def keeps)
qed

lemma publish_events_db:
  assumes "\<And>es w. db (snd (send_all es w)) = db w"
  shows "db (snd (publish_events rl send_all events w)) = db w"
proof -
  obtain latest dropped where l: "relay_latest_indexes (latest_only rl) events = (latest, dropped)" by fastforce
  obtain os waiting pevs where p: "prepare rl latest 0 events ([], [], []) = (os, waiting, pevs)" by (metis prod_cases3)
  let ?w = "case dropped of None \<Rightarrow> w | Some n \<Rightarrow> observe rl [OnSuperseded n] w"
  let ?pack = "frame_events (packer rl) (sha256 rl) (rframes rl) (latest_only rl) (max_payload rl)"
  obtain errs w2 where f: "publish_framed ?pack send_all pevs ?w = (errs, w2)" by fastforce
  have "db ?w = db w" by (simp split: option.split)
  moreover have "db (snd (publish_framed ?pack send_all pevs ?w)) = db ?w"
    by (rule publish_framed_state) (rule assms)
  ultimately show ?thesis using l p f by (simp add: publish_events_def Let_def)
qed

lemma revert_same_event [simp]: "same_event r ((revert_row env cfg known err n r)\<lparr>rupdated := t\<rparr>)"
  by (simp add: same_event_def revert_row_def Let_def)

lemma revert_failed_v2_keeps: "keeps gone (db w) (db (revert_failed_v2 rl env events failed w))"
proof (induction rl env events failed w rule: revert_failed_v2.induct)
  case (2 rl env events eid err rest w)
  let ?w0 = "w\<lparr>steps := Suc (steps w)\<rparr>"
  let ?new = "revert_row env (config rl) (known_attempts events eid) err (steps w)"
  let ?upd = "\<lambda>m d. d\<lparr>rows := on_ids {eid} (\<lambda>r. (?new r)\<lparr>rupdated := touched_at env m (rupdated r)\<rparr>) (rows d)\<rparr>"
  obtain e w1 where e: "exec env ?upd ?w0 = (e, w1)" by fastforce
  have "keeps gone (db ?w0) (db (snd (exec env ?upd ?w0)))"
    by (rule keeps_exec, rule keeps_on_ids) simp
  then have k: "keeps gone (db w) (db w1)" using e by simp
  let ?parked = "MaxAttempts (config rl) > 0 \<and> (if is_transport_error err then known_attempts events eid
      else known_attempts events eid + 1) \<ge> MaxAttempts (config rl)"
  let ?w2 = "if e = None \<and> ?parked then observe rl [OnParked eid (known_topic events eid) err] w1 else w1"
  have "revert_failed_v2 rl env events ((eid, err) # rest) w = revert_failed_v2 rl env events rest ?w2"
    using e by (simp add: tick_def Let_def)
  moreover have "keeps gone (db ?w2) (db (revert_failed_v2 rl env events rest ?w2))"
    using "2.IH" e by (simp add: tick_def)
  moreover have "db ?w2 = db w1" by simp
  ultimately show ?case using k keeps_trans by metis
qed simp

lemma settle_outcomes_keeps:
  assumes "set ok \<subseteq> gone"
  shows "keeps gone (db w) (db (settle_outcomes rl env cp events ok failed w))"
proof -
  define w2 where "w2 = (if V2 cp then revert_failed_v2 rl env events failed w
       else snd (exec env (\<lambda>n d. d\<lparr>rows := on_ids (fst ` set failed)
          (\<lambda>r. r\<lparr>rstate := StatePending, rupdated := touched_at env n (rupdated r)\<rparr>) (rows d)\<rparr>) w))"
  obtain cp' w3 where c: "ensure_caps env w2 = (cp', w3)" by fastforce
  define w1 where "w1 = (if failed = [] then w
       else if Retries cp' then snd (exec env (\<lambda>n d. d\<lparr>retries := retries d @ failed\<rparr>) w3) else w3)"
  define w4 where "w4 = (if ok = [] then w1
       else if Mode (config rl) = ModeUpdateAfterSend
       then snd (exec env (\<lambda>n d. d\<lparr>rows := on_ids (set ok)
              (\<lambda>r. r\<lparr>rstate := StateDone, rupdated := touched_at env n (rupdated r)\<rparr>) (rows d)\<rparr>) w1)
       else snd (exec env (\<lambda>n d. d\<lparr>rows := without_ids (set ok) (rows d)\<rparr>) w1))"
  have "keeps gone (db w) (db w2)"
    unfolding w2_def
    by (simp add: revert_failed_v2_keeps) (intro impI keeps_exec keeps_on_ids, simp add: same_event_def)
  moreover have "db w3 = db w2" by (rule ensure_caps_db [OF c])
  moreover have "keeps gone (db w3) (db (snd (exec env (\<lambda>n d. d\<lparr>retries := retries d @ failed\<rparr>) w3)))"
    by (rule keeps_exec) simp
  ultimately have "keeps gone (db w) (db w1)" unfolding w1_def by (auto intro: keeps_trans)
  moreover have "keeps gone (db w1) (db w4)"
    unfolding w4_def using assms
    by (simp) (intro conjI impI keeps_exec keeps_on_ids keeps_without_ids, simp_all add: same_event_def)
  moreover have "db (settle_outcomes rl env cp events ok failed w) = db w4"
    unfolding settle_outcomes_def Let_def w2_def [symmetric] c prod.case w1_def [symmetric] w4_def [symmetric] by simp
  ultimately show ?thesis using keeps_trans by metis
qed

section \<open>What publishing reports\<close>

text \<open>The events sent to the producer, by position.\<close>

definition to_send :: "'z relay \<Rightarrow> (string \<rightharpoonup> nat) \<Rightarrow> nat \<Rightarrow> relay_event \<Rightarrow> (nat \<times> producer_event) option" where
  "to_send rl latest i ev =
     (if superseded latest i ev then None
      else (case traced_producer_event rl ev of Inl _ \<Rightarrow> None | Inr pe \<Rightarrow> Some (i, pe)))"

definition sent :: "'z relay \<Rightarrow> (string \<rightharpoonup> nat) \<Rightarrow> relay_event list \<Rightarrow> (nat \<times> producer_event) list" where
  "sent rl latest events = List.map_filter (\<lambda>i. to_send rl latest i (events ! i)) [0..<length events]"

definition built :: "'z relay \<Rightarrow> (string \<rightharpoonup> nat) \<Rightarrow> nat \<Rightarrow> relay_event \<Rightarrow> outcome" where
  "built rl latest i ev = (event_id ev,
     if superseded latest i ev then None
     else (case traced_producer_event rl ev of Inl e \<Rightarrow> Some e | Inr _ \<Rightarrow> None))"

lemma prepare_spec:
  "prepare rl latest i evs (os, waiting, pevs) =
     (let s = List.map_filter (\<lambda>j. to_send rl latest (i + j) (evs ! j)) [0..<length evs]
      in (os @ map (\<lambda>j. built rl latest (i + j) (evs ! j)) [0..<length evs], waiting @ map fst s, pevs @ map snd s))"
proof (induction evs arbitrary: i os waiting pevs)
  case (Cons ev evs)
  have upt: "[0..<length (ev # evs)] = 0 # map Suc [0..<length evs]"
    by (simp add: upt_conv_Cons map_Suc_upt del: upt_Suc)
  have shift: "List.map_filter f (map Suc xs) = List.map_filter (\<lambda>j. f (Suc j)) xs" for f :: "nat \<Rightarrow> 'c option" and xs
    by (simp add: List.map_filter_def filter_map comp_def)
  show ?case
    by (simp only: upt list.map map_map shift map_filter_simps)
      (simp add: Cons.IH Let_def built_def to_send_def [of rl latest i ev] comp_def split: sum.split)
qed (simp add: map_filter_simps)

lemma prepare_sent:
  "prepare rl latest 0 evs ([], [], []) =
     (map (\<lambda>i. built rl latest i (evs ! i)) [0..<length evs], map fst (sent rl latest evs), map snd (sent rl latest evs))"
  by (simp add: prepare_spec sent_def Let_def)

lemma length_fill [simp]: "length (fill_errs p ixs errs os) = length os"
  by (induction p ixs errs os rule: fill_errs.induct) simp_all

lemma fill_ids: "\<forall>i \<in> set ixs. i < length os \<Longrightarrow> map fst (fill_errs p ixs errs os) = map fst os"
proof (induction p ixs errs os rule: fill_errs.induct)
  case (2 position i ixs errs os)
  have "(map fst os)[i := fst (os ! i)] = map fst os"
    using "2.prems" by (metis list.set_intros(1) list_update_id nth_map)
  then show ?case using 2 by (simp add: map_update)
qed simp

lemma fill_out: "i \<notin> set ixs \<Longrightarrow> fill_errs p ixs errs os ! i = os ! i"
  by (induction p ixs errs os rule: fill_errs.induct) (simp_all add: nth_list_update_neq)

lemma fill_in:
  "distinct ixs \<Longrightarrow> k < length ixs \<Longrightarrow> ixs ! k < length os \<Longrightarrow>
     snd (fill_errs p ixs errs os ! (ixs ! k)) = (if p + k < length errs then errs ! (p + k) else snd (os ! (ixs ! k)))"
proof (induction p ixs errs os arbitrary: k rule: fill_errs.induct)
  case (2 position i ixs errs os)
  show ?case
  proof (cases k)
    case 0
    then show ?thesis using "2.prems" by (simp add: fill_out)
  next
    case (Suc k')
    then have "ixs ! k' \<noteq> i" using "2.prems"(1,2) by (auto dest: nth_mem)
    then show ?thesis using "2.IH" [of k'] "2.prems" Suc by (simp add: nth_list_update_neq)
  qed
qed simp

lemma sent_positions: "map fst (sent rl latest events) = filter (\<lambda>i. \<not> superseded latest i (events ! i) \<and>
    \<not> isl (traced_producer_event rl (events ! i))) [0..<length events]"
proof -
  have "map fst (List.map_filter (\<lambda>i. to_send rl latest i (events ! i)) xs) =
    filter (\<lambda>i. \<not> superseded latest i (events ! i) \<and> \<not> isl (traced_producer_event rl (events ! i))) xs" for xs
    by (induction xs) (simp_all add: map_filter_simps to_send_def split: sum.split)
  then show ?thesis by (simp add: sent_def)
qed

lemma sent_bounds: "distinct (map fst (sent rl latest events))" "\<forall>i \<in> set (map fst (sent rl latest events)). i < length events"
  unfolding sent_positions by simp_all

text \<open>\<open>publish_events\<close> as one equation, for the errors \<open>errs\<close> the producer's messages came to.\<close>

lemma publish_events_spec:
  assumes "relay_latest_indexes (latest_only rl) events = (latest, dropped)"
    and "publish_events rl send_all events w = (os, w')"
  obtains errs where
    "os = fill_errs 0 (map fst (sent rl latest events)) errs (map (\<lambda>i. built rl latest i (events ! i)) [0..<length events])"
    "map snd (sent rl latest events) \<noteq> [] \<Longrightarrow>
       (errs, w') = publish_framed (frame_events (packer rl) (sha256 rl) (rframes rl) (latest_only rl) (max_payload rl))
         send_all (map snd (sent rl latest events))
         (case dropped of None \<Rightarrow> w | Some n \<Rightarrow> observe rl [OnSuperseded n] w)"
proof (cases "map snd (sent rl latest events) = []")
  case True
  then have "os = map (\<lambda>i. built rl latest i (events ! i)) [0..<length events]"
    using assms by (simp add: publish_events_def prepare_sent)
  then show ?thesis using True that [of "[]"] by simp
next
  case False
  obtain errs w2 where f: "publish_framed (frame_events (packer rl) (sha256 rl) (rframes rl) (latest_only rl) (max_payload rl))
         send_all (map snd (sent rl latest events))
         (case dropped of None \<Rightarrow> w | Some n \<Rightarrow> observe rl [OnSuperseded n] w) = (errs, w2)" by fastforce
  then have "os = fill_errs 0 (map fst (sent rl latest events)) errs
      (map (\<lambda>i. built rl latest i (events ! i)) [0..<length events]) \<and> w' = w2"
    using assms False by (simp add: publish_events_def prepare_sent Let_def)
  then show ?thesis using f by (intro that [of errs]) simp_all
qed

section \<open>Properties\<close>

text \<open>
  Every claimed event gets one outcome, in the order of the batch. A superseded event counts as
  published without being sent; an event that cannot be built has the error of building it; the
  \<open>k\<close>-th event sent has the \<open>k\<close>-th error that came back, and counts as published
  when fewer came back.
\<close>
theorem publish_batched_outcomes:
  assumes "relay_latest_indexes (latest_only rl) events = (latest, dropped)"
    and "publish_batched rl events w = (os, w')"
  shows "map fst os = map event_id events \<and>
    (\<exists>errs. \<forall>i < length events. snd (os ! i) =
      (if superseded latest i (events ! i) then None
       else case traced_producer_event rl (events ! i) of
         Inl e \<Rightarrow> Some e
       | Inr pe \<Rightarrow>
           (let k = length (filter (\<lambda>j. j < i) (map fst (sent rl latest events)))
            in if k < length errs then errs ! k else None)))"
proof -
  let ?s = "map fst (sent rl latest events)" and ?b = "map (\<lambda>i. built rl latest i (events ! i)) [0..<length events]"
  obtain errs where os: "os = fill_errs 0 ?s errs ?b"
    by (rule publish_events_spec [OF assms(1) assms(2) [unfolded publish_batched_def]])
  have "map fst os = map fst ?b" unfolding os by (rule fill_ids) (use sent_bounds(2) in simp)
  also have "\<dots> = map event_id events" by (rule nth_equalityI) (simp_all add: built_def)
  finally have ids: "map fst os = map event_id events" .
  have "snd (os ! i) = (if superseded latest i (events ! i) then None
       else case traced_producer_event rl (events ! i) of
         Inl e \<Rightarrow> Some e
       | Inr pe \<Rightarrow> (let k = length (filter (\<lambda>j. j < i) ?s) in if k < length errs then errs ! k else None))"
    if i: "i < length events" for i
  proof (cases "i \<in> set ?s")
    case False
    then have "superseded latest i (events ! i) \<or> isl (traced_producer_event rl (events ! i))"
      using i unfolding sent_positions by simp
    moreover have "os ! i = built rl latest i (events ! i)" unfolding os fill_out [OF False] using i by simp
    ultimately show ?thesis by (auto simp: built_def isl_def split: sum.split)
  next
    case True
    then obtain k where k: "k < length ?s" "?s ! k = i" by (metis in_set_conv_nth)
    have sorted: "sorted ?s" "distinct ?s" unfolding sent_positions by (simp_all add: sorted_wrt_filter)
    have "filter (\<lambda>j. j < i) ?s = take k ?s"
    proof -
      have "?s = take k ?s @ i # drop (Suc k) ?s" using k by (metis id_take_nth_drop)
      then have "sorted (take k ?s @ i # drop (Suc k) ?s)" "distinct (take k ?s @ i # drop (Suc k) ?s)"
        using sorted by simp_all
      then have "\<forall>j \<in> set (take k ?s). j < i" "\<forall>j \<in> set (drop (Suc k) ?s). \<not> j < i"
        by (auto simp: sorted_append order.strict_iff_order)
      then have "filter (\<lambda>j. j < i) (take k ?s @ i # drop (Suc k) ?s) = take k ?s"
        by (simp add: filter_id_conv filter_empty_conv)
      then show ?thesis using \<open>?s = take k ?s @ i # drop (Suc k) ?s\<close> by simp
    qed
    then have len: "length (filter (\<lambda>j. j < i) ?s) = k" using k(1) by simp
    have here: "\<not> superseded latest i (events ! i)" "\<not> isl (traced_producer_event rl (events ! i))"
      using True unfolding sent_positions by simp_all
    then obtain pe where pe: "traced_producer_event rl (events ! i) = Inr pe"
      by (cases "traced_producer_event rl (events ! i)") auto
    have "snd (?b ! i) = None" using i here(1) pe by (simp add: built_def)
    moreover have "snd (os ! i) = (if 0 + k < length errs then errs ! (0 + k) else snd (?b ! i))"
      using fill_in [of ?s k ?b 0 errs] sorted(2) k i unfolding os by simp
    ultimately show ?thesis using here(1) pe len by (simp add: Let_def)
  qed
  then show ?thesis using ids by blast
qed


text \<open>
  Retrying one event. A transport error changes neither the number of attempts nor when the event
  is due, and cannot park it as long as its attempts are below the limit. Any other error counts one
  attempt, puts the event off by the backoff, and parks it exactly when the limit is reached.
\<close>
theorem revert_row_policy:
  assumes "0 < MaxAttempts cfg" "known < MaxAttempts cfg"
  shows "let r' = revert_row env cfg known err n r in
    (if is_transport_error err
     then rstate r' = StatePending \<and> rattempts r' = known \<and> rnext_attempt r' = None
     else rattempts r' = known + 1 \<and>
       (if known + 1 = MaxAttempts cfg then rstate r' = StateParked \<and> rnext_attempt r' = None
        else rstate r' = StatePending \<and>
          rnext_attempt r' = Some (now_at env n + retry_delay cfg (jitter_at env n) (known + 1))))"
  using assms by (auto simp: revert_row_def Let_def retry_at_def)

text \<open>
  An outage can park an event all the same: when its attempts have reached the limit already, as
  after the limit was lowered, a transport error alone parks it.
\<close>
theorem transport_error_parks:
  assumes "0 < MaxAttempts cfg" "MaxAttempts cfg \<le> known" "is_transport_error err"
  shows "rstate (revert_row env cfg known err n r) = StateParked"
  using assms by (simp add: revert_row_def Let_def)

section \<open>A small relay, for the witnesses\<close>

definition demo_codec :: msgpack where
  "demo_codec = \<lparr>decode_array_len = (\<lambda>_. Inl (Foreign ''eof'')), decode_element = (\<lambda>_. Inl (Foreign ''eof'')),
     marshal = (\<lambda>_. Inr [])\<rparr>"

definition demo_relay :: "config \<Rightarrow> unit relay" where
  "demo_relay cfg = \<lparr>config = cfg, rframes = None, latest_only = [], signer = None, respan = (\<lambda>_ hs. hs),
     packer = demo_codec, sha256 = id, max_payload = None,
     produce = (\<lambda>e w. (if psubject e = ''bad'' then Some (Foreign ''rejected'') else None, w)),
     produce_batch = None, observes = True\<rparr>"

definition demo_env :: relay_env where
  "demo_env = \<lparr>now_at = int, db_err = (\<lambda>_. None), locked_at = (\<lambda>_ _. False), paused_at = (\<lambda>_. False),
     done_at = (\<lambda>_. False), expired_at = (\<lambda>_. False), arrived_at = (\<lambda>_ _. True), order_at = (\<lambda>_. [1, 0]), jitter_at = (\<lambda>_ d. 0),
     detect_at = (\<lambda>_. Inr \<lparr>V2 = True, Retries = True, DrainSafe = True, IDType = ''uuid''\<rparr>), touched_at = (\<lambda>n _. int n),
     unmarshal = (\<lambda>_. None)\<rparr>"

definition demo_row :: "string \<Rightarrow> string \<Rightarrow> int \<Rightarrow> outbox_row" where
  "demo_row i t c = \<lparr>rid = i, rtopic = t, rpayload = [], rstate = StatePending, rattempts = 0, rlast_error = None,
     rnext_attempt = None, rheaders = [], rcreated = c, rupdated = c\<rparr>"

definition demo_world :: outbox where
  "demo_world = \<lparr>db = \<lparr>rows = [demo_row ''e2'' ''bad'' 2, demo_row ''e1'' ''orders'' 1], retries = []\<rparr>,
     cache = \<lparr>caps = no_caps, resolved = False, last_try = None\<rparr>, last_reclaim = None, drain_failures = 0,
     drain_off = False, observed = [], steps = 10\<rparr>"

definition demo_claimed :: "string \<Rightarrow> string \<Rightarrow> relay_event" where
  "demo_claimed i t = \<lparr>event_id = i, topic = t, payload = [], hdrs = [], attempts = 0, created_at = 0\<rparr>"

lemma demo_keeps: "producer_keeps (demo_relay cfg)"
  by (simp add: producer_keeps_def demo_relay_def)

theorem publish_batched_outcomes_witness:
  "map fst (fst (publish_batched (demo_relay default_config) [demo_claimed ''e1'' ''orders'', demo_claimed ''e2'' ''bad''] demo_world))
     = [''e1'', ''e2'']"
proof -
  let ?rl = "demo_relay default_config"
  let ?es = "[demo_claimed ''e1'' ''orders'', demo_claimed ''e2'' ''bad'']"
  obtain latest dropped where l: "relay_latest_indexes (latest_only ?rl) ?es = (latest, dropped)" by fastforce
  obtain os w where p: "publish_batched ?rl ?es demo_world = (os, w)" by fastforce
  show ?thesis using publish_batched_outcomes [OF l p] p by (simp add: demo_claimed_def)
qed


theorem revert_row_policy_witness:
  "rstate (revert_row demo_env (recommended_config\<lparr>MaxAttempts := 5\<rparr>) 4 (Foreign ''rejected'') 10 (demo_row ''e'' ''bad'' 1)) = StateParked"
  using revert_row_policy [of "recommended_config\<lparr>MaxAttempts := 5\<rparr>" 4 demo_env "Foreign ''rejected''" 10 "demo_row ''e'' ''bad'' 1"]
  by (simp add: is_transport_error_def Let_def)

theorem transport_error_parks_witness:
  "rstate (revert_row demo_env (recommended_config\<lparr>MaxAttempts := 5\<rparr>) 7 (Sent ErrNoServers) 10 (demo_row ''e'' ''x'' 1)) = StateParked"
  using transport_error_parks [of "recommended_config\<lparr>MaxAttempts := 5\<rparr>" 7 "Sent ErrNoServers" demo_env 10 "demo_row ''e'' ''x'' 1"]
  by (simp add: is_transport_error_def)

end
