(* ===== verification/Outbox_Drain.thy ===== *)
theory Outbox_Drain
  imports Outbox_Relay
begin

text \<open>
  The transaction that claims, publishes and settles at once (\<^verbatim>\<open>tx_drain.go\<close>,
  \<^verbatim>\<open>tx_drain_publish.go\<close>), the loop around it, and its fall-back to the claim path.
\<close>

section \<open>Claiming\<close>

record drain_result =
  claimed :: nat
  published :: nat
  nfailed :: nat
  parked :: "observed list"

definition no_drain :: drain_result where
  "no_drain = \<lparr>claimed = 0, published = 0, nfailed = 0, parked = []\<rparr>"

text \<open>
  One statement marks the rows done, or deletes them, and returns them as they are after, or were
  before.
\<close>

definition drain_claim ::
  "relay_env \<Rightarrow> config \<Rightarrow> int \<Rightarrow> 'z outbox_scheme \<Rightarrow> (goerr + outbox_row list) \<times> 'z outbox_scheme" where
  "drain_claim env cfg now w =
     (let (n, w1) = tick w in
      case db_err env n of
        Some e \<Rightarrow> (Inl e, w1)
      | None \<Rightarrow>
          let d = db w1;
              ids = rid ` set (pick rcreated (BatchSize cfg) (due now) (locked_at env n) (rows d))
          in if Mode cfg = ModeUpdateAfterSend
             then let rs = on_ids ids (\<lambda>r. r\<lparr>rstate := StateDone, rupdated := now\<rparr>) (rows d)
                  in (Inr (with_ids ids rs), w1\<lparr>db := d\<lparr>rows := rs\<rparr>\<rparr>)
             else (Inr (with_ids ids (rows d)), w1\<lparr>db := d\<lparr>rows := without_ids ids (rows d)\<rparr>\<rparr>))"

section \<open>Publishing against a deadline\<close>

definition copy_errs :: "goerr option list \<Rightarrow> goerr option list \<Rightarrow> goerr option list" where
  "copy_errs errs got = map (\<lambda>i. if i < length got then got ! i else errs ! i) [0..<length errs]"

text \<open>
  The goroutines that publish one event each, in the order they got to run. A result that is late is
  not read; the event may have been published all the same.
\<close>

fun produce_scheduled ::
  "'z relay \<Rightarrow> (nat \<Rightarrow> bool) \<Rightarrow> producer_event list \<Rightarrow> nat list \<Rightarrow> goerr option list \<Rightarrow> 'z outbox_scheme
     \<Rightarrow> goerr option list \<times> 'z outbox_scheme" where
  "produce_scheduled rl in_time events [] errs w = (errs, w)"
| "produce_scheduled rl in_time events (i # ixs) errs w =
     (if i < length events
      then let (err, w1) = produce rl (events ! i) w
           in produce_scheduled rl in_time events ixs (if in_time i then errs[i := err] else errs) w1
      else produce_scheduled rl in_time events ixs errs w)"

definition publish_within ::
  "'z relay \<Rightarrow> relay_env \<Rightarrow> producer_event list \<Rightarrow> 'z outbox_scheme \<Rightarrow> goerr option list \<times> 'z outbox_scheme" where
  "publish_within rl env events w =
     (let errs = replicate (length events) (Some (Sent DeadlineExceeded)); (n, w0) = tick w in
      case produce_batch rl of
        Some f \<Rightarrow>
          let (got, w1) = f events w0
          in (if arrived_at env n 0 then copy_errs errs got else errs, w1)
      | None \<Rightarrow> produce_scheduled rl (arrived_at env n) events (remdups (order_at env n)) errs w0)"

definition drain_publish ::
  "'z relay \<Rightarrow> relay_env \<Rightarrow> relay_event list \<Rightarrow> 'z outbox_scheme \<Rightarrow> outcome list \<times> 'z outbox_scheme" where
  "drain_publish rl env = publish_events rl (publish_within rl env)"

section \<open>Settling in the transaction\<close>

text \<open>The row of a failed event, as \<^verbatim>\<open>drainSettle\<close> restores it.\<close>

definition failed_row :: "relay_env \<Rightarrow> config \<Rightarrow> int \<Rightarrow> nat \<Rightarrow> goerr \<Rightarrow> outbox_row \<Rightarrow> outbox_row" where
  "failed_row env cfg now n err row =
     (let row1 = row\<lparr>rlast_error := Some err, rstate := StatePending,
            rnext_attempt := Some (now + unknown_retry_delay cfg (jitter_at env n)), rupdated := now\<rparr>
      in if unknown_outcome err then row1
         else
           let tries = rattempts row + 1;
               row2 = row1\<lparr>rattempts := tries,
                 rnext_attempt := Some (now + retry_delay cfg (jitter_at env n) tries)\<rparr>
           in if MaxAttempts cfg > 0 \<and> tries \<ge> MaxAttempts cfg
              then row2\<lparr>rstate := StateParked, rnext_attempt := None\<rparr> else row2)"

definition tally_row :: "goerr \<Rightarrow> outbox_row \<Rightarrow> drain_result \<Rightarrow> drain_result" where
  "tally_row err row res =
     res\<lparr>nfailed := Suc (nfailed res),
         parked := (if rstate row = StateParked then parked res @ [OnParked (rid row) (rtopic row) err]
                    else parked res)\<rparr>"

text \<open>The loop of \<^verbatim>\<open>drainSettle\<close>: the rows to restore with their errors.\<close>

fun settle_rows ::
  "relay_env \<Rightarrow> config \<Rightarrow> int \<Rightarrow> (outbox_row \<times> outcome) list \<Rightarrow> drain_result \<Rightarrow> (outbox_row \<times> goerr) list
     \<Rightarrow> 'z outbox_scheme \<Rightarrow> drain_result \<times> (outbox_row \<times> goerr) list \<times> 'z outbox_scheme" where
  "settle_rows env cfg now [] res restored w = (res, restored, w)"
| "settle_rows env cfg now ((row, (_, None)) # rest) res restored w =
     settle_rows env cfg now rest (res\<lparr>published := Suc (published res)\<rparr>) restored w"
| "settle_rows env cfg now ((row, (_, Some err)) # rest) res restored w =
     (let (n, w1) = tick w; row' = failed_row env cfg now n err row
      in settle_rows env cfg now rest (tally_row err row' res) (restored @ [(row', err)]) w1)"

definition save_messages_chunk :: nat where "save_messages_chunk = 500"

text \<open>\<^verbatim>\<open>CreateInBatches\<close>: one statement for each chunk, up to the first that fails.\<close>

function insert_chunks :: "relay_env \<Rightarrow> outbox_row list \<Rightarrow> 'z outbox_scheme \<Rightarrow> goerr option \<times> 'z outbox_scheme" where
  "insert_chunks env rs w =
     (if rs = [] then (None, w)
      else case exec env (\<lambda>_ d. d\<lparr>rows := rows d @ take save_messages_chunk rs\<rparr>) w of
             (Some e, w1) \<Rightarrow> (Some e, w1)
           | (None, w1) \<Rightarrow> insert_chunks env (drop save_messages_chunk rs) w1)"
  by pat_completeness auto
termination
  by (relation "measure (\<lambda>(env, rs, w). length rs)") (auto simp: save_messages_chunk_def)

declare insert_chunks.simps [simp del]

fun update_rows :: "relay_env \<Rightarrow> outbox_row list \<Rightarrow> 'z outbox_scheme \<Rightarrow> goerr option \<times> 'z outbox_scheme" where
  "update_rows env [] w = (None, w)"
| "update_rows env (r # rs) w =
     (case exec env (\<lambda>n d. d\<lparr>rows := on_ids {rid r} (\<lambda>r0. r0\<lparr>rstate := rstate r, rattempts := rattempts r,
             rlast_error := rlast_error r, rnext_attempt := rnext_attempt r,
             rupdated := touched_at env n (rupdated r)\<rparr>) (rows d)\<rparr>) w of
        (Some e, w1) \<Rightarrow> (Some e, w1)
      | (None, w1) \<Rightarrow> update_rows env rs w1)"

definition drain_restore ::
  "relay_env \<Rightarrow> config \<Rightarrow> outbox_row list \<Rightarrow> 'z outbox_scheme \<Rightarrow> goerr option \<times> 'z outbox_scheme" where
  "drain_restore env cfg restored w =
     (if Mode cfg \<noteq> ModeUpdateAfterSend then insert_chunks env restored w else update_rows env restored w)"

definition record_retries ::
  "relay_env \<Rightarrow> schema_caps \<Rightarrow> (outbox_row \<times> goerr) list \<Rightarrow> 'z outbox_scheme \<Rightarrow> goerr option \<times> 'z outbox_scheme" where
  "record_retries env cp restored w =
     (if restored \<noteq> [] \<and> Retries cp
      then exec env (\<lambda>_ d. d\<lparr>retries := retries d @ map (\<lambda>(r, e). (rid r, e)) restored\<rparr>) w
      else (None, w))"

definition drain_settle ::
  "relay_env \<Rightarrow> config \<Rightarrow> schema_caps \<Rightarrow> outbox_row list \<Rightarrow> outcome list \<Rightarrow> drain_result \<Rightarrow> 'z outbox_scheme
     \<Rightarrow> (goerr + drain_result) \<times> 'z outbox_scheme" where
  "drain_settle env cfg cp rs outcomes res w =
     (let (n, w0) = tick w;
          (res', restored, w1) = settle_rows env cfg (now_at env n) (zip rs outcomes) res [] w0
      in case (if restored \<noteq> [] then drain_restore env cfg (map fst restored) w1 else (None, w1)) of
           (Some e, w2) \<Rightarrow> (Inl e, w2)
         | (None, w2) \<Rightarrow>
             (case record_retries env cp restored w2 of
                (Some e, w3) \<Rightarrow> (Inl e, w3)
              | (None, w3) \<Rightarrow> (Inr res', w3)))"

definition drain_body ::
  "'z relay \<Rightarrow> relay_env \<Rightarrow> schema_caps \<Rightarrow> 'z outbox_scheme \<Rightarrow> (goerr + drain_result) \<times> 'z outbox_scheme" where
  "drain_body rl env cp w =
     (let (n, w0) = tick w in
      case drain_claim env (config rl) (now_at env n) w0 of
        (Inl e, w1) \<Rightarrow> (Inl e, w1)
      | (Inr rs, w1) \<Rightarrow>
          if rs = [] then (Inr no_drain, w1)
          else
            let sorted = sort_key rcreated rs;
                (outcomes, w2) = drain_publish rl env (map (decode_row env) sorted) w1
            in drain_settle env (config rl) cp sorted outcomes (no_drain\<lparr>claimed := length rs\<rparr>) w2)"

definition drain_batch ::
  "'z relay \<Rightarrow> relay_env \<Rightarrow> schema_caps \<Rightarrow> 'z outbox_scheme \<Rightarrow> (goerr + drain_result) \<times> 'z outbox_scheme" where
  "drain_batch rl env cp = transaction env (drain_body rl env cp)"

section \<open>The loop\<close>

definition tx_drain_active :: "'z relay \<Rightarrow> relay_env \<Rightarrow> 'z outbox_scheme \<Rightarrow> bool \<times> 'z outbox_scheme" where
  "tx_drain_active rl env w =
     (if \<not> TxDrain (config rl) \<or> drain_off w then (False, w)
      else
        let (cp, w1) = ensure_caps env w in
        if \<not> V2 cp then (False, w1)
        else if Mode (config rl) \<noteq> ModeUpdateAfterSend \<and> \<not> DrainSafe cp then (False, w1\<lparr>drain_off := True\<rparr>)
        else (True, w1))"

definition report_drain :: "'z relay \<Rightarrow> drain_result \<Rightarrow> 'z outbox_scheme \<Rightarrow> 'z outbox_scheme" where
  "report_drain rl res w =
     observe rl ((if published res > 0 then [OnPublished (published res)] else []) @
       (if nfailed res > 0 then [OnFailed (nfailed res)] else []) @ parked res) w"

definition tx_drain_max_failures :: nat where "tx_drain_max_failures = 3"

definition drain_failed :: "'z outbox_scheme \<Rightarrow> 'z outbox_scheme" where
  "drain_failed w =
     w\<lparr>drain_failures := Suc (drain_failures w),
       drain_off := drain_off w \<or> Suc (drain_failures w) \<ge> tx_drain_max_failures\<rparr>"

text \<open>One round of \<^verbatim>\<open>processTxDrain\<close>, and whether there is another.\<close>

definition drain_round :: "'z relay \<Rightarrow> relay_env \<Rightarrow> 'z outbox_scheme \<Rightarrow> bool \<times> 'z outbox_scheme" where
  "drain_round rl env w =
     (let (p, w0) = tick w in
      if paused_at env p then (False, w0)
      else
        let (n, w1) = tick w0;
            (cp, w2) = ensure_caps env (reclaim_when_due env (config rl) (now_at env n) w1)
        in case drain_batch rl env cp w2 of
             (Inl e, w3) \<Rightarrow> (False, drain_failed w3)
           | (Inr res, w3) \<Rightarrow>
               let w4 = report_drain rl res (w3\<lparr>drain_failures := 0\<rparr>) in
               if int (claimed res) \<ge> BatchSize (config rl) \<and> nfailed res = 0
               then let (m, w5) = tick w4 in (\<not> done_at env m, w5)
               else (False, w4))"

partial_function (option) process_tx_drain ::
  "'z relay \<Rightarrow> relay_env \<Rightarrow> 'z outbox_scheme \<Rightarrow> 'z outbox_scheme option" where
  "process_tx_drain rl env w =
     (let (again, w') = drain_round rl env w in
      if again then process_tx_drain rl env w' else Some w')"

section \<open>The loop ends\<close>

definition open_rows :: "outbox_row list \<Rightarrow> nat" where
  "open_rows rs = length (filter (\<lambda>r. rstate r \<noteq> StateDone) rs)"

text \<open>The primary key of the table.\<close>

definition keyed :: "database \<Rightarrow> bool" where
  "keyed d \<longleftrightarrow> distinct (map rid (rows d))"

lemma picked:
  assumes "distinct (map rid rs)" "r \<in> set rs" "rid r \<in> rid ` set (pick key n P locked rs)"
  shows "P r"
proof -
  obtain s where s: "s \<in> set (pick key n P locked rs)" "rid s = rid r" using assms(3) by force
  then have "s \<in> set rs" "P s" by (auto simp: pick_def dest: in_set_takeD)
  then show ?thesis using assms(1,2) s(2) by (metis eq_key_imp_eq_value distinct_map inj_onD)
qed

lemma map_rid_on_ids: "(\<And>r. rid (f r) = rid r) \<Longrightarrow> map rid (on_ids ids f rs) = map rid rs"
  by (simp add: on_ids_def)

lemma open_rows_on_ids:
  assumes "\<And>r. r \<in> set rs \<Longrightarrow> rid r \<in> ids \<Longrightarrow> rstate r \<noteq> StateDone" "\<And>r. rstate (f r) \<noteq> StateDone"
  shows "open_rows (on_ids ids f rs) = open_rows rs"
proof -
  have "length (filter (\<lambda>r. rstate r \<noteq> StateDone) (on_ids ids f rs)) =
      length (filter (\<lambda>r. rstate r \<noteq> StateDone) rs)"
    using assms by (induction rs) (simp_all add: on_ids_def)
  then show ?thesis by (simp add: open_rows_def)
qed

lemma reclaim_open:
  assumes "keyed (db w)"
  shows "keyed (db (reclaim_when_due env cfg now w)) \<and>
    open_rows (rows (db (reclaim_when_due env cfg now w))) = open_rows (rows (db w))"
proof -
  let ?f = "\<lambda>r. r\<lparr>rstate := StatePending, rupdated := now\<rparr>"
  let ?ids = "\<lambda>n d. rid ` set (pick rupdated (BatchSize cfg * 10) (stalled (now - StallThreshold cfg)) (locked_at env n) (rows d))"
  have "rstate r \<noteq> StateDone" if "r \<in> set (rows (db w))" "rid r \<in> ?ids n (db w)" for r n
    using picked [OF assms [unfolded keyed_def] that] by (auto simp: stalled_def)
  then have "open_rows (on_ids (?ids n (db w)) ?f (rows (db w))) = open_rows (rows (db w))" for n
    by (rule open_rows_on_ids) simp_all
  moreover have "map rid (on_ids (?ids n (db w)) ?f (rows (db w))) = map rid (rows (db w))" for n
    by (rule map_rid_on_ids) simp
  ultimately show ?thesis using assms
    by (simp add: reclaim_when_due_def reclaim_stalled_def exec_def tick_def Let_def keyed_def split: option.split)
qed

lemma drain_claim_open:
  assumes "keyed (db w)" "drain_claim env cfg now w = (Inr rs, w')" "rs \<noteq> []"
  shows "keyed (db w') \<and> open_rows (rows (db w')) < open_rows (rows (db w))"
proof -
  define ids where "ids = rid ` set (pick rcreated (BatchSize cfg) (due now) (locked_at env (steps w)) (rows (db w)))"
  let ?done = "\<lambda>r. r\<lparr>rstate := StateDone, rupdated := now\<rparr>"
  let ?left = "filter (\<lambda>r. rstate r \<noteq> StateDone \<and> rid r \<notin> ids) (rows (db w))"
  have c: "(rs, db w') = (if Mode cfg = ModeUpdateAfterSend
      then (with_ids ids (on_ids ids ?done (rows (db w))), (db w)\<lparr>rows := on_ids ids ?done (rows (db w))\<rparr>)
      else (with_ids ids (rows (db w)), (db w)\<lparr>rows := without_ids ids (rows (db w))\<rparr>))"
    using assms(2) by (auto simp: drain_claim_def tick_def Let_def ids_def split: option.splits if_splits)
  have none: "with_ids ids xs = [] \<and> with_ids ids (on_ids ids ?done xs) = []" if "\<forall>r \<in> set xs. rid r \<notin> ids" for xs
    using that by (auto simp: with_ids_def on_ids_def filter_empty_conv)
  have "\<exists>r \<in> set (rows (db w)). rid r \<in> ids"
  proof (rule ccontr)
    assume "\<not> ?thesis"
    then show False using none [of "rows (db w)"] c assms(3) by (simp split: if_splits)
  qed
  then obtain r where r: "r \<in> set (rows (db w))" "rid r \<in> ids" by blast
  then have "due now r" using picked [OF assms(1) [unfolded keyed_def]] unfolding ids_def by blast
  then have "r \<in> set (filter (\<lambda>r. rstate r \<noteq> StateDone) (rows (db w)))" using r(1) by (simp add: due_def)
  then have "length (filter (\<lambda>r. rid r \<notin> ids) (filter (\<lambda>r. rstate r \<noteq> StateDone) (rows (db w)))) <
      length (filter (\<lambda>r. rstate r \<noteq> StateDone) (rows (db w)))"
    by (rule length_filter_less) (use r(2) in simp)
  then have less: "length ?left < open_rows (rows (db w))" by (simp add: open_rows_def conj_commute)
  have "open_rows (on_ids ids ?done xs) = length (filter (\<lambda>r. rstate r \<noteq> StateDone \<and> rid r \<notin> ids) xs)" for xs
    by (induction xs) (simp_all add: open_rows_def on_ids_def)
  moreover have "open_rows (without_ids ids xs) = length (filter (\<lambda>r. rstate r \<noteq> StateDone \<and> rid r \<notin> ids) xs)" for xs
    by (simp add: open_rows_def without_ids_def conj_commute)
  moreover have "map rid (on_ids ids ?done xs) = map rid xs" for xs by (rule map_rid_on_ids) simp
  moreover have "distinct (map rid (without_ids ids (rows (db w))))"
    using assms(1) by (simp add: keyed_def without_ids_def distinct_map_filter)
  ultimately show ?thesis using c less assms(1) by (auto simp: keyed_def split: if_splits)
qed

lemma produce_scheduled_db:
  assumes "\<And>e w. db (snd (produce rl e w)) = db w"
  shows "db (snd (produce_scheduled rl ok events ixs errs w)) = db w"
proof (induction ixs arbitrary: errs w)
  case (Cons i ixs)
  obtain err w1 where e: "produce rl (events ! i) w = (err, w1)" by fastforce
  then have "db w1 = db w" using assms [of "events ! i" w] by simp
  then show ?case using Cons.IH e by simp
qed simp

lemma publish_within_db: "producer_keeps rl \<Longrightarrow> db (snd (publish_within rl env events w)) = db w"
proof -
  assume p: "producer_keeps rl"
  let ?w = "w\<lparr>steps := Suc (steps w)\<rparr>"
  show ?thesis
  proof (cases "produce_batch rl")
    case None
    have "db (snd (produce rl e w)) = db w" for e w using p by (simp add: producer_keeps_def)
    from produce_scheduled_db [of rl, OF this] None show ?thesis
      by (simp add: publish_within_def tick_def)
  next
    case (Some f)
    obtain got w1 where f: "f events ?w = (got, w1)" by fastforce
    have "db (snd (f events ?w)) = db ?w" using p Some by (simp add: producer_keeps_def)
    then show ?thesis using Some f by (simp add: publish_within_def tick_def Let_def)
  qed
qed

lemma drain_publish_db: "producer_keeps rl \<Longrightarrow> db (snd (drain_publish rl env events w)) = db w"
  unfolding drain_publish_def by (rule publish_events_db) (rule publish_within_db)

lemma settle_rows_db: "settle_rows env cfg now prs res restored w = (res', restored', w') \<Longrightarrow> db w' = db w"
  by (induction env cfg now prs res restored w rule: settle_rows.induct) (auto simp: tick_def Let_def)

lemma settle_rows_tally:
  "settle_rows env cfg now prs res restored w = (res', restored', w') \<Longrightarrow>
     claimed res' = claimed res \<and> length restored' + nfailed res = length restored + nfailed res' \<and>
     published res' + nfailed res' = published res + nfailed res + length prs"
  by (induction env cfg now prs res restored w rule: settle_rows.induct) (auto simp: tick_def Let_def tally_row_def)

lemma transaction_Inr:
  assumes "transaction env body w = (Inr x, w')"
  obtains w2 where "body (snd (tick w)) = (Inr x, w2)" "w' = snd (tick w2)"
proof -
  obtain r w2 where b: "body (snd (tick w)) = (r, w2)" by fastforce
  with assms that show ?thesis
    by (cases r) (auto simp: transaction_def tick_def Let_def split: option.splits)
qed

lemma transaction_Inl: "transaction env body w = (Inl e, w') \<Longrightarrow> (\<And>w. db (snd (tick w)) = db w) \<Longrightarrow> db w' = db w"
  by (auto simp: transaction_def tick_def Let_def split: option.splits prod.splits sum.splits)


lemma ensure_caps_snd_db: "db (snd (ensure_caps env w)) = db w"
  using ensure_caps_db [of env w] by (metis prod.collapse)

text \<open>A batch with no failure commits the claim as it is.\<close>

lemma drain_body_claims:
  fixes rl :: "'z relay"
  assumes "producer_keeps rl" "drain_body rl env cp w = (Inr res, w')" "nfailed res = 0"
  obtains rs and w1 w0 :: "'z outbox_scheme" and now where "drain_claim env (config rl) now w0 = (Inr rs, w1)" "db w0 = db w"
    "claimed res = length rs" "db w' = db w1"
proof -
  let ?w0 = "w\<lparr>steps := Suc (steps w)\<rparr>" and ?now = "now_at env (steps w)"
  obtain r w1 where c: "drain_claim env (config rl) ?now ?w0 = (r, w1)" by fastforce
  with assms(2) obtain rs where rs: "r = Inr rs" by (cases r) (auto simp: drain_body_def tick_def)
  show thesis
  proof (cases "rs = []")
    case True
    then have "w' = w1" "res = no_drain" using assms(2) c rs by (auto simp: drain_body_def tick_def)
    then show thesis using that [OF c [unfolded rs]] True by (simp add: no_drain_def)
  next
    case False
    obtain os w2 where p: "drain_publish rl env (map (decode_row env) (sort_key rcreated rs)) w1 = (os, w2)" by fastforce
    then have db2: "db w2 = db w1" using drain_publish_db [OF assms(1), of env "map (decode_row env) (sort_key rcreated rs)" w1] by simp
    let ?w3 = "w2\<lparr>steps := Suc (steps w2)\<rparr>"
    obtain res' restored w4 where s: "settle_rows env (config rl) (now_at env (steps w2)) (zip (sort_key rcreated rs) os)
        (no_drain\<lparr>claimed := length rs\<rparr>) [] ?w3 = (res', restored, w4)" by (metis prod_cases3)
    have d: "drain_settle env (config rl) cp (sort_key rcreated rs) os (no_drain\<lparr>claimed := length rs\<rparr>) w2 = (Inr res, w')"
      using assms(2) c rs False p by (simp add: drain_body_def tick_def)
    then have "res' = res" using s
      by (auto simp: drain_settle_def tick_def split: option.splits prod.splits if_splits)
    then have "restored = []" "claimed res = length rs"
      using settle_rows_tally [OF s] assms(3) by (simp_all add: no_drain_def)
    moreover have "db w' = db w4" using d s \<open>restored = []\<close> by (simp add: drain_settle_def tick_def record_retries_def)
    ultimately show thesis using that [OF c [unfolded rs]] settle_rows_db [OF s] db2 by simp
  qed
qed

text \<open>Another round follows only one that has taken rows out of the queue.\<close>

lemma drain_round_progress:
  fixes rl :: "'a relay"
  assumes "producer_keeps rl" "0 < BatchSize (config rl)" "keyed (db w)" "drain_round rl env w = (True, w')"
  shows "keyed (db w') \<and> open_rows (rows (db w')) < open_rows (rows (db w))"
proof -
  define now where "now = now_at env (Suc (steps w))"
  define wr where "wr = reclaim_when_due env (config rl) now (w\<lparr>steps := Suc (Suc (steps w))\<rparr>)"
  obtain cp w2 where e: "ensure_caps env wr = (cp, w2)" by fastforce
  obtain r w3 where b: "drain_batch rl env cp w2 = (r, w3)" by fastforce
  have round: "drain_round rl env w = (if paused_at env (steps w) then (False, w\<lparr>steps := Suc (steps w)\<rparr>)
    else case r of Inl e \<Rightarrow> (False, drain_failed w3)
      | Inr res \<Rightarrow> let w4 = report_drain rl res (w3\<lparr>drain_failures := 0\<rparr>) in
          if int (claimed res) \<ge> BatchSize (config rl) \<and> nfailed res = 0
          then let (m, w5) = tick w4 in (\<not> done_at env m, w5) else (False, w4))"
    using e b unfolding drain_round_def wr_def now_def by (simp add: tick_def)
  obtain res where res: "r = Inr res" "BatchSize (config rl) \<le> int (claimed res)" "nfailed res = 0"
    using assms(4) round by (auto split: if_splits sum.splits simp: Let_def)
  have db': "db w' = db w3"
    using assms(4) round res by (auto split: if_splits simp: Let_def tick_def report_drain_def)
  have kr: "keyed (db w2)" "open_rows (rows (db w2)) = open_rows (rows (db w))"
    using reclaim_open [of "w\<lparr>steps := Suc (Suc (steps w))\<rparr>" env "config rl" now] assms(3)
      ensure_caps_db [OF e] by (simp_all add: wr_def)
  obtain w4 where body: "drain_body rl env cp (snd (tick w2)) = (Inr res, w4)" "w3 = snd (tick w4)"
    using b res(1) unfolding drain_batch_def by (metis transaction_Inr)
  obtain rs and w5 w6 :: "'a outbox_scheme" and now' where c: "drain_claim env (config rl) now' w6 = (Inr rs, w5)" "db w6 = db (snd (tick w2))"
      "claimed res = length rs" "db w4 = db w5"
    by (rule drain_body_claims [OF assms(1) body(1) res(3)])
  have "rs \<noteq> []" using c(3) res(2) assms(2) by auto
  moreover have "keyed (db w6)" using c(2) kr by simp
  ultimately show ?thesis using drain_claim_open [OF _ c(1)] c body(2) kr db' by simp
qed

text \<open>
  C38. The drain ends. When no other session adds rows and batches have a positive size, the loop returns:
  every round but the last takes at least one row out of the table or marks it done.
\<close>
theorem tx_drain_returns:
  assumes "producer_keeps rl" "0 < BatchSize (config rl)" "keyed (db w)"
  shows "\<exists>w'. process_tx_drain rl env w = Some w'"
  using assms(3)
proof (induction "open_rows (rows (db w))" arbitrary: w rule: less_induct)
  case less
  obtain again w' where r: "drain_round rl env w = (again, w')" by fastforce
  show ?case
  proof (cases again)
    case False
    then show ?thesis using r by (subst process_tx_drain.simps) simp
  next
    case True
    then have "keyed (db w') \<and> open_rows (rows (db w')) < open_rows (rows (db w))"
      using drain_round_progress [OF assms(1,2) less.prems] r by simp
    then have "\<exists>w''. process_tx_drain rl env w' = Some w''" using less.hyps by blast
    then show ?thesis using r True by (subst process_tx_drain.simps) simp
  qed
qed

text \<open>
  A relay whose batch size was left at zero does not drain, and its loop does not return: with no
  limit on the claim met, every round counts as a full batch without a failure.
\<close>
theorem tx_drain_spins:
  fixes rl :: "'a relay"
  assumes "BatchSize (config rl) = 0"
    and "db_err env = (\<lambda>_. None)" "paused_at env = (\<lambda>_. False)" "done_at env = (\<lambda>_. False)"
  shows "process_tx_drain rl env w = None"
proof -
  have round: "\<exists>w'. drain_round rl env w = (True, w')" for w
  proof -
    obtain cp w2 where e: "ensure_caps env (reclaim_when_due env (config rl) (now_at env (Suc (steps w)))
        (w\<lparr>steps := Suc (Suc (steps w))\<rparr>)) = (cp, w2)" by fastforce
    have claim: "\<exists>w3. drain_claim env (config rl) now w1 = (Inr [], w3)" for now and w1 :: "'a outbox_scheme"
      using assms(1,2) by (simp add: drain_claim_def tick_def Let_def pick_def with_ids_def on_ids_def)
    have "\<exists>w3. drain_body rl env cp w1 = (Inr no_drain, w3)" for w1
    proof -
      obtain w3 where "drain_claim env (config rl) (now_at env (steps w1)) (w1\<lparr>steps := Suc (steps w1)\<rparr>) = (Inr [], w3)"
        using claim by blast
      then show ?thesis by (simp add: drain_body_def tick_def)
    qed
    then obtain w3 where "drain_body rl env cp (w2\<lparr>steps := Suc (steps w2)\<rparr>) = (Inr no_drain, w3)" by blast
    then have "\<exists>w3. drain_batch rl env cp w2 = (Inr no_drain, w3)"
      using assms(2) by (simp add: drain_batch_def transaction_def tick_def)
    then obtain w3 where "drain_batch rl env cp w2 = (Inr no_drain, w3)" by blast
    then show ?thesis using e assms by (simp add: drain_round_def tick_def no_drain_def Let_def)
  qed
  have "False" if drained: "process_tx_drain rl env w = Some y" for y
  proof -
    have "rl = rl \<and> env = env \<longrightarrow> False"
    proof (rule process_tx_drain.raw_induct [where P = "\<lambda>rl' env' w y. rl' = rl \<and> env' = env \<longrightarrow> False", OF _ drained])
      fix f :: "'a relay \<Rightarrow> relay_env \<Rightarrow> 'a outbox_scheme \<Rightarrow> 'a outbox_scheme option"
        and rl' :: "'a relay" and env' w y
      assume ih: "\<And>rl' env' w y. f rl' env' w = Some y \<Longrightarrow> rl' = rl \<and> env' = env \<longrightarrow> False"
        and body: "(let (again, w') = drain_round rl' env' w in if again then f rl' env' w' else Some w') = Some y"
      show "rl' = rl \<and> env' = env \<longrightarrow> False"
      proof
        assume here: "rl' = rl \<and> env' = env"
        obtain w' where "drain_round rl env w = (True, w')" using round by blast
        then show False using ih [of rl env w' y] body here by simp
      qed
    qed
    then show False by simp
  qed
  then show ?thesis by (meson not_None_eq)
qed


theorem tx_drain_returns_witness:
  "\<exists>w'. process_tx_drain (demo_relay default_config) demo_env demo_world = Some w'"
  by (rule tx_drain_returns [OF demo_keeps]) (simp_all add: demo_relay_def demo_world_def keyed_def demo_row_def default_config_def)

theorem tx_drain_spins_witness:
  "process_tx_drain (demo_relay (default_config\<lparr>BatchSize := 0\<rparr>)) demo_env demo_world = None"
  by (rule tx_drain_spins) (simp_all add: demo_relay_def demo_env_def)

section \<open>A batch is all or nothing\<close>

lemma keeps_mono: "keeps gone d d' \<Longrightarrow> gone \<subseteq> gone' \<Longrightarrow> keeps gone' d d'"
  unfolding keeps_def by blast

lemma publish_events_ids:
  assumes "publish_events rl send_all events w = (os, w')"
  shows "map fst os = map event_id events"
proof -
  obtain latest dropped where l: "relay_latest_indexes (latest_only rl) events = (latest, dropped)" by fastforce
  obtain errs where os: "os = fill_errs 0 (map fst (sent rl latest events)) errs
      (map (\<lambda>i. built rl latest i (events ! i)) [0..<length events])"
    by (rule publish_events_spec [OF l assms])
  have "map fst os = map fst (map (\<lambda>i. built rl latest i (events ! i)) [0..<length events])"
    unfolding os by (rule fill_ids) (use sent_bounds(2) in simp)
  also have "\<dots> = map event_id events" by (rule nth_equalityI) (simp_all add: built_def)
  finally show ?thesis .
qed

lemma failed_row_same [simp]: "same_event r (failed_row env cfg now n err r)"
  by (simp add: same_event_def failed_row_def Let_def)

lemma settle_rows_restores:
  assumes "settle_rows env cfg now prs res restored w = (res', restored', w')"
  shows "set restored \<subseteq> set restored' \<and>
    (\<forall>row i err. (row, (i, Some err)) \<in> set prs \<longrightarrow> (\<exists>row' \<in> fst ` set restored'. same_event row row'))"
  using assms
proof (induction env cfg now prs res restored w rule: settle_rows.induct)
  case (3 env cfg now row i err rest res restored w)
  define row' where "row' = failed_row env cfg now (steps w) err row"
  have "set (restored @ [(row', err)]) \<subseteq> set restored' \<and>
    (\<forall>row i err. (row, (i, Some err)) \<in> set rest \<longrightarrow> (\<exists>row' \<in> fst ` set restored'. same_event row row'))"
    using "3.IH" "3.prems" by (simp add: tick_def Let_def row'_def)
  moreover have "same_event row row'" by (simp add: row'_def)
  ultimately show ?case by force
qed auto

lemma settle_rows_published:
  "settle_rows env cfg now prs res restored w = (res', restored', w') \<Longrightarrow>
     published res' = published res + length (filter (\<lambda>(r, out). snd out = None) prs)"
  by (induction env cfg now prs res restored w rule: settle_rows.induct) (auto simp: tick_def Let_def tally_row_def)

lemma insert_chunks_rows:
  "insert_chunks env rs w = (None, w') \<Longrightarrow> rows (db w') = rows (db w) @ rs"
proof (induction env rs w rule: insert_chunks.induct)
  case (1 env rs w)
  show ?case
  proof (cases "rs = []")
    case False
    obtain e w1 where x: "exec env (\<lambda>_ d. d\<lparr>rows := rows d @ take save_messages_chunk rs\<rparr>) w = (e, w1)" by fastforce
    with "1.prems" False have "e = None" by (subst (asm) insert_chunks.simps) (auto split: option.splits)
    with x have "rows (db w1) = rows (db w) @ take save_messages_chunk rs"
      by (auto simp: exec_def tick_def split: option.splits)
    moreover have "insert_chunks env (drop save_messages_chunk rs) w1 = (None, w')"
      using "1.prems" False x \<open>e = None\<close> by (subst (asm) insert_chunks.simps) simp
    ultimately show ?thesis using "1.IH" [OF False x [symmetric] \<open>e = None\<close>] by simp
  qed (use "1.prems" in \<open>simp add: insert_chunks.simps\<close>)
qed

lemma update_rows_keeps: "keeps gone (db w) (db (snd (update_rows env rs w)))"
proof (induction rs arbitrary: w)
  case (Cons r rs)
  let ?upd = "\<lambda>n d. d\<lparr>rows := on_ids {rid r} (\<lambda>r0. r0\<lparr>rstate := rstate r, rattempts := rattempts r,
             rlast_error := rlast_error r, rnext_attempt := rnext_attempt r,
             rupdated := touched_at env n (rupdated r)\<rparr>) (rows d)\<rparr>"
  obtain e w1 where x: "exec env ?upd w = (e, w1)" by fastforce
  have "keeps gone (db w) (db (snd (exec env ?upd w)))"
    by (rule keeps_exec, rule keeps_on_ids) (simp add: same_event_def)
  then have "keeps gone (db w) (db w1)" using x by simp
  then show ?case using x Cons.IH [of w1] keeps_trans by (cases e) auto
qed simp

lemma record_retries_rows: "rows (db (snd (record_retries env cp restored w))) = rows (db w)"
  by (simp add: record_retries_def exec_def tick_def split: option.split)

lemma keeps_rows: "rows d' = rows d'' \<Longrightarrow> keeps gone d d' = keeps gone d d''"
  by (simp add: keeps_def)

text \<open>What the statements of the settling leave behind.\<close>

lemma drain_settle_rows:
  assumes "drain_settle env cfg cp rs os res w = (Inr res', w')" "length os = length rs"
  obtains restored where
    "\<And>k err. k < length rs \<Longrightarrow> snd (os ! k) = Some err \<Longrightarrow> \<exists>r' \<in> set restored. same_event (rs ! k) r'"
    "Mode cfg \<noteq> ModeUpdateAfterSend \<Longrightarrow> rows (db w') = rows (db w) @ restored"
    "Mode cfg = ModeUpdateAfterSend \<Longrightarrow> keeps gone (db w) (db w')"
    "claimed res' = claimed res" "published res' = published res + length (successes os)"
    "published res' + nfailed res' = published res + nfailed res + length rs"
proof -
  let ?w0 = "w\<lparr>steps := Suc (steps w)\<rparr>"
  obtain res1 restored w1 where s: "settle_rows env cfg (now_at env (steps w)) (zip rs os) res [] ?w0 = (res1, restored, w1)"
    by (metis prod_cases3)
  obtain e w2 where r: "(if restored \<noteq> [] then drain_restore env cfg (map fst restored) w1 else (None, w1)) = (e, w2)"
    by fastforce
  obtain e' w3 where t: "record_retries env cp restored w2 = (e', w3)" by fastforce
  have all: "e = None" "res' = res1" "w' = w3"
    using assms(1) s r t by (auto simp: drain_settle_def tick_def split: option.splits)
  have db1: "db w1 = db w" using settle_rows_db [OF s] by simp
  have rows3: "rows (db w') = rows (db w2)" using record_retries_rows [of env cp restored w2] t all by simp
  show thesis
  proof (rule that [of "map fst restored"])
    fix k err assume k: "k < length rs" "snd (os ! k) = Some err"
    then have "(rs ! k, (fst (os ! k), Some err)) \<in> set (zip rs os)"
      using assms(2) by (auto simp: set_zip intro!: exI [of _ k] prod_eqI)
    then show "\<exists>r' \<in> set (map fst restored). same_event (rs ! k) r'"
      using settle_rows_restores [OF s] by fastforce
  next
    assume "Mode cfg \<noteq> ModeUpdateAfterSend"
    then show "rows (db w') = rows (db w) @ map fst restored"
      using r all(1) rows3 db1 insert_chunks_rows [of env "map fst restored" w1 w2]
      by (auto simp: drain_restore_def split: if_splits)
  next
    assume "Mode cfg = ModeUpdateAfterSend"
    then have "keeps gone (db w1) (db w2)"
      using r update_rows_keeps [of gone w1 env "map fst restored"] by (auto simp: drain_restore_def split: if_splits)
    then show "keeps gone (db w) (db w')" using keeps_rows [OF rows3] db1 by simp
  next
    have "length (filter (\<lambda>(r, out). snd out = None) (zip rs os)) = length (filter (\<lambda>out. snd out = None) os)"
      using assms(2) [symmetric] by (induction rs os rule: list_induct2) auto
    then show "published res' = published res + length (successes os)"
      using settle_rows_published [OF s] all(2) by (simp add: successes_def case_prod_unfold)
  qed (use settle_rows_tally [OF s] all(2) assms(2) in simp_all)
qed


lemma restored_keeps:
  assumes "rows d' = without_ids ids (rows d) @ restored" "set srt = set (with_ids ids (rows d))"
    and "map fst os = map rid srt"
    and "\<And>k err. k < length srt \<Longrightarrow> snd (os ! k) = Some err \<Longrightarrow> \<exists>r' \<in> set restored. same_event (srt ! k) r'"
  shows "keeps (set (successes os)) d d'"
proof -
  have "rid x \<in> set (successes os) \<or> (\<exists>r' \<in> set (rows d'). same_event x r')" if x: "x \<in> set (rows d)" for x
  proof (cases "rid x \<in> ids")
    case False
    then have "x \<in> set (rows d')" using x assms(1) by (simp add: without_ids_def)
    then show ?thesis using same_event_refl by blast
  next
    case True
    then have "x \<in> set srt" using x assms(2) by (simp add: with_ids_def)
    then obtain k where k: "k < length srt" "srt ! k = x" by (metis in_set_conv_nth)
    show ?thesis
    proof (cases "snd (os ! k)")
      case None
      have "length os = length srt" using assms(3) by (metis length_map)
      then have "fst (os ! k) = rid x" "os ! k \<in> set os" using assms(3) k by (metis nth_map) (simp add: k \<open>length os = _\<close>)
      then show ?thesis using None by (force simp: successes_def)
    next
      case (Some err)
      then show ?thesis using assms(4) [OF k(1) Some] k(2) assms(1) by auto
    qed
  qed
  then show ?thesis unfolding keeps_def by blast
qed

text \<open>The claim, as it changes the table.\<close>

lemma drain_claim_rows:
  assumes "drain_claim env cfg now w = (Inr rs, w')"
  obtains ids where
    "Mode cfg = ModeUpdateAfterSend \<Longrightarrow> keeps {} (db w) (db w')"
    "Mode cfg \<noteq> ModeUpdateAfterSend \<Longrightarrow> rs = with_ids ids (rows (db w)) \<and> rows (db w') = without_ids ids (rows (db w))"
proof -
  define ids where "ids = rid ` set (pick rcreated (BatchSize cfg) (due now) (locked_at env (steps w)) (rows (db w)))"
  let ?done = "\<lambda>r. r\<lparr>rstate := StateDone, rupdated := now\<rparr>"
  have "(rs, db w') = (if Mode cfg = ModeUpdateAfterSend
      then (with_ids ids (on_ids ids ?done (rows (db w))), (db w)\<lparr>rows := on_ids ids ?done (rows (db w))\<rparr>)
      else (with_ids ids (rows (db w)), (db w)\<lparr>rows := without_ids ids (rows (db w))\<rparr>))"
    using assms by (auto simp: drain_claim_def tick_def Let_def ids_def split: option.splits if_splits)
  then show thesis using keeps_on_ids [of ?done "{}" "db w" ids]
    by (intro that [of ids]) (simp_all add: same_event_def)
qed

lemma drain_body_keeps:
  fixes rl :: "'a relay"
  assumes "producer_keeps rl" "drain_body rl env cp w = (Inr res, w')"
  obtains rs os and w2 w3 :: "'a outbox_scheme"
  where "drain_claim env (config rl) (now_at env (steps w)) (w\<lparr>steps := Suc (steps w)\<rparr>) = (Inr rs, w2)"
    "drain_publish rl env (map (decode_row env) (sort_key rcreated rs)) w2 = (os, w3)"
    "if rs = [] then w' = w2
     else drain_settle env (config rl) cp (sort_key rcreated rs) os (no_drain\<lparr>claimed := length rs\<rparr>) w3 = (Inr res, w')"
    "published res + nfailed res = claimed res" "length rs = claimed res" "published res = length (successes os)"
    "keeps (set (successes os)) (db w) (db w')"
proof -
  let ?w0 = "w\<lparr>steps := Suc (steps w)\<rparr>" and ?now = "now_at env (steps w)"
  obtain c w2 where "drain_claim env (config rl) ?now ?w0 = (c, w2)" by fastforce
  with assms(2) obtain rs where cl: "drain_claim env (config rl) ?now ?w0 = (Inr rs, w2)"
    by (cases c) (auto simp: drain_body_def tick_def)
  obtain ids where updating: "Mode (config rl) = ModeUpdateAfterSend \<Longrightarrow> keeps {} (db w) (db w2)"
    and deleting: "Mode (config rl) \<noteq> ModeUpdateAfterSend \<Longrightarrow>
      rs = with_ids ids (rows (db w)) \<and> rows (db w2) = without_ids ids (rows (db w))"
    using drain_claim_rows [OF cl] by (metis outbox.select_convs(1) outbox.surjective outbox.update_convs(7))
  let ?sorted = "sort_key rcreated rs" and ?es = "map (decode_row env) (sort_key rcreated rs)"
  obtain os w3 where p: "drain_publish rl env ?es w2 = (os, w3)" by fastforce
  have db3: "db w3 = db w2" using drain_publish_db [OF assms(1), of env ?es w2] p by simp
  have ids_os: "map fst os = map rid ?sorted"
    using publish_events_ids [of rl _ ?es w2 os w3] p by (simp add: drain_publish_def decode_row_def comp_def)
  then have len: "length os = length ?sorted" by (metis length_map)
  obtain restored where
      restores: "\<And>k err. k < length ?sorted \<Longrightarrow> snd (os ! k) = Some err \<Longrightarrow> \<exists>r' \<in> set restored. same_event (?sorted ! k) r'"
    and inserted: "Mode (config rl) \<noteq> ModeUpdateAfterSend \<Longrightarrow> rows (db w') = rows (db w2) @ restored"
    and updated: "Mode (config rl) = ModeUpdateAfterSend \<Longrightarrow> keeps (set (successes os)) (db w2) (db w')"
    and tallies: "claimed res = length rs" "published res = length (successes os)" "published res + nfailed res = length rs"
  proof (cases "rs = []")
    case True
    then have "w' = w2" "res = no_drain" "os = []" using assms(2) cl len by (auto simp: drain_body_def tick_def)
    then show thesis using that [of "[]"] True by (simp add: no_drain_def successes_def)
  next
    case False
    have "drain_settle env (config rl) cp ?sorted os (no_drain\<lparr>claimed := length rs\<rparr>) w3 = (Inr res, w')"
      using assms(2) cl False p by (simp add: drain_body_def tick_def)
    from drain_settle_rows [OF this len, of "set (successes os)"] show thesis
      using that db3 by (simp add: no_drain_def) metis
  qed
  have kept: "keeps (set (successes os)) (db w) (db w')"
  proof (cases "Mode (config rl) = ModeUpdateAfterSend")
    case True
    then show ?thesis using updated updating keeps_mono [of "{}"] keeps_trans by (metis empty_subsetI)
  next
    case False
    then show ?thesis using inserted deleting by (intro restored_keeps [OF _ _ ids_os restores]) auto
  qed
  have settling: "if rs = [] then w' = w2
     else drain_settle env (config rl) cp ?sorted os (no_drain\<lparr>claimed := length rs\<rparr>) w3 = (Inr res, w')"
    using assms(2) cl p by (auto simp: drain_body_def tick_def)
  show thesis by (rule that [OF cl p settling _ _ tallies(2) kept]) (use tallies in simp_all)
qed


section \<open>Falling back\<close>

text \<open>
  Three failures in a row turn the drain off, until a restart: below three it is on unless it was
  turned off before, and every round that commits starts the count again.
\<close>
theorem drain_fallback:
  assumes "drain_off w \<or> drain_failures w < tx_drain_max_failures" "drain_round rl env w = (again, w')"
  shows "drain_off w' \<or> drain_failures w' < tx_drain_max_failures"
proof (cases "paused_at env (steps w)")
  case True
  then show ?thesis using assms by (auto simp: drain_round_def tick_def)
next
  case False
  obtain cp w2 where e: "ensure_caps env (reclaim_when_due env (config rl) (now_at env (Suc (steps w)))
      (w\<lparr>steps := Suc (Suc (steps w))\<rparr>)) = (cp, w2)" by fastforce
  obtain r w3 where b: "drain_batch rl env cp w2 = (r, w3)" by fastforce
  show ?thesis
  proof (cases r)
    case (Inl err)
    then have "w' = drain_failed w3" using assms(2) False e b by (simp add: drain_round_def tick_def)
    then show ?thesis by (auto simp: drain_failed_def)
  next
    case (Inr res)
    then have "drain_failures w' = 0" using assms(2) False e b
      by (auto simp: drain_round_def tick_def Let_def report_drain_def observe_def split: if_splits)
    then show ?thesis by (simp add: tx_drain_max_failures_def)
  qed
qed

theorem drain_fallback_witness:
  "drain_failures (snd (drain_round (demo_relay recommended_config) demo_env demo_world)) < tx_drain_max_failures \<or>
   drain_off (snd (drain_round (demo_relay recommended_config) demo_env demo_world))"
proof -
  obtain again w' where r: "drain_round (demo_relay recommended_config) demo_env demo_world = (again, w')" by fastforce
  have "drain_off demo_world \<or> drain_failures demo_world < tx_drain_max_failures"
    by (simp add: demo_world_def tx_drain_max_failures_def)
  from drain_fallback [OF this r] r show ?thesis by auto
qed


text \<open>
  What a failure costs an event in the drain. When it is unknown whether the event went out, nothing:
  it is pending again after the floor or longer, with its attempts as they were. Any other error counts
  one attempt and puts the event off by the backoff, or parks it exactly at the limit.
\<close>
theorem failed_row_policy:
  fixes cfg :: config
  assumes "0 < MaxAttempts cfg"
  shows "let r' = failed_row env cfg now n err r in
    (if unknown_outcome err
     then rstate r' = StatePending \<and> rattempts r' = rattempts r \<and>
       rnext_attempt r' = Some (now + unknown_retry_delay cfg (jitter_at env n))
     else rattempts r' = rattempts r + 1 \<and>
       (if MaxAttempts cfg \<le> rattempts r + 1 then rstate r' = StateParked \<and> rnext_attempt r' = None
        else rstate r' = StatePending \<and>
          rnext_attempt r' = Some (now + retry_delay cfg (jitter_at env n) (rattempts r + 1))))"
  using assms by (simp add: failed_row_def Let_def)


theorem failed_row_policy_witness:
  "rattempts (failed_row demo_env (recommended_config\<lparr>MaxAttempts := 5\<rparr>) 7 10 (Sent DeadlineExceeded) (demo_row ''e'' ''x'' 1)) = 0 \<and>
   rattempts (failed_row demo_env (recommended_config\<lparr>MaxAttempts := 5\<rparr>) 7 10 (Foreign ''rejected'') (demo_row ''e'' ''x'' 1)) = 1"
  using failed_row_policy [of "recommended_config\<lparr>MaxAttempts := 5\<rparr>" demo_env 7 10 "Sent DeadlineExceeded" "demo_row ''e'' ''x'' 1"]
    failed_row_policy [of "recommended_config\<lparr>MaxAttempts := 5\<rparr>" demo_env 7 10 "Foreign ''rejected''" "demo_row ''e'' ''x'' 1"]
  by (simp add: Let_def unknown_outcome_def is_transport_error_def demo_row_def)

end
