(* ===== verification/Outbox_Producer.thy ===== *)
theory Outbox_Producer
  imports Outbox_Drain
begin

text \<open>
  The producer the relay publishes with (\<^verbatim>\<open>jetstream_producer.go\<close>,
  \<^verbatim>\<open>produce_batch.go\<close>), and what the relay relies on: an interface of the ways of
  publishing a batch, with one error for every message and a message in the stream for every error
  that is nil.
\<close>

section \<open>Publishing asynchronously\<close>

text \<open>What a \<^verbatim>\<open>select\<close> on a future sees first.\<close>

datatype future_event = GotOk | GotErr goerr | TimedOut | CtxDone goerr | NotYet

text \<open>
  The client library: whether a call fails at once, what the first wait for the \<open>n\<close>-th call sees,
  what a later look at it finds, and whether the server stored a message whose acknowledgement was
  never seen.
\<close>

record js_client =
  refused :: "nat \<Rightarrow> goerr option"
  waited :: "nat \<Rightarrow> future_event"
  looked :: "nat \<Rightarrow> future_event"
  unseen :: "nat \<Rightarrow> bool"

record jetstream = outbox +
  js_calls :: nat
  js_sent :: "(nat \<times> content) list"

definition to_nats_msg :: "producer_event \<Rightarrow> content" where
  "to_nats_msg e = \<lparr>csubject = psubject e, cheaders = header_of (pheaders e), cdata = ppayload e\<rparr>"

definition publish_async ::
  "js_client \<Rightarrow> producer_event \<Rightarrow> 'z jetstream_scheme \<Rightarrow> (goerr + nat) \<times> 'z jetstream_scheme" where
  "publish_async js e w =
     (let n = js_calls w; w1 = w\<lparr>js_calls := Suc n\<rparr> in
      case refused js n of
        Some err \<Rightarrow> (Inl err, w1)
      | None \<Rightarrow> (Inr n, w1\<lparr>js_sent := js_sent w1 @ [(n, to_nats_msg e)]\<rparr>))"

text \<open>The stream holds every message that was acknowledged, and perhaps more.\<close>

definition stored :: "js_client \<Rightarrow> nat \<Rightarrow> bool" where
  "stored js n \<longleftrightarrow> waited js n = GotOk \<or> looked js n = GotOk \<or> unseen js n"

definition in_stream :: "js_client \<Rightarrow> 'z jetstream_scheme \<Rightarrow> content set" where
  "in_stream js w = {m. \<exists>n. (n, m) \<in> set (js_sent w) \<and> stored js n}"

definition await_ack :: "js_client \<Rightarrow> nat \<Rightarrow> goerr option" where
  "await_ack js n =
     (case waited js n of
        GotOk \<Rightarrow> None
      | GotErr e \<Rightarrow> Some e
      | _ \<Rightarrow> Some (Sent DeadlineExceeded))"

definition js_produce ::
  "js_client \<Rightarrow> producer_event \<Rightarrow> 'z jetstream_scheme \<Rightarrow> goerr option \<times> 'z jetstream_scheme" where
  "js_produce js e w =
     (case publish_async js e w of
        (Inl err, w1) \<Rightarrow> (Some err, w1)
      | (Inr n, w1) \<Rightarrow> (await_ack js n, w1))"

section \<open>Publishing a batch\<close>

fun publish_all ::
  "js_client \<Rightarrow> producer_event list \<Rightarrow> 'z jetstream_scheme \<Rightarrow> (goerr + nat) list \<times> 'z jetstream_scheme" where
  "publish_all js [] w = ([], w)"
| "publish_all js (e # es) w =
     (let (r, w1) = publish_async js e w; (rs, w2) = publish_all js es w1 in (r # rs, w2))"

definition settled_future :: "js_client \<Rightarrow> nat \<Rightarrow> goerr option" where
  "settled_future js n =
     (case looked js n of GotOk \<Rightarrow> None | GotErr e \<Rightarrow> Some e | _ \<Rightarrow> Some (Sent DeadlineExceeded))"

text \<open>The second loop: once the timer or the context has ended the wait, futures are only looked at.\<close>

fun await_all :: "js_client \<Rightarrow> bool \<Rightarrow> (goerr + nat) list \<Rightarrow> goerr option list" where
  "await_all js ended [] = []"
| "await_all js ended (Inl e # rs) = Some e # await_all js ended rs"
| "await_all js ended (Inr n # rs) =
     (if ended then settled_future js n # await_all js True rs
      else case waited js n of
             GotOk \<Rightarrow> None # await_all js False rs
           | GotErr e \<Rightarrow> Some e # await_all js False rs
           | CtxDone e \<Rightarrow> Some e # await_all js True rs
           | _ \<Rightarrow> settled_future js n # await_all js True rs)"

definition js_produce_batch ::
  "js_client \<Rightarrow> producer_event list \<Rightarrow> 'z jetstream_scheme \<Rightarrow> goerr option list \<times> 'z jetstream_scheme" where
  "js_produce_batch js events w =
     (let (futures, w1) = publish_all js events w in (await_all js False futures, w1))"

text \<open>The relay with this producer.\<close>

definition on_jetstream ::
  "js_client \<Rightarrow> 'z jetstream_ext relay \<Rightarrow> 'z jetstream_ext relay" where
  "on_jetstream js rl = rl\<lparr>produce := js_produce js, produce_batch := Some (js_produce_batch js)\<rparr>"

section \<open>What the relay relies on\<close>

text \<open>\<open>carried A pack es i\<close>: the \<open>i\<close>-th event is in \<open>A\<close>, as it is or in a frame.\<close>

definition carried :: "content set \<Rightarrow> (producer_event list \<Rightarrow> (producer_event list \<times> nat list list) option)
    \<Rightarrow> producer_event list \<Rightarrow> nat \<Rightarrow> bool" where
  "carried A pack es i \<longleftrightarrow> (case pack es of
      None \<Rightarrow> to_nats_msg (es ! i) \<in> A
    | Some (wire, ms) \<Rightarrow> \<exists>k < length wire. i \<in> set (ms ! k) \<and> to_nats_msg (wire ! k) \<in> A)"

lemma carried_mono: "carried A pack es i \<Longrightarrow> A \<subseteq> B \<Longrightarrow> carried B pack es i"
  by (auto simp: carried_def split: option.splits)

lemma frame_events_covers:
  assumes "frame_events mp sha fr lo mxp events = Some (wire, ms)"
  shows "length wire = length ms" "distinct (concat ms)" "set (concat ms) = {0..<length events}"
proof -
  from assms obtain f where f: "fr = Some f" by (cases fr) (simp_all add: frame_events_def)
  obtain groups opens where g:
    "packing_ok mp f (frame_max_bytes f mxp) events (length events) (groups, opens, True)"
    "wire = map (wire_event sha events) groups" "ms = map members groups"
    by (rule frame_events_packing [OF assms [unfolded f]])
  have mset: "mset (concat ms) = mset [0..<length events]" using g(1,3) by (simp add: packing_ok_def)
  show "length wire = length ms" using g(2,3) by simp
  show "distinct (concat ms)" by (rule mset_eq_imp_distinct_iff [OF mset, THEN iffD2]) simp
  show "set (concat ms) = {0..<length events}" using arg_cong [OF mset, of set_mset] by simp
qed

locale publisher =
  fixes send_all :: "producer_event list \<Rightarrow> 's \<Rightarrow> goerr option list \<times> 's"
    and accepted :: "'s \<Rightarrow> content set"
  assumes one_error_each: "send_all es s = (errs, s') \<Longrightarrow> length errs = length es"
    and nil_is_accepted: "send_all es s = (errs, s') \<Longrightarrow> i < length es \<Longrightarrow> errs ! i = None \<Longrightarrow>
      to_nats_msg (es ! i) \<in> accepted s'"
    and stays_accepted: "send_all es s = (errs, s') \<Longrightarrow> accepted s \<subseteq> accepted s'"
begin

lemma framed_nil_carried:
  assumes "publish_framed (frame_events mp sha fr lo mxp) send_all es s = (errs, s')"
    and "i < length es" "errs ! i = None"
  shows "carried (accepted s') (frame_events mp sha fr lo mxp) es i"
proof (cases "frame_events mp sha fr lo mxp es")
  case None
  then have "send_all es s = (errs, s')" using assms(1) by (simp add: publish_framed_def)
  then show ?thesis using nil_is_accepted assms(2,3) None by (simp add: carried_def)
next
  case (Some packed)
  obtain wire ms where packed: "packed = (wire, ms)" by fastforce
  note covers = frame_events_covers [OF Some [unfolded packed]]
  obtain werrs s1 where sent: "send_all wire s = (werrs, s1)" by fastforce
  have errs: "errs = spread_errs ms 0 werrs (replicate (length es) None)" "s' = s1"
    using assms(1) Some packed sent by (simp_all add: publish_framed_def)
  have "i \<in> set (concat ms)" using covers(3) assms(2) by simp
  then obtain k where k: "k < length ms" "i \<in> set (ms ! k)" by (auto simp: in_set_conv_nth [of _ ms])
  have len: "length werrs = length wire" using one_error_each [OF sent] .
  have "werrs ! k = None"
    using spread_errs_in [OF covers(2) k, of "replicate (length es) None" 0 werrs] errs(1) assms(2,3) k(1) len covers(1)
    by simp
  then have "to_nats_msg (wire ! k) \<in> accepted s'" using nil_is_accepted [OF sent, of k] k(1) covers(1) errs(2) by simp
  then show ?thesis using Some packed k covers(1) by (auto simp: carried_def)
qed

lemma framed_length:
  assumes "publish_framed pack send_all es s = (errs, s')"
  shows "length errs = length es"
  using assms one_error_each by (auto simp: publish_framed_def split: option.splits prod.splits)

lemma framed_stays: "publish_framed pack send_all es s = (errs, s') \<Longrightarrow> accepted s \<subseteq> accepted s'"
  using stays_accepted by (auto simp: publish_framed_def split: option.splits prod.splits)

end

section \<open>The ways the relay publishes\<close>

lemma in_stream_mono: "set (js_sent w) \<subseteq> set (js_sent w') \<Longrightarrow> in_stream js w \<subseteq> in_stream js w'"
  by (auto simp: in_stream_def)

lemma in_stream_cong: "outbox.more w' = outbox.more w \<Longrightarrow> in_stream js w' = in_stream js w"
  by (cases w; cases w') (auto simp: in_stream_def)

lemma publish_all_ok:
  assumes "publish_all js es w = (rs, w')"
  shows "length rs = length es \<and> set (js_sent w) \<subseteq> set (js_sent w') \<and>
    (\<forall>i < length es. \<forall>n. rs ! i = Inr n \<longrightarrow> (n, to_nats_msg (es ! i)) \<in> set (js_sent w'))"
  using assms
proof (induction es arbitrary: w rs)
  case (Cons e es)
  obtain r w1 where r: "publish_async js e w = (r, w1)" by fastforce
  obtain rs' w2 where rs': "publish_all js es w1 = (rs', w2)" by fastforce
  have all: "rs = r # rs'" "w' = w2" using Cons.prems r rs' by simp_all
  have "set (js_sent w) \<subseteq> set (js_sent w1) \<and> (\<forall>n. r = Inr n \<longrightarrow> (n, to_nats_msg e) \<in> set (js_sent w1))"
    using r by (auto simp: publish_async_def Let_def split: option.splits)
  then show ?case using Cons.IH [OF rs' [folded all(2)]] all(1) by (auto simp: less_Suc_eq_0_disj)
qed simp

lemma await_all_ok:
  "length (await_all js ended rs) = length rs \<and>
    (\<forall>i < length rs. await_all js ended rs ! i = None \<longrightarrow> (\<exists>n. rs ! i = Inr n \<and> stored js n))"
proof (induction js ended rs rule: await_all.induct)
  case (3 js ended n rs)
  have look: "settled_future js n = None \<Longrightarrow> stored js n"
    by (auto simp: settled_future_def stored_def split: future_event.splits)
  have wait: "waited js n = GotOk \<Longrightarrow> stored js n" by (simp add: stored_def)
  show ?case using 3 look wait by (cases ended; cases "waited js n") (auto simp: less_Suc_eq_0_disj)
qed (auto simp: less_Suc_eq_0_disj)

interpretation batch: publisher "js_produce_batch js" "in_stream js" for js
proof
  fix es and w :: "'a jetstream_scheme" and errs w' i
  assume sent: "js_produce_batch js es w = (errs, w')"
  obtain rs w1 where rs: "publish_all js es w = (rs, w1)" by fastforce
  have all: "errs = await_all js False rs" "w' = w1" using sent rs by (simp_all add: js_produce_batch_def)
  note ok = publish_all_ok [OF rs] and acks = await_all_ok [of js False rs]
  show "length errs = length es" using ok acks all by simp
  show "in_stream js w \<subseteq> in_stream js w'" using ok all by (simp add: in_stream_mono)
  assume i: "i < length es" "errs ! i = None"
  then obtain n where "rs ! i = Inr n" "stored js n" using ok acks all(1) by auto
  then show "to_nats_msg (es ! i) \<in> in_stream js w'" using ok all(2) i(1) by (auto simp: in_stream_def)
qed

interpretation pass: publisher "produce_all (on_jetstream js rl)" "in_stream js" for js rl
  using batch.publisher_axioms by (simp add: produce_all_def on_jetstream_def publisher_def)

interpretation drain: publisher "publish_within (on_jetstream js rl) env" "in_stream js" for js rl env
proof
  fix es and w :: "'a jetstream_scheme" and errs w' i
  assume sent: "publish_within (on_jetstream js rl) env es w = (errs, w')"
  let ?late = "replicate (length es) (Some (Sent DeadlineExceeded))"
  obtain got w1 where got: "js_produce_batch js es (w\<lparr>steps := Suc (steps w)\<rparr>) = (got, w1)" by fastforce
  have all: "errs = (if arrived_at env (steps w) 0 then copy_errs ?late got else ?late)" "w' = w1"
    using sent got by (auto simp: publish_within_def on_jetstream_def tick_def Let_def)
  show "length errs = length es" using all(1) by (simp add: copy_errs_def)
  show "in_stream js w \<subseteq> in_stream js w'" using batch.stays_accepted [OF got] all(2) by (simp add: in_stream_def)
  assume i: "i < length es" "errs ! i = None"
  then have "got ! i = None" using all(1) batch.one_error_each [OF got] by (auto simp: copy_errs_def split: if_splits)
  then show "to_nats_msg (es ! i) \<in> in_stream js w'" using batch.nil_is_accepted [OF got i(1)] all(2) by simp
qed

end
