(* ===== verification/Outbox_Process.thy ===== *)
theory Outbox_Process
  imports Outbox_Producer
begin

text \<open>
  The path for tables without the columns of the second schema (\<^verbatim>\<open>claim_legacy.go\<close>,
  \<^verbatim>\<open>processBatch\<close> in \<^verbatim>\<open>relay.go\<close>), the choice between the three paths
  (\<^verbatim>\<open>process\<close> in \<^verbatim>\<open>relay_batched.go\<close>), the cleanup
  (\<^verbatim>\<open>cleanup_batched.go\<close>) and the operator calls of the store.
\<close>

section \<open>The path of the first schema\<close>

definition decode_legacy :: "outbox_row \<Rightarrow> relay_event" where
  "decode_legacy r = \<lparr>event_id = rid r, topic = rtopic r, payload = rpayload r, hdrs = [], attempts = 0,
     created_at = rcreated r\<rparr>"

text \<open>A negative limit is none, as \<^verbatim>\<open>gorm\<close> has it.\<close>

definition limit_rows :: "int \<Rightarrow> 'a list \<Rightarrow> 'a list" where
  "limit_rows n xs = (if n < 0 then xs else take (nat n) xs)"

definition legacy_events ::
  "relay_env \<Rightarrow> config \<Rightarrow> schema_caps \<Rightarrow> int \<Rightarrow> int \<Rightarrow> (string \<Rightarrow> bool) \<Rightarrow> outbox_row list \<Rightarrow> relay_event list" where
  "legacy_events env cfg cp before now locked rs =
     (let P = (\<lambda>r. if V2 cp then due now r \<or> stalled before r else rstate r = StatePending \<or> stalled before r)
      in map (if V2 cp then decode_row env else decode_legacy)
           (limit_rows (BatchSize cfg) (sort_key rcreated (filter (\<lambda>r. P r \<and> \<not> locked (rid r)) rs))))"

definition mark_in_flight :: "relay_env \<Rightarrow> relay_event list \<Rightarrow> nat \<Rightarrow> database \<Rightarrow> database" where
  "mark_in_flight env events k d = d\<lparr>rows := on_ids (event_id ` set events)
     (\<lambda>r. r\<lparr>rstate := StateInFlight, rupdated := touched_at env k (rupdated r)\<rparr>) (rows d)\<rparr>"

definition legacy_body ::
  "relay_env \<Rightarrow> config \<Rightarrow> schema_caps \<Rightarrow> 'z outbox_scheme \<Rightarrow> (goerr + relay_event list) \<times> 'z outbox_scheme" where
  "legacy_body env cfg cp w =
     (let (n, w1) = tick w; (m, w2) = tick w1; (l, w3) = tick w2 in
      case db_err env l of
        Some e \<Rightarrow> (Inl e, w3)
      | None \<Rightarrow>
          let events = legacy_events env cfg cp (now_at env n - StallThreshold cfg) (now_at env m)
                (locked_at env l) (rows (db w3))
          in if events = [] then (Inr [], w3)
             else (case exec env (mark_in_flight env events) w3 of
                     (Some e, w4) \<Rightarrow> (Inl e, w4)
                   | (None, w4) \<Rightarrow> (Inr events, w4)))"

definition claim_legacy ::
  "relay_env \<Rightarrow> config \<Rightarrow> schema_caps \<Rightarrow> 'z outbox_scheme \<Rightarrow> (goerr + relay_event list) \<times> 'z outbox_scheme" where
  "claim_legacy env cfg cp = transaction env (legacy_body env cfg cp)"

text \<open>
  The results of the goroutines, in the order they come in; every one is waited for, so the positions
  the schedule does not name come last.
\<close>

definition schedule :: "nat list \<Rightarrow> nat \<Rightarrow> nat list" where
  "schedule ixs n = (let ys = filter (\<lambda>i. i < n) (remdups ixs) in ys @ filter (\<lambda>i. i \<notin> set ys) [0..<n])"

fun publish_each ::
  "'z relay \<Rightarrow> (string \<rightharpoonup> nat) \<Rightarrow> relay_event list \<Rightarrow> nat list \<Rightarrow> 'z outbox_scheme \<Rightarrow> outcome list \<times> 'z outbox_scheme" where
  "publish_each rl latest events [] w = ([], w)"
| "publish_each rl latest events (i # ixs) w =
     (let ev = events ! i;
          (err, w1) = (if superseded latest i ev then (None, w)
            else case traced_producer_event rl ev of Inl e \<Rightarrow> (Some e, w) | Inr pe \<Rightarrow> produce rl pe w);
          (os, w2) = publish_each rl latest events ixs w1
      in ((event_id ev, err) # os, w2))"

definition publish_single ::
  "'z relay \<Rightarrow> relay_env \<Rightarrow> relay_event list \<Rightarrow> 'z outbox_scheme \<Rightarrow> outcome list \<times> 'z outbox_scheme" where
  "publish_single rl env events w =
     (let (latest, dropped) = relay_latest_indexes (latest_only rl) events;
          w1 = (case dropped of None \<Rightarrow> w | Some n \<Rightarrow> observe rl [OnSuperseded n] w);
          (n, w2) = tick w1
      in publish_each rl latest events (schedule (order_at env n) (length events)) w2)"

definition process_single :: "'z relay \<Rightarrow> relay_env \<Rightarrow> 'z outbox_scheme \<Rightarrow> 'z outbox_scheme" where
  "process_single rl env w =
     (let (p, w0) = tick w in
      if paused_at env p then w0
      else
        let (cp, w1) = ensure_caps env w0 in
        case (if ClaimV2 (config rl) \<and> V2 cp then claim_batch_v2 env (config rl) w1
              else claim_legacy env (config rl) cp w1) of
          (Inl e, w2) \<Rightarrow> w2
        | (Inr events, w2) \<Rightarrow>
            if events = [] then w2
            else let (os, w3) = publish_single rl env events w2
                 in settle_outcomes rl env cp events (successes os) (failures os) w3)"

section \<open>Which path\<close>

partial_function (option) batched_loop ::
  "'z relay \<Rightarrow> relay_env \<Rightarrow> schema_caps \<Rightarrow> 'z outbox_scheme \<Rightarrow> 'z outbox_scheme option" where
  "batched_loop rl env cp w =
     (let (again, w1) = process_batched rl env cp w in
      if \<not> again then Some w1
      else let (m, w2) = tick w1 in
        if done_at env m then Some w2
        else let (p, w3) = tick w2 in if paused_at env p then Some w3 else batched_loop rl env cp w3)"

definition process :: "'z relay \<Rightarrow> relay_env \<Rightarrow> 'z outbox_scheme \<Rightarrow> 'z outbox_scheme option" where
  "process rl env w =
     (let (active, w1) = tx_drain_active rl env w in
      if active then process_tx_drain rl env w1
      else if \<not> Batched (config rl) then Some (process_single rl env w1)
      else
        let (cp, w2) = ensure_caps env w1 in
        if \<not> V2 cp then Some (process_single rl env w2) else batched_loop rl env cp w2)"

section \<open>Cleaning up\<close>

definition expired :: "outbox_state \<Rightarrow> int \<Rightarrow> outbox_row \<Rightarrow> bool" where
  "expired st before r \<longleftrightarrow> rstate r = st \<and> rupdated r < before"

fun drop_first :: "nat \<Rightarrow> ('a \<Rightarrow> bool) \<Rightarrow> 'a list \<Rightarrow> 'a list" where
  "drop_first n P [] = []"
| "drop_first n P (x # xs) =
     (if n > 0 \<and> P x then drop_first (n - 1) P xs else x # drop_first n P xs)"

definition cleanup_done :: "'z relay \<Rightarrow> relay_env \<Rightarrow> 'z outbox_scheme \<Rightarrow> 'z outbox_scheme" where
  "cleanup_done rl env w =
     (let cfg = config rl; (n, w1) = tick w;
          w2 = snd (exec env (\<lambda>_ d. d\<lparr>rows := filter (\<lambda>r. \<not> expired StateDone (now_at env n - DeleteOlderThan cfg) r) (rows d)\<rparr>) w1)
      in if RetainParked cfg \<le> 0 then w2
         else let (m, w3) = tick w2 in
           snd (exec env (\<lambda>_ d. d\<lparr>rows := filter (\<lambda>r. \<not> expired StateParked (now_at env m - RetainParked cfg) r) (rows d)\<rparr>) w3))"

partial_function (option) cleanup_state ::
  "relay_env \<Rightarrow> int \<Rightarrow> outbox_state \<Rightarrow> int \<Rightarrow> 'z outbox_scheme \<Rightarrow> 'z outbox_scheme option" where
  "cleanup_state env batch st before w =
     (case exec env (\<lambda>_ d. d\<lparr>rows := drop_first (nat batch) (expired st before) (rows d)\<rparr>) w of
        (Some e, w1) \<Rightarrow> Some w1
      | (None, w1) \<Rightarrow>
          let deleted = length (rows (db w)) - length (rows (db w1)) in
          if int deleted < batch then Some w1
          else let (m, w2) = tick w1 in
            if done_at env m then Some w2 else cleanup_state env batch st before w2)"

definition cleanup_batched :: "'z relay \<Rightarrow> relay_env \<Rightarrow> 'z outbox_scheme \<Rightarrow> 'z outbox_scheme option" where
  "cleanup_batched rl env w =
     (let cfg = config rl; (n, w1) = tick w in
      case cleanup_state env (CleanupBatch cfg) StateDone (now_at env n - DeleteOlderThan cfg) w1 of
        None \<Rightarrow> None
      | Some w2 \<Rightarrow>
          if RetainParked cfg \<le> 0 then Some w2
          else let (m, w3) = tick w2 in
            cleanup_state env (CleanupBatch cfg) StateParked (now_at env m - RetainParked cfg) w3)"

text \<open>\<open>cleaning\<close>: the cleanup before is still running in the background.\<close>

definition cleanup :: "bool \<Rightarrow> 'z relay \<Rightarrow> relay_env \<Rightarrow> 'z outbox_scheme \<Rightarrow> 'z outbox_scheme option" where
  "cleanup cleaning rl env w =
     (if CleanupBatch (config rl) \<le> 0 then Some (cleanup_done rl env w)
      else if cleaning then Some w
      else cleanup_batched rl env w)"

section \<open>The operator's calls\<close>

record stats =
  nPending :: nat
  nInFlight :: nat
  nDone :: nat
  nParked :: nat
  OldestPendingAge :: int

definition in_state :: "outbox_state \<Rightarrow> outbox_row list \<Rightarrow> outbox_row list" where
  "in_state st = filter (\<lambda>r. rstate r = st)"

definition store_stats :: "relay_env \<Rightarrow> 'z outbox_scheme \<Rightarrow> (goerr + stats) \<times> 'z outbox_scheme" where
  "store_stats env w =
     (let (n, w1) = tick w in
      case db_err env n of
        Some e \<Rightarrow> (Inl e, w1)
      | None \<Rightarrow>
          let rs = rows (db w1); (m, w2) = tick w1 in
          (case db_err env m of
             Some e \<Rightarrow> (Inl e, w2)
           | None \<Rightarrow>
               let (k, w3) = tick w2;
                   age = (case map rcreated (in_state StatePending (rows (db w2))) of
                       [] \<Rightarrow> 0 | t # ts \<Rightarrow> now_at env k - fold min ts t)
               in (Inr \<lparr>nPending = length (in_state StatePending rs), nInFlight = length (in_state StateInFlight rs),
                        nDone = length (in_state StateDone rs), nParked = length (in_state StateParked rs),
                        OldestPendingAge = age\<rparr>, w3)))"

record pending_stats =
  pPending :: int
  Capped :: bool
  pOldestAge :: int

definition pending_gauge_cap :: int where "pending_gauge_cap = 10000"

text \<open>The database's own clock is a reading of \<open>now_at\<close> too.\<close>

definition store_pending_stats :: "relay_env \<Rightarrow> 'z outbox_scheme \<Rightarrow> (goerr + pending_stats) \<times> 'z outbox_scheme" where
  "store_pending_stats env w =
     (let (n, w1) = tick w in
      case db_err env n of
        Some e \<Rightarrow> (Inl e, w1)
      | None \<Rightarrow>
          let ps = in_state StatePending (rows (db w1));
              p = min (int (length ps)) (pending_gauge_cap + 1);
              age = (case sort_key rcreated ps of
                  [] \<Rightarrow> 0 | r # _ \<Rightarrow> if now_at env n > rcreated r then now_at env n - rcreated r else 0)
          in (Inr \<lparr>pPending = (if p > pending_gauge_cap then pending_gauge_cap else p),
                   Capped = p > pending_gauge_cap, pOldestAge = age\<rparr>, w1))"

section \<open>The cleanup ends\<close>

lemma drop_first_kept: "filter (\<lambda>x. \<not> P x) (drop_first n P xs) = filter (\<lambda>x. \<not> P x) xs"
  by (induction n P xs rule: drop_first.induct) auto

lemma drop_first_length: "length xs - length (drop_first n P xs) = min n (length (filter P xs))"
proof -
  have "length xs = length (drop_first n P xs) + min n (length (filter P xs))"
  proof (induction xs arbitrary: n)
    case (Cons x xs)
    show ?case using Cons.IH [of n] Cons.IH [of "n - 1"] by (cases n) simp_all
  qed simp
  then show ?thesis by linarith
qed

lemma drop_first_all: "length (filter P xs) \<le> n \<Longrightarrow> drop_first n P xs = filter (\<lambda>x. \<not> P x) xs"
  by (induction n P xs rule: drop_first.induct) auto

text \<open>
  A cleanup ends, and takes nothing but expired rows of its state; when the database does not fail and
  the relay is not stopped meanwhile, it takes all of them.
\<close>
theorem cleanup_state_ends:
  assumes "0 < batch"
  shows "\<exists>w'. cleanup_state env batch st before w = Some w' \<and>
    filter (\<lambda>r. \<not> expired st before r) (rows (db w')) = filter (\<lambda>r. \<not> expired st before r) (rows (db w)) \<and>
    (db_err env = (\<lambda>_. None) \<and> done_at env = (\<lambda>_. False) \<longrightarrow>
       rows (db w') = filter (\<lambda>r. \<not> expired st before r) (rows (db w)))"
proof (induction "length (rows (db w))" arbitrary: w rule: less_induct)
  case less
  let ?upd = "\<lambda>n d. d\<lparr>rows := drop_first (nat batch) (expired st before) (rows d)\<rparr>"
  let ?old = "filter (expired st before) (rows (db w))"
  obtain e w1 where x: "exec env ?upd w = (e, w1)" by fastforce
  show ?case
  proof (cases e)
    case (Some err)
    then show ?thesis using x
      by (subst cleanup_state.simps) (auto simp: exec_def tick_def split: option.splits)
  next
    case None
    then have rows1: "rows (db w1) = drop_first (nat batch) (expired st before) (rows (db w))"
      using x by (auto simp: exec_def tick_def split: option.splits)
    have gone: "length (rows (db w)) - length (rows (db w1)) = min (nat batch) (length ?old)"
      by (simp add: rows1 drop_first_length)
    show ?thesis
    proof (cases "int (length ?old) < batch")
      case True
      then have "int (length (rows (db w)) - length (rows (db w1))) < batch" using gone by simp
      moreover have "rows (db w1) = filter (\<lambda>r. \<not> expired st before r) (rows (db w))"
        unfolding rows1 by (rule drop_first_all) (use True in simp)
      ultimately show ?thesis using x None by (subst cleanup_state.simps) simp
    next
      case False
      then have full: "\<not> int (length (rows (db w)) - length (rows (db w1))) < batch" using gone assms by simp
      let ?w2 = "w1\<lparr>steps := Suc (steps w1)\<rparr>"
      have c: "cleanup_state env batch st before w =
          (if done_at env (steps w1) then Some ?w2 else cleanup_state env batch st before ?w2)"
        using x None full by (subst cleanup_state.simps) (simp add: tick_def)
      have "length (rows (db ?w2)) < length (rows (db w))" using full assms gone by auto
      from less.hyps [OF this] show ?thesis unfolding c using drop_first_kept [of "expired st before"] rows1 by auto
    qed
  qed
qed

theorem cleanup_state_ends_witness:
  "\<exists>w'. cleanup_state demo_env 10 StateDone 100 demo_world = Some w' \<and> length (rows (db w')) = 2"
proof -
  obtain w' where w': "cleanup_state demo_env 10 StateDone 100 demo_world = Some w'"
    "rows (db w') = filter (\<lambda>r. \<not> expired StateDone 100 r) (rows (db demo_world))"
    using cleanup_state_ends [of 10 demo_env StateDone 100 demo_world] by (auto simp: demo_env_def)
  then show ?thesis by (simp add: demo_world_def demo_row_def expired_def)
qed

end
