(* ===== verification/Outbox_Delivery.thy ===== *)
theory Outbox_Delivery
  imports Outbox_Process
begin

text \<open>
  What the relay promises: however it comes to process the table, an event leaves it only when its
  message, or the frame that carries it, is in the stream, or when a later event of its subject
  superseded it.
\<close>

section \<open>Operations that publish nothing\<close>

definition steady :: "'z outbox_scheme \<Rightarrow> 'z outbox_scheme \<Rightarrow> bool" where
  "steady w w' \<longleftrightarrow> outbox.more w' = outbox.more w \<and> (keyed (db w) \<longrightarrow> keyed (db w'))"

named_theorems steady_intros "operations that publish nothing and keep the primary key"

lemma steady_refl [simp, steady_intros]: "steady w w"
  by (simp add: steady_def)

lemma steady_trans [trans]: "steady w w' \<Longrightarrow> steady w' w'' \<Longrightarrow> steady w w''"
  by (simp add: steady_def)

lemma steady_tick [simp, steady_intros]: "steady w (snd (tick w))"
  by (simp add: steady_def tick_def)

lemma steady_steps [simp]: "steady w (w\<lparr>steps := n\<rparr>)"
  by (simp add: steady_def)

lemma steady_observe [simp, steady_intros]: "steady w (observe rl os w)"
  by (simp add: steady_def observe_def)

lemma steady_exec [steady_intros]:
  "(\<And>n. keyed (db w) \<Longrightarrow> keyed (upd n (db w))) \<Longrightarrow> steady w (snd (exec env upd w))"
  by (simp add: steady_def exec_def tick_def split: option.split)

lemma keyed_on_ids [steady_intros]:
  "(\<And>r. rid (f r) = rid r) \<Longrightarrow> keyed d \<Longrightarrow> keyed (d\<lparr>rows := on_ids ids f (rows d)\<rparr>)"
  by (simp add: keyed_def map_rid_on_ids)

lemma keyed_filter [steady_intros]: "keyed d \<Longrightarrow> keyed (d\<lparr>rows := filter P (rows d)\<rparr>)"
  by (simp add: keyed_def distinct_map_filter)

lemma keyed_without [steady_intros]: "keyed d \<Longrightarrow> keyed (d\<lparr>rows := without_ids ids (rows d)\<rparr>)"
  by (simp add: without_ids_def keyed_filter)

lemma keyed_retries [simp]: "keyed (d\<lparr>retries := x\<rparr>) = keyed d"
  by (simp add: keyed_def)

lemma steady_transaction:
  assumes "\<And>w r w'. body w = (r, w') \<Longrightarrow> steady w w'"
  shows "steady w (snd (transaction env body w))"
proof -
  obtain r w2 where b: "body (w\<lparr>steps := Suc (steps w)\<rparr>) = (r, w2)" by fastforce
  from assms [OF this] have "steady w w2" by (simp add: steady_def)
  then show ?thesis using b
    by (cases r) (auto simp: transaction_def tick_def steady_def split: option.split)
qed

lemma steady_caps: "ensure_caps env w = (c, w') \<Longrightarrow> steady w w'"
  by (auto simp: ensure_caps_def caps_get_def tick_def Let_def steady_def split: prod.splits sum.splits option.splits if_splits)

lemma caps_quiet: "ensure_caps env w = (c, w') \<Longrightarrow> outbox.more w' = outbox.more w \<and> db w' = db w"
  using steady_caps ensure_caps_db unfolding steady_def by blast

lemma steady_reclaim [simp]: "steady w (reclaim_when_due env cfg now w)"
proof -
  have "steady (w\<lparr>last_reclaim := Some now\<rparr>) (reclaim_stalled env cfg now (w\<lparr>last_reclaim := Some now\<rparr>))"
    unfolding reclaim_stalled_def Let_def by (rule steady_exec, rule keyed_on_ids) simp_all
  then show ?thesis by (simp add: reclaim_when_due_def steady_def)
qed

section \<open>The events of a claim\<close>

text \<open>An event is that of a row of the table.\<close>

definition event_of :: "outbox_row \<Rightarrow> relay_event \<Rightarrow> bool" where
  "event_of r ev \<longleftrightarrow> event_id ev = rid r \<and> topic ev = rtopic r \<and> payload ev = rpayload r"

lemma event_of_decode [simp]: "event_of r (decode_row env s) = event_of r (decode_legacy s)"
  by (simp add: event_of_def decode_row_def decode_legacy_def)

lemma event_of_same: "same_event r s \<Longrightarrow> event_of r (decode_legacy s)"
  by (simp add: event_of_def decode_legacy_def same_event_def)

definition from_table :: "database \<Rightarrow> relay_event list \<Rightarrow> bool" where
  "from_table d events \<longleftrightarrow> (\<forall>ev \<in> set events. \<exists>r \<in> set (rows d). event_of r ev)"

lemma claim_rows_from:
  assumes "claim_rows env cfg now P w = (Inr rs, w')"
  shows "from_table (db w) (map (decode_row env) rs) \<and> steady w w'"
proof -
  have "\<exists>ids f. set rs = set (with_ids ids (on_ids ids f (rows (db w)))) \<and> (\<forall>r. same_event r (f r)) \<and>
      db w' = (db w)\<lparr>rows := on_ids ids f (rows (db w))\<rparr> \<and> outbox.more w' = outbox.more w"
    using assms
    by (auto simp: claim_rows_def tick_def Let_def same_event_def split: option.splits
        intro!: exI [of _ "\<lambda>r. r\<lparr>rstate := StateInFlight, rupdated := now\<rparr>"])
  then obtain ids f where f: "set rs = set (with_ids ids (on_ids ids f (rows (db w))))" "\<And>r. same_event r (f r)"
      "db w' = (db w)\<lparr>rows := on_ids ids f (rows (db w))\<rparr>" "outbox.more w' = outbox.more w" by blast
  have "\<exists>r \<in> set (rows (db w)). event_of r (decode_row env s)" if s: "s \<in> set rs" for s
  proof -
    obtain r where "r \<in> set (rows (db w))" "s = r \<or> s = f r"
      using s f(1) by (auto simp: with_ids_def on_ids_def split: if_splits)
    moreover from this have "same_event r s" using f(2) [of r] by auto
    ultimately show ?thesis using event_of_same by auto
  qed
  moreover have "rid (f r) = rid r" for r using f(2) [of r] by (simp add: same_event_def)
  ultimately show ?thesis using f(3,4) keyed_on_ids [of f "db w" ids] by (simp add: from_table_def steady_def)
qed

lemma steady_claim_rows: "steady w (snd (claim_rows env cfg now P w))"
proof -
  obtain r w' where c: "claim_rows env cfg now P w = (r, w')" by fastforce
  show ?thesis
  proof (cases r)
    case (Inl e)
    then show ?thesis using c by (auto simp: claim_rows_def tick_def Let_def steady_def split: option.splits)
  next
    case (Inr rs)
    then show ?thesis using claim_rows_from [OF c [unfolded Inr]] c by simp
  qed
qed

text \<open>Every row of a table was in the table before.\<close>

definition no_new_rows :: "database \<Rightarrow> database \<Rightarrow> bool" where
  "no_new_rows d d' \<longleftrightarrow> (\<forall>r' \<in> set (rows d'). \<exists>r \<in> set (rows d). same_event r r')"

lemma from_table_before: "from_table d' events \<Longrightarrow> no_new_rows d d' \<Longrightarrow> from_table d events"
  unfolding from_table_def no_new_rows_def event_of_def same_event_def by metis

lemma no_new_reclaim: "no_new_rows (db w) (db (reclaim_when_due env cfg now w))"
proof -
  have "no_new_rows d (d\<lparr>rows := on_ids ids (\<lambda>r. r\<lparr>rstate := StatePending, rupdated := now\<rparr>) (rows d)\<rparr>)" for d ids
    by (auto simp: no_new_rows_def on_ids_def same_event_def)
  moreover have "no_new_rows d d" for d by (auto simp: no_new_rows_def intro: same_event_refl)
  ultimately show ?thesis
    by (simp add: reclaim_when_due_def reclaim_stalled_def exec_def tick_def Let_def split: option.split)
qed

lemma transaction_fst:
  assumes "transaction env body w = (Inr x, w')"
  shows "\<exists>w2. body (w\<lparr>steps := Suc (steps w)\<rparr>) = (Inr x, w2)"
  by (rule transaction_Inr [OF assms]) (simp add: tick_def)

lemma claim_v2_from:
  assumes "claim_batch_v2 env cfg w = (r, w')"
  shows "steady w w' \<and> (case r of Inl e \<Rightarrow> True | Inr events \<Rightarrow> from_table (db w) events)"
proof -
  let ?now = "now_at env (steps w)"
  let ?w = "reclaim_when_due env cfg ?now (w\<lparr>steps := Suc (steps w)\<rparr>)"
  let ?body = "\<lambda>w :: 'a outbox_scheme. case claim_rows env cfg ?now (due ?now) w of
             (Inl e, w') \<Rightarrow> (Inl e, w')
           | (Inr rs, w') \<Rightarrow>
               let (m, w'') = tick w' in
               if expired_at env m then (Inl (Sent DeadlineExceeded), w'') else (Inr rs, w'')"
  obtain q w3 where t: "transaction env ?body ?w = (q, w3)" by fastforce
  have c: "claim_batch_v2 env cfg w = (case q of Inl e \<Rightarrow> (Inl e, w3) | Inr rs \<Rightarrow> (Inr (map (decode_row env) rs), w3))"
    using t by (simp add: claim_batch_v2_def tick_def Let_def split: sum.split)
  have "steady v v'" if "?body v = (q, v')" for v v' q
  proof -
    obtain q1 v1 where c1: "claim_rows env cfg ?now (due ?now) v = (q1, v1)" by fastforce
    have "steady v v1" using steady_claim_rows [of v env cfg ?now "due ?now"] c1 by simp
    moreover have "v' = v1 \<or> v' = snd (tick v1)" using that c1
      by (cases q1) (auto simp: tick_def split: if_splits)
    ultimately show ?thesis using steady_trans steady_tick by blast
  qed
  then have "steady ?w (snd (transaction env ?body ?w))" by (rule steady_transaction)
  then have "steady ?w w3" using t by simp
  then have st: "steady w w3" using steady_reclaim steady_steps steady_trans by blast
  show ?thesis
  proof (cases q)
    case (Inl e)
    then show ?thesis using c assms st by simp
  next
    case (Inr rs)
    obtain w4 where "?body (?w\<lparr>steps := Suc (steps ?w)\<rparr>) = (Inr rs, w4)" using transaction_fst [OF t [unfolded Inr]] by blast
    then obtain w5 where "claim_rows env cfg ?now (due ?now) (?w\<lparr>steps := Suc (steps ?w)\<rparr>) = (Inr rs, w5)"
      by (auto simp: tick_def split: prod.splits sum.splits if_splits)
    from claim_rows_from [OF this] have "from_table (db ?w) (map (decode_row env) rs)" by simp
    then have "from_table (db w) (map (decode_row env) rs)"
      using from_table_before no_new_reclaim [of "w\<lparr>steps := Suc (steps w)\<rparr>" env cfg ?now] by simp
    then show ?thesis using c assms st Inr by simp
  qed
qed

lemma claim_batch_from:
  assumes "claim_batch env cfg w = (r, w')"
  shows "steady w w' \<and> (case r of Inl e \<Rightarrow> True | Inr events \<Rightarrow> from_table (db w) events)"
proof (cases "ClaimV2 cfg")
  case True
  then show ?thesis using claim_v2_from assms by (simp add: claim_batch_def)
next
  case False
  let ?w = "w\<lparr>steps := Suc (steps w)\<rparr>"
  let ?P = "\<lambda>r. due (now_at env (steps w)) r \<or> stalled (now_at env (steps w) - StallThreshold cfg) r"
  obtain q w2 where q: "claim_rows env cfg (now_at env (steps w)) ?P ?w = (q, w2)" by fastforce
  have "steady ?w w2" using steady_claim_rows [of ?w env cfg "now_at env (steps w)" ?P] q by simp
  then have "steady w w2" using steady_steps steady_trans by blast
  then show ?thesis using assms False q claim_rows_from [of env cfg "now_at env (steps w)" ?P ?w _ w2]
    by (cases q) (auto simp: claim_batch_def tick_def Let_def)
qed

lemma legacy_events_from: "from_table d (legacy_events env cfg cp before now locked (rows d))"
proof -
  have sub: "set (limit_rows k xs) \<subseteq> set xs" for k and xs :: "outbox_row list"
    by (auto simp: limit_rows_def dest: in_set_takeD)
  have "\<exists>r \<in> set (rows d). event_of r (if V2 cp then decode_row env s else decode_legacy s)"
    if "s \<in> set (limit_rows k (sort_key rcreated (filter Q (rows d))))" for s k Q
  proof (rule bexI)
    show "event_of s (if V2 cp then decode_row env s else decode_legacy s)"
      using event_of_same [OF same_event_refl] by simp
    show "s \<in> set (rows d)" using sub that by fastforce
  qed
  then show ?thesis unfolding from_table_def legacy_events_def Let_def by (auto split: if_splits)
qed

lemma legacy_body_from:
  assumes "legacy_body env cfg cp w = (r, w')"
  shows "steady w w' \<and> (case r of Inl e \<Rightarrow> True | Inr events \<Rightarrow> from_table (db w) events)"
proof (cases "db_err env (Suc (Suc (steps w)))")
  case (Some e)
  then show ?thesis using assms by (auto simp: legacy_body_def tick_def steady_def)
next
  case None
  let ?w3 = "w\<lparr>steps := Suc (Suc (Suc (steps w)))\<rparr>"
  define events where "events = legacy_events env cfg cp (now_at env (steps w) - StallThreshold cfg)
    (now_at env (Suc (steps w))) (locked_at env (Suc (Suc (steps w)))) (rows (db w))"
  obtain e w4 where x: "exec env (mark_in_flight env events) ?w3 = (e, w4)" by fastforce
  have "legacy_body env cfg cp w = (if events = [] then (Inr [], ?w3)
      else case e of Some e \<Rightarrow> (Inl e, w4) | None \<Rightarrow> (Inr events, w4))"
    using None x by (simp add: legacy_body_def tick_def events_def [symmetric] split: option.split)
  moreover have "steady ?w3 (snd (exec env (mark_in_flight env events) ?w3))"
    unfolding mark_in_flight_def by (rule steady_exec, rule keyed_on_ids) simp_all
  then have "steady w w4" using x steady_trans [OF steady_steps] by simp
  moreover have "from_table (db w) events" unfolding events_def by (rule legacy_events_from)
  ultimately show ?thesis using assms
    by (auto simp: from_table_def split: if_splits option.splits)
qed

lemma claim_legacy_from:
  assumes "claim_legacy env cfg cp w = (r, w')"
  shows "steady w w' \<and> (case r of Inl e \<Rightarrow> True | Inr events \<Rightarrow> from_table (db w) events)"
proof -
  have "steady w (snd (transaction env (legacy_body env cfg cp) w))"
    by (rule steady_transaction) (use legacy_body_from in blast)
  moreover have "from_table (db w) events" if r: "r = Inr events" for events
  proof -
    obtain w2 where "legacy_body env cfg cp (w\<lparr>steps := Suc (steps w)\<rparr>) = (Inr events, w2)"
      using transaction_fst [OF assms [unfolded claim_legacy_def r]] by blast
    from legacy_body_from [OF this] show ?thesis by simp
  qed
  ultimately show ?thesis using assms by (simp add: claim_legacy_def split: sum.split)
qed


section \<open>Where an event went\<close>

definition relay_frames :: "'z relay \<Rightarrow> producer_event list \<Rightarrow> (producer_event list \<times> nat list list) option" where
  "relay_frames rl = frame_events (packer rl) (sha256 rl) (rframes rl) (latest_only rl) (max_payload rl)"

text \<open>The message of the event, or the frame that carries it, is in the stream.\<close>

definition delivered :: "'z relay \<Rightarrow> content set \<Rightarrow> relay_event \<Rightarrow> bool" where
  "delivered rl A ev \<longleftrightarrow> (\<exists>pe. traced_producer_event rl ev = Inr pe \<and>
     (to_nats_msg pe \<in> A \<or> (\<exists>pevs i. i < length pevs \<and> pevs ! i = pe \<and> carried A (relay_frames rl) pevs i)))"

text \<open>A batch had a later event of the same latest-only subject.\<close>

definition superseded_once :: "'z relay \<Rightarrow> relay_event \<Rightarrow> bool" where
  "superseded_once rl ev \<longleftrightarrow> (\<exists>events i. i < length events \<and> events ! i = ev \<and>
     superseded (latest_indexes events (latest_only rl)) i ev)"

definition settled_event :: "'z relay \<Rightarrow> content set \<Rightarrow> relay_event \<Rightarrow> bool" where
  "settled_event rl A ev \<longleftrightarrow> delivered rl A ev \<or> superseded_once rl ev"

lemma settled_mono: "settled_event rl A ev \<Longrightarrow> A \<subseteq> B \<Longrightarrow> settled_event rl B ev"
  unfolding settled_event_def delivered_def using carried_mono by blast

lemma sent_at:
  "(i, pe) \<in> set (sent rl latest events) \<Longrightarrow> traced_producer_event rl (events ! i) = Inr pe"
  by (auto simp: sent_def List.map_filter_def to_send_def split: if_splits sum.splits)

locale relay_publisher = publisher send_all accepted
  for send_all :: "producer_event list \<Rightarrow> 'z outbox_scheme \<Rightarrow> goerr option list \<times> 'z outbox_scheme"
    and accepted :: "'z outbox_scheme \<Rightarrow> content set" +
  assumes of_stream: "outbox.more w' = outbox.more w \<Longrightarrow> accepted w' = accepted w"
begin

lemma accepted_steady: "steady w w' \<Longrightarrow> accepted w' = accepted w"
  by (rule of_stream) (simp add: steady_def)

lemma published_stays:
  assumes "publish_events rl send_all events w = (os, w')"
  shows "accepted w \<subseteq> accepted w'"
proof -
  obtain latest dropped where l: "relay_latest_indexes (latest_only rl) events = (latest, dropped)" by fastforce
  define w0 where "w0 = (case dropped of None \<Rightarrow> w | Some n \<Rightarrow> observe rl [OnSuperseded n] w)"
  have w0: "accepted w0 = accepted w" unfolding w0_def by (cases dropped) (simp_all add: accepted_steady)
  obtain errs w2 where f: "publish_framed (relay_frames rl) send_all (map snd (sent rl latest events)) w0 = (errs, w2)"
    by fastforce
  have "w' = (if map snd (sent rl latest events) = [] then w0 else w2)"
    using assms l f by (auto simp: publish_events_def prepare_sent Let_def w0_def relay_frames_def)
  then show ?thesis using framed_stays [OF f] w0 by auto
qed

lemma published_settled:
  assumes "publish_events rl send_all events w = (os, w')" "i < length events" "snd (os ! i) = None"
  shows "settled_event rl (accepted w') (events ! i)"
proof -
  obtain latest dropped where l: "relay_latest_indexes (latest_only rl) events = (latest, dropped)" by fastforce
  then have latest: "latest = latest_indexes events (latest_only rl)" by (simp add: relay_latest_indexes_def Let_def)
  let ?s = "map fst (sent rl latest events)" and ?p = "map snd (sent rl latest events)"
  let ?b = "map (\<lambda>i. built rl latest i (events ! i)) [0..<length events]"
  let ?w0 = "case dropped of None \<Rightarrow> w | Some n \<Rightarrow> observe rl [OnSuperseded n] w"
  obtain errs where os: "os = fill_errs 0 ?s errs ?b"
    and sending: "?p \<noteq> [] \<Longrightarrow> (errs, w') = publish_framed (relay_frames rl) send_all ?p ?w0"
    unfolding relay_frames_def using publish_events_spec [OF l assms(1)] by blast
  show ?thesis
  proof (cases "superseded latest i (events ! i)")
    case True
    then show ?thesis using assms(2) latest unfolding settled_event_def superseded_once_def by blast
  next
    case fresh: False
    show ?thesis
    proof (cases "traced_producer_event rl (events ! i)")
      case (Inl e)
      then have "i \<notin> set ?s" by (simp add: sent_positions)
      then have "snd (os ! i) = Some e" using os fill_out [of i ?s 0 errs ?b] fresh Inl assms(2) by (simp add: built_def)
      then show ?thesis using assms(3) by simp
    next
      case (Inr pe)
      then have "i \<in> set ?s" using fresh assms(2) by (simp add: sent_positions)
      then obtain k where k: "k < length (sent rl latest events)" "?s ! k = i" by (metis in_set_conv_nth length_map)
      then have "(i, ?p ! k) \<in> set (sent rl latest events)" by (metis nth_map nth_mem prod.collapse)
      then have pk: "?p ! k = pe" using sent_at Inr by fastforce
      have "?p \<noteq> []" using k(1) by auto
      then have f: "publish_framed (relay_frames rl) send_all ?p ?w0 = (errs, w')" by (rule sending [symmetric])
      have "snd (os ! i) = errs ! k"
        using fill_in [OF sent_bounds(1) [of rl latest events], of k ?b 0 errs] k os assms(2) framed_length [OF f] by simp
      then have "carried (accepted w') (relay_frames rl) ?p k"
        using framed_nil_carried [OF f [unfolded relay_frames_def], of k] k(1) assms(3) by (simp add: relay_frames_def)
      then show ?thesis unfolding settled_event_def delivered_def using Inr pk k(1) by (metis length_map)
    qed
  qed
qed

end

interpretation pass: relay_publisher "produce_all (on_jetstream js rl)" "in_stream js" for js rl
  by unfold_locales (rule in_stream_cong)

interpretation drain: relay_publisher "publish_within (on_jetstream js rl) env" "in_stream js" for js rl env
  by unfold_locales (rule in_stream_cong)


section \<open>No event is lost\<close>

definition accounted :: "'z relay \<Rightarrow> content set \<Rightarrow> outbox_row \<Rightarrow> bool" where
  "accounted rl A r \<longleftrightarrow> (\<exists>ev. event_of r ev \<and> settled_event rl A ev)"

text \<open>Every event is still in the table, or its row went because it was settled.\<close>

definition safe :: "'z relay \<Rightarrow> content set \<Rightarrow> database \<Rightarrow> database \<Rightarrow> bool" where
  "safe rl A d d' \<longleftrightarrow> (\<forall>r \<in> set (rows d). (\<exists>r' \<in> set (rows d'). same_event r r') \<or> accounted rl A r)"

lemma accounted_mono: "accounted rl A r \<Longrightarrow> A \<subseteq> B \<Longrightarrow> accounted rl B r"
  unfolding accounted_def using settled_mono by blast

lemma accounted_same: "accounted rl A s \<Longrightarrow> same_event r s \<Longrightarrow> accounted rl A r"
  by (auto simp: accounted_def event_of_def same_event_def)

lemma safe_refl [simp]: "safe rl A d d"
  unfolding safe_def using same_event_refl by blast

lemma safe_trans: "safe rl A d d' \<Longrightarrow> safe rl B d' d'' \<Longrightarrow> A \<subseteq> B \<Longrightarrow> safe rl B d d''"
  unfolding safe_def using accounted_mono accounted_same same_event_trans by meson

lemma safe_keeps: "keeps {} d d' \<Longrightarrow> safe rl A d d'"
  unfolding keeps_def safe_def by blast

lemma keeps_gone_safe:
  assumes "keeps gone d d'" "\<And>r. r \<in> set (rows d) \<Longrightarrow> rid r \<in> gone \<Longrightarrow> accounted rl A r"
  shows "safe rl A d d'"
  using assms unfolding keeps_def safe_def by blast

lemma keyed_row: "keyed d \<Longrightarrow> r \<in> set (rows d) \<Longrightarrow> s \<in> set (rows d) \<Longrightarrow> rid r = rid s \<Longrightarrow> r = s"
  unfolding keyed_def by (metis distinct_map inj_onD)

text \<open>The successes of a batch of events of the table are accounted for.\<close>

lemma successes_accounted:
  assumes "keyed d" "from_table d events" "map fst os = map event_id events"
    and "\<And>i. i < length events \<Longrightarrow> snd (os ! i) = None \<Longrightarrow> settled_event rl A (events ! i)"
    and "r \<in> set (rows d)" "rid r \<in> set (successes os)"
  shows "accounted rl A r"
proof -
  obtain out where "out \<in> set os" "fst out = rid r" "snd out = None" using assms(6) by (auto simp: successes_def)
  then obtain i where i: "i < length os" "fst (os ! i) = rid r" "snd (os ! i) = None" by (metis in_set_conv_nth)
  have len: "length os = length events" using assms(3) by (metis length_map)
  then have ev: "events ! i \<in> set events" "event_id (events ! i) = rid r"
    using i assms(3) by (simp_all) (metis nth_map)
  then obtain s where s: "s \<in> set (rows d)" "event_of s (events ! i)" using assms(2) unfolding from_table_def by blast
  then have "rid s = rid r" using ev(2) by (simp add: event_of_def)
  then have "s = r" by (rule keyed_row [OF assms(1) s(1) assms(5)])
  then show ?thesis using s(2) assms(4) [of i] i len unfolding accounted_def by auto
qed

lemma steady_revert: "steady w (revert_failed_v2 rl env events failed w)"
proof (induction rl env events failed w rule: revert_failed_v2.induct)
  case (2 rl env events eid err rest w)
  let ?w0 = "w\<lparr>steps := Suc (steps w)\<rparr>"
  let ?new = "revert_row env (config rl) (known_attempts events eid) err (steps w)"
  let ?upd = "\<lambda>m d. d\<lparr>rows := on_ids {eid} (\<lambda>r. (?new r)\<lparr>rupdated := touched_at env m (rupdated r)\<rparr>) (rows d)\<rparr>"
  obtain e w1 where e: "exec env ?upd ?w0 = (e, w1)" by fastforce
  have "steady ?w0 (snd (exec env ?upd ?w0))"
    by (rule steady_exec, rule keyed_on_ids) (simp_all add: revert_row_def Let_def)
  then have k: "steady w w1" using e steady_trans [OF steady_steps] by simp
  let ?parked = "MaxAttempts (config rl) > 0 \<and> (if is_transport_error err then known_attempts events eid
      else known_attempts events eid + 1) \<ge> MaxAttempts (config rl)"
  let ?w2 = "if e = None \<and> ?parked then observe rl [OnParked eid (known_topic events eid) err] w1 else w1"
  have "revert_failed_v2 rl env events ((eid, err) # rest) w = revert_failed_v2 rl env events rest ?w2"
    using e by (simp add: tick_def Let_def)
  moreover have "steady ?w2 (revert_failed_v2 rl env events rest ?w2)"
    using "2.IH" e by (simp add: tick_def)
  moreover have "steady w1 ?w2" by simp
  ultimately show ?case using k steady_trans by metis
qed simp

lemma steady_settle: "steady w (settle_outcomes rl env cp events ok failed w)"
proof -
  define w2 where "w2 = (if V2 cp then revert_failed_v2 rl env events failed w
       else snd (exec env (\<lambda>n d. d\<lparr>rows := on_ids (fst ` set failed)
          (\<lambda>r. r\<lparr>rstate := StatePending, rupdated := touched_at env n (rupdated r)\<rparr>) (rows d)\<rparr>) w))"
  obtain cp' w3 where c: "ensure_caps env w2 = (cp', w3)" by fastforce
  define w1 where "w1 = (if failed = [] then w
       else if Retries cp' then snd (exec env (\<lambda>n d. d\<lparr>retries := retries d @ failed\<rparr>) w3) else w3)"
  define w4 where "w4 = (if ok = [] then w1
       else if Mode (config rl) = ModeUpdateAfterSend
       then snd (exec env (\<lambda>n d. d\<lparr>rows := on_ids (set ok)
              (\<lambda>r. r\<lparr>rstate := StateDone, rupdated := touched_at env n (rupdated r)\<rparr>) (rows d)\<rparr>) w1)
       else snd (exec env (\<lambda>n d. d\<lparr>rows := without_ids (set ok) (rows d)\<rparr>) w1))"
  have "steady w w2"
    unfolding w2_def by (simp add: steady_revert) (intro impI steady_exec keyed_on_ids, simp_all)
  moreover have "steady w2 w3" by (rule steady_caps [OF c])
  moreover have "steady w3 (snd (exec env (\<lambda>n d. d\<lparr>retries := retries d @ failed\<rparr>) w3))"
    by (rule steady_exec) simp
  ultimately have "steady w w1" unfolding w1_def by (auto intro: steady_trans)
  moreover have "steady w1 w4"
    unfolding w4_def by (simp) (intro conjI impI steady_exec keyed_on_ids keyed_without, simp_all)
  moreover have "steady w4 (settle_outcomes rl env cp events ok failed w)"
    unfolding settle_outcomes_def Let_def w2_def [symmetric] c prod.case w1_def [symmetric] w4_def [symmetric] by simp
  ultimately show ?thesis using steady_trans by blast
qed

text \<open>One pass of the relay, whatever its path.\<close>

definition good_pass :: "js_client \<Rightarrow> 'z jetstream_ext relay \<Rightarrow> 'z jetstream_scheme \<Rightarrow> 'z jetstream_scheme \<Rightarrow> bool" where
  "good_pass js rl w w' \<longleftrightarrow> keyed (db w') \<and> in_stream js w \<subseteq> in_stream js w' \<and> safe rl (in_stream js w') (db w) (db w')"

lemma good_pass_steady:
  "keyed (db w) \<Longrightarrow> steady w w' \<Longrightarrow> keeps {} (db w) (db w') \<Longrightarrow> good_pass js rl w w'"
  using in_stream_cong [of w' w js] by (simp add: good_pass_def steady_def safe_keeps)

lemma good_pass_trans: "good_pass js rl w w' \<Longrightarrow> good_pass js rl w' w'' \<Longrightarrow> good_pass js rl w w''"
  unfolding good_pass_def using safe_trans by (meson order_trans)

text \<open>Claim, publish and settle: the claim path's passes have this shape.\<close>

lemma good_pass_settled:
  assumes "keyed (db w)" "from_table (db w) events" "steady w w1" "keeps {} (db w) (db w1)"
    and "map fst os = map event_id events" "db w2 = db w1" "in_stream js w1 \<subseteq> in_stream js w2"
    and "\<And>i. i < length events \<Longrightarrow> snd (os ! i) = None \<Longrightarrow> settled_event rl (in_stream js w2) (events ! i)"
  shows "good_pass js rl w (settle_outcomes rl env cp events' (successes os) failed w2)"
proof -
  define w3 where "w3 = settle_outcomes rl env cp events' (successes os) failed w2"
  have st: "steady w2 w3" unfolding w3_def by (rule steady_settle)
  have js: "in_stream js w3 = in_stream js w2" "in_stream js w1 = in_stream js w"
    using st assms(3) in_stream_cong [of w3 w2 js] in_stream_cong [of w1 w js] by (simp_all add: steady_def)
  have "keyed (db w3)" using st assms(1,3,6) by (simp add: steady_def)
  moreover have "in_stream js w \<subseteq> in_stream js w3" using js assms(7) by simp
  moreover have "keeps (set (successes os)) (db w2) (db w3)"
    unfolding w3_def by (rule settle_outcomes_keeps) simp
  then have "keeps (set (successes os)) (db w) (db w3)"
    using assms(4,6) keeps_mono [of "{}"] keeps_trans by (metis empty_subsetI)
  then have "safe rl (in_stream js w3) (db w) (db w3)"
    unfolding js(1) by (rule keeps_gone_safe) (rule successes_accounted [OF assms(1,2,5,8)])
  ultimately show ?thesis by (simp add: good_pass_def w3_def)
qed


section \<open>The passes\<close>

lemma js_publish_db: "publish_async js e w = (r, w') \<Longrightarrow> db w' = db w"
  by (auto simp: publish_async_def Let_def split: option.splits)

lemma js_produce_db: "db (snd (js_produce js e w)) = db w"
proof -
  obtain r w' where p: "publish_async js e w = (r, w')" by fastforce
  then show ?thesis using js_publish_db [OF p] by (cases r) (simp_all add: js_produce_def)
qed

lemma js_produce_ok:
  assumes "js_produce js e w = (err, w')"
  shows "in_stream js w \<subseteq> in_stream js w' \<and> (err = None \<longrightarrow> to_nats_msg e \<in> in_stream js w')"
  using assms
  by (auto simp: js_produce_def publish_async_def await_ack_def in_stream_def stored_def Let_def
      split: option.splits future_event.splits)

lemma publish_all_db: "publish_all js es w = (rs, w') \<Longrightarrow> db w' = db w"
proof (induction es arbitrary: w rs w')
  case (Cons e es)
  obtain r w1 where r: "publish_async js e w = (r, w1)" by fastforce
  obtain rs' w2 where t: "publish_all js es w1 = (rs', w2)" by fastforce
  then show ?case using Cons.prems r Cons.IH [OF t] js_publish_db [OF r] by simp
qed simp

lemma js_keeps: "producer_keeps (on_jetstream js rl)"
  using publish_all_db js_produce_db
  by (auto simp: producer_keeps_def on_jetstream_def js_produce_batch_def split: prod.splits)

lemma process_batched_good:
  assumes "keyed (db w)" "process_batched (on_jetstream js rl) env cp w = (again, w')"
  shows "good_pass js (on_jetstream js rl) w w'"
proof -
  let ?rl = "on_jetstream js rl" and ?w0 = "w\<lparr>steps := Suc (steps w)\<rparr>"
  obtain r w1 where c: "claim_batch env (config ?rl) ?w0 = (r, w1)" by fastforce
  have from0: "steady ?w0 w1 \<and> (case r of Inl e \<Rightarrow> True | Inr events \<Rightarrow> from_table (db ?w0) events)"
    by (rule claim_batch_from [OF c])
  have st: "steady w w1" using from0 steady_trans [OF steady_steps] by blast
  have k1: "keeps {} (db w) (db w1)" using claim_batch_keeps [of "{}" ?w0 env "config ?rl"] c by simp
  have "good_pass js ?rl w ?w0" "good_pass js ?rl w w1"
    by (rule good_pass_steady [OF assms(1)]; use st k1 in simp)+
  moreover have "good_pass js ?rl w w'" if r: "r = Inr events" "events \<noteq> []" "\<not> paused_at env (steps w)" for events
  proof -
    obtain os w2 where p: "publish_batched ?rl events w1 = (os, w2)" by fastforce
    then have pe: "publish_events ?rl (produce_all ?rl) events w1 = (os, w2)" by (simp add: publish_batched_def)
    have "db (snd (publish_events ?rl (produce_all ?rl) events w1)) = db w1"
      by (rule publish_events_db) (rule produce_all_db [OF js_keeps])
    then have db2: "db w2 = db w1" using pe by simp
    have w': "w' = settle_outcomes ?rl env cp events (successes os) (failures os) w2"
      using assms(2) c r p by (simp add: process_batched_def tick_def Let_def)
    have frm: "from_table (db w) events" using from0 r(1) by simp
    show ?thesis unfolding w'
      by (rule good_pass_settled [OF assms(1) frm st k1 publish_events_ids [OF pe] db2
          pass.published_stays [OF pe] pass.published_settled [OF pe]])
  qed
  ultimately show ?thesis using assms(2) c
    by (cases r) (auto simp: process_batched_def tick_def Let_def split: if_splits)
qed

lemma publish_each_settled:
  assumes "publish_each (on_jetstream js rl) (latest_indexes events (latest_only (on_jetstream js rl))) events ixs w = (os, w')"
    and "set ixs \<subseteq> {..<length events}"
  shows "db w' = db w \<and> in_stream js w \<subseteq> in_stream js w' \<and> map fst os = map (\<lambda>i. event_id (events ! i)) ixs \<and>
    (\<forall>k < length ixs. snd (os ! k) = None \<longrightarrow> settled_event (on_jetstream js rl) (in_stream js w') (events ! (ixs ! k)))"
  using assms
proof (induction ixs arbitrary: w os)
  case (Cons i ixs)
  let ?rl = "on_jetstream js rl" and ?ev = "events ! i"
  let ?latest = "latest_indexes events (latest_only ?rl)"
  obtain err w1 where h: "(if superseded ?latest i ?ev then (None, w)
      else case traced_producer_event ?rl ?ev of Inl e \<Rightarrow> (Some e, w) | Inr pe \<Rightarrow> produce ?rl pe w) = (err, w1)"
    by fastforce
  obtain os' w2 where t: "publish_each ?rl ?latest events ixs w1 = (os', w2)" by fastforce
  have js: "produce ?rl = js_produce js" by (simp add: on_jetstream_def)
  have all: "os = (event_id ?ev, err) # os'" "w' = w2" using Cons.prems(1) h t by (simp_all add: Let_def)
  have ih: "db w' = db w1 \<and> in_stream js w1 \<subseteq> in_stream js w' \<and> map fst os' = map (\<lambda>i. event_id (events ! i)) ixs \<and>
    (\<forall>k < length ixs. snd (os' ! k) = None \<longrightarrow> settled_event ?rl (in_stream js w') (events ! (ixs ! k)))"
    using Cons.IH [OF t [folded all(2)]] Cons.prems(2) by simp
  have one: "db w1 = db w \<and> in_stream js w \<subseteq> in_stream js w1 \<and> (err = None \<longrightarrow> settled_event ?rl (in_stream js w1) ?ev)"
  proof (cases "superseded ?latest i ?ev")
    case True
    then have "superseded_once ?rl ?ev" using Cons.prems(2) unfolding superseded_once_def by auto
    then show ?thesis using h True by (simp add: settled_event_def)
  next
    case False
    show ?thesis
    proof (cases "traced_producer_event ?rl ?ev")
      case (Inr pe)
      then have j: "js_produce js pe w = (err, w1)" using h False js by simp
      then show ?thesis using Inr js_produce_ok [OF j] js_produce_db [of js pe w]
        by (auto simp: settled_event_def delivered_def)
    qed (use h False in auto)
  qed
  then have "err = None \<longrightarrow> settled_event ?rl (in_stream js w') ?ev" using ih settled_mono by blast
  then show ?case using ih one all by (auto simp: less_Suc_eq_0_disj)
qed simp

lemma set_schedule: "set (schedule ixs n) = {..<n}"
  by (auto simp: schedule_def Let_def)

lemma claim_legacy_keeps: "keeps gone (db w) (db (snd (claim_legacy env cfg cp w)))"
  unfolding claim_legacy_def
proof (rule keeps_transaction)
  fix w x and w' :: "'a outbox_scheme"
  assume b: "legacy_body env cfg cp w = (Inr x, w')"
  have "keeps gone (db w3) (db (snd (exec env (mark_in_flight env events) w3)))" for events and w3 :: "'a outbox_scheme"
    unfolding mark_in_flight_def by (rule keeps_exec, rule keeps_on_ids) (simp add: same_event_def)
  from this [of "w\<lparr>steps := Suc (Suc (Suc (steps w)))\<rparr>"] show "keeps gone (db w) (db w')"
    using b by (auto simp: legacy_body_def tick_def Let_def split: option.splits if_splits prod.splits)
      (metis snd_conv)+
qed

lemma process_single_good:
  assumes "keyed (db w)"
  shows "good_pass js (on_jetstream js rl) w (process_single (on_jetstream js rl) env w)"
proof -
  let ?rl = "on_jetstream js rl" and ?w0 = "w\<lparr>steps := Suc (steps w)\<rparr>"
  obtain cp w1 where cp: "ensure_caps env ?w0 = (cp, w1)" by fastforce
  have s1: "steady w w1" using steady_caps [OF cp] steady_trans [OF steady_steps] by blast
  have db1: "db w1 = db w" using ensure_caps_db [OF cp] by simp
  obtain r w2 where c: "(if ClaimV2 (config ?rl) \<and> V2 cp then claim_batch_v2 env (config ?rl) w1
      else claim_legacy env (config ?rl) cp w1) = (r, w2)" by fastforce
  then have from0: "steady w1 w2 \<and> (case r of Inl e \<Rightarrow> True | Inr events \<Rightarrow> from_table (db w1) events)"
    using claim_v2_from claim_legacy_from by (metis (full_types))
  have st: "steady w w2" using s1 from0 steady_trans by blast
  have "keeps {} (db w1) (db w2)"
    using c claim_legacy_keeps [of "{}" w1 env "config ?rl" cp] claim_batch_keeps [of "{}" w1 env "config ?rl"]
    by (auto simp: claim_batch_def split: if_splits)
  then have k2: "keeps {} (db w) (db w2)" using db1 by simp
  have pb: "process_single ?rl env w = (if paused_at env (steps w) then ?w0
    else case r of Inl e \<Rightarrow> w2 | Inr events \<Rightarrow> if events = [] then w2
      else let (os, w3) = publish_single ?rl env events w2
           in settle_outcomes ?rl env cp events (successes os) (failures os) w3)"
    using cp c by (simp add: process_single_def tick_def)
  have g: "good_pass js ?rl w ?w0" "good_pass js ?rl w w2"
    by (rule good_pass_steady [OF assms(1)]; use st k2 in simp)+
  have "good_pass js ?rl w (settle_outcomes ?rl env cp events (successes os) (failures os) w3)"
    if r: "r = Inr events" and p: "publish_single ?rl env events w2 = (os, w3)" for events os w3
  proof -
    obtain latest dropped where l: "relay_latest_indexes (latest_only ?rl) events = (latest, dropped)" by fastforce
    then have latest: "latest = latest_indexes events (latest_only ?rl)" by (simp add: relay_latest_indexes_def Let_def)
    define w4 where "w4 = snd (tick (case dropped of None \<Rightarrow> w2 | Some n \<Rightarrow> observe ?rl [OnSuperseded n] w2))"
    define ixs where "ixs = schedule (order_at env (steps (case dropped of None \<Rightarrow> w2
        | Some n \<Rightarrow> observe ?rl [OnSuperseded n] w2))) (length events)"
    have ixs: "publish_each ?rl latest events ixs w4 = (os, w3)" "set ixs = {..<length events}"
      using p l unfolding w4_def ixs_def by (simp_all add: publish_single_def tick_def Let_def set_schedule)
    have s4: "steady w2 w4" "db w4 = db w2"
      unfolding w4_def by (cases dropped; simp; rule steady_trans [OF steady_observe steady_tick])
        (cases dropped; simp)
    let ?es = "map ((!) events) ixs"
    note each = publish_each_settled [OF ixs(1) [unfolded latest]]
    have "from_table (db w) ?es" using from0 r db1 ixs(2) by (auto simp: from_table_def)
    moreover have "map fst os = map event_id ?es" using each ixs(2) by (simp add: comp_def)
    moreover have "db w3 = db w2" using each ixs(2) s4 by simp
    moreover have "in_stream js w2 \<subseteq> in_stream js w3"
      using each ixs(2) s4(1) in_stream_cong [of w4 w2 js] by (simp add: steady_def)
    moreover have "settled_event ?rl (in_stream js w3) (?es ! k)" if "k < length ?es" "snd (os ! k) = None" for k
      using each ixs(2) that by simp
    ultimately show ?thesis by (intro good_pass_settled [OF assms _ st k2]) auto
  qed
  then show ?thesis using g pb by (auto split: sum.split prod.split)
qed


text \<open>The drain: its claim, what it settles, and the rows it puts back.\<close>

lemma drain_claim_from:
  assumes "keyed (db w)" "drain_claim env cfg now w = (Inr rs, w')"
  shows "from_table (db w) (map (decode_row env) rs)" "outbox.more w' = outbox.more w"
    "keyed (db w')" "distinct (map rid rs)"
    "Mode cfg \<noteq> ModeUpdateAfterSend \<Longrightarrow> rid ` set rs \<inter> rid ` set (rows (db w')) = {}"
proof -
  define ids where "ids = rid ` set (pick rcreated (BatchSize cfg) (due now) (locked_at env (steps w)) (rows (db w)))"
  define finish :: "outbox_row \<Rightarrow> outbox_row" where "finish = (\<lambda>r. r\<lparr>rstate := StateDone, rupdated := now\<rparr>)"
  have c: "(rs, db w', outbox.more w') = (if Mode cfg = ModeUpdateAfterSend
      then (with_ids ids (on_ids ids finish (rows (db w))), (db w)\<lparr>rows := on_ids ids finish (rows (db w))\<rparr>, outbox.more w)
      else (with_ids ids (rows (db w)), (db w)\<lparr>rows := without_ids ids (rows (db w))\<rparr>, outbox.more w))"
    using assms(2) by (auto simp: drain_claim_def tick_def Let_def ids_def finish_def split: option.splits if_splits)
  have same: "same_event r (finish r)" "rid (finish r) = rid r" for r by (simp_all add: finish_def same_event_def)
  have dist: "distinct (map rid (filter P (on_ids ids finish (rows (db w)))))"
      "distinct (map rid (filter P (rows (db w))))" for P
    using assms(1) by (simp_all add: distinct_map_filter keyed_def map_rid_on_ids same(2))
  have "\<exists>r \<in> set (rows (db w)). same_event r s" if s: "s \<in> set rs" for s
  proof -
    obtain r where "r \<in> set (rows (db w))" "s = r \<or> s = finish r"
      using s c by (auto simp: with_ids_def on_ids_def split: if_splits)
    then show ?thesis using same(1) [of r] by (intro bexI [of _ r]) auto
  qed
  then have "\<exists>r \<in> set (rows (db w)). event_of r (decode_row env s)" if "s \<in> set rs" for s
    using that by (metis event_of_decode event_of_same)
  then show "from_table (db w) (map (decode_row env) rs)" by (simp add: from_table_def)
  show "outbox.more w' = outbox.more w" using c by (simp split: if_splits)
  show "keyed (db w')"
    using c assms(1) keyed_on_ids [OF same(2) assms(1)] keyed_without [OF assms(1)] by (auto split: if_splits)
  show "distinct (map rid rs)" using c dist by (simp add: with_ids_def split: if_splits)
  show "rid ` set rs \<inter> rid ` set (rows (db w')) = {}" if "Mode cfg \<noteq> ModeUpdateAfterSend"
    using that c by (auto simp: with_ids_def without_ids_def)
qed

lemma settle_rows_more:
  "settle_rows env cfg now prs res restored w = (res', restored', w') \<Longrightarrow>
     outbox.more w' = outbox.more w \<and> (\<exists>ks. map rid (map fst restored') = map rid (map fst restored) @ ks \<and>
       set ks \<subseteq> set (map (rid \<circ> fst) prs) \<and> (distinct (map (rid \<circ> fst) prs) \<longrightarrow> distinct ks))"
proof (induction env cfg now prs res restored w rule: settle_rows.induct)
  case (3 env cfg now row i err rest res restored w)
  define row' where "row' = failed_row env cfg now (steps w) err row"
  have rid': "rid row' = rid row" using failed_row_same [of row] unfolding row'_def same_event_def by simp
  have "outbox.more w' = outbox.more w \<and> (\<exists>ks. map rid (map fst restored') =
      map rid (map fst (restored @ [(row', err)])) @ ks \<and> set ks \<subseteq> set (map (rid \<circ> fst) rest) \<and>
      (distinct (map (rid \<circ> fst) rest) \<longrightarrow> distinct ks))"
    using "3.IH" "3.prems" by (simp add: tick_def Let_def row'_def comp_def)
  then obtain ks where ks: "outbox.more w' = outbox.more w" "map rid (map fst restored') = map rid (map fst restored) @ rid row # ks"
      "set ks \<subseteq> set (map (rid \<circ> fst) rest)" "distinct (map (rid \<circ> fst) rest) \<longrightarrow> distinct ks"
    using rid' by auto
  then show ?case by (intro conjI exI [of _ "rid row # ks"]) (auto simp: comp_def)
qed (auto simp: tick_def)

lemma steady_update_rows: "steady w (snd (update_rows env rs w))"
proof (induction rs arbitrary: w)
  case (Cons r rs)
  let ?upd = "\<lambda>n d. d\<lparr>rows := on_ids {rid r} (\<lambda>r0. r0\<lparr>rstate := rstate r, rattempts := rattempts r,
             rlast_error := rlast_error r, rnext_attempt := rnext_attempt r,
             rupdated := touched_at env n (rupdated r)\<rparr>) (rows d)\<rparr>"
  obtain e w1 where x: "exec env ?upd w = (e, w1)" by fastforce
  have "steady w (snd (exec env ?upd w))" by (rule steady_exec, rule keyed_on_ids) simp_all
  then have "steady w w1" using x by simp
  then show ?case using x Cons.IH [of w1] steady_trans by (cases e) auto
qed simp

lemma insert_chunks_more: "outbox.more (snd (insert_chunks env rs w)) = outbox.more w"
proof (induction env rs w rule: insert_chunks.induct)
  case (1 env rs w)
  obtain e w1 where x: "exec env (\<lambda>_ d. d\<lparr>rows := rows d @ take save_messages_chunk rs\<rparr>) w = (e, w1)" by fastforce
  then have "outbox.more w1 = outbox.more w" by (auto simp: exec_def tick_def split: option.splits)
  then show ?case using x 1 by (subst insert_chunks.simps) (auto split: option.split)
qed

lemma drain_settle_keyed:
  assumes "drain_settle env cfg cp rs os res w = (Inr res', w')" "length os = length rs"
    and "keyed (db w)" "distinct (map rid rs)"
    and "Mode cfg \<noteq> ModeUpdateAfterSend \<Longrightarrow> rid ` set rs \<inter> rid ` set (rows (db w)) = {}"
  shows "outbox.more w' = outbox.more w \<and> keyed (db w')"
proof -
  let ?w0 = "w\<lparr>steps := Suc (steps w)\<rparr>"
  obtain res1 restored w1 where s: "settle_rows env cfg (now_at env (steps w)) (zip rs os) res [] ?w0 = (res1, restored, w1)"
    by (metis prod_cases3)
  obtain e w2 where r: "(if restored \<noteq> [] then drain_restore env cfg (map fst restored) w1 else (None, w1)) = (e, w2)"
    by fastforce
  obtain e' w3 where t: "record_retries env cp restored w2 = (e', w3)" by fastforce
  have all: "e = None" "w' = w3" using assms(1) s r t by (auto simp: drain_settle_def tick_def split: option.splits)
  have zip: "map (rid \<circ> fst) (zip rs os) = map rid rs" using assms(2) by (metis map_fst_zip map_map)
  obtain ks where ks: "outbox.more w1 = outbox.more w" "map rid (map fst restored) = ks" "set ks \<subseteq> set (map rid rs)" "distinct ks"
    using settle_rows_more [OF s] assms(4) zip by auto
  have db1: "db w1 = db w" using settle_rows_db [OF s] by simp
  have three: "rows (db w3) = rows (db w2)" "outbox.more w3 = outbox.more w2"
    using record_retries_rows [of env cp restored w2] t
    by (auto simp: record_retries_def exec_def tick_def split: option.splits if_splits)
  have "outbox.more w2 = outbox.more w1 \<and> keyed (db w2)"
  proof (cases "restored = [] \<or> Mode cfg = ModeUpdateAfterSend")
    case True
    then have "steady w1 w2" using r steady_update_rows [of w1 env "map fst restored"]
      by (auto simp: drain_restore_def split: if_splits)
    then show ?thesis using assms(3) db1 by (simp add: steady_def)
  next
    case False
    then have i: "insert_chunks env (map fst restored) w1 = (None, w2)" using r all(1) by (simp add: drain_restore_def)
    then have "rows (db w2) = rows (db w) @ map fst restored" using insert_chunks_rows db1 by metis
    then have "keyed (db w2)" using assms(3,5) False ks(2-4) by (auto simp: keyed_def)
    then show ?thesis using insert_chunks_more [of env "map fst restored" w1] i by simp
  qed
  then show ?thesis using all(2) three ks(1) by (simp add: keyed_def)
qed

lemma drain_body_good:
  assumes "keyed (db w)" "drain_body (on_jetstream js rl) env cp w = (Inr res, w')"
  shows "good_pass js (on_jetstream js rl) w w'"
proof -
  let ?rl = "on_jetstream js rl"
  obtain rs os w2 w3 where cl: "drain_claim env (config ?rl) (now_at env (steps w)) (w\<lparr>steps := Suc (steps w)\<rparr>) = (Inr rs, w2)"
    and p: "drain_publish ?rl env (map (decode_row env) (sort_key rcreated rs)) w2 = (os, w3)"
    and st: "if rs = [] then w' = w2
     else drain_settle env (config ?rl) cp (sort_key rcreated rs) os (no_drain\<lparr>claimed := length rs\<rparr>) w3 = (Inr res, w')"
    and kept: "keeps (set (successes os)) (db w) (db w')"
    by (rule drain_body_keeps [OF js_keeps assms(2)])
  let ?es = "map (decode_row env) (sort_key rcreated rs)"
  have pe: "publish_events ?rl (publish_within ?rl env) ?es w2 = (os, w3)" using p by (simp add: drain_publish_def)
  have k0: "keyed (db (w\<lparr>steps := Suc (steps w)\<rparr>))" using assms(1) by simp
  note claim = drain_claim_from [OF k0 cl]
  have ids: "map fst os = map event_id ?es" by (rule publish_events_ids [OF pe])
  then have len: "length os = length (sort_key rcreated rs)" by (metis length_map)
  have db3: "db w3 = db w2" using drain_publish_db [OF js_keeps, of js rl env ?es w2] p by simp
  have ends: "outbox.more w' = outbox.more w3 \<and> keyed (db w')" if "rs \<noteq> []"
  proof (rule drain_settle_keyed)
    show "drain_settle env (config ?rl) cp (sort_key rcreated rs) os (no_drain\<lparr>claimed := length rs\<rparr>) w3 = (Inr res, w')"
      using st that by simp
    show "distinct (map rid (sort_key rcreated rs))"
      using claim(4) by (metis mset_map mset_sort mset_eq_imp_distinct_iff)
  qed (use claim(3,5) db3 len in simp_all)
  have in2: "in_stream js w = in_stream js w2" using in_stream_cong [of w2 w js] claim(2) by simp
  have in3: "in_stream js w2 \<subseteq> in_stream js w3" by (rule drain.published_stays [OF pe])
  have set_es: "from_table (db w) ?es" using claim(1) by (simp add: from_table_def)
  show ?thesis
  proof (cases "rs = []")
    case True
    then have "w' = w2" "os = []" using st len by simp_all
    moreover have "keeps {} (db w) (db w')" using kept \<open>os = []\<close> by (simp add: successes_def)
    ultimately show ?thesis using claim(3) in2 by (simp add: good_pass_def safe_keeps)
  next
    case False
    have in': "in_stream js w' = in_stream js w3" using ends [OF False] in_stream_cong [of w' w3 js] by simp
    have "safe ?rl (in_stream js w') (db w) (db w')"
      unfolding in' by (rule keeps_gone_safe [OF kept])
        (rule successes_accounted [OF assms(1) set_es ids drain.published_settled [OF pe]])
    then show ?thesis using ends [OF False] in2 in3 in' by (simp add: good_pass_def)
  qed
qed


text \<open>What was published stays published, whatever fails afterwards.\<close>

lemma drain_settle_more: "outbox.more (snd (drain_settle env cfg cp rs os res w)) = outbox.more w"
proof -
  let ?w0 = "w\<lparr>steps := Suc (steps w)\<rparr>"
  obtain res1 restored w1 where s: "settle_rows env cfg (now_at env (steps w)) (zip rs os) res [] ?w0 = (res1, restored, w1)"
    by (metis prod_cases3)
  obtain e w2 where r: "(if restored \<noteq> [] then drain_restore env cfg (map fst restored) w1 else (None, w1)) = (e, w2)"
    by fastforce
  obtain e' w3 where t: "record_retries env cp restored w2 = (e', w3)" by fastforce
  have "outbox.more w1 = outbox.more w" using settle_rows_more [OF s] by simp
  moreover have "outbox.more w2 = outbox.more w1"
  proof (cases "restored = []")
    case False
    then have "w2 = snd (drain_restore env cfg (map fst restored) w1)" using r by simp
    moreover have "outbox.more (snd (update_rows env rs w1)) = outbox.more w1" for rs
      using steady_update_rows unfolding steady_def by blast
    ultimately show ?thesis by (simp add: drain_restore_def insert_chunks_more)
  qed (use r in simp)
  moreover have "outbox.more w3 = outbox.more w2"
    using t by (auto simp: record_retries_def exec_def tick_def split: option.splits if_splits)
  ultimately show ?thesis using s r t by (simp add: drain_settle_def tick_def split: option.split)
qed

lemma drain_body_in_stream:
  "in_stream js w \<subseteq> in_stream js (snd (drain_body (on_jetstream js rl) env cp w))"
proof -
  let ?rl = "on_jetstream js rl" and ?w0 = "w\<lparr>steps := Suc (steps w)\<rparr>"
  obtain c w1 where c: "drain_claim env (config ?rl) (now_at env (steps w)) ?w0 = (c, w1)" by fastforce
  have m1: "outbox.more w1 = outbox.more w"
    using c by (auto simp: drain_claim_def tick_def Let_def split: option.splits if_splits)
  show ?thesis
  proof (cases c)
    case (Inl e)
    then show ?thesis using c in_stream_cong [OF m1, of js] by (simp add: drain_body_def tick_def)
  next
    case (Inr rs)
    let ?es = "map (decode_row env) (sort_key rcreated rs)"
    obtain os w2 where p: "drain_publish ?rl env ?es w1 = (os, w2)" by fastforce
    then have pe: "publish_events ?rl (publish_within ?rl env) ?es w1 = (os, w2)" by (simp add: drain_publish_def)
    let ?w3 = "snd (drain_settle env (config ?rl) cp (sort_key rcreated rs) os (no_drain\<lparr>claimed := length rs\<rparr>) w2)"
    have "in_stream js ?w3 = in_stream js w2" by (rule in_stream_cong [OF drain_settle_more])
    moreover have "snd (drain_body ?rl env cp w) = (if rs = [] then w1 else ?w3)"
      using c Inr p by (simp add: drain_body_def tick_def)
    ultimately show ?thesis using drain.published_stays [OF pe] in_stream_cong [OF m1, of js] by simp
  qed
qed

lemma drain_batch_in_stream:
  "in_stream js w \<subseteq> in_stream js (snd (drain_batch (on_jetstream js rl) env cp w))"
proof -
  let ?rl = "on_jetstream js rl" and ?w0 = "w\<lparr>steps := Suc (steps w)\<rparr>"
  obtain r w2 where b: "drain_body ?rl env cp ?w0 = (r, w2)" by fastforce
  have "outbox.more (snd (drain_batch ?rl env cp w)) = outbox.more w \<or>
      outbox.more (snd (drain_batch ?rl env cp w)) = outbox.more w2"
    using b by (cases r) (auto simp: drain_batch_def transaction_def tick_def split: option.split)
  then have "in_stream js (snd (drain_batch ?rl env cp w)) = in_stream js w \<or>
      in_stream js (snd (drain_batch ?rl env cp w)) = in_stream js w2"
    using in_stream_cong by blast
  moreover have "in_stream js w \<subseteq> in_stream js w2"
    using drain_body_in_stream [of js ?w0 rl env cp] b in_stream_cong [of ?w0 w js] by simp
  ultimately show ?thesis by auto
qed

lemma drain_round_good:
  assumes "keyed (db w)" "drain_round (on_jetstream js rl) env w = (again, w')"
  shows "good_pass js (on_jetstream js rl) w w'"
proof -
  let ?rl = "on_jetstream js rl"
  define now where "now = now_at env (Suc (steps w))"
  define wr where "wr = reclaim_when_due env (config ?rl) now (w\<lparr>steps := Suc (Suc (steps w))\<rparr>)"
  obtain cp w2 where e: "ensure_caps env wr = (cp, w2)" by fastforce
  obtain r w3 where b: "drain_batch ?rl env cp w2 = (r, w3)" by fastforce
  have round: "drain_round ?rl env w = (if paused_at env (steps w) then (False, w\<lparr>steps := Suc (steps w)\<rparr>)
    else case r of Inl e \<Rightarrow> (False, drain_failed w3)
      | Inr res \<Rightarrow> let w4 = report_drain ?rl res (w3\<lparr>drain_failures := 0\<rparr>) in
          if int (claimed res) \<ge> BatchSize (config ?rl) \<and> nfailed res = 0
          then let (m, w5) = tick w4 in (\<not> done_at env m, w5) else (False, w4))"
    using e b unfolding drain_round_def wr_def now_def by (simp add: tick_def)
  have st: "steady w wr" unfolding wr_def using steady_reclaim steady_steps steady_trans by blast
  have st2: "steady w w2" using st steady_caps [OF e] steady_trans by blast
  have "keeps {} (db w) (db wr)"
    unfolding wr_def using reclaim_when_due_keeps [of "{}" "w\<lparr>steps := Suc (Suc (steps w))\<rparr>"] by simp
  then have k2: "keeps {} (db w) (db w2)" using ensure_caps_db [OF e] by simp
  have g2: "good_pass js ?rl w w2" by (rule good_pass_steady [OF assms(1) st2 k2])
  have same: "good_pass js ?rl w v" if "good_pass js ?rl w u" "db v = db u" "outbox.more v = outbox.more u" for u v
    using that in_stream_cong [of v u js] by (simp add: good_pass_def)
  have idle: "good_pass js ?rl w (w\<lparr>steps := Suc (steps w)\<rparr>)"
    by (rule good_pass_steady [OF assms(1)]) simp_all
  show ?thesis
  proof (cases r)
    case (Inl err)
    have "db w3 = db w2" using transaction_Inl [of env "drain_body ?rl env cp" w2 err w3] b Inl by (simp add: drain_batch_def)
    moreover have "in_stream js w2 \<subseteq> in_stream js w3" using drain_batch_in_stream [of js w2 rl env cp] b by simp
    ultimately have "good_pass js ?rl w w3" using g2 good_pass_trans [of js ?rl w w2 w3] by (simp add: good_pass_def)
    then have "good_pass js ?rl w (drain_failed w3)" by (rule same) (simp_all add: drain_failed_def)
    then show ?thesis using assms(2) round Inl idle by (auto split: if_splits)
  next
    case (Inr res)
    obtain w4 where body: "drain_body ?rl env cp (snd (tick w2)) = (Inr res, w4)" "w3 = snd (tick w4)"
      using b Inr unfolding drain_batch_def by (metis transaction_Inr)
    have "keyed (db (snd (tick w2)))" using g2 by (simp add: good_pass_def)
    from drain_body_good [OF this body(1)] have "good_pass js ?rl (snd (tick w2)) w4" .
    moreover have "good_pass js ?rl w (snd (tick w2))" by (rule same [OF g2]) (simp_all add: tick_def)
    ultimately have "good_pass js ?rl w w4" using good_pass_trans by blast
    then have "good_pass js ?rl w w'" if "db w' = db w4" "outbox.more w' = outbox.more w4" using same that by blast
    moreover have "good_pass js ?rl w w'" if "paused_at env (steps w)"
      using assms(2) round that idle by auto
    moreover have "db w' = db w4 \<and> outbox.more w' = outbox.more w4" if "\<not> paused_at env (steps w)"
      using assms(2) round Inr that body(2)
      by (auto simp: Let_def tick_def report_drain_def observe_def split: if_splits)
    ultimately show ?thesis by blast
  qed
qed


section \<open>Every way the relay processes the table\<close>

lemma process_tx_drain_good:
  assumes "process_tx_drain (on_jetstream js rl) env w = Some w'"
  shows "keyed (db w) \<longrightarrow> good_pass js (on_jetstream js rl) w w'"
proof -
  have "rl' = on_jetstream js rl \<longrightarrow> keyed (db w) \<longrightarrow> good_pass js (on_jetstream js rl) w w'"
    if "process_tx_drain rl' env w = Some w'" for rl'
  proof (rule process_tx_drain.raw_induct [where P = "\<lambda>rl' env w w'. rl' = on_jetstream js rl \<longrightarrow> keyed (db w) \<longrightarrow>
      good_pass js (on_jetstream js rl) w w'", OF _ that])
    fix f :: "'a jetstream_ext relay \<Rightarrow> relay_env \<Rightarrow> 'a jetstream_scheme \<Rightarrow> 'a jetstream_scheme option"
      and rl' :: "'a jetstream_ext relay" and env w w'
    assume ih: "\<And>rl' env w w'. f rl' env w = Some w' \<Longrightarrow> rl' = on_jetstream js rl \<longrightarrow> keyed (db w) \<longrightarrow>
        good_pass js (on_jetstream js rl) w w'"
      and body: "(let (again, w1) = drain_round rl' env w in if again then f rl' env w1 else Some w1) = Some w'"
    show "rl' = on_jetstream js rl \<longrightarrow> keyed (db w) \<longrightarrow> good_pass js (on_jetstream js rl) w w'"
    proof (intro impI)
      assume rl': "rl' = on_jetstream js rl" and k: "keyed (db w)"
      obtain again w1 where r: "drain_round (on_jetstream js rl) env w = (again, w1)" by fastforce
      have g: "good_pass js (on_jetstream js rl) w w1" by (rule drain_round_good [OF k r])
      show "good_pass js (on_jetstream js rl) w w'"
      proof (cases again)
        case False
        then show ?thesis using body r rl' g by simp
      next
        case True
        then have "f rl' env w1 = Some w'" using body r rl' by simp
        then show ?thesis using ih rl' g good_pass_trans unfolding good_pass_def by blast
      qed
    qed
  qed
  then show ?thesis using assms by blast
qed

lemma batched_loop_good:
  assumes "batched_loop (on_jetstream js rl) env cp w = Some w'"
  shows "keyed (db w) \<longrightarrow> good_pass js (on_jetstream js rl) w w'"
proof -
  have "rl' = on_jetstream js rl \<longrightarrow> keyed (db w) \<longrightarrow> good_pass js (on_jetstream js rl) w w'"
    if "batched_loop rl' env cp w = Some w'" for rl'
  proof (rule batched_loop.raw_induct [where P = "\<lambda>rl' env cp w w'. rl' = on_jetstream js rl \<longrightarrow> keyed (db w) \<longrightarrow>
      good_pass js (on_jetstream js rl) w w'", OF _ that])
    fix f :: "'a jetstream_ext relay \<Rightarrow> relay_env \<Rightarrow> schema_caps \<Rightarrow> 'a jetstream_scheme \<Rightarrow> 'a jetstream_scheme option"
      and rl' :: "'a jetstream_ext relay" and env cp w w'
    assume ih: "\<And>rl' env cp w w'. f rl' env cp w = Some w' \<Longrightarrow> rl' = on_jetstream js rl \<longrightarrow> keyed (db w) \<longrightarrow>
        good_pass js (on_jetstream js rl) w w'"
      and body: "(let (again, w1) = process_batched rl' env cp w in
      if \<not> again then Some w1
      else let (m, w2) = tick w1 in
        if done_at env m then Some w2
        else let (p, w3) = tick w2 in if paused_at env p then Some w3 else f rl' env cp w3) = Some w'"
    show "rl' = on_jetstream js rl \<longrightarrow> keyed (db w) \<longrightarrow> good_pass js (on_jetstream js rl) w w'"
    proof (intro impI)
      assume rl': "rl' = on_jetstream js rl" and k: "keyed (db w)"
      obtain again w1 where r: "process_batched (on_jetstream js rl) env cp w = (again, w1)" by fastforce
      have g: "good_pass js (on_jetstream js rl) w w1" by (rule process_batched_good [OF k r])
      have later: "good_pass js (on_jetstream js rl) w (w1\<lparr>steps := n\<rparr>)" for n
        using g in_stream_cong [of "w1\<lparr>steps := n\<rparr>" w1 js] by (simp add: good_pass_def)
      let ?w3 = "w1\<lparr>steps := Suc (Suc (steps w1))\<rparr>"
      have "w' = w1 \<or> w' = w1\<lparr>steps := Suc (steps w1)\<rparr> \<or> w' = ?w3 \<or> f rl' env cp ?w3 = Some w'"
        using body r rl' by (auto simp: tick_def split: if_splits)
      moreover have "good_pass js (on_jetstream js rl) w w'" if "f rl' env cp ?w3 = Some w'"
        using ih [OF that] rl' later [of "Suc (Suc (steps w1))"] good_pass_trans unfolding good_pass_def by blast
      ultimately show "good_pass js (on_jetstream js rl) w w'" using g later by blast
    qed
  qed
  then show ?thesis using assms by blast
qed



definition demo_js :: js_client where
  "demo_js = \<lparr>refused = (\<lambda>_. None), waited = (\<lambda>_. GotOk), looked = (\<lambda>_. NotYet), unseen = (\<lambda>_. False)\<rparr>"

definition demo_js_relay :: "unit jetstream_ext relay" where
  "demo_js_relay = \<lparr>config = default_config, rframes = None, latest_only = [], signer = None, respan = (\<lambda>_ hs. hs),
     packer = demo_codec, sha256 = id, max_payload = None, produce = js_produce demo_js, produce_batch = None,
     observes = True\<rparr>"

definition demo_js_world :: jetstream where
  "demo_js_world = outbox.extend demo_world \<lparr>js_calls = 0, js_sent = []\<rparr>"


end
