(* ===== verification/Outbox_Messages.thy ===== *)
theory Outbox_Messages imports Outbox_Process "HOL-Library.AList" begin

text \<open>
  Writing to the outbox (\<^verbatim>\<open>message.go\<close>, \<^verbatim>\<open>message_own_headers.go\<close>,
  \<^verbatim>\<open>message_rows.go\<close>, \<^verbatim>\<open>save_messages.go\<close>, \<^verbatim>\<open>store.go\<close>,
  \<^verbatim>\<open>trace_headers.go\<close>, \<^verbatim>\<open>new_event_id.go\<close>, \<^verbatim>\<open>where_ids.go\<close>,
  \<^verbatim>\<open>schema.go\<close>): the messages and their headers, the rows they become, and what the
  relay reads back from those rows.
\<close>

section \<open>Messages\<close>

abbreviation ErrReservedHeader :: sentinel where "ErrReservedHeader \<equiv> Sentinel ''outbox: header is reserved''"
abbreviation ErrInvalidKVBucket :: sentinel where "ErrInvalidKVBucket \<equiv> Sentinel ''outbox: invalid kv bucket''"
abbreviation ErrInvalidKVKey :: sentinel where "ErrInvalidKVKey \<equiv> Sentinel ''outbox: invalid kv key''"
abbreviation ErrSchemaOutdated :: sentinel where "ErrSchemaOutdated \<equiv> Sentinel ''outbox: schema missing v2 columns''"

text \<open>A payload may be nil; a map is a list of its entries.\<close>

record message =
  mSubject :: string
  mPayload :: "byte list option"
  mHeaders :: headers
  mOwn :: headers
  mErr :: "goerr option"

definition no_message :: message where
  "no_message = \<lparr>mSubject = '''', mPayload = None, mHeaders = [], mOwn = [], mErr = None\<rparr>"

definition alnum :: "char \<Rightarrow> bool" where
  "alnum c \<longleftrightarrow> lower_letter c \<or> upper_letter c \<or> is_digit c"

definition kv_bucket_matches :: "string \<Rightarrow> bool" where
  "kv_bucket_matches s \<longleftrightarrow> s \<noteq> '''' \<and> (\<forall>c \<in> set s. alnum c \<or> c \<in> {CHR ''_'', CHR ''-''})"

definition kv_key_valid :: "string \<Rightarrow> bool" where
  "kv_key_valid key \<longleftrightarrow>
     \<not> (key = '''' \<or> key ! 0 = CHR ''.'' \<or> key ! (length key - 1) = CHR ''.'') \<and>
     (\<forall>c \<in> set key. alnum c \<or> c \<in> {CHR ''-'', CHR ''/'', CHR ''_'', CHR ''='', CHR ''.''})"

definition kv_subject :: "string \<Rightarrow> string \<Rightarrow> goerr + string" where
  "kv_subject bucket key =
     (if \<not> kv_bucket_matches bucket then Inl (Sent ErrInvalidKVBucket)
      else if \<not> kv_key_valid key then Inl (Sent ErrInvalidKVKey)
      else Inr (kv_subject_prefix @ bucket @ ''.'' @ key))"

definition kv_put :: "string \<Rightarrow> string \<Rightarrow> byte list option \<Rightarrow> message" where
  "kv_put bucket key v =
     (case kv_subject bucket key of
        Inl e \<Rightarrow> no_message\<lparr>mErr := Some e\<rparr>
      | Inr s \<Rightarrow> no_message\<lparr>mSubject := s, mPayload := Some (case v of None \<Rightarrow> [] | Some p \<Rightarrow> p)\<rparr>)"

definition kv_delete :: "string \<Rightarrow> string \<Rightarrow> message" where
  "kv_delete bucket key =
     (case kv_subject bucket key of
        Inl e \<Rightarrow> no_message\<lparr>mErr := Some e\<rparr>
      | Inr s \<Rightarrow> no_message\<lparr>mSubject := s, mPayload := Some [], mOwn := [(''KV-Operation'', ''DEL'')]\<rparr>)"

section \<open>Headers\<close>

text \<open>The loops that copy one map into another.\<close>

definition put_headers :: "headers \<Rightarrow> headers \<Rightarrow> headers" where
  "put_headers hs m = fold (\<lambda>(k, v). AList.update k v) hs m"

definition check_reserved_headers :: "headers \<Rightarrow> goerr option" where
  "check_reserved_headers hs =
     (if list_ex (\<lambda>(k, v). canonical_header k = canonical_header MsgIDHeader) hs then Some (Sent ErrReservedHeader) else None)"

text \<open>The options are the maps given to \<^verbatim>\<open>WithHeaders\<close>.\<close>

definition new_message_options :: "headers list \<Rightarrow> goerr + headers" where
  "new_message_options opts =
     (let hs = fold put_headers opts [] in
      case check_reserved_headers hs of Some e \<Rightarrow> Inl e | None \<Rightarrow> Inr hs)"

definition merge_headers :: "headers \<Rightarrow> headers \<Rightarrow> headers" where
  "merge_headers shared own =
     put_headers own (put_headers (filter (\<lambda>(k, v). \<not> (is_trace_header k \<and> has_header_fold own k)) shared) [])"

definition own_headers :: "message \<Rightarrow> goerr + headers" where
  "own_headers m =
     (case check_reserved_headers (mHeaders m) of
        Some e \<Rightarrow> Inl e
      | None \<Rightarrow> Inr (if mHeaders m = [] then mOwn m else merge_headers (mHeaders m) (mOwn m)))"

text \<open>\<open>injected\<close> is what the tracing library writes for the span of the caller.\<close>

definition with_trace_headers :: "headers \<Rightarrow> headers \<Rightarrow> bool \<Rightarrow> headers" where
  "with_trace_headers injected hs v2 =
     (if \<not> v2 then hs
      else if injected = [] then hs
      else put_headers (filter (\<lambda>(k, v). \<not> has_header_fold hs k) injected) (put_headers hs []))"

section \<open>Rows\<close>

text \<open>
  The store: the relay's environment, JSON, the UUID library and the caller's span. Readings are numbered
  by the steps of the outbox.
\<close>

record store_env =
  senv :: relay_env
  variables :: environment
  marshal_headers :: "headers \<Rightarrow> goerr + byte list"
  uuid_v4 :: "nat \<Rightarrow> string"
  uuid_v7 :: "nat \<Rightarrow> goerr + string"
  injected_at :: "nat \<Rightarrow> headers"

definition parse_go_bool :: "string \<Rightarrow> bool option" where
  "parse_go_bool s =
     (if s \<in> {''1'', ''t'', ''T'', ''TRUE'', ''true'', ''True''} then Some True
      else if s \<in> {''0'', ''f'', ''F'', ''FALSE'', ''false'', ''False''} then Some False
      else None)"

definition id_v7_from_env :: "environment \<Rightarrow> bool" where
  "id_v7_from_env env =
     (let raw = trim_space (getenv env ''BROKERFX_OUTBOX_ID_V7'') in
      if raw = '''' then True else case parse_go_bool raw of None \<Rightarrow> True | Some enabled \<Rightarrow> enabled)"

definition new_event_id :: "store_env \<Rightarrow> 'z outbox_scheme \<Rightarrow> (goerr + string) \<times> 'z outbox_scheme" where
  "new_event_id se w =
     (let (n, w1) = tick w in
      (if id_v7_from_env (variables se) then uuid_v7 se n else Inr (uuid_v4 se n), w1))"

text \<open>\<open>None\<close> is the nil slice, the null of the column.\<close>

definition encode_headers :: "store_env \<Rightarrow> headers \<Rightarrow> goerr + byte list option" where
  "encode_headers se hs = (if hs = [] then Inr None else map_sum id Some (marshal_headers se hs))"

definition new_row :: "string \<Rightarrow> message \<Rightarrow> byte list option \<Rightarrow> int \<Rightarrow> outbox_row" where
  "new_row i m hj created =
     \<lparr>rid = i, rtopic = mSubject m, rpayload = (case mPayload m of None \<Rightarrow> [] | Some p \<Rightarrow> p), rstate = StatePending,
      rattempts = 0, rlast_error = None, rnext_attempt = None, rheaders = (case hj of None \<Rightarrow> [] | Some b \<Rightarrow> b),
      rcreated = created, rupdated = created\<rparr>"

abbreviation microsecond :: duration where "microsecond \<equiv> 1000"

fun message_rows ::
  "store_env \<Rightarrow> headers \<Rightarrow> byte list option \<Rightarrow> bool \<Rightarrow> int \<Rightarrow> nat \<Rightarrow> message list \<Rightarrow> 'z outbox_scheme
     \<Rightarrow> (goerr + outbox_row list) \<times> 'z outbox_scheme" where
  "message_rows se hs shared v2 base i [] w = (Inr [], w)"
| "message_rows se hs shared v2 base i (m # ms) w =
     (case mErr m of
        Some e \<Rightarrow> (Inl e, w)
      | None \<Rightarrow>
     (case own_headers m of
        Inl e \<Rightarrow> (Inl e, w)
      | Inr own \<Rightarrow>
     (case (if own \<noteq> [] then encode_headers se (merge_headers hs own) else Inr shared) of
        Inl e \<Rightarrow> (Inl e, w)
      | Inr hj \<Rightarrow>
          if hj \<noteq> None \<and> \<not> v2 then (Inl (Sent ErrSchemaOutdated), w)
          else
     (case new_event_id se w of
        (Inl e, w1) \<Rightarrow> (Inl e, w1)
      | (Inr eid, w1) \<Rightarrow>
          (case message_rows se hs shared v2 base (Suc i) ms w1 of
             (Inl e, w2) \<Rightarrow> (Inl e, w2)
           | (Inr rs, w2) \<Rightarrow> (Inr (new_row eid m hj (base + int i * microsecond) # rs), w2))))))"

definition build_message_rows ::
  "store_env \<Rightarrow> message list \<Rightarrow> headers \<Rightarrow> bool \<Rightarrow> int \<Rightarrow> 'z outbox_scheme
     \<Rightarrow> (goerr + outbox_row list) \<times> 'z outbox_scheme" where
  "build_message_rows se ms hs v2 now w =
     (case encode_headers se hs of
        Inl e \<Rightarrow> (Inl e, w)
      | Inr shared \<Rightarrow> message_rows se hs shared v2 (now - now mod microsecond) 0 ms w)"

definition legacy_event :: "outbox_row \<Rightarrow> outbox_row" where
  "legacy_event r = r\<lparr>rattempts := 0, rlast_error := None, rnext_attempt := None, rheaders := []\<rparr>"

section \<open>Saving\<close>

text \<open>An insert of rows, all or none.\<close>

definition insert_rows :: "store_env \<Rightarrow> outbox_row list \<Rightarrow> 'z outbox_scheme \<Rightarrow> goerr option \<times> 'z outbox_scheme" where
  "insert_rows se rs w = exec (senv se) (\<lambda>n d. d\<lparr>rows := rows d @ rs\<rparr>) w"

definition save_messages ::
  "store_env \<Rightarrow> message list \<Rightarrow> headers list \<Rightarrow> 'z outbox_scheme \<Rightarrow> goerr option \<times> 'z outbox_scheme" where
  "save_messages se ms opts w =
     (if ms = [] then (None, w)
      else case find (\<lambda>m. mErr m \<noteq> None) ms of Some m \<Rightarrow> (mErr m, w)
      | None \<Rightarrow>
     (case new_message_options opts of Inl e \<Rightarrow> (Some e, w)
      | Inr hs \<Rightarrow>
     (case caps_get (senv se) caps_recheck w of (Inl e, w1) \<Rightarrow> (Some e, w1)
      | (Inr c, w1) \<Rightarrow>
          let (n, w2) = tick w1 in
     (case build_message_rows se ms (with_trace_headers (injected_at se n) hs (V2 c)) (V2 c) (now_at (senv se) n) w2 of
        (Inl e, w3) \<Rightarrow> (Some e, w3)
      | (Inr rs, w3) \<Rightarrow> insert_rows se (if V2 c then rs else map legacy_event rs) w3))))"

text \<open>A single row has no times of its own: they are those of the insert.\<close>

definition create_row :: "store_env \<Rightarrow> outbox_row \<Rightarrow> 'z outbox_scheme \<Rightarrow> goerr option \<times> 'z outbox_scheme" where
  "create_row se r w =
     exec (senv se) (\<lambda>n d. d\<lparr>rows := rows d @ [r\<lparr>rcreated := now_at (senv se) n, rupdated := now_at (senv se) n\<rparr>]\<rparr>) w"

definition save_message ::
  "store_env \<Rightarrow> message \<Rightarrow> headers list \<Rightarrow> 'z outbox_scheme \<Rightarrow> goerr option \<times> 'z outbox_scheme" where
  "save_message se m opts w =
     (case mErr m of Some e \<Rightarrow> (Some e, w)
      | None \<Rightarrow>
     (case new_message_options opts of Inl e \<Rightarrow> (Some e, w)
      | Inr hs0 \<Rightarrow>
     (case own_headers m of Inl e \<Rightarrow> (Some e, w)
      | Inr own \<Rightarrow>
          let hs = (if own \<noteq> [] then merge_headers hs0 own else hs0) in
     (case caps_get (senv se) caps_recheck w of (Inl e, w1) \<Rightarrow> (Some e, w1)
      | (Inr c, w1) \<Rightarrow>
          if hs \<noteq> [] \<and> \<not> V2 c then (Some (Sent ErrSchemaOutdated), w1)
          else
          let (n, w2) = tick w1; hs' = with_trace_headers (injected_at se n) hs (V2 c) in
     (case new_event_id se w2 of (Inl e, w3) \<Rightarrow> (Some e, w3)
      | (Inr eid, w3) \<Rightarrow>
          if \<not> V2 c then create_row se (legacy_event (new_row eid m None 0)) w3
          else (case encode_headers se hs' of
                  Inl e \<Rightarrow> (Some e, w3)
                | Inr hj \<Rightarrow> create_row se (new_row eid m hj 0) w3))))))"

text \<open>\<open>event_bytes\<close> is the event's data as the codec event_bytes it.\<close>

definition save_event ::
  "store_env \<Rightarrow> string \<Rightarrow> goerr + byte list \<Rightarrow> 'z outbox_scheme \<Rightarrow> goerr option \<times> 'z outbox_scheme" where
  "save_event se subject event_bytes w =
     (case event_bytes of Inl e \<Rightarrow> (Some e, w)
      | Inr bs \<Rightarrow>
     (case new_event_id se w of (Inl e, w1) \<Rightarrow> (Some e, w1)
      | (Inr eid, w1) \<Rightarrow> create_row se (new_row eid (no_message\<lparr>mSubject := subject, mPayload := Some bs\<rparr>) None 0) w1))"

section \<open>Lists of ids\<close>

definition array_element_type :: "string \<Rightarrow> string" where
  "array_element_type t =
     (if t = ''uuid'' then ''uuid'' else if t = ''text'' \<or> t = ''character varying'' then ''text'' else '''')"

fun quote_element :: "string \<Rightarrow> string" where
  "quote_element [] = []"
| "quote_element (c # cs) = (if c = CHR 0x22 \<or> c = CHR 0x5c then [CHR 0x5c] else []) @ c # quote_element cs"

fun quote_elements :: "nat \<Rightarrow> string list \<Rightarrow> string" where
  "quote_elements i [] = []"
| "quote_elements i (v # vs) =
     (if i > 0 then '','' else []) @ CHR 0x22 # quote_element v @ CHR 0x22 # quote_elements (Suc i) vs"

definition text_array_literal :: "string list \<Rightarrow> string" where
  "text_array_literal vs = ''{'' @ quote_elements 0 vs @ ''}''"

text \<open>The input syntax of PostgreSQL arrays, for elements in quotes.\<close>

fun read_quoted :: "string \<Rightarrow> (string \<times> string) option" where
  "read_quoted [] = None"
| "read_quoted (c # cs) =
     (if c = CHR 0x22 then Some ([], cs)
      else if c = CHR 0x5c then
        (case cs of [] \<Rightarrow> None | d # ds \<Rightarrow> map_option (apfst ((#) d)) (read_quoted ds))
      else map_option (apfst ((#) c)) (read_quoted cs))"

lemma read_quoted_shorter: "read_quoted s = Some (x, rest) \<Longrightarrow> length rest < length s"
  by (induction s arbitrary: x rest rule: read_quoted.induct) (fastforce split: if_splits list.splits)+

function read_elements :: "string \<Rightarrow> string list option" where
  "read_elements s =
     (case s of
        c # cs \<Rightarrow>
          if c \<noteq> CHR 0x22 then None
          else (case read_quoted cs of
            None \<Rightarrow> None
          | Some (x, rest) \<Rightarrow>
              if rest = ''}'' then Some [x]
              else if rest \<noteq> [] \<and> hd rest = CHR '','' then map_option ((#) x) (read_elements (tl rest))
              else None)
      | [] \<Rightarrow> None)"
  by auto
termination
  by (relation "measure length") (auto dest!: read_quoted_shorter)

definition read_text_array :: "string \<Rightarrow> string list option" where
  "read_text_array s =
     (if s = ''{}'' then Some []
      else case s of c # cs \<Rightarrow> if c = CHR ''{'' then read_elements cs else None | [] \<Rightarrow> None)"

text \<open>The condition on the id, as the database understands it.\<close>

definition where_ids :: "string \<Rightarrow> string list \<Rightarrow> outbox_row \<Rightarrow> bool" where
  "where_ids t ids r \<longleftrightarrow>
     (if t = ''uuid'' \<or> t = ''text''
      then (case read_text_array (text_array_literal ids) of None \<Rightarrow> False | Some vs \<Rightarrow> rid r \<in> set vs)
      else rid r \<in> set ids)"

definition requeue :: "outbox_row \<Rightarrow> outbox_row" where
  "requeue r = r\<lparr>rstate := StatePending, rattempts := 0, rnext_attempt := None\<rparr>"

definition requeue_parked ::
  "store_env \<Rightarrow> string list \<Rightarrow> 'z outbox_scheme \<Rightarrow> (nat \<times> goerr option) \<times> 'z outbox_scheme" where
  "requeue_parked se ids w =
     (case (if ids = [] then (Inr (\<lambda>_. True), w)
            else case caps_get (senv se) caps_recheck w of
                (Inl e, w1) \<Rightarrow> (Inl e, w1) | (Inr c, w1) \<Rightarrow> (Inr (where_ids (IDType c) ids), w1)) of
        (Inl e, w1) \<Rightarrow> ((0, Some e), w1)
      | (Inr P, w1) \<Rightarrow>
          let hit = (\<lambda>r. rstate r = StateParked \<and> P r);
              (err, w2) = exec (senv se) (\<lambda>n d. d\<lparr>rows := map (\<lambda>r. if hit r
                 then (requeue r)\<lparr>rupdated := touched_at (senv se) n (rupdated r)\<rparr> else r) (rows d)\<rparr>) w1
          in ((if err = None then length (filter hit (rows (db w1))) else 0, err), w2))"

section \<open>The schema\<close>

text \<open>The answers of the four queries, in their order.\<close>

definition detect_schema ::
  "goerr + int \<Rightarrow> goerr + string option \<Rightarrow> goerr + string option \<Rightarrow> goerr + int \<Rightarrow> goerr + schema_caps" where
  "detect_schema v2_columns retries_table id_type strict_columns =
     (case v2_columns of Inl e \<Rightarrow> Inl e | Inr v \<Rightarrow>
     (case retries_table of Inl e \<Rightarrow> Inl e | Inr t \<Rightarrow>
     (case id_type of Inl e \<Rightarrow> Inl e | Inr i \<Rightarrow>
     (case strict_columns of Inl e \<Rightarrow> Inl e | Inr s \<Rightarrow>
        Inr \<lparr>V2 = (v = 4), Retries = (t \<noteq> None), DrainSafe = (s = 0),
             IDType = array_element_type (case i of None \<Rightarrow> '''' | Some d \<Rightarrow> d)\<rparr>))))"


section \<open>Headers as maps\<close>

text \<open>Headers in ASCII, each key once: those that JSON gives back as they are.\<close>

definition good_headers :: "headers \<Rightarrow> bool" where
  "good_headers hs \<longleftrightarrow> distinct (map fst hs) \<and> (\<forall>(k, v) \<in> set hs. \<forall>c \<in> set (k @ v). (of_char c :: nat) < 128)"

lemma good_headers_Nil [simp]: "good_headers []"
  by (simp add: good_headers_def)

lemma set_AList_update: "set (AList.update k v hs) \<subseteq> insert (k, v) (set hs)"
  by (induction hs) auto

lemma good_headers_update:
  "good_headers hs \<Longrightarrow> \<forall>c \<in> set (k @ v). (of_char c :: nat) < 128 \<Longrightarrow> good_headers (AList.update k v hs)"
  using set_AList_update [of k v hs] unfolding good_headers_def by (fastforce simp: AList.distinct_update)

lemma good_headers_put_all: "good_headers hs \<Longrightarrow> good_headers m \<Longrightarrow> good_headers (put_headers hs m)"
proof (induction hs arbitrary: m)
  case (Cons x hs)
  obtain k v where x: "x = (k, v)" by fastforce
  have "good_headers hs" "\<forall>c \<in> set (k @ v). (of_char c :: nat) < 128" using Cons.prems(1) x by (auto simp: good_headers_def)
  then show ?case using Cons.IH [of "AList.update k v m"] good_headers_update Cons.prems(2) x by (simp add: put_headers_def)
qed (simp add: put_headers_def)

lemma good_headers_filter: "good_headers hs \<Longrightarrow> good_headers (filter P hs)"
  by (auto simp: good_headers_def distinct_map_filter)

lemma map_of_put_all: "distinct (map fst hs) \<Longrightarrow> map_of (put_headers hs m) = map_of m ++ map_of hs"
proof (induction hs arbitrary: m)
  case (Cons x hs)
  obtain k v where x: "x = (k, v)" by fastforce
  have "k \<notin> dom (map_of hs)" using Cons.prems x by (simp add: dom_map_of_conv_image_fst)
  then have "(map_of m)(k \<mapsto> v) ++ map_of hs = map_of m ++ (map_of hs)(k \<mapsto> v)"
    by (auto simp: map_add_def fun_eq_iff split: option.splits)
  moreover have "map_of (put_headers hs (AList.update k v m)) = map_of (AList.update k v m) ++ map_of hs"
    using Cons by simp
  moreover have "map_of (x # hs) = (map_of hs)(k \<mapsto> v)" "put_headers (x # hs) m = put_headers hs (AList.update k v m)"
    using x by (auto simp: put_headers_def)
  ultimately show ?case by (simp only: AList.update_conv')
qed (simp add: put_headers_def)

lemma map_of_filter_fst:
  "map_of (filter (\<lambda>(k, v). P k) hs) = (\<lambda>k. if P k then map_of hs k else None)"
  by (induction hs) (auto simp: fun_eq_iff)

lemma has_header_fold_dom: "has_header_fold hs k \<longleftrightarrow> (\<exists>k' \<in> dom (map_of hs). equal_fold k' k)"
  by (force simp: has_header_fold_def dom_map_of_conv_image_fst)

text \<open>What merging means: the message's own headers win, and replace a trace header whatever its case.\<close>

definition merged_map :: "(string \<rightharpoonup> string) \<Rightarrow> (string \<rightharpoonup> string) \<Rightarrow> string \<rightharpoonup> string" where
  "merged_map shared own =
     (\<lambda>k. if is_trace_header k \<and> (\<exists>k' \<in> dom own. equal_fold k' k) then own k else (shared ++ own) k)"

lemma merged_map_empty [simp]: "merged_map shared Map.empty = shared"
  by (simp add: merged_map_def)

lemma merged_map_Nil [simp]: "merged_map Map.empty own = own"
  by (auto simp: merged_map_def)

lemma merge_headers_map:
  assumes "good_headers shared" "good_headers own"
  shows "map_of (merge_headers shared own) = merged_map (map_of shared) (map_of own)"
proof -
  have "distinct (map fst (filter P shared))" for P using assms(1) by (simp add: good_headers_def distinct_map_filter)
  then have "map_of (put_headers (filter (\<lambda>(k, v). \<not> (is_trace_header k \<and> has_header_fold own k)) shared) []) =
      (\<lambda>k. if \<not> (is_trace_header k \<and> has_header_fold own k) then map_of shared k else None)"
    by (simp add: map_of_put_all map_of_filter_fst)
  then show ?thesis using assms(2)
    by (auto simp: merge_headers_def map_of_put_all good_headers_def merged_map_def map_add_def fun_eq_iff
        has_header_fold_dom split: option.splits)
qed

lemma good_merge_headers: "good_headers shared \<Longrightarrow> good_headers own \<Longrightarrow> good_headers (merge_headers shared own)"
  by (simp add: merge_headers_def good_headers_put_all good_headers_filter)

text \<open>The span of the caller fills in what the headers do not have.\<close>

definition traced_map :: "(string \<rightharpoonup> string) \<Rightarrow> (string \<rightharpoonup> string) \<Rightarrow> string \<rightharpoonup> string" where
  "traced_map tr hs = (\<lambda>k. if \<exists>k' \<in> dom hs. equal_fold k' k then hs k else tr k)"

lemma with_trace_headers_map:
  assumes "good_headers injected" "good_headers hs"
  shows "map_of (with_trace_headers injected hs True) = traced_map (map_of injected) (map_of hs)"
proof -
  have d: "distinct (map fst (filter P injected))" for P using assms(1) by (simp add: good_headers_def distinct_map_filter)
  have "map_of hs k = None" if "\<forall>k' \<in> dom (map_of hs). \<not> equal_fold k' k" for k
    using that by (metis domIff equal_fold_refl)
  then show ?thesis using assms(2) d
    by (auto simp: with_trace_headers_def map_of_put_all good_headers_def traced_map_def map_of_filter_fst
        map_add_def fun_eq_iff has_header_fold_dom domIff split: option.splits)
qed

lemma good_with_trace_headers:
  "good_headers injected \<Longrightarrow> good_headers hs \<Longrightarrow> good_headers (with_trace_headers injected hs v2)"
  by (simp add: with_trace_headers_def good_headers_put_all good_headers_filter)

definition own_map :: "message \<Rightarrow> string \<rightharpoonup> string" where
  "own_map m = merged_map (map_of (mHeaders m)) (map_of (mOwn m))"

definition good_message :: "message \<Rightarrow> bool" where
  "good_message m \<longleftrightarrow> good_headers (mHeaders m) \<and> good_headers (mOwn m)"

lemma own_headers_map:
  assumes "good_message m" "own_headers m = Inr own"
  shows "map_of own = own_map m \<and> good_headers own"
  using assms
  by (auto simp: own_headers_def good_message_def own_map_def merge_headers_map good_merge_headers
      split: option.splits if_splits)

lemma good_new_message_options:
  assumes "\<forall>hs \<in> set opts. good_headers hs" "new_message_options opts = Inr hs"
  shows "good_headers hs"
proof -
  have "good_headers (fold put_headers opts m)" if "good_headers m" for m
    using assms(1) that by (induction opts arbitrary: m) (simp_all add: good_headers_put_all)
  then show ?thesis using assms(2) by (auto simp: new_message_options_def Let_def split: option.splits)
qed

section \<open>What the relay reads back\<close>

text \<open>JSON reads back the headers it wrote.\<close>

definition reads_headers :: "store_env \<Rightarrow> bool" where
  "reads_headers se \<longleftrightarrow> (\<forall>hs b. good_headers hs \<and> marshal_headers se hs = Inr b \<longrightarrow>
     b \<noteq> [] \<and> (\<exists>h. unmarshal (senv se) b = Some h \<and> map_of h = map_of hs))"

lemma encode_headers_reads:
  assumes "reads_headers se" "good_headers hs" "encode_headers se hs = Inr hj"
  shows "map_of (hdrs (decode_row (senv se) (new_row i m hj c))) = map_of hs"
proof (cases "hs = []")
  case True
  then show ?thesis using assms(3) by (simp add: encode_headers_def decode_row_def new_row_def)
next
  case False
  then obtain b where b: "marshal_headers se hs = Inr b" "hj = Some b"
    using assms(3) by (cases "marshal_headers se hs") (auto simp: encode_headers_def)
  then obtain h where "b \<noteq> []" "unmarshal (senv se) b = Some h" "map_of h = map_of hs"
    using assms(1,2) unfolding reads_headers_def by blast
  then show ?thesis by (simp add: b decode_row_def new_row_def)
qed

text \<open>The headers a message is to have.\<close>

definition wanted_headers :: "bool \<Rightarrow> headers \<Rightarrow> headers \<Rightarrow> message \<Rightarrow> string \<rightharpoonup> string" where
  "wanted_headers v2 injected hs m =
     merged_map (if v2 then traced_map (map_of injected) (map_of hs) else map_of hs) (own_map m)"

lemma new_event_id_db: "new_event_id se w = (r, w') \<Longrightarrow> db w' = db w"
  by (auto simp: new_event_id_def tick_def)

lemma caps_get_same_db: "caps_get env recheck w = (r, w') \<Longrightarrow> db w' = db w"
  by (auto simp: caps_get_def tick_def Let_def split: if_splits sum.splits)

definition row_of :: "store_env \<Rightarrow> headers \<Rightarrow> bool \<Rightarrow> message \<Rightarrow> int \<Rightarrow> outbox_row \<Rightarrow> bool" where
  "row_of se hs v2 m created r \<longleftrightarrow>
     (\<exists>eid hj own. r = new_row eid m hj created \<and> (hj \<noteq> None \<longrightarrow> v2) \<and> own_headers m = Inr own \<and>
        encode_headers se (if own \<noteq> [] then merge_headers hs own else hs) = Inr hj)"

lemma message_rows_db: "message_rows se hs shared v2 base i ms w = (out, w') \<Longrightarrow> db w' = db w"
proof (induction ms arbitrary: i w out w')
  case (Cons m ms)
  then show ?case
    by (fastforce dest: new_event_id_db split: option.splits sum.splits if_splits prod.splits)
qed simp

lemma message_rows_spec:
  assumes "encode_headers se hs = Inr shared" "message_rows se hs shared v2 base i ms w = (Inr rs, w')"
  shows "list_all2 (\<lambda>(j, m) r. row_of se hs v2 m (base + int j * microsecond) r) (enumerate i ms) rs"
  using assms(2)
proof (induction ms arbitrary: i w rs)
  case (Cons m ms)
  from Cons.prems obtain own hj eid w1 rs' where s: "mErr m = None" "own_headers m = Inr own"
    "(if own \<noteq> [] then encode_headers se (merge_headers hs own) else Inr shared) = Inr hj" "hj \<noteq> None \<longrightarrow> v2"
    "message_rows se hs shared v2 base (Suc i) ms w1 = (Inr rs', w')"
    "rs = new_row eid m hj (base + int i * microsecond) # rs'"
    by (auto split: option.splits sum.splits if_splits prod.splits)
  have "encode_headers se (if own \<noteq> [] then merge_headers hs own else hs) = Inr hj" using s(3) assms(1) by (auto split: if_splits)
  then have "row_of se hs v2 m (base + int i * microsecond) (new_row eid m hj (base + int i * microsecond))"
    using s by (auto simp: row_of_def)
  then show ?case using Cons.IH [OF s(5)] s(6) by simp
qed simp


text \<open>A row written for a message, and the event the relay makes of it.\<close>

definition carries :: "store_env \<Rightarrow> bool \<Rightarrow> headers \<Rightarrow> headers \<Rightarrow> message \<Rightarrow> outbox_row \<Rightarrow> bool" where
  "carries se v2 injected hs m r \<longleftrightarrow>
     (let ev = decode_row (senv se) r in
      rstate r = StatePending \<and> rnext_attempt r = None \<and> attempts ev = 0 \<and> topic ev = mSubject m \<and>
      payload ev = (case mPayload m of None \<Rightarrow> [] | Some p \<Rightarrow> p) \<and>
      map_of (hdrs ev) = wanted_headers v2 injected hs m)"

lemma new_row_fields [simp]:
  "rid (new_row i m hj c) = i" "rtopic (new_row i m hj c) = mSubject m" "rstate (new_row i m hj c) = StatePending"
  "rpayload (new_row i m hj c) = (case mPayload m of None \<Rightarrow> [] | Some p \<Rightarrow> p)" "rattempts (new_row i m hj c) = 0"
  "rnext_attempt (new_row i m hj c) = None" "rcreated (new_row i m hj c) = c"
  "legacy_event (new_row i m None c) = new_row i m None c"
  by (simp_all add: new_row_def legacy_event_def)

lemma decode_row_fields [simp]:
  "attempts (decode_row env r) = rattempts r" "topic (decode_row env r) = rtopic r" "payload (decode_row env r) = rpayload r"
  "created_at (decode_row env r) = rcreated r" "event_id (decode_row env r) = rid r"
  by (simp_all add: decode_row_def)

lemma row_of_carries:
  assumes "reads_headers se" "good_message m" "good_headers hs" "good_headers injected"
    "row_of se (with_trace_headers injected hs v2) v2 m c r"
  shows "carries se v2 injected hs m r \<and> rcreated r = c \<and> (\<not> v2 \<longrightarrow> legacy_event r = r)"
proof -
  let ?hs = "with_trace_headers injected hs v2"
  obtain eid hj own where r: "r = new_row eid m hj c" "hj \<noteq> None \<longrightarrow> v2" "own_headers m = Inr own"
    "encode_headers se (if own \<noteq> [] then merge_headers ?hs own else ?hs) = Inr hj"
    using assms(5) by (auto simp: row_of_def)
  have own: "map_of own = own_map m" "good_headers own" using own_headers_map assms(2) r(3) by blast+
  have good: "good_headers ?hs" by (rule good_with_trace_headers) (use assms in auto)
  have shared: "map_of ?hs = (if v2 then traced_map (map_of injected) (map_of hs) else map_of hs)"
    using with_trace_headers_map [OF assms(4,3)] by (simp add: with_trace_headers_def)
  have "map_of (hdrs (decode_row (senv se) r)) = map_of (if own \<noteq> [] then merge_headers ?hs own else ?hs)"
    unfolding r(1) by (rule encode_headers_reads [OF assms(1) _ r(4)]) (use good own good_merge_headers in auto)
  also have "\<dots> = merged_map (map_of ?hs) (map_of own)" using merge_headers_map [OF good own(2)] by simp
  finally have "map_of (hdrs (decode_row (senv se) r)) = wanted_headers v2 injected hs m"
    by (simp add: wanted_headers_def shared own(1))
  then show ?thesis using r(1,2) by (auto simp: carries_def Let_def)
qed

text \<open>The two ways a call ends.\<close>

lemma save_messages_cases:
  assumes "save_messages se ms opts w = (err, w')"
  obtains (refused) e where "err = Some e" "db w' = db w"
  | (empty) "ms = []" "err = None" "w' = w"
  | (saved) c w1 n shared w3 rs where "ms \<noteq> []" "err = None"
    "check_reserved_headers (fold put_headers opts []) = None" "caps_get (senv se) caps_recheck w = (Inr c, w1)" "n = steps w1"
    "encode_headers se (with_trace_headers (injected_at se n) (fold put_headers opts []) (V2 c)) = Inr shared"
    "message_rows se (with_trace_headers (injected_at se n) (fold put_headers opts []) (V2 c)) shared (V2 c)
       (now_at (senv se) n - now_at (senv se) n mod microsecond) 0 ms (w1\<lparr>steps := Suc n\<rparr>) = (Inr rs, w3)"
    "db w' = (db w)\<lparr>rows := rows (db w) @ (if V2 c then rs else map legacy_event rs)\<rparr>"
proof (cases "ms = []")
  case True
  then have "err = None \<and> w' = w" using assms by (auto simp: save_messages_def)
  with True empty show thesis by simp
next
  case False
  show thesis
  proof (cases err)
    case None
    have found: "find (\<lambda>m. mErr m \<noteq> None) ms = None"
    proof (rule ccontr)
      assume "find (\<lambda>m. mErr m \<noteq> None) ms \<noteq> None"
      then obtain m where m: "find (\<lambda>m. mErr m \<noteq> None) ms = Some m" by blast
      then have "mErr m \<noteq> None" by (auto simp: find_Some_iff)
      moreover have "mErr m = err" using assms False m by (simp add: save_messages_def)
      ultimately show False using None by simp
    qed
    obtain c w1 where c: "caps_get (senv se) caps_recheck w = (Inr c, w1)" "check_reserved_headers (fold put_headers opts []) = None"
      using assms None False found
      by (auto simp: save_messages_def new_message_options_def Let_def split: option.splits sum.splits prod.splits)
    let ?n = "steps w1"
    let ?hs = "with_trace_headers (injected_at se ?n) (fold put_headers opts []) (V2 c)"
    obtain rs w3 where b: "build_message_rows se ms ?hs (V2 c) (now_at (senv se) ?n) (w1\<lparr>steps := Suc ?n\<rparr>) = (Inr rs, w3)"
      "insert_rows se (if V2 c then rs else map legacy_event rs) w3 = (None, w')"
      using assms None False found c
      by (auto simp: save_messages_def new_message_options_def tick_def Let_def split: option.splits sum.splits prod.splits)
    then obtain shared where s: "encode_headers se ?hs = Inr shared"
      "message_rows se ?hs shared (V2 c) (now_at (senv se) ?n - now_at (senv se) ?n mod microsecond) 0 ms (w1\<lparr>steps := Suc ?n\<rparr>) = (Inr rs, w3)"
      by (auto simp: build_message_rows_def split: sum.splits)
    have "db w3 = db w" using message_rows_db [OF s(2)] caps_get_same_db [OF c(1)] by simp
    then have "db w' = (db w)\<lparr>rows := rows (db w) @ (if V2 c then rs else map legacy_event rs)\<rparr>"
      using b(2) by (auto simp: insert_rows_def exec_def tick_def split: option.splits)
    then show thesis using saved [OF False None c(2,1) refl s] by blast
  next
    case (Some e)
    have "db w' = db w" using assms Some False
      by (auto simp: save_messages_def build_message_rows_def insert_rows_def exec_def tick_def Let_def
          dest!: caps_get_same_db message_rows_db split: option.splits sum.splits prod.splits)
    then show thesis using refused Some by blast
  qed
qed



text \<open>A JSON that separates what it writes with a byte no ASCII text has.\<close>

definition demo_text :: "string \<Rightarrow> byte list" where
  "demo_text s = map (\<lambda>c. word_of_nat (of_char c)) s @ [255]"

fun demo_json_bytes :: "headers \<Rightarrow> byte list" where
  "demo_json_bytes [] = []"
| "demo_json_bytes ((k, v) # hs) = demo_text k @ demo_text v @ demo_json_bytes hs"

definition demo_word :: "byte list \<Rightarrow> string \<times> byte list" where
  "demo_word bs = (map (\<lambda>b. char_of (unat b)) (takeWhile (\<lambda>b. b \<noteq> 255) bs), tl (dropWhile (\<lambda>b. b \<noteq> 255) bs))"

fun demo_unjson :: "nat \<Rightarrow> byte list \<Rightarrow> headers" where
  "demo_unjson 0 bs = []"
| "demo_unjson (Suc n) bs =
     (if bs = [] then []
      else let (k, bs1) = demo_word bs; (v, bs2) = demo_word bs1 in (k, v) # demo_unjson n bs2)"

lemma demo_word_text:
  assumes "\<forall>c \<in> set s. (of_char c :: nat) < 128"
  shows "demo_word (demo_text s @ bs) = (s, bs)"
proof -
  have small: "unat (word_of_nat (of_char c) :: byte) = of_char c" if "c \<in> set s" for c
    using assms that by (fastforce simp: unsigned_of_nat take_bit_nat_eq_self)
  have "(word_of_nat (of_char c) :: byte) \<noteq> 255" if "c \<in> set s" for c
  proof
    assume "(word_of_nat (of_char c) :: byte) = 255"
    then have "(of_char c :: nat) = unat (255 :: byte)" using small [OF that] by metis
    then show False using assms that by auto
  qed
  note no_end = this
  have "takeWhile (\<lambda>b. b \<noteq> 255) (map (\<lambda>c. word_of_nat (of_char c)) s @ 255 # bs) =
      map (\<lambda>c. word_of_nat (of_char c) :: byte) s"
    by (subst takeWhile_append2) (use no_end in auto)
  moreover have "dropWhile (\<lambda>b. b \<noteq> 255) (map (\<lambda>c. word_of_nat (of_char c) :: byte) s @ 255 # bs) = 255 # bs"
    by (subst dropWhile_append2) (use no_end in auto)
  ultimately show ?thesis using small by (simp add: demo_word_def demo_text_def map_idI)
qed

lemma demo_json_bytes_reads:
  "\<forall>(k, v) \<in> set hs. \<forall>c \<in> set (k @ v). (of_char c :: nat) < 128 \<Longrightarrow> length hs \<le> n \<Longrightarrow> demo_unjson n (demo_json_bytes hs) = hs"
proof (induction hs arbitrary: n)
  case (Cons x hs)
  obtain k v where x: "x = (k, v)" by fastforce
  obtain n' where n: "n = Suc n'" using Cons.prems(2) by (cases n) auto
  have "demo_unjson n' (demo_json_bytes hs) = hs" by (rule Cons.IH) (use Cons.prems n in auto)
  moreover have "demo_word (demo_text k @ bs) = (k, bs)" "demo_word (demo_text v @ bs) = (v, bs)" for bs
    by (rule demo_word_text; use Cons.prems x in auto)+
  moreover have "demo_text k \<noteq> []" by (simp add: demo_text_def)
  ultimately show ?case by (simp add: x n Let_def)
next
  case Nil
  then show ?case by (cases n) simp_all
qed

lemma length_demo_json: "length hs \<le> length (demo_json_bytes hs)"
  by (induction hs rule: demo_json_bytes.induct) (simp_all add: demo_text_def)

definition demo_store :: store_env where
  "demo_store = \<lparr>senv = demo_env\<lparr>unmarshal := \<lambda>bs. case bs of [] \<Rightarrow> None | b # bs \<Rightarrow> Some (demo_unjson (length bs) bs)\<rparr>,
     variables = \<lparr>env_lookup = \<lambda>_. None, parse_duration = \<lambda>_. None\<rparr>, marshal_headers = \<lambda>hs. Inr (123 # demo_json_bytes hs),
     uuid_v4 = (\<lambda>n. replicate n CHR ''a''), uuid_v7 = (\<lambda>n. Inr (replicate n CHR ''b'')),
     injected_at = (\<lambda>n. [(''traceparent'', ''00-1'')])\<rparr>"

lemma demo_store_ok:
  "reads_headers demo_store" "good_headers (injected_at demo_store n)"
  using demo_json_bytes_reads length_demo_json
  by (auto simp: reads_headers_def demo_store_def good_headers_def)

definition demo_messages :: "message list" where
  "demo_messages = [kv_put ''rates'' ''eur'' (Some [1]), kv_delete ''rates'' ''usd'',
     no_message\<lparr>mSubject := ''orders'', mHeaders := [(''TraceParent'', ''00-2'')]\<rparr>]"

lemma demo_messages_good: "\<forall>m \<in> set demo_messages. good_message m"
  by (simp add: demo_messages_def kv_put_def kv_delete_def kv_subject_def good_message_def good_headers_def no_message_def split: sum.splits)


section \<open>One message or several\<close>

definition folds_into :: "(string \<rightharpoonup> string) \<Rightarrow> string \<Rightarrow> bool" where
  "folds_into h k \<longleftrightarrow> (\<exists>k' \<in> dom h. equal_fold k' k)"

lemma folds_into_fold: "equal_fold k k' \<Longrightarrow> folds_into h k = folds_into h k'"
  unfolding folds_into_def by (metis equal_fold_sym equal_fold_trans)

lemma trace_fold: "equal_fold k k' \<Longrightarrow> is_trace_header k = is_trace_header k'"
  unfolding is_trace_header_def by (metis equal_fold_sym equal_fold_trans)

text \<open>Adding the span before or after the message's own headers comes to the same.\<close>

lemma traced_merged:
  assumes "\<forall>k \<in> dom tr. is_trace_header k"
  shows "traced_map tr (merged_map hs own) = merged_map (traced_map tr hs) own"
proof
  fix k
  have in_own: "own k' \<noteq> None \<Longrightarrow> merged_map hs own k' \<noteq> None" for k' by (auto simp: merged_map_def map_add_def)
  have in_merged: "merged_map hs own k' \<noteq> None \<longleftrightarrow> own k' \<noteq> None \<or> (hs k' \<noteq> None \<and> \<not> (is_trace_header k' \<and> folds_into own k'))" for k'
    by (auto simp: merged_map_def map_add_def folds_into_def split: option.splits)
  have own_fold: "folds_into own k \<Longrightarrow> folds_into (merged_map hs own) k" using in_own by (auto simp: folds_into_def)
  have self: "h k \<noteq> None \<Longrightarrow> folds_into h k" for h :: "string \<rightharpoonup> string" by (auto simp: folds_into_def intro!: bexI [of _ k])
  have tm: "traced_map tr h k = (if folds_into h k then h k else tr k)" for h by (simp add: traced_map_def folds_into_def)
  have mm: "merged_map h own k = (if is_trace_header k \<and> folds_into own k then own k else (h ++ own) k)" for h
    by (simp add: merged_map_def folds_into_def)
  consider (replaced) "is_trace_header k" "folds_into own k" | (own) "\<not> (is_trace_header k \<and> folds_into own k)" "own k \<noteq> None"
    | (shared) "\<not> (is_trace_header k \<and> folds_into own k)" "own k = None" "folds_into hs k"
    | (traced) "\<not> (is_trace_header k \<and> folds_into own k)" "own k = None" "\<not> folds_into hs k" by blast
  then show "traced_map tr (merged_map hs own) k = merged_map (traced_map tr hs) own k"
  proof cases
    case replaced
    then show ?thesis using own_fold by (simp add: tm mm)
  next
    case own
    then show ?thesis using self [of "merged_map hs own"] in_own [OF own(2)] by (auto simp: tm mm map_add_def)
  next
    case shared
    then obtain k' where k': "k' \<in> dom hs" "equal_fold k' k" by (auto simp: folds_into_def)
    have "\<not> (is_trace_header k' \<and> folds_into own k')" using shared(1) trace_fold [OF k'(2)] folds_into_fold [OF k'(2)] by simp
    then have "folds_into (merged_map hs own) k" using k' in_merged [of k'] by (auto simp: folds_into_def)
    then show ?thesis using shared by (auto simp: tm mm map_add_def)
  next
    case traced
    then have "hs k = None" using self by blast
    moreover have "tr k = None" if "folds_into (merged_map hs own) k"
    proof -
      from that obtain k' where k': "merged_map hs own k' \<noteq> None" "equal_fold k' k" by (auto simp: folds_into_def)
      have "hs k' = None" using traced(3) k'(2) by (auto simp: folds_into_def)
      then have "folds_into own k" using in_merged [of k'] k' by (auto simp: folds_into_def)
      then show ?thesis using traced(1) assms by blast
    qed
    ultimately show ?thesis using traced by (auto simp: tm mm map_add_def)
  qed
qed

lemma save_message_saves:
  assumes "reads_headers se" "good_message m" "\<forall>hs \<in> set opts. good_headers hs"
    and "\<forall>n. good_headers (injected_at se n)" "save_message se m opts w = (None, w')"
  shows "\<exists>c w1 r. caps_get (senv se) caps_recheck w = (Inr c, w1) \<and> db w' = (db w)\<lparr>rows := rows (db w) @ [r]\<rparr> \<and>
    rstate r = StatePending \<and> rtopic r = mSubject m \<and> rpayload r = (case mPayload m of None \<Rightarrow> [] | Some p \<Rightarrow> p) \<and>
    map_of (hdrs (decode_row (senv se) r)) =
      (if V2 c then traced_map (map_of (injected_at se (steps w1))) else id)
        (merged_map (map_of (fold put_headers opts [])) (own_map m))"
proof -
  obtain own c w1 where s: "mErr m = None" "check_reserved_headers (fold put_headers opts []) = None" "own_headers m = Inr own"
    "caps_get (senv se) caps_recheck w = (Inr c, w1)"
    using assms(5) by (auto simp: save_message_def new_message_options_def Let_def split: option.splits sum.splits prod.splits)
  let ?shared = "fold put_headers opts []"
  let ?hs = "if own \<noteq> [] then merge_headers ?shared own else ?shared"
  let ?n = "steps w1"
  let ?traced = "with_trace_headers (injected_at se ?n) ?hs (V2 c)"
  have good: "good_headers ?shared" by (rule good_new_message_options [OF assms(3)]) (simp add: new_message_options_def s(2))
  have own: "map_of own = own_map m" "good_headers own" using own_headers_map assms(2) s(3) by blast+
  have hs: "map_of ?hs = merged_map (map_of ?shared) (own_map m)"
  proof (cases "own = []")
    case True
    then have "own_map m = Map.empty" using own(1) by auto
    with True show ?thesis by simp
  qed (simp add: merge_headers_map [OF good own(2)] own(1))
  have good_hs: "good_headers ?hs" using good_merge_headers [OF good own(2)] good by simp
  obtain eid w3 where e: "new_event_id se (w1\<lparr>steps := Suc ?n\<rparr>) = (Inr eid, w3)" "\<not> (?hs \<noteq> [] \<and> \<not> V2 c)"
    using assms(5) s by (auto simp: save_message_def new_message_options_def tick_def Let_def split: sum.splits prod.splits if_splits)
  have db3: "db w3 = db w" using new_event_id_db [OF e(1)] caps_get_same_db [OF s(4)] by simp
  have created: "create_row se r w3 = (None, w') \<Longrightarrow> \<exists>t. db w' = (db w)\<lparr>rows := rows (db w) @ [r\<lparr>rcreated := t, rupdated := t\<rparr>]\<rparr>" for r
    by (auto simp: create_row_def exec_def tick_def db3 split: option.splits)
  show ?thesis
  proof (cases "V2 c")
    case False
    then have "create_row se (legacy_event (new_row eid m None 0)) w3 = (None, w')"
      using assms(5) s e by (auto simp: save_message_def new_message_options_def tick_def Let_def split: if_splits)
    then obtain t where t: "db w' = (db w)\<lparr>rows := rows (db w) @ [(new_row eid m None 0)\<lparr>rcreated := t, rupdated := t\<rparr>]\<rparr>"
      using created by fastforce
    have "merged_map (map_of ?shared) (own_map m) = Map.empty" using e(2) False hs by auto
    then show ?thesis using s(4) t False
      by (intro exI [of _ c] exI [of _ w1] exI) (auto simp: decode_row_def new_row_def)
  next
    case True
    then obtain hj where hj: "encode_headers se ?traced = Inr hj" "create_row se (new_row eid m hj 0) w3 = (None, w')"
      using assms(5) s e by (auto simp: save_message_def new_message_options_def tick_def Let_def split: sum.splits if_splits)
    then obtain t where t: "db w' = (db w)\<lparr>rows := rows (db w) @ [(new_row eid m hj 0)\<lparr>rcreated := t, rupdated := t\<rparr>]\<rparr>"
      using created by blast
    have "map_of (hdrs (decode_row (senv se) (new_row eid m hj 0))) = map_of ?traced"
      by (rule encode_headers_reads [OF assms(1) _ hj(1)]) (use good_with_trace_headers good_hs assms(4) in blast)
    moreover have "map_of ?traced = traced_map (map_of (injected_at se ?n)) (map_of ?hs)"
      using with_trace_headers_map [of "injected_at se ?n" ?hs] assms(4) good_hs True by simp
    ultimately show ?thesis using s(4) t True hs
      by (intro exI [of _ c] exI [of _ w1] exI) (auto simp: decode_row_def)
  qed
qed

text \<open>
  C36. One message is saved as in a list of one. When both succeed, \<open>SaveMessage\<close> writes the subject, the
  payload and the headers that \<open>SaveMessages\<close> would, though it merges the caller's span in after the
  message's own headers and not before.
\<close>

theorem save_message_as_list:
  assumes "reads_headers se" "good_message m" "\<forall>hs \<in> set opts. good_headers hs"
    and "\<forall>n. good_headers (injected_at se n) \<and> (\<forall>(k, v) \<in> set (injected_at se n). is_trace_header k)"
    and "save_message se m opts w = (None, w1)" "save_messages se [m] opts w = (None, w2)"
  shows "\<exists>r1 r2. rows (db w1) = rows (db w) @ [r1] \<and> rows (db w2) = rows (db w) @ [r2] \<and>
    rstate r1 = rstate r2 \<and> rtopic r1 = rtopic r2 \<and> rpayload r1 = rpayload r2 \<and>
    map_of (hdrs (decode_row (senv se) r1)) = map_of (hdrs (decode_row (senv se) r2))"
proof -
  have good: "\<forall>n. good_headers (injected_at se n)" using assms(4) by blast
  obtain c v r1 where one: "caps_get (senv se) caps_recheck w = (Inr c, v)" "db w1 = (db w)\<lparr>rows := rows (db w) @ [r1]\<rparr>"
    "rstate r1 = StatePending" "rtopic r1 = mSubject m" "rpayload r1 = (case mPayload m of None \<Rightarrow> [] | Some p \<Rightarrow> p)"
    "map_of (hdrs (decode_row (senv se) r1)) = (if V2 c then traced_map (map_of (injected_at se (steps v))) else id)
        (merged_map (map_of (fold put_headers opts [])) (own_map m))"
    using save_message_saves [OF assms(1-3) good assms(5)] by blast
  have "\<forall>k \<in> dom (map_of (injected_at se n)). is_trace_header k" for n using assms(4) by (force dest: map_of_SomeD)
  note swap = traced_merged [OF this]
  from assms(6) show ?thesis
  proof (cases rule: save_messages_cases)
    case (saved c' v' n shared w3 rs)
    then have same: "c' = c" "v' = v" "n = steps v" using one(1) by simp_all
    have "good_headers (fold put_headers opts [])"
      by (rule good_new_message_options [OF assms(3)]) (simp add: new_message_options_def saved(3))
    moreover obtain r2 t where r2: "rs = [r2]"
      "row_of se (with_trace_headers (injected_at se n) (fold put_headers opts []) (V2 c)) (V2 c) m t r2"
      using message_rows_spec [OF saved(6,7)] same by (auto simp: list_all2_Cons1)
    ultimately have "carries se (V2 c) (injected_at se n) (fold put_headers opts []) m r2 \<and> (\<not> V2 c \<longrightarrow> legacy_event r2 = r2)"
      using row_of_carries [OF assms(1,2) _ _ r2(2)] good by blast
    then show ?thesis using saved(8) one same r2(1)
      by (auto simp: carries_def Let_def wanted_headers_def swap intro!: exI [of _ r1] exI [of _ r2])
  qed simp_all
qed


theorem save_message_as_list_witness:
  "\<exists>r1 r2. rows (db (snd (save_message demo_store (demo_messages ! 2) [] demo_world))) = rows (db demo_world) @ [r1] \<and>
     rows (db (snd (save_messages demo_store [demo_messages ! 2] [] demo_world))) = rows (db demo_world) @ [r2] \<and>
     map_of (hdrs (decode_row (senv demo_store) r1)) = map_of (hdrs (decode_row (senv demo_store) r2))"
proof -
  let ?m = "demo_messages ! 2"
  obtain e1 w1 where r1: "save_message demo_store ?m [] demo_world = (e1, w1)" by fastforce
  obtain e2 w2 where r2: "save_messages demo_store [?m] [] demo_world = (e2, w2)" by fastforce
  have "fst (save_message demo_store ?m [] demo_world) = None" "fst (save_messages demo_store [?m] [] demo_world) = None"
    by code_simp+
  then have ok: "save_message demo_store ?m [] demo_world = (None, w1)" "save_messages demo_store [?m] [] demo_world = (None, w2)"
    using r1 r2 by simp_all
  have "good_message ?m" using demo_messages_good by (simp add: demo_messages_def)
  moreover have "good_headers (injected_at demo_store n) \<and> (\<forall>(k, v) \<in> set (injected_at demo_store n). is_trace_header k)" for n
    using demo_store_ok(2) by (simp add: demo_store_def is_trace_header_def trace_header_keys_def)
  ultimately show ?thesis using save_message_as_list [OF demo_store_ok(1) _ _ _ ok] ok by fastforce
qed

section \<open>Keys, ids and parked rows\<close>

text \<open>A subject names its bucket and key: a bucket has no dots.\<close>

lemma kv_subject_names:
  assumes "kv_subject b k = Inr s" "kv_subject b' k' = Inr s"
  shows "b = b' \<and> k = k'"
proof -
  have dots: "CHR ''.'' \<notin> set b" "CHR ''.'' \<notin> set b'" and eq: "b @ ''.'' @ k = b' @ ''.'' @ k'"
    using assms by (auto simp: kv_subject_def kv_bucket_matches_def alnum_def is_digit_def split: if_splits)
  have "takeWhile (\<lambda>c. c \<noteq> CHR ''.'') (x @ ''.'' @ y) = x" if "CHR ''.'' \<notin> set x" for x y :: string
    using that by (induction x) auto
  then have "b = b'" using eq dots by metis
  then show ?thesis using eq by simp
qed

lemma read_quoted_quote: "read_quoted (quote_element v @ CHR 0x22 # rest) = Some (v, rest)"
  by (induction v) (auto simp: apfst_def)

text \<open>The database reads back from the literal the ids that were written, whatever characters they hold.\<close>

lemma read_elements_quote:
  "vs \<noteq> [] \<Longrightarrow> read_elements (quote_elements 0 vs @ ''}'') = Some vs"
proof (induction vs)
  case (Cons v vs)
  have quote: "quote_elements (Suc 0) vs = (if vs = [] then [] else CHR '','' # quote_elements 0 vs)"
  proof -
    have "quote_elements (Suc i) us = quote_elements (Suc j) us" for i j us by (induction us arbitrary: i j) auto
    then show ?thesis by (cases vs) auto
  qed
  show ?case
  proof (cases "vs = []")
    case True
    then show ?thesis by (subst read_elements.simps) (simp add: read_quoted_quote)
  next
    case False
    then show ?thesis using Cons.IH by (subst read_elements.simps) (simp add: read_quoted_quote quote)
  qed
qed simp

lemma text_array_reads_back: "read_text_array (text_array_literal vs) = Some vs"
proof (cases vs)
  case (Cons v us)
  then have "quote_elements 0 vs @ ''}'' = CHR 0x22 # quote_element v @ CHR 0x22 # quote_elements (Suc 0) us @ ''}''" by simp
  then show ?thesis using read_elements_quote [of vs] Cons by (simp add: read_text_array_def text_array_literal_def)
qed (simp add: read_text_array_def text_array_literal_def)

text \<open>
  Requeueing touches the parked rows it is given, and no others. Whatever characters the ids hold and
  whatever type the column has, a successful call makes exactly the parked rows with those ids (all parked
  rows for no ids) pending, due and at no attempts, keeps what they carry, and reports their number.
\<close>

theorem requeue_parked_exact:
  assumes "requeue_parked se ids w = ((n, None), w')"
  shows "n = length (filter (\<lambda>r. rstate r = StateParked \<and> (ids = [] \<or> rid r \<in> set ids)) (rows (db w))) \<and>
    list_all2 (\<lambda>r r'.
        if rstate r = StateParked \<and> (ids = [] \<or> rid r \<in> set ids)
        then (\<forall>now. due now r') \<and> rattempts r' = 0 \<and> decode_row (senv se) r' = (decode_row (senv se) r)\<lparr>attempts := 0\<rparr>
        else r' = r)
      (rows (db w)) (rows (db w'))"
proof -
  have ids: "where_ids t vs r \<longleftrightarrow> rid r \<in> set vs" for t vs r by (simp add: where_ids_def text_array_reads_back)
  let ?hit = "\<lambda>r. rstate r = StateParked \<and> (ids = [] \<or> rid r \<in> set ids)"
  obtain P w1 where P: "P = (\<lambda>r. ids = [] \<or> rid r \<in> set ids)" "db w1 = db w"
    "(let hit = (\<lambda>r. rstate r = StateParked \<and> P r);
              (err, w2) = exec (senv se) (\<lambda>n d. d\<lparr>rows := map (\<lambda>r. if hit r
                 then (requeue r)\<lparr>rupdated := touched_at (senv se) n (rupdated r)\<rparr> else r) (rows d)\<rparr>) w1
          in ((if err = None then length (filter hit (rows (db w1))) else 0, err), w2)) = ((n, None), w')"
  proof (cases "ids = []")
    case True
    then show thesis using assms that [of "\<lambda>_. True" w] by (simp add: requeue_parked_def)
  next
    case False
    obtain r v where c: "caps_get (senv se) caps_recheck w = (r, v)" by fastforce
    show thesis
    proof (cases r)
      case (Inl e)
      then show thesis using assms c False by (simp add: requeue_parked_def)
    next
      case (Inr cp)
      then show thesis using assms c False that [of "\<lambda>r. rid r \<in> set ids" v] caps_get_same_db [OF c]
        by (simp add: requeue_parked_def ids [abs_def])
    qed
  qed
  obtain t where t: "db w' = (db w1)\<lparr>rows := map (\<lambda>r. if ?hit r
      then (requeue r)\<lparr>rupdated := touched_at (senv se) t (rupdated r)\<rparr> else r) (rows (db w1))\<rparr>"
    "n = length (filter ?hit (rows (db w1)))"
    using P(3) unfolding P(1) by (auto simp: exec_def tick_def Let_def split: option.splits)
  then show ?thesis
    by (auto simp: P(2) list_all2_map2 requeue_def due_def decode_row_def intro!: list.rel_refl)
qed

theorem requeue_parked_exact_witness:
  "\<exists>w'. requeue_parked demo_store [''p'', ''it\"s''] (demo_world\<lparr>db := \<lparr>rows = [(demo_row ''p'' ''orders'' 1)\<lparr>rstate := StateParked\<rparr>,
     (demo_row ''q'' ''orders'' 2)\<lparr>rstate := StateParked\<rparr>], retries = []\<rparr>\<rparr>) = ((1, None), w') \<and>
     map rstate (rows (db w')) = [StatePending, StateParked]"
proof -
  let ?w = "demo_world\<lparr>db := \<lparr>rows = [(demo_row ''p'' ''orders'' 1)\<lparr>rstate := StateParked\<rparr>,
     (demo_row ''q'' ''orders'' 2)\<lparr>rstate := StateParked\<rparr>], retries = []\<rparr>\<rparr>"
  obtain n e w' where r: "requeue_parked demo_store [''p'', ''it\"s''] ?w = ((n, e), w')" by (metis prod.exhaust)
  have "snd (fst (requeue_parked demo_store [''p'', ''it\"s''] ?w)) = None" by code_simp
  then have "e = None" using r by simp
  from requeue_parked_exact [OF r [unfolded this]]
  have one: "n = 1" and each: "list_all2 (\<lambda>r r'.
        if rstate r = StateParked \<and> ([''p'', ''it\"s''] = [] \<or> rid r \<in> set [''p'', ''it\"s''])
        then (\<forall>now. due now r') \<and> rattempts r' = 0 \<and> decode_row (senv demo_store) r' = (decode_row (senv demo_store) r)\<lparr>attempts := 0\<rparr>
        else r' = r) (rows (db ?w)) (rows (db w'))"
    by (simp add: demo_row_def, blast)
  from each obtain r1 r2 where "rows (db w') = [r1, r2]" "\<forall>now. due now r1"
    "r2 = (demo_row ''q'' ''orders'' 2)\<lparr>rstate := StateParked\<rparr>"
    by (clarsimp simp: list_all2_Cons1 demo_row_def)
  then have "map rstate (rows (db w')) = [StatePending, StateParked]" by (simp add: due_def)
  then show ?thesis using r [unfolded one \<open>e = None\<close>] by (intro exI [of _ w'] conjI)
qed

end
