(* ===== verification/Stream_Opts.thy ===== *)
theory Stream_Opts imports Go_Strings begin

text \<open>
  Stream configurations (\<^verbatim>\<open>nats/jetstream/stream\<close> and its
  \<^verbatim>\<open>stream-opts-builder\<close>): the limits of a stream by its role, what the
  environment and explicit options change, and how an existing stream is updated.
\<close>

section \<open>Roles\<close>

abbreviation ErrInvalidMaxBytesEnv :: sentinel where "ErrInvalidMaxBytesEnv \<equiv> Sentinel ''streamoptsbuilder.ErrInvalidMaxBytesEnv''"
abbreviation ErrUnknownRole :: sentinel where "ErrUnknownRole \<equiv> Sentinel ''streamoptsbuilder.ErrUnknownRole''"
abbreviation ErrInvalidReplicasEnv :: sentinel where "ErrInvalidReplicasEnv \<equiv> Sentinel ''streamoptsbuilder.ErrInvalidReplicasEnv''"
abbreviation ErrStreamNotFound :: sentinel where "ErrStreamNotFound \<equiv> Sentinel ''jetstream.ErrStreamNotFound''"

type_synonym stream_role = int

definition RoleEvent :: stream_role where "RoleEvent = 0"
definition RoleCommand :: stream_role where "RoleCommand = 1"
definition RoleResult :: stream_role where "RoleResult = 2"
definition RoleReply :: stream_role where "RoleReply = 3"
definition RoleDLQ :: stream_role where "RoleDLQ = 4"

lemmas role_defs = RoleEvent_def RoleCommand_def RoleResult_def RoleReply_def RoleDLQ_def

definition role_valid :: "stream_role \<Rightarrow> bool" where
  "role_valid r \<longleftrightarrow> RoleEvent \<le> r \<and> r \<le> RoleDLQ"

definition role_critical :: "stream_role \<Rightarrow> bool" where
  "role_critical r \<longleftrightarrow> role_valid r \<and> r \<noteq> RoleEvent"

datatype discard_policy = DiscardOld | DiscardNew
datatype store_compression = NoCompression | S2Compression
datatype storage_type = FileStorage | MemoryStorage
datatype retention_policy = LimitsPolicy | InterestPolicy | WorkQueuePolicy

record stream_limits =
  lim_bytes :: int
  lim_discard :: discard_policy

definition limits_for :: "stream_role \<Rightarrow> int \<Rightarrow> int \<Rightarrow> int \<Rightarrow> goerr + stream_limits" where
  "limits_for role event_max critical_max dlq_max =
     (if \<not> role_valid role then Inl (Sent ErrUnknownRole)
      else if role = RoleDLQ then Inr \<lparr>lim_bytes = dlq_max, lim_discard = DiscardNew\<rparr>
      else if role_critical role then Inr \<lparr>lim_bytes = critical_max, lim_discard = DiscardNew\<rparr>
      else Inr \<lparr>lim_bytes = event_max, lim_discard = DiscardOld\<rparr>)"

definition compression_for :: "stream_role \<Rightarrow> goerr + store_compression" where
  "compression_for role =
     (if role = RoleCommand \<or> role = RoleReply then Inr NoCompression
      else if role = RoleEvent \<or> role = RoleResult \<or> role = RoleDLQ then Inr S2Compression
      else Inl (Sent ErrUnknownRole))"

section \<open>The environment\<close>

definition DefaultMaxBytes :: int where "DefaultMaxBytes = 256 * 2 ^ 20"
definition DefaultCriticalMaxBytes :: int where "DefaultCriticalMaxBytes = 2 ^ 30"
definition DefaultDLQMaxBytes :: int where "DefaultDLQMaxBytes = 256 * 2 ^ 20"
definition DefaultReplicas :: int where "DefaultReplicas = 1"
definition MaxReplicas :: int where "MaxReplicas = 5"

definition bytes_from_env :: "environment \<Rightarrow> string \<Rightarrow> int \<Rightarrow> int \<times> goerr option" where
  "bytes_from_env env name fallback =
     (let raw = trim_space (getenv env name) in
      if raw = '''' then (fallback, None)
      else case parse_int raw of
             None \<Rightarrow> (fallback, Some (Sent ErrInvalidMaxBytesEnv))
           | Some v \<Rightarrow> if v \<le> 0 then (fallback, Some (Sent ErrInvalidMaxBytesEnv)) else (v, None))"

definition max_bytes_from_env :: "environment \<Rightarrow> int \<times> goerr option" where
  "max_bytes_from_env env = bytes_from_env env ''BROKERFX_STREAM_MAX_BYTES'' DefaultMaxBytes"

definition critical_max_bytes_from_env :: "environment \<Rightarrow> int \<times> goerr option" where
  "critical_max_bytes_from_env env = bytes_from_env env ''BROKERFX_STREAM_MAX_BYTES_CRITICAL'' DefaultCriticalMaxBytes"

definition dlq_max_bytes_from_env :: "environment \<Rightarrow> int \<times> goerr option" where
  "dlq_max_bytes_from_env env = bytes_from_env env ''BROKERFX_STREAM_MAX_BYTES_DLQ'' DefaultDLQMaxBytes"

text \<open>\<^verbatim>\<open>errors.Join\<close>.\<close>

definition join_errs :: "goerr option list \<Rightarrow> goerr option" where
  "join_errs es = (case List.map_filter (\<lambda>e. e) es of [] \<Rightarrow> None | e # rest \<Rightarrow> Some (foldl Wrap e rest))"

lemma join_errs_none: "join_errs es = None \<longleftrightarrow> (\<forall>e \<in> set es. e = None)"
  by (induction es) (auto simp: join_errs_def map_filter_simps split: option.splits list.splits)

definition limits_of_role :: "environment \<Rightarrow> stream_role \<Rightarrow> goerr + stream_limits" where
  "limits_of_role env role =
     (let (event_max, e1) = max_bytes_from_env env;
          (critical_max, e2) = critical_max_bytes_from_env env;
          (dlq_max, e3) = dlq_max_bytes_from_env env
      in case join_errs [e1, e2, e3] of
           Some err \<Rightarrow> Inl err
         | None \<Rightarrow> limits_for role event_max critical_max dlq_max)"

datatype replica_scope = ScopeEvent | ScopeCommand | ScopeResult | ScopeReply | ScopeDLQ | ScopeKV

fun scope_name :: "replica_scope \<Rightarrow> string" where
  "scope_name ScopeEvent = ''EVENT''"
| "scope_name ScopeCommand = ''COMMAND''"
| "scope_name ScopeResult = ''RESULT''"
| "scope_name ScopeReply = ''REPLY''"
| "scope_name ScopeDLQ = ''DLQ''"
| "scope_name ScopeKV = ''KV''"

definition env_replicas_for :: "replica_scope \<Rightarrow> string" where
  "env_replicas_for scope = ''NATS_JS_REPLICAS'' @ ''_'' @ scope_name scope"

definition replicas_from_env :: "environment \<Rightarrow> string \<Rightarrow> goerr + int option" where
  "replicas_from_env env name =
     (let raw = trim_space (getenv env name) in
      if raw = '''' then Inr None
      else case parse_int raw of
             None \<Rightarrow> Inl (Sent ErrInvalidReplicasEnv)
           | Some v \<Rightarrow> if v < 1 \<or> v > MaxReplicas then Inl (Sent ErrInvalidReplicasEnv) else Inr (Some v))"

definition replicas_for :: "environment \<Rightarrow> replica_scope \<Rightarrow> goerr + int" where
  "replicas_for env scope =
     (case replicas_from_env env (env_replicas_for scope) of
        Inl e \<Rightarrow> Inl e
      | Inr (Some v) \<Rightarrow> Inr v
      | Inr None \<Rightarrow>
          (case replicas_from_env env ''NATS_JS_REPLICAS'' of
             Inl e \<Rightarrow> Inl e
           | Inr (Some v) \<Rightarrow> Inr v
           | Inr None \<Rightarrow> Inr DefaultReplicas))"

definition scope_of_role :: "stream_role \<Rightarrow> replica_scope" where
  "scope_of_role r =
     (if r = RoleCommand then ScopeCommand else if r = RoleResult then ScopeResult
      else if r = RoleReply then ScopeReply else if r = RoleDLQ then ScopeDLQ else ScopeEvent)"

definition replicas_for_role :: "environment \<Rightarrow> stream_role \<Rightarrow> goerr + int" where
  "replicas_for_role env role = replicas_for env (scope_of_role role)"

section \<open>The builder\<close>

record stream_config =
  sc_name :: string
  sc_subjects :: "string list option"
  sc_description :: string
  sc_storage :: storage_type
  sc_max_age :: duration
  sc_retention :: retention_policy
  sc_max_msgs_per_subject :: int
  sc_max_bytes :: int
  sc_discard :: discard_policy
  sc_compression :: store_compression
  sc_replicas :: int
  sc_duplicates :: duration
  sc_allow_rollup :: bool
  sc_allow_direct :: bool

record opts_builder =
  sconfig :: stream_config
  build_err :: "goerr option"
  srole :: stream_role
  event_max_bytes :: int
  critical_max_bytes :: int
  dlq_max_bytes :: int
  max_bytes_explicit :: bool
  discard_explicit :: bool
  replicas_explicit :: bool
  compression_explicit :: bool

definition role_replicas :: "environment \<Rightarrow> stream_role \<Rightarrow> opts_builder \<Rightarrow> opts_builder" where
  "role_replicas env role b =
     (if replicas_explicit b then b
      else case replicas_for_role env role of
             Inl err \<Rightarrow> b\<lparr>build_err := join_errs [build_err b, Some err]\<rparr>
           | Inr n \<Rightarrow> b\<lparr>sconfig := (sconfig b)\<lparr>sc_replicas := n\<rparr>\<rparr>)"

definition role_compression :: "stream_role \<Rightarrow> opts_builder \<Rightarrow> opts_builder" where
  "role_compression role b =
     (if compression_explicit b then b
      else case compression_for role of
             Inl err \<Rightarrow> b\<lparr>build_err := join_errs [build_err b, Some err]\<rparr>
           | Inr c \<Rightarrow> b\<lparr>sconfig := (sconfig b)\<lparr>sc_compression := c\<rparr>\<rparr>)"

definition with_role :: "environment \<Rightarrow> stream_role \<Rightarrow> opts_builder \<Rightarrow> opts_builder" where
  "with_role env role b =
     (case limits_for role (event_max_bytes b) (critical_max_bytes b) (dlq_max_bytes b) of
        Inl err \<Rightarrow> b\<lparr>build_err := join_errs [build_err b, Some err]\<rparr>
      | Inr limits \<Rightarrow>
          let b1 = role_replicas env role (b\<lparr>srole := role\<rparr>);
              b2 = (if max_bytes_explicit b1 then b1 else b1\<lparr>sconfig := (sconfig b1)\<lparr>sc_max_bytes := lim_bytes limits\<rparr>\<rparr>);
              b3 = (if discard_explicit b2 then b2 else b2\<lparr>sconfig := (sconfig b2)\<lparr>sc_discard := lim_discard limits\<rparr>\<rparr>)
          in role_compression role b3)"

definition new_default :: "environment \<Rightarrow> opts_builder" where
  "new_default env =
     (let (event_max, e1) = max_bytes_from_env env;
          (critical_max, e2) = critical_max_bytes_from_env env;
          (dlq_max, e3) = dlq_max_bytes_from_env env
      in with_role env RoleEvent
           \<lparr>sconfig = \<lparr>sc_name = '''', sc_subjects = None, sc_description = '''', sc_storage = FileStorage,
              sc_max_age = 12 * 60 * minute, sc_retention = WorkQueuePolicy, sc_max_msgs_per_subject = 1000,
              sc_max_bytes = 0, sc_discard = DiscardOld, sc_compression = S2Compression,
              sc_replicas = DefaultReplicas, sc_duplicates = 15 * minute, sc_allow_rollup = False,
              sc_allow_direct = False\<rparr>,
            build_err = join_errs [e1, e2, e3], srole = RoleEvent, event_max_bytes = event_max,
            critical_max_bytes = critical_max, dlq_max_bytes = dlq_max, max_bytes_explicit = False,
            discard_explicit = False, replicas_explicit = False, compression_explicit = False\<rparr>)"

text \<open>The methods of the builder, as values.\<close>

datatype builder_op =
    WithRole stream_role
  | WithDiscard discard_policy
  | WithReplicas int
  | WithCompression store_compression
  | WithMaxBytes int
  | WithName string
  | WithSubjects "string list"
  | WithDescription string
  | WithAllowRollup bool
  | WithAllowDirect bool
  | WithMaxMsgsPerSubject int
  | WithStorage storage_type
  | WithMaxAge duration
  | WithRetention retention_policy
  | WithDuplicates duration

fun builder_step :: "environment \<Rightarrow> builder_op \<Rightarrow> opts_builder \<Rightarrow> opts_builder" where
  "builder_step env (WithRole r) b = with_role env r b"
| "builder_step env (WithDiscard d) b = b\<lparr>sconfig := (sconfig b)\<lparr>sc_discard := d\<rparr>, discard_explicit := True\<rparr>"
| "builder_step env (WithReplicas n) b = b\<lparr>sconfig := (sconfig b)\<lparr>sc_replicas := n\<rparr>, replicas_explicit := True\<rparr>"
| "builder_step env (WithCompression c) b =
     b\<lparr>sconfig := (sconfig b)\<lparr>sc_compression := c\<rparr>, compression_explicit := True\<rparr>"
| "builder_step env (WithMaxBytes n) b = b\<lparr>sconfig := (sconfig b)\<lparr>sc_max_bytes := n\<rparr>, max_bytes_explicit := True\<rparr>"
| "builder_step env (WithName n) b = b\<lparr>sconfig := (sconfig b)\<lparr>sc_name := n\<rparr>\<rparr>"
| "builder_step env (WithSubjects ss) b = b\<lparr>sconfig := (sconfig b)\<lparr>sc_subjects := Some ss\<rparr>\<rparr>"
| "builder_step env (WithDescription d) b = b\<lparr>sconfig := (sconfig b)\<lparr>sc_description := d\<rparr>\<rparr>"
| "builder_step env (WithAllowRollup v) b = b\<lparr>sconfig := (sconfig b)\<lparr>sc_allow_rollup := v\<rparr>\<rparr>"
| "builder_step env (WithAllowDirect v) b = b\<lparr>sconfig := (sconfig b)\<lparr>sc_allow_direct := v\<rparr>\<rparr>"
| "builder_step env (WithMaxMsgsPerSubject n) b = b\<lparr>sconfig := (sconfig b)\<lparr>sc_max_msgs_per_subject := n\<rparr>\<rparr>"
| "builder_step env (WithStorage s) b = b\<lparr>sconfig := (sconfig b)\<lparr>sc_storage := s\<rparr>\<rparr>"
| "builder_step env (WithMaxAge d) b = b\<lparr>sconfig := (sconfig b)\<lparr>sc_max_age := d\<rparr>\<rparr>"
| "builder_step env (WithRetention r) b = b\<lparr>sconfig := (sconfig b)\<lparr>sc_retention := r\<rparr>\<rparr>"
| "builder_step env (WithDuplicates d) b = b\<lparr>sconfig := (sconfig b)\<lparr>sc_duplicates := d\<rparr>\<rparr>"

definition fit_duplicates :: "stream_config \<Rightarrow> stream_config" where
  "fit_duplicates cfg =
     (if sc_max_age cfg \<le> 0 \<or> sc_duplicates cfg \<le> sc_max_age cfg then cfg
      else cfg\<lparr>sc_duplicates := sc_max_age cfg\<rparr>)"

definition build_stream :: "opts_builder \<Rightarrow> stream_config ret" where
  "build_stream b =
     (if build_err b \<noteq> None then Panicked
      else if sc_name (sconfig b) = '''' then Panicked
      else if sc_subjects (sconfig b) = None then Panicked
      else Returned (fit_duplicates (sconfig b)))"

definition build_with :: "environment \<Rightarrow> builder_op list \<Rightarrow> opts_builder" where
  "build_with env ops = fold (builder_step env) ops (new_default env)"

section \<open>Creating and updating a stream\<close>

record stream_info =
  info_replicas :: int
  info_max_bytes :: int
  info_bytes :: nat

text \<open>The JetStream client: its answers depend on a state of its own.\<close>

record 'j js_streams =
  js_stream :: "string \<Rightarrow> 'j \<Rightarrow> goerr option \<times> 'j"
  js_stream_info :: "string \<Rightarrow> 'j \<Rightarrow> (goerr + stream_info) \<times> 'j"
  js_put_stream :: "stream_config \<Rightarrow> 'j \<Rightarrow> goerr option \<times> 'j"

definition guard_max_bytes :: "stream_info \<Rightarrow> int \<Rightarrow> int \<times> bool" where
  "guard_max_bytes current desired =
     (if desired \<le> 0 then (desired, False)
      else let current_max = info_max_bytes current in
        if current_max > 0 \<and> desired \<ge> current_max then (desired, False)
        else if int (info_bytes current) > desired div 2 then (current_max, True)
        else (desired, False))"

definition create_or_update ::
  "environment \<Rightarrow> 'j js_streams \<Rightarrow> stream_config \<Rightarrow> 'j \<Rightarrow> goerr option \<times> 'j" where
  "create_or_update env js cfg j =
     (let cfg1 = fit_duplicates cfg in
      case (if sc_replicas cfg1 < 1 then map_sum id (\<lambda>n. cfg1\<lparr>sc_replicas := n\<rparr>) (replicas_for env ScopeEvent)
            else Inr cfg1) of
        Inl err \<Rightarrow> (Some err, j)
      | Inr cfg2 \<Rightarrow>
          (case js_stream js (sc_name cfg2) j of
             (None, j1) \<Rightarrow>
               (case js_stream_info js (sc_name cfg2) j1 of
                  (Inl err, j2) \<Rightarrow> (Some err, j2)
                | (Inr info, j2) \<Rightarrow>
                    js_put_stream js (cfg2\<lparr>sc_max_bytes := fst (guard_max_bytes info (sc_max_bytes cfg2))\<rparr>) j2)
           | (Some err, j1) \<Rightarrow>
               if errors_is err ErrStreamNotFound then js_put_stream js cfg2 j1 else (Some err, j1)))"

definition new_stream :: "environment \<Rightarrow> 'j js_streams \<Rightarrow> opts_builder \<Rightarrow> 'j \<Rightarrow> goerr option ret \<times> 'j" where
  "new_stream env js b j =
     (case build_err b of
        Some err \<Rightarrow> (Returned (Some err), j)
      | None \<Rightarrow>
          (case build_stream b of
             Returned cfg \<Rightarrow> (let (r, j1) = create_or_update env js cfg j in (Returned r, j1))
           | Failed err \<Rightarrow> (Failed err, j)
           | Panicked \<Rightarrow> (Panicked, j)))"

definition bind_stream :: "'j js_streams \<Rightarrow> string \<Rightarrow> 'j \<Rightarrow> goerr option \<times> 'j" where
  "bind_stream js name j = js_stream js name j"

section \<open>What a sequence of options amounts to\<close>

text \<open>The last option of a kind, by a selector of its kind.\<close>

definition last_of :: "(builder_op \<Rightarrow> 'a option) \<Rightarrow> builder_op list \<Rightarrow> 'a option" where
  "last_of sel ops = fold (\<lambda>op acc. case sel op of None \<Rightarrow> acc | Some v \<Rightarrow> Some v) ops None"

fun op_role :: "builder_op \<Rightarrow> stream_role option" where
  "op_role (WithRole r) = (if role_valid r then Some r else None)" | "op_role _ = None"

fun op_max_bytes :: "builder_op \<Rightarrow> int option" where
  "op_max_bytes (WithMaxBytes n) = Some n" | "op_max_bytes _ = None"

fun op_discard :: "builder_op \<Rightarrow> discard_policy option" where
  "op_discard (WithDiscard d) = Some d" | "op_discard _ = None"

fun op_replicas :: "builder_op \<Rightarrow> int option" where
  "op_replicas (WithReplicas n) = Some n" | "op_replicas _ = None"

fun op_compression :: "builder_op \<Rightarrow> store_compression option" where
  "op_compression (WithCompression c) = Some c" | "op_compression _ = None"

lemma last_of_snoc: "last_of sel (ops @ [op]) = (case sel op of None \<Rightarrow> last_of sel ops | Some v \<Rightarrow> Some v)"
  unfolding last_of_def by (simp split: option.split)

lemma last_of_nil [simp]: "last_of sel [] = None"
  by (simp add: last_of_def)

definition explicit_or :: "'a option \<Rightarrow> 'a \<Rightarrow> 'a" where
  "explicit_or x d = (case x of None \<Rightarrow> d | Some v \<Rightarrow> v)"

definition last_role :: "builder_op list \<Rightarrow> stream_role" where
  "last_role ops = explicit_or (last_of op_role ops) RoleEvent"

text \<open>The limits of a valid role, and its other settings.\<close>

definition bytes_of_role :: "environment \<Rightarrow> stream_role \<Rightarrow> int" where
  "bytes_of_role env r =
     (if r = RoleDLQ then fst (dlq_max_bytes_from_env env)
      else if r = RoleEvent then fst (max_bytes_from_env env) else fst (critical_max_bytes_from_env env))"

definition builder_inv :: "environment \<Rightarrow> builder_op list \<Rightarrow> opts_builder \<Rightarrow> bool" where
  "builder_inv env ops b \<longleftrightarrow>
     event_max_bytes b = fst (max_bytes_from_env env) \<and>
     critical_max_bytes b = fst (critical_max_bytes_from_env env) \<and>
     dlq_max_bytes b = fst (dlq_max_bytes_from_env env) \<and>
     max_bytes_explicit b = (last_of op_max_bytes ops \<noteq> None) \<and>
     discard_explicit b = (last_of op_discard ops \<noteq> None) \<and>
     replicas_explicit b = (last_of op_replicas ops \<noteq> None) \<and>
     compression_explicit b = (last_of op_compression ops \<noteq> None) \<and>
     role_valid (last_role ops) \<and> srole b = last_role ops \<and>
     sc_max_bytes (sconfig b) = explicit_or (last_of op_max_bytes ops) (bytes_of_role env (last_role ops)) \<and>
     sc_discard (sconfig b) = explicit_or (last_of op_discard ops)
       (if last_role ops = RoleEvent then DiscardOld else DiscardNew) \<and>
     sc_compression (sconfig b) = explicit_or (last_of op_compression ops)
       (if last_role ops = RoleCommand \<or> last_role ops = RoleReply then NoCompression else S2Compression) \<and>
     (\<forall>v. last_of op_replicas ops = Some v \<longrightarrow> sc_replicas (sconfig b) = v) \<and>
     (last_of op_replicas ops = None \<longrightarrow>
       (\<forall>k. replicas_for_role env (last_role ops) = Inr k \<longrightarrow> sc_replicas (sconfig b) = k))"

lemma explicit_or_simps [simp]: "explicit_or None d = d" "explicit_or (Some v) d = v"
  by (simp_all add: explicit_or_def)

lemma role_cases:
  assumes "role_valid r"
  obtains "r = RoleEvent" | "r = RoleCommand" | "r = RoleResult" | "r = RoleReply" | "r = RoleDLQ"
  using assms by (auto simp: role_valid_def role_defs) fastforce

lemma with_role_inv:
  assumes "role_valid r" "event_max_bytes b = fst (max_bytes_from_env env)"
    "critical_max_bytes b = fst (critical_max_bytes_from_env env)"
    "dlq_max_bytes b = fst (dlq_max_bytes_from_env env)"
  shows "\<exists>err n. with_role env r b = b\<lparr>build_err := err, srole := r,
     sconfig := (sconfig b)\<lparr>
       sc_replicas := n,
       sc_max_bytes := (if max_bytes_explicit b then sc_max_bytes (sconfig b) else bytes_of_role env r),
       sc_discard := (if discard_explicit b then sc_discard (sconfig b)
         else if r = RoleEvent then DiscardOld else DiscardNew),
       sc_compression := (if compression_explicit b then sc_compression (sconfig b)
         else if r = RoleCommand \<or> r = RoleReply then NoCompression else S2Compression)\<rparr>\<rparr> \<and>
    (replicas_explicit b \<longrightarrow> n = sc_replicas (sconfig b)) \<and>
    (\<not> replicas_explicit b \<longrightarrow> (\<forall>k. replicas_for_role env r = Inr k \<longrightarrow> n = k)) \<and>
    ((build_err b = None \<and> (replicas_explicit b \<or> (\<exists>k. replicas_for_role env r = Inr k))) \<longrightarrow> err = None)"
proof -
  have limits: "limits_for r (event_max_bytes b) (critical_max_bytes b) (dlq_max_bytes b) =
      Inr \<lparr>lim_bytes = bytes_of_role env r, lim_discard = if r = RoleEvent then DiscardOld else DiscardNew\<rparr>"
    using assms by (auto simp: limits_for_def bytes_of_role_def role_critical_def role_defs)
  have comp: "compression_for r = Inr (if r = RoleCommand \<or> r = RoleReply then NoCompression else S2Compression)"
    using assms(1) by (auto simp: compression_for_def role_defs role_valid_def)
  obtain err n where rep: "role_replicas env r (b\<lparr>srole := r\<rparr>) =
      b\<lparr>build_err := err, srole := r, sconfig := (sconfig b)\<lparr>sc_replicas := n\<rparr>\<rparr>"
    "replicas_explicit b \<longrightarrow> n = sc_replicas (sconfig b)"
    "\<not> replicas_explicit b \<longrightarrow> (\<forall>k. replicas_for_role env r = Inr k \<longrightarrow> n = k)"
    "(build_err b = None \<and> (replicas_explicit b \<or> (\<exists>k. replicas_for_role env r = Inr k))) \<longrightarrow> err = None"
  proof (cases "replicas_explicit b")
    case True
    then show thesis by (intro that [where err = "build_err b" and n = "sc_replicas (sconfig b)"]) (simp_all add: role_replicas_def)
  next
    case False
    then show thesis
    proof (cases "replicas_for_role env r")
      case (Inl e)
      then show thesis using False
        by (intro that [where err = "join_errs [build_err b, Some e]" and n = "sc_replicas (sconfig b)"]) (simp_all add: role_replicas_def)
    next
      case (Inr k)
      then show thesis using False
        by (intro that [where err = "build_err b" and n = k]) (simp_all add: role_replicas_def)
    qed
  qed
  have "with_role env r b = b\<lparr>build_err := err, srole := r,
     sconfig := (sconfig b)\<lparr>
       sc_replicas := n,
       sc_max_bytes := (if max_bytes_explicit b then sc_max_bytes (sconfig b) else bytes_of_role env r),
       sc_discard := (if discard_explicit b then sc_discard (sconfig b)
         else if r = RoleEvent then DiscardOld else DiscardNew),
       sc_compression := (if compression_explicit b then sc_compression (sconfig b)
         else if r = RoleCommand \<or> r = RoleReply then NoCompression else S2Compression)\<rparr>\<rparr>"
    unfolding with_role_def limits sum.case rep(1) by (simp add: Let_def role_compression_def comp)
  then show ?thesis using rep(2-) by blast
qed

lemma new_default_inv: "builder_inv env [] (new_default env)"
proof -
  let ?b = "\<lparr>sconfig = \<lparr>sc_name = '''', sc_subjects = None, sc_description = '''', sc_storage = FileStorage,
              sc_max_age = 12 * 60 * minute, sc_retention = WorkQueuePolicy, sc_max_msgs_per_subject = 1000,
              sc_max_bytes = 0, sc_discard = DiscardOld, sc_compression = S2Compression,
              sc_replicas = DefaultReplicas, sc_duplicates = 15 * minute, sc_allow_rollup = False,
              sc_allow_direct = False\<rparr>,
            build_err = join_errs [snd (max_bytes_from_env env), snd (critical_max_bytes_from_env env),
              snd (dlq_max_bytes_from_env env)],
            srole = RoleEvent, event_max_bytes = fst (max_bytes_from_env env),
            critical_max_bytes = fst (critical_max_bytes_from_env env),
            dlq_max_bytes = fst (dlq_max_bytes_from_env env), max_bytes_explicit = False,
            discard_explicit = False, replicas_explicit = False, compression_explicit = False\<rparr>"
  have valid: "role_valid RoleEvent" by (simp add: role_valid_def role_defs)
  have new: "new_default env = with_role env RoleEvent ?b"
    by (simp add: new_default_def case_prod_unfold Let_def)
  obtain err n where w: "with_role env RoleEvent ?b = ?b\<lparr>build_err := err, srole := RoleEvent,
     sconfig := (sconfig ?b)\<lparr>sc_replicas := n, sc_max_bytes := bytes_of_role env RoleEvent,
       sc_discard := DiscardOld, sc_compression := S2Compression\<rparr>\<rparr>"
    "\<forall>k. replicas_for_role env RoleEvent = Inr k \<longrightarrow> n = k"
    using with_role_inv [OF valid, of ?b env] by (auto simp: role_defs)
  show ?thesis unfolding new w(1) builder_inv_def using w(2) valid by (auto simp: last_role_def role_defs)
qed

lemma builder_step_inv:
  assumes "builder_inv env ops b"
  shows "builder_inv env (ops @ [op]) (builder_step env op b)"
proof (cases "\<exists>r. op = WithRole r")
  case True
  then obtain r where op: "op = WithRole r" by blast
  show ?thesis
  proof (cases "role_valid r")
    case False
    then have "with_role env r b = b\<lparr>build_err := join_errs [build_err b, Some (Sent ErrUnknownRole)]\<rparr>"
      by (simp add: with_role_def limits_for_def)
    then show ?thesis using assms False op by (simp add: builder_inv_def last_of_snoc last_role_def)
  next
    case valid: True
    have b: "event_max_bytes b = fst (max_bytes_from_env env)"
      "critical_max_bytes b = fst (critical_max_bytes_from_env env)"
      "dlq_max_bytes b = fst (dlq_max_bytes_from_env env)"
      using assms by (simp_all add: builder_inv_def)
    have role: "last_role (ops @ [op]) = r" using op valid by (simp add: last_role_def last_of_snoc)
    obtain err n where w: "with_role env r b = b\<lparr>build_err := err, srole := r,
       sconfig := (sconfig b)\<lparr>
         sc_replicas := n,
         sc_max_bytes := (if max_bytes_explicit b then sc_max_bytes (sconfig b) else bytes_of_role env r),
         sc_discard := (if discard_explicit b then sc_discard (sconfig b)
           else if r = RoleEvent then DiscardOld else DiscardNew),
         sc_compression := (if compression_explicit b then sc_compression (sconfig b)
           else if r = RoleCommand \<or> r = RoleReply then NoCompression else S2Compression)\<rparr>\<rparr>"
      "replicas_explicit b \<longrightarrow> n = sc_replicas (sconfig b)"
      "\<not> replicas_explicit b \<longrightarrow> (\<forall>k. replicas_for_role env r = Inr k \<longrightarrow> n = k)"
      using with_role_inv [OF valid b] by blast
    have other: "last_of op_max_bytes (ops @ [op]) = last_of op_max_bytes ops"
      "last_of op_discard (ops @ [op]) = last_of op_discard ops"
      "last_of op_replicas (ops @ [op]) = last_of op_replicas ops"
      "last_of op_compression (ops @ [op]) = last_of op_compression ops"
      by (simp_all add: op last_of_snoc)
    note inv = assms [unfolded builder_inv_def]
    have reps: "\<forall>v. last_of op_replicas ops = Some v \<longrightarrow> n = v"
      "last_of op_replicas ops = None \<longrightarrow> (\<forall>k. replicas_for_role env r = Inr k \<longrightarrow> n = k)"
      using inv w(2,3) by auto
    show ?thesis unfolding builder_inv_def role [unfolded op] other [unfolded op] op builder_step.simps w(1)
      using inv reps valid
      by (cases "last_of op_max_bytes ops"; cases "last_of op_discard ops"; cases "last_of op_compression ops") simp_all
  qed
next
  case False
  then show ?thesis using assms
    by (cases op) (auto simp: builder_inv_def last_of_snoc last_role_def)
qed

lemma build_with_inv: "builder_inv env ops (build_with env ops)"
proof (induction ops rule: rev_induct)
  case (snoc op ops)
  then show ?case using builder_step_inv [of env ops "build_with env ops" op] by (simp add: build_with_def)
qed (simp add: build_with_def new_default_inv)

text \<open>
  C34. Explicit options win over the role, in any order. Whatever options are given in whatever order,
  the limit, the discard policy and the compression of the stream are the last ones given explicitly,
  and those of the last valid role (of an event stream when there is none) where none was given. So a
  stream that carries commands, results, replies or dead letters refuses messages when full, unless
  the caller asked for the opposite.
\<close>
theorem stream_options_any_order:
  "let c = sconfig (build_with env ops); r = last_role ops in
     sc_max_bytes c = explicit_or (last_of op_max_bytes ops) (bytes_of_role env r) \<and>
     sc_discard c = explicit_or (last_of op_discard ops) (if role_critical r then DiscardNew else DiscardOld) \<and>
     sc_compression c = explicit_or (last_of op_compression ops)
       (if r = RoleCommand \<or> r = RoleReply then NoCompression else S2Compression) \<and>
     (last_of op_replicas ops = Some n \<and> replicas_for_role env r = Inr k \<longrightarrow> sc_replicas c = n) \<and>
     (last_of op_replicas ops = None \<and> replicas_for_role env r = Inr k \<longrightarrow> sc_replicas c = k)"
proof -
  have inv: "builder_inv env ops (build_with env ops)" by (rule build_with_inv)
  then have "role_critical (last_role ops) = (last_role ops \<noteq> RoleEvent)"
    by (simp add: builder_inv_def role_critical_def)
  then show ?thesis using inv by (auto simp: builder_inv_def Let_def)
qed

definition demo_stream_env :: environment where
  "demo_stream_env = \<lparr>env_lookup = Map.empty, parse_duration = Map.empty\<rparr>"

theorem stream_options_any_order_witness:
  "sc_replicas (sconfig (build_with demo_stream_env [WithReplicas 3, WithRole RoleCommand])) = 3"
proof -
  have "replicas_for_role demo_stream_env (last_role [WithReplicas 3, WithRole RoleCommand]) = Inr 1"
    by (simp add: replicas_for_role_def replicas_for_def replicas_from_env_def getenv_def demo_stream_env_def
        trim_space_def DefaultReplicas_def)
  moreover have "last_of op_replicas [WithReplicas 3, WithRole RoleCommand] = Some 3" by (simp add: last_of_def)
  ultimately show ?thesis
    using stream_options_any_order [of demo_stream_env "[WithReplicas 3, WithRole RoleCommand]" 3 1]
    by (simp add: Let_def)
qed

lemma fit_duplicates_fits: "0 < sc_max_age cfg \<Longrightarrow> sc_duplicates (fit_duplicates cfg) \<le> sc_max_age (fit_duplicates cfg)"
  by (simp add: fit_duplicates_def)

lemma fit_duplicates_idem [simp]: "fit_duplicates (fit_duplicates cfg) = fit_duplicates cfg"
  by (simp add: fit_duplicates_def)

lemma replicas_from_env_range: "replicas_from_env env name = Inr (Some v) \<Longrightarrow> 1 \<le> v \<and> v \<le> MaxReplicas"
  by (auto simp: replicas_from_env_def Let_def split: if_splits option.splits)

lemma replicas_for_range: "replicas_for env scope = Inr v \<Longrightarrow> 1 \<le> v \<and> v \<le> MaxReplicas"
  by (auto simp: replicas_for_def DefaultReplicas_def MaxReplicas_def
      dest: replicas_from_env_range split: sum.splits option.splits)

lemma guard_keeps_room:
  assumes "guard_max_bytes info desired = (n, kept)" "0 < n" "n < info_max_bytes info"
  shows "2 * int (info_bytes info) \<le> n"
  using assms by (auto simp: guard_max_bytes_def Let_def split: if_splits)

text \<open>
  C35. An update never shrinks a stream below what it holds. Whatever configuration is asked for, the
  configuration sent to the server for an existing stream has a limit of its own that is at least
  twice the stored bytes, or no smaller than the limit the stream has, or none; its duplicate window is
  within its maximal age; and it has at least one replica.
\<close>
theorem update_keeps_stored_data:
  assumes "js_stream js (sc_name cfg) j = (None, j1)" "js_stream_info js (sc_name cfg) j1 = (Inr info, j2)"
    and "1 \<le> sc_replicas cfg \<or> (\<exists>n. replicas_for env ScopeEvent = Inr n)"
  shows "\<exists>sent. create_or_update env js cfg j = js_put_stream js sent j2 \<and>
    (let n = sc_max_bytes sent in n \<le> 0 \<or> info_max_bytes info \<le> n \<or> 2 * int (info_bytes info) \<le> n) \<and>
    (0 < sc_max_age cfg \<longrightarrow> sc_duplicates sent \<le> sc_max_age cfg) \<and> 1 \<le> sc_replicas sent"
proof -
  let ?cfg = "fit_duplicates cfg"
  have same: "sc_name ?cfg = sc_name cfg" "sc_replicas ?cfg = sc_replicas cfg" "sc_max_age ?cfg = sc_max_age cfg"
    by (simp_all add: fit_duplicates_def)
  obtain n where n: "(if sc_replicas ?cfg < 1 then map_sum id (\<lambda>n. ?cfg\<lparr>sc_replicas := n\<rparr>) (replicas_for env ScopeEvent)
      else Inr ?cfg) = Inr (?cfg\<lparr>sc_replicas := n\<rparr>)" "1 \<le> n"
  proof (cases "sc_replicas ?cfg < 1")
    case True
    then obtain k where "replicas_for env ScopeEvent = Inr k" using assms(3) same by auto
    then show thesis using that [of k] True replicas_for_range by simp
  next
    case False
    then show thesis using that [of "sc_replicas ?cfg"] by simp
  qed
  obtain m kept where g: "guard_max_bytes info (sc_max_bytes ?cfg) = (m, kept)" by fastforce
  let ?sent = "?cfg\<lparr>sc_replicas := n, sc_max_bytes := m\<rparr>"
  have "create_or_update env js cfg j = js_put_stream js ?sent j2"
    using n(1) assms(1,2) g by (simp add: create_or_update_def Let_def same)
  moreover have "0 < sc_max_age cfg \<longrightarrow> sc_duplicates ?cfg \<le> sc_max_age cfg"
    using fit_duplicates_fits [of cfg] same by simp
  moreover have "m \<le> 0 \<or> info_max_bytes info \<le> m \<or> 2 * int (info_bytes info) \<le> m"
    using guard_keeps_room [OF g] by linarith
  ultimately show ?thesis using n(2) by (intro exI [of _ ?sent]) (simp add: Let_def)
qed

definition demo_stream_config :: stream_config where
  "demo_stream_config = sconfig (build_with demo_stream_env [WithName ''orders'', WithMaxBytes 100, WithReplicas 1])"

definition demo_streams :: "unit js_streams" where
  "demo_streams = \<lparr>js_stream = \<lambda>name j. (None, j),
     js_stream_info = \<lambda>name j. (Inr \<lparr>info_replicas = 1, info_max_bytes = 1000, info_bytes = 70\<rparr>, j),
     js_put_stream = \<lambda>cfg j. (if sc_max_bytes cfg = 100 then Some (Foreign ''too small'') else None, j)\<rparr>"

theorem update_keeps_stored_data_witness:
  "create_or_update demo_stream_env demo_streams (demo_stream_config\<lparr>sc_replicas := 1\<rparr>) () = (None, ())"
proof -
  let ?cfg = "demo_stream_config\<lparr>sc_replicas := 1\<rparr>"
  obtain sent where s: "create_or_update demo_stream_env demo_streams ?cfg () = js_put_stream demo_streams sent ()"
    "sc_max_bytes sent \<le> 0 \<or> 1000 \<le> sc_max_bytes sent \<or> 140 \<le> sc_max_bytes sent"
    using update_keeps_stored_data [of demo_streams ?cfg "()" "()" "\<lparr>info_replicas = 1, info_max_bytes = 1000, info_bytes = 70\<rparr>"
        "()" demo_stream_env]
    by (auto simp: demo_streams_def Let_def)
  then show ?thesis by (auto simp: demo_streams_def)
qed

end
