(* ===== verification/Timed_Actor.thy ===== *)
theory Timed_Actor imports Stream_Opts begin

text \<open>
  The distributed timers of \<^verbatim>\<open>pkg/timedactor\<close>: entries of a key-value bucket with
  an expiry, in-memory timers on every replica, and the guarded removal that decides which replica
  runs the callbacks.
\<close>

section \<open>Configuration\<close>

abbreviation ErrTimerConfig :: sentinel where "ErrTimerConfig \<equiv> Sentinel ''timedactor.ErrInvalidConfig''"
abbreviation ErrKeyNotFound :: sentinel where "ErrKeyNotFound \<equiv> Sentinel ''jetstream.ErrKeyNotFound''"
abbreviation ErrNoKeysFound :: sentinel where "ErrNoKeysFound \<equiv> Sentinel ''jetstream.ErrNoKeysFound''"

record timer_config =
  BucketName :: string
  CheckInterval :: duration
  MaxHoldDuration :: duration
  BucketTTL :: duration
  KVFileStorage :: bool
  KVReplicas :: int
  MarkerTTL :: duration
  RescanInterval :: duration

definition default_timer_config :: timer_config where
  "default_timer_config = \<lparr>BucketName = ''TimedActorBucket'', CheckInterval = 15 * second,
     MaxHoldDuration = 30 * second, BucketTTL = 48 * 60 * minute, KVFileStorage = False, KVReplicas = 0,
     MarkerTTL = 0, RescanInterval = 0\<rparr>"

definition min_marker_ttl :: duration where "min_marker_ttl = second"

definition validate_timer :: "timer_config \<Rightarrow> goerr option" where
  "validate_timer c =
     (if MarkerTTL c \<noteq> 0 \<and> MarkerTTL c < min_marker_ttl then Some (Sent ErrTimerConfig)
      else if RescanInterval c < 0 then Some (Sent ErrTimerConfig)
      else if RescanInterval c > 0 \<and> CheckInterval c \<le> 0 then Some (Sent ErrTimerConfig)
      else None)"

definition rescan_every :: "timer_config \<Rightarrow> duration" where
  "rescan_every c = (if RescanInterval c > 0 then RescanInterval c else CheckInterval c)"

text \<open>\<open>marker_lookup\<close> is what the stream of a bucket says of its marker TTL.\<close>

definition bucket_marker_ttl :: "(string \<Rightarrow> goerr + duration) \<Rightarrow> timer_config \<Rightarrow> goerr + duration" where
  "bucket_marker_ttl marker_lookup cfg =
     (if MarkerTTL cfg > 0 then Inr (MarkerTTL cfg)
      else case marker_lookup (''KV_'' @ BucketName cfg) of
             Inl err \<Rightarrow> if errors_is err ErrStreamNotFound then Inr 0 else Inl err
           | Inr current \<Rightarrow> Inr current)"

record bucket_config =
  bc_bucket :: string
  bc_storage :: storage_type
  bc_ttl :: duration
  bc_replicas :: int
  bc_marker_ttl :: duration

section \<open>Entries\<close>

type_synonym carrier = "string \<rightharpoonup> string"

record 'm payload =
  ExpiresAt :: int
  Metadata :: 'm
  Trace :: carrier

text \<open>The JSON library, and the zero value of the metadata.\<close>

record 'm json =
  to_json :: "'m payload \<Rightarrow> goerr + string"
  from_json :: "string \<Rightarrow> goerr + 'm payload"
  zero_meta :: 'm

definition marshal_payload :: "'m json \<Rightarrow> 'm payload \<Rightarrow> goerr + string" where
  "marshal_payload js p = to_json js p"

definition unmarshal_payload :: "'m json \<Rightarrow> string \<Rightarrow> goerr + 'm payload" where
  "unmarshal_payload js d =
     (case from_json js d of
        Inr p \<Rightarrow> Inr p
      | Inl err \<Rightarrow>
          (case parse_int d of
             None \<Rightarrow> Inl err
           | Some ns \<Rightarrow> Inr \<lparr>ExpiresAt = ns, Metadata = zero_meta js, Trace = Map.empty\<rparr>))"

text \<open>Times are nanoseconds since 1970. \<^verbatim>\<open>UnixNano\<close> wraps, \<^verbatim>\<open>Sub\<close> saturates.\<close>

definition unix_nano :: "int \<Rightarrow> int" where "unix_nano t = wrap64 t"

definition time_until :: "int \<Rightarrow> int \<Rightarrow> duration" where
  "time_until now t = max (- (2 ^ 63)) (min max_int64 (t - now))"

definition hold_deadline :: "int \<Rightarrow> int \<Rightarrow> duration \<Rightarrow> int" where
  "hold_deadline original now max_hold =
     (let held = now + max_hold in if original > held then original else held)"

section \<open>The bucket\<close>

text \<open>
  The client of the key-value bucket and the clock are not code of the repository: every call answers
  from, and changes, a state of its own.
\<close>

record 'b kv_client =
  kv_get :: "string \<Rightarrow> 'b \<Rightarrow> (goerr + string \<times> nat) \<times> 'b"
  kv_put :: "string \<Rightarrow> string \<Rightarrow> 'b \<Rightarrow> (goerr + nat) \<times> 'b"
  kv_update :: "string \<Rightarrow> string \<Rightarrow> nat \<Rightarrow> 'b \<Rightarrow> (goerr + nat) \<times> 'b"
  kv_delete :: "string \<Rightarrow> nat option \<Rightarrow> 'b \<Rightarrow> goerr option \<times> 'b"
  kv_purge :: "string \<Rightarrow> nat option \<Rightarrow> duration \<Rightarrow> 'b \<Rightarrow> goerr option \<times> 'b"
  kv_list_keys :: "'b \<Rightarrow> (goerr + string list) \<times> 'b"
  kv_now :: "'b \<Rightarrow> int \<times> 'b"

definition remove_key ::
  "'b kv_client \<Rightarrow> timer_config \<Rightarrow> string \<Rightarrow> nat option \<Rightarrow> 'b \<Rightarrow> goerr option \<times> 'b" where
  "remove_key kv cfg key revn b =
     (if MarkerTTL cfg > 0 then kv_purge kv key revn (MarkerTTL cfg) b else kv_delete kv key revn b)"

text \<open>\<^verbatim>\<open>strings.Contains(err.Error(), text)\<close>, for errors whose text the model has.\<close>

definition contains_text :: "string \<Rightarrow> string \<Rightarrow> bool" where
  "contains_text s t \<longleftrightarrow> list_ex (\<lambda>i. take (length t) (drop i s) = t) [0..<Suc (length s)]"

primrec error_mentions :: "string \<Rightarrow> goerr \<Rightarrow> bool" where
  "error_mentions txt (Sent s) \<longleftrightarrow> False"
| "error_mentions txt (Wrap a b) \<longleftrightarrow> error_mentions txt a \<or> error_mentions txt b"
| "error_mentions txt (Coded c) \<longleftrightarrow> False"
| "error_mentions txt (NetErr t) \<longleftrightarrow> False"
| "error_mentions txt (OrderViolation bl) \<longleftrightarrow> False"
| "error_mentions txt (Api k) \<longleftrightarrow> False"
| "error_mentions txt (Foreign m) \<longleftrightarrow> contains_text m txt"

definition is_revision_mismatch :: "goerr \<Rightarrow> bool" where
  "is_revision_mismatch err =
     (case as_api err of Some k \<Rightarrow> k = 10071 | None \<Rightarrow> error_mentions ''wrong last sequence'' err)"

section \<open>One replica\<close>

text \<open>
  A timer of \<^verbatim>\<open>time.AfterFunc\<close> is named by a number; \<open>live\<close> holds those that
  neither ran nor were stopped. A callback is named by the place of its subscriber; \<open>called\<close>
  lists the callbacks run and \<open>won\<close> the removals won, which the source logs.
\<close>

record 'm mem_timer =
  tkey :: string
  trev :: nat
  tdelay :: duration
  tmeta :: 'm
  ttrace :: carrier

record 'm actor =
  acfg :: timer_config
  timers :: "string \<rightharpoonup> nat"
  live :: "nat \<rightharpoonup> 'm mem_timer"
  next_timer :: nat
  subs :: "('m \<Rightarrow> bool) option list"
  watching :: "string list"
  stopping :: bool
  called :: "(nat \<times> string \<times> 'm) list"
  won :: "(string \<times> nat) list"

definition new_actor ::
  "environment \<Rightarrow> (string \<Rightarrow> goerr + duration) \<Rightarrow> (bucket_config \<Rightarrow> goerr option) \<Rightarrow> timer_config
     \<Rightarrow> goerr + 'm actor" where
  "new_actor env marker_lookup create_bucket given =
     (let cfg = (if BucketName given = '''' then default_timer_config else given) in
      case validate_timer cfg of
        Some err \<Rightarrow> Inl err
      | None \<Rightarrow>
          (case (if KVReplicas cfg < 1 then replicas_for env ScopeKV else Inr (KVReplicas cfg)) of
             Inl err \<Rightarrow> Inl err
           | Inr n \<Rightarrow>
               (case bucket_marker_ttl marker_lookup cfg of
                  Inl err \<Rightarrow> Inl err
                | Inr ttl \<Rightarrow>
                    (case create_bucket \<lparr>bc_bucket = BucketName cfg,
                        bc_storage = (if KVFileStorage cfg then FileStorage else MemoryStorage),
                        bc_ttl = BucketTTL cfg, bc_replicas = n, bc_marker_ttl = ttl\<rparr> of
                       Some err \<Rightarrow> Inl err
                     | None \<Rightarrow> Inr \<lparr>acfg = cfg, timers = Map.empty, live = Map.empty, next_timer = 0, subs = [],
                         watching = [], stopping = False, called = [], won = []\<rparr>))))"

definition start_timer :: "'m mem_timer \<Rightarrow> 'm actor \<Rightarrow> 'm actor" where
  "start_timer t a = a\<lparr>timers := (timers a)(tkey t \<mapsto> next_timer a), live := (live a)(next_timer a \<mapsto> t),
     next_timer := Suc (next_timer a)\<rparr>"

definition schedule_timer ::
  "string \<Rightarrow> nat \<Rightarrow> duration \<Rightarrow> 'm \<Rightarrow> carrier \<Rightarrow> 'm actor \<Rightarrow> 'm actor" where
  "schedule_timer key revn delay meta stored a =
     (let a1 = (case timers a key of None \<Rightarrow> a | Some i \<Rightarrow> a\<lparr>live := (live a)(i := None)\<rparr>)
      in start_timer \<lparr>tkey = key, trev = revn, tdelay = delay, tmeta = meta, ttrace = stored\<rparr> a1)"

definition stop_timer :: "string \<Rightarrow> 'm actor \<Rightarrow> 'm actor" where
  "stop_timer key a =
     (case timers a key of
        None \<Rightarrow> a
      | Some i \<Rightarrow> a\<lparr>live := (live a)(i := None), timers := (timers a)(key := None)\<rparr>)"

definition retry_later :: "string \<Rightarrow> nat \<Rightarrow> 'm \<Rightarrow> carrier \<Rightarrow> 'm actor \<Rightarrow> 'm actor" where
  "retry_later key revn meta stored a =
     (if RescanInterval (acfg a) \<le> 0 then a
      else if stopping a then a
      else if timers a key \<noteq> None then a
      else start_timer \<lparr>tkey = key, trev = revn, tdelay = CheckInterval (acfg a), tmeta = meta, ttrace = stored\<rparr> a)"

text \<open>The subscribers that take the metadata, in the order of their subscription. The spans are left out.\<close>

definition matching :: "('m \<Rightarrow> bool) option list \<Rightarrow> 'm \<Rightarrow> nat list" where
  "matching ss meta = filter (\<lambda>i. case ss ! i of None \<Rightarrow> True | Some f \<Rightarrow> f meta) [0..<length ss]"

definition fire_matching_callbacks :: "string \<Rightarrow> 'm \<Rightarrow> 'm actor \<Rightarrow> 'm actor" where
  "fire_matching_callbacks key meta a =
     a\<lparr>called := called a @ map (\<lambda>i. (i, key, meta)) (matching (subs a) meta)\<rparr>"

text \<open>The two parts of \<^verbatim>\<open>tryFireCallback\<close>: under the mutex, and after it.\<close>

definition forget_timer :: "string \<Rightarrow> 'm actor \<Rightarrow> 'm actor" where
  "forget_timer key a = a\<lparr>timers := (timers a)(key := None)\<rparr>"

definition claim_and_fire ::
  "'b kv_client \<Rightarrow> string \<Rightarrow> nat \<Rightarrow> 'm \<Rightarrow> carrier \<Rightarrow> 'm actor \<times> 'b \<Rightarrow> 'm actor \<times> 'b" where
  "claim_and_fire kv key revn meta stored = (\<lambda>(a, b).
     case remove_key kv (acfg a) key (Some revn) b of
       (Some err, b1) \<Rightarrow>
         if is_revision_mismatch err \<or> errors_is err ErrKeyNotFound then (a, b1)
         else (retry_later key revn meta stored a, b1)
     | (None, b1) \<Rightarrow> (fire_matching_callbacks key meta (a\<lparr>won := won a @ [(key, revn)]\<rparr>), b1))"

definition try_fire_callback ::
  "'b kv_client \<Rightarrow> string \<Rightarrow> nat \<Rightarrow> 'm \<Rightarrow> carrier \<Rightarrow> 'm actor \<times> 'b \<Rightarrow> 'm actor \<times> 'b" where
  "try_fire_callback kv key revn meta stored = (\<lambda>(a, b).
     claim_and_fire kv key revn meta stored (forget_timer key a, b))"

section \<open>Watching\<close>

datatype kv_operation = KeyValuePut | KeyValueDelete | KeyValuePurge

record kv_entry =
  ekey :: string
  eop :: kv_operation
  evalue :: string
  erev :: nat

definition handle_watch_entry ::
  "'b kv_client \<Rightarrow> 'm json \<Rightarrow> kv_entry \<Rightarrow> 'm actor \<times> 'b \<Rightarrow> 'm actor \<times> 'b" where
  "handle_watch_entry kv js e = (\<lambda>(a, b).
     if eop e = KeyValueDelete \<or> eop e = KeyValuePurge then (stop_timer (ekey e) a, b)
     else case unmarshal_payload js (evalue e) of
            Inl err \<Rightarrow> (a, b)
          | Inr p \<Rightarrow>
              let (now, b1) = kv_now kv b;
                  delay = max 0 (time_until now (ExpiresAt p))
              in (schedule_timer (ekey e) (erev e) delay (Metadata p) (Trace p) a, b1))"

text \<open>One key of a rescan: \<open>tracked\<close> are the timers when it began, \<open>now\<close> its time.\<close>

definition rescan_key ::
  "'b kv_client \<Rightarrow> 'm json \<Rightarrow> (string \<rightharpoonup> nat) \<Rightarrow> int \<Rightarrow> string \<Rightarrow> 'm actor \<times> 'b \<Rightarrow> 'm actor \<times> 'b" where
  "rescan_key kv js tracked now key = (\<lambda>(a, b).
     if tracked key \<noteq> None then (a, b)
     else case kv_get kv key b of
            (Inl err, b1) \<Rightarrow> (a, b1)
          | (Inr (v, revn), b1) \<Rightarrow>
              (case unmarshal_payload js v of
                 Inl err \<Rightarrow> (a, b1)
               | Inr p \<Rightarrow>
                   if now > ExpiresAt p then try_fire_callback kv key revn (Metadata p) (Trace p) (a, b1)
                   else let (now', b2) = kv_now kv b1
                     in (schedule_timer key revn (time_until now' (ExpiresAt p)) (Metadata p) (Trace p) a, b2)))"

definition rescan_overdue_timers :: "'b kv_client \<Rightarrow> 'm json \<Rightarrow> 'm actor \<times> 'b \<Rightarrow> 'm actor \<times> 'b" where
  "rescan_overdue_timers kv js = (\<lambda>(a, b).
     case kv_list_keys kv b of
       (Inl err, b1) \<Rightarrow> (a, b1)
     | (Inr ks, b1) \<Rightarrow>
         let (now, b2) = kv_now kv b1 in fold (rescan_key kv js (timers a) now) ks (a, b2))"

text \<open>What a watcher's select sees; an update with no entry ends the initial values.\<close>

datatype watch_event = CtxDone | Updates "kv_entry option" | Closed | Tick

fun serve_watcher ::
  "'b kv_client \<Rightarrow> 'm json \<Rightarrow> watch_event list \<Rightarrow> 'm actor \<times> 'b \<Rightarrow> 'm actor \<times> 'b" where
  "serve_watcher kv js [] w = w"
| "serve_watcher kv js (ev # evs) w =
     (case ev of
        CtxDone \<Rightarrow> w
      | Closed \<Rightarrow> w
      | Updates None \<Rightarrow>
          serve_watcher kv js evs (if RescanInterval (acfg (fst w)) > 0 then rescan_overdue_timers kv js w else w)
      | Updates (Some e) \<Rightarrow> serve_watcher kv js evs (handle_watch_entry kv js e w)
      | Tick \<Rightarrow> serve_watcher kv js evs (rescan_overdue_timers kv js w))"

text \<open>\<open>opened\<close> is whether \<^verbatim>\<open>Watch\<close> succeeds; a ticker of no positive period panics.\<close>

definition run_watcher ::
  "'b kv_client \<Rightarrow> 'm json \<Rightarrow> bool \<Rightarrow> watch_event list \<Rightarrow> 'm actor \<times> 'b \<Rightarrow> bool ret \<times> 'm actor \<times> 'b" where
  "run_watcher kv js opened evs w =
     (if \<not> opened then (Returned False, w)
      else if rescan_every (acfg (fst w)) \<le> 0 then (Panicked, w)
      else (Returned True, serve_watcher kv js evs w))"

definition watch_retry_min :: duration where "watch_retry_min = 500 * millisecond"
definition watch_retry_max :: duration where "watch_retry_max = 15 * second"

text \<open>One turn of the loop that reopens a watcher: how long it waits, and the next backoff.\<close>

definition watch_backoff :: "bool \<Rightarrow> duration \<Rightarrow> duration \<times> duration" where
  "watch_backoff started backoff =
     (let b1 = (if started then watch_retry_min else backoff);
          b2 = (if b1 < watch_retry_max then (if b1 * 2 > watch_retry_max then watch_retry_max else b1 * 2) else b1)
      in (b1, b2))"

definition subscribe :: "string \<Rightarrow> ('m \<Rightarrow> bool) option \<Rightarrow> 'm actor \<Rightarrow> bool \<times> 'm actor" where
  "subscribe event_key match a =
     (let a1 = a\<lparr>subs := subs a @ [match]\<rparr> in
      if event_key \<in> set (watching a) then (False, a1)
      else (True, a1\<lparr>watching := watching a @ [event_key]\<rparr>))"

definition stop_actor :: "'m actor \<Rightarrow> 'm actor" where
  "stop_actor a = a\<lparr>stopping := True, timers := Map.empty,
     live := (\<lambda>i. case live a i of None \<Rightarrow> None
       | Some t \<Rightarrow> if timers a (tkey t) = Some i then None else Some t)\<rparr>"

section \<open>The caller's operations\<close>

definition add_timer ::
  "'b kv_client \<Rightarrow> 'm json \<Rightarrow> carrier \<Rightarrow> string \<Rightarrow> 'm \<Rightarrow> duration \<Rightarrow> 'b \<Rightarrow> goerr option \<times> 'b" where
  "add_timer kv js stored key meta timeout b =
     (let (now, b1) = kv_now kv b in
      case marshal_payload js \<lparr>ExpiresAt = unix_nano (now + timeout), Metadata = meta, Trace = stored\<rparr> of
        Inl err \<Rightarrow> (Some err, b1)
      | Inr v \<Rightarrow>
          (case kv_put kv key v b1 of
             (Inl err, b2) \<Rightarrow> (Some err, b2)
           | (Inr _, b2) \<Rightarrow> (None, b2)))"

record 'm held =
  hkey :: string
  horiginal :: "'m payload"
  hrev :: nat

definition hold_timer ::
  "'b kv_client \<Rightarrow> 'm json \<Rightarrow> timer_config \<Rightarrow> string \<Rightarrow> 'b \<Rightarrow> (goerr + 'm held) \<times> 'b" where
  "hold_timer kv js cfg key b =
     (case kv_get kv key b of
        (Inl err, b1) \<Rightarrow> (Inl err, b1)
      | (Inr (v, revn), b1) \<Rightarrow>
          (case unmarshal_payload js v of
             Inl err \<Rightarrow> (Inl err, b1)
           | Inr p \<Rightarrow>
               let (now, b2) = kv_now kv b1;
                   expiry = hold_deadline (ExpiresAt p) now (MaxHoldDuration cfg)
               in case marshal_payload js \<lparr>ExpiresAt = unix_nano expiry, Metadata = Metadata p, Trace = Trace p\<rparr> of
                    Inl err \<Rightarrow> (Inl err, b2)
                  | Inr v' \<Rightarrow>
                      (case kv_update kv key v' revn b2 of
                         (Inl err, b3) \<Rightarrow> (Inl err, b3)
                       | (Inr revn2, b3) \<Rightarrow> (Inr \<lparr>hkey = key, horiginal = p, hrev = revn2\<rparr>, b3))))"

text \<open>The goroutine of a hold, once its context has ended; \<open>stopped\<close> when the actor's ended first.\<close>

definition release_hold :: "'b kv_client \<Rightarrow> 'm json \<Rightarrow> bool \<Rightarrow> 'm held \<Rightarrow> 'b \<Rightarrow> 'b" where
  "release_hold kv js stopped h b =
     (if stopped then b
      else case kv_get kv (hkey h) b of
             (Inl err, b1) \<Rightarrow> b1
           | (Inr (v, revn), b1) \<Rightarrow>
               if revn \<noteq> hrev h then b1
               else case marshal_payload js (horiginal h) of
                      Inl err \<Rightarrow> b1
                    | Inr v' \<Rightarrow> snd (kv_update kv (hkey h) v' (hrev h) b1))"

definition clear_timer ::
  "'b kv_client \<Rightarrow> string \<Rightarrow> 'm actor \<times> 'b \<Rightarrow> goerr option \<times> 'm actor \<times> 'b" where
  "clear_timer kv key = (\<lambda>(a, b).
     case remove_key kv (acfg a) key None b of
       (Some err, b1) \<Rightarrow> (if errors_is err ErrKeyNotFound then None else Some err, a, b1)
     | (None, b1) \<Rightarrow> (None, stop_timer key a, b1))"

fun list_entries ::
  "'b kv_client \<Rightarrow> 'm json \<Rightarrow> string list \<Rightarrow> (string \<rightharpoonup> int \<times> 'm) \<Rightarrow> 'b
     \<Rightarrow> (goerr + (string \<rightharpoonup> int \<times> 'm)) \<times> 'b" where
  "list_entries kv js [] result b = (Inr result, b)"
| "list_entries kv js (key # ks) result b =
     (case kv_get kv key b of
        (Inl err, b1) \<Rightarrow> if errors_is err ErrKeyNotFound then list_entries kv js ks result b1 else (Inl err, b1)
      | (Inr (v, revn), b1) \<Rightarrow>
          (case unmarshal_payload js v of
             Inl err \<Rightarrow> list_entries kv js ks result b1
           | Inr p \<Rightarrow> list_entries kv js ks (result(key \<mapsto> (ExpiresAt p, Metadata p))) b1))"

definition list_timers ::
  "'b kv_client \<Rightarrow> 'm json \<Rightarrow> string list \<Rightarrow> 'b \<Rightarrow> (goerr + (string \<rightharpoonup> int \<times> 'm)) \<times> 'b" where
  "list_timers kv js ks b =
     (if ks \<noteq> [] then list_entries kv js ks Map.empty b
      else case kv_list_keys kv b of
             (Inl err, b1) \<Rightarrow> (if errors_is err ErrNoKeysFound then Inr Map.empty else Inl err, b1)
           | (Inr all, b1) \<Rightarrow> list_entries kv js all Map.empty b1)"


section \<open>Revisions\<close>

text \<open>
  What the bucket promises. \<open>rv\<close> is the revision of a key, that of its last delete marker when it
  is gone: revisions never go back, a guarded write or removal succeeds only against the revision it
  names, and every write or removal that succeeds moves the revision on.
\<close>

definition revisions_grow :: "('b \<Rightarrow> string \<Rightarrow> nat) \<Rightarrow> 'b \<Rightarrow> 'b \<Rightarrow> bool" where
  "revisions_grow rv b b' \<longleftrightarrow> (\<forall>k. rv b k \<le> rv b' k)"

definition kv_laws :: "'b kv_client \<Rightarrow> ('b \<Rightarrow> string \<Rightarrow> nat) \<Rightarrow> bool" where
  "kv_laws kv rv \<longleftrightarrow>
     (\<forall>k b. revisions_grow rv b (snd (kv_get kv k b))) \<and>
     (\<forall>k v b. revisions_grow rv b (snd (kv_put kv k v b))) \<and>
     (\<forall>k v n b. revisions_grow rv b (snd (kv_update kv k v n b)) \<and>
        (\<forall>n'. fst (kv_update kv k v n b) = Inr n' \<longrightarrow> n < n' \<and> n' \<le> rv (snd (kv_update kv k v n b)) k)) \<and>
     (\<forall>k g b. revisions_grow rv b (snd (kv_delete kv k g b)) \<and>
        (\<forall>n. g = Some n \<and> fst (kv_delete kv k g b) = None \<longrightarrow> rv b k = n \<and> n < rv (snd (kv_delete kv k g b)) k)) \<and>
     (\<forall>k g t b. revisions_grow rv b (snd (kv_purge kv k g t b)) \<and>
        (\<forall>n. g = Some n \<and> fst (kv_purge kv k g t b) = None \<longrightarrow> rv b k = n \<and> n < rv (snd (kv_purge kv k g t b)) k)) \<and>
     (\<forall>b. revisions_grow rv b (snd (kv_list_keys kv b))) \<and>
     (\<forall>b. revisions_grow rv b (snd (kv_now kv b)))"

lemma revisions_grow_refl [simp]: "revisions_grow rv b b"
  by (simp add: revisions_grow_def)

lemma revisions_grow_trans [trans]: "revisions_grow rv b b' \<Longrightarrow> revisions_grow rv b' b'' \<Longrightarrow> revisions_grow rv b b''"
  unfolding revisions_grow_def using le_trans by blast

lemma kv_grow:
  assumes "kv_laws kv rv"
  shows "kv_get kv k b = (x, b') \<Longrightarrow> revisions_grow rv b b'"
    and "kv_put kv k v b = (y, b') \<Longrightarrow> revisions_grow rv b b'"
    and "kv_update kv k v n b = (y, b') \<Longrightarrow> revisions_grow rv b b'"
    and "kv_list_keys kv b = (z, b') \<Longrightarrow> revisions_grow rv b b'"
    and "kv_now kv b = (t, b') \<Longrightarrow> revisions_grow rv b b'"
  using assms unfolding kv_laws_def by (metis snd_conv)+

lemma kv_after:
  assumes "kv_laws kv rv"
  shows "kv_get kv k b1 = (x, b2) \<Longrightarrow> revisions_grow rv b b1 \<Longrightarrow> revisions_grow rv b b2"
    and "kv_put kv k v b1 = (y, b2) \<Longrightarrow> revisions_grow rv b b1 \<Longrightarrow> revisions_grow rv b b2"
    and "kv_update kv k v n b1 = (y, b2) \<Longrightarrow> revisions_grow rv b b1 \<Longrightarrow> revisions_grow rv b b2"
    and "kv_list_keys kv b1 = (z, b2) \<Longrightarrow> revisions_grow rv b b1 \<Longrightarrow> revisions_grow rv b b2"
    and "kv_now kv b1 = (t, b2) \<Longrightarrow> revisions_grow rv b b1 \<Longrightarrow> revisions_grow rv b b2"
  using kv_grow [OF assms] revisions_grow_trans by meson+

lemma remove_key_grow: "kv_laws kv rv \<Longrightarrow> remove_key kv cfg k g b = (err, b') \<Longrightarrow> revisions_grow rv b b'"
  unfolding kv_laws_def remove_key_def by (metis snd_conv)

lemma remove_key_guard:
  "kv_laws kv rv \<Longrightarrow> remove_key kv cfg k (Some n) b = (None, b') \<Longrightarrow> rv b k = n \<and> n < rv b' k"
  unfolding kv_laws_def remove_key_def by (metis fst_conv snd_conv)

lemma update_guard:
  "kv_laws kv rv \<Longrightarrow> kv_update kv k v n b = (Inr n', b') \<Longrightarrow> n < n' \<and> n' \<le> rv b' k"
  unfolding kv_laws_def by (metis fst_conv snd_conv)

text \<open>No callback runs for a key more often than the replica won a removal of the key.\<close>

definition runs_of :: "nat \<Rightarrow> string \<Rightarrow> 'm actor \<Rightarrow> nat" where
  "runs_of n k a = length (filter (\<lambda>c. fst c = n \<and> fst (snd c) = k) (called a))"

definition wins_of :: "string \<Rightarrow> 'm actor \<Rightarrow> nat" where
  "wins_of k a = length (filter (\<lambda>c. fst c = k) (won a))"

definition calls_won :: "'m actor \<Rightarrow> bool" where
  "calls_won a \<longleftrightarrow> (\<forall>n k. runs_of n k a \<le> wins_of k a)"

text \<open>
  What a step of a replica may do, seen from the bucket: revisions grow, and every removal it wins
  was won at a revision the key had during the step and has left behind.
\<close>

definition wins_forward :: "('b \<Rightarrow> string \<Rightarrow> nat) \<Rightarrow> 'm actor \<times> 'b \<Rightarrow> 'm actor \<times> 'b \<Rightarrow> bool" where
  "wins_forward rv w w' \<longleftrightarrow>
     revisions_grow rv (snd w) (snd w') \<and>
     (\<exists>new. won (fst w') = won (fst w) @ new \<and> distinct new \<and>
        (\<forall>(k, r) \<in> set new. rv (snd w) k \<le> r \<and> r < rv (snd w') k)) \<and>
     (calls_won (fst w) \<longrightarrow> calls_won (fst w'))"

lemma wins_none:
  "revisions_grow rv b b' \<Longrightarrow> won a' = won a \<Longrightarrow> called a' = called a \<Longrightarrow> wins_forward rv (a, b) (a', b')"
  by (simp add: wins_forward_def calls_won_def runs_of_def wins_of_def)

lemma wins_trans:
  assumes "wins_forward rv w w'" "wins_forward rv w' w''"
  shows "wins_forward rv w w''"
proof -
  obtain new where new: "won (fst w') = won (fst w) @ new" "distinct new"
    "\<forall>(k, r) \<in> set new. rv (snd w) k \<le> r \<and> r < rv (snd w') k"
    using assms(1) unfolding wins_forward_def by blast
  obtain new' where new': "won (fst w'') = won (fst w') @ new'" "distinct new'"
    "\<forall>(k, r) \<in> set new'. rv (snd w') k \<le> r \<and> r < rv (snd w'') k"
    using assms(2) unfolding wins_forward_def by blast
  have grow: "revisions_grow rv (snd w) (snd w')" "revisions_grow rv (snd w') (snd w'')"
    using assms unfolding wins_forward_def by blast+
  have "set new \<inter> set new' = {}" using new(3) new'(3) by fastforce
  moreover have "\<forall>(k, r) \<in> set (new @ new'). rv (snd w) k \<le> r \<and> r < rv (snd w'') k"
    using new(3) new'(3) grow unfolding revisions_grow_def by (fastforce intro: le_trans less_le_trans)
  moreover have "calls_won (fst w) \<longrightarrow> calls_won (fst w'')" using assms unfolding wins_forward_def by blast
  ultimately show ?thesis unfolding wins_forward_def
    using new new' revisions_grow_trans [OF grow] by (intro conjI exI [of _ "new @ new'"]) simp_all
qed

lemma won_simps [simp]:
  "won (start_timer t a) = won a" "won (schedule_timer k r d m st a) = won a" "won (stop_timer k a) = won a"
  "won (retry_later k r m st a) = won a" "won (fire_matching_callbacks k m a) = won a" "won (forget_timer k a) = won a"
  by (simp_all add: start_timer_def schedule_timer_def stop_timer_def retry_later_def
      fire_matching_callbacks_def forget_timer_def Let_def split: option.split)

lemma called_simps [simp]:
  "called (start_timer t a) = called a" "called (schedule_timer k r d m st a) = called a"
  "called (stop_timer k a) = called a" "called (retry_later k r m st a) = called a"
  "called (forget_timer k a) = called a"
  by (simp_all add: start_timer_def schedule_timer_def stop_timer_def retry_later_def
      forget_timer_def Let_def split: option.split)

lemma fire_calls_won:
  assumes "calls_won a"
  shows "calls_won (fire_matching_callbacks k m (a\<lparr>won := won a @ [(k, r)]\<rparr>))"
proof -
  have one: "length (filter (\<lambda>i. i = n) (matching ss m)) \<le> 1" for n and ss :: "('a \<Rightarrow> bool) option list"
  proof -
    have "distinct (filter (\<lambda>i. i = n) (matching ss m))" by (simp add: matching_def)
    moreover have "set (filter (\<lambda>i. i = n) (matching ss m)) \<subseteq> {n}" by auto
    ultimately show ?thesis by (metis One_nat_def card_mono distinct_card finite.emptyI finite.insertI card_1_singleton_iff)
  qed
  have "runs_of n k' (fire_matching_callbacks k m (a\<lparr>won := won a @ [(k, r)]\<rparr>)) \<le>
      wins_of k' (fire_matching_callbacks k m (a\<lparr>won := won a @ [(k, r)]\<rparr>))" for n k'
    using add_mono [OF assms [unfolded calls_won_def, rule_format, of n k'] one [of n "subs a"]]
      assms [unfolded calls_won_def, rule_format, of n k']
    by (cases "k' = k") (simp_all add: runs_of_def wins_of_def fire_matching_callbacks_def filter_map comp_def)
  then show ?thesis by (simp add: calls_won_def)
qed

lemma claim_wins:
  assumes "kv_laws kv rv"
  shows "wins_forward rv (a, b) (claim_and_fire kv k r m st (a, b))"
proof -
  obtain err b1 where c: "remove_key kv (acfg a) k (Some r) b = (err, b1)" by fastforce
  note grow = remove_key_grow [OF assms c]
  show ?thesis
  proof (cases err)
    case None
    then have "rv b k = r \<and> r < rv b1 k" using remove_key_guard [OF assms] c by simp
    then show ?thesis using c grow None fire_calls_won [of a k m r] by (simp add: claim_and_fire_def wins_forward_def)
  next
    case (Some e)
    then show ?thesis using c grow by (simp add: claim_and_fire_def wins_none)
  qed
qed

lemma try_fire_wins: "kv_laws kv rv \<Longrightarrow> wins_forward rv (a, b) (try_fire_callback kv k r m st (a, b))"
  using claim_wins [of kv rv "forget_timer k a" b k r m st] by (simp add: try_fire_callback_def wins_forward_def calls_won_def runs_of_def wins_of_def)

lemma watch_entry_wins:
  assumes "kv_laws kv rv"
  shows "wins_forward rv (a, b) (handle_watch_entry kv js e (a, b))"
  by (auto simp: handle_watch_entry_def wins_none kv_grow [OF assms] Let_def split: sum.split prod.split)

lemma rescan_key_wins:
  assumes "kv_laws kv rv"
  shows "wins_forward rv (a, b) (rescan_key kv js tracked now key (a, b))"
proof -
  obtain x b1 where g: "kv_get kv key b = (x, b1)" by fastforce
  have s: "wins_forward rv (a, b) (a, b1)" using kv_grow(1) [OF assms g] by (rule wins_none) simp_all
  note fire = wins_trans [OF s try_fire_wins [OF assms]]
  show ?thesis using g s fire
    by (auto simp: rescan_key_def Let_def wins_none split: sum.split prod.split
        intro: wins_trans [OF s wins_none] dest: kv_grow [OF assms])
qed

lemma rescan_wins:
  assumes "kv_laws kv rv"
  shows "wins_forward rv (a, b) (rescan_overdue_timers kv js (a, b))"
proof -
  have fold: "wins_forward rv w (fold (rescan_key kv js tracked now) ks w)" for tracked now ks w
  proof (induction ks arbitrary: w)
    case Nil
    show ?case by (cases w) (simp add: wins_none)
  next
    case (Cons k ks)
    obtain a b where w: "w = (a, b)" by fastforce
    show ?case unfolding w fold_simps by (rule wins_trans [OF rescan_key_wins [OF assms] Cons.IH])
  qed
  obtain x b1 where l: "kv_list_keys kv b = (x, b1)" by fastforce
  obtain now b2 where n: "kv_now kv b1 = (now, b2)" by fastforce
  note g1 = kv_grow(4) [OF assms l]
  note g2 = kv_after(5) [OF assms n g1]
  have "wins_forward rv (a, b) (fold (rescan_key kv js tracked now) ks (a, b2))" for tracked ks
    by (rule wins_trans [OF wins_none [OF g2 HOL.refl HOL.refl] fold])
  then show ?thesis using l n g1 by (cases x) (simp_all add: rescan_overdue_timers_def wins_none)
qed

lemma serve_wins:
  assumes "kv_laws kv rv"
  shows "wins_forward rv w (serve_watcher kv js evs w)"
proof (induction evs arbitrary: w)
  case Nil
  show ?case by (cases w) (simp add: wins_none)
next
  case (Cons ev evs)
  obtain a b where w: "w = (a, b)" by fastforce
  have "wins_forward rv w w" using w by (simp add: wins_none)
  moreover have "wins_forward rv w (serve_watcher kv js evs (rescan_overdue_timers kv js w))"
    unfolding w by (rule wins_trans [OF rescan_wins [OF assms] Cons.IH])
  moreover have "wins_forward rv w (serve_watcher kv js evs (handle_watch_entry kv js e w))" for e
    unfolding w by (rule wins_trans [OF watch_entry_wins [OF assms] Cons.IH])
  ultimately show ?case using Cons.IH [of w] by (cases ev) (simp_all split: option.split)
qed

section \<open>Several replicas\<close>

text \<open>
  Replicas share the bucket only. A timer that expires leaves its goroutine in \<open>firing\<close>, a hold
  its goroutine in \<open>holding\<close>; they go on in any order. A watcher may bring any entry at any time,
  and a rescan is taken key by key, with any view of the timers.
\<close>

record ('m, 'b) cluster =
  bucket :: 'b
  nodes :: "nat \<Rightarrow> 'm actor"
  firing :: "(nat \<times> 'm mem_timer) list"
  holding :: "'m held list"

inductive cluster_step :: "'b kv_client \<Rightarrow> 'm json \<Rightarrow> ('m, 'b) cluster \<Rightarrow> ('m, 'b) cluster \<Rightarrow> bool"
  for kv js where
  watches: "handle_watch_entry kv js e (nodes s i, bucket s) = (a, b) \<Longrightarrow>
    cluster_step kv js s (s\<lparr>nodes := (nodes s)(i := a), bucket := b\<rparr>)"
| expires: "live (nodes s i) n = Some t \<Longrightarrow>
    cluster_step kv js s (s\<lparr>nodes := (nodes s)(i := forget_timer (tkey t) ((nodes s i)\<lparr>live := (live (nodes s i))(n := None)\<rparr>)),
      firing := firing s @ [(i, t)]\<rparr>)"
| claims: "firing s = before @ (i, t) # later \<Longrightarrow>
    claim_and_fire kv (tkey t) (trev t) (tmeta t) (ttrace t) (nodes s i, bucket s) = (a, b) \<Longrightarrow>
    cluster_step kv js s (s\<lparr>nodes := (nodes s)(i := a), bucket := b, firing := before @ later\<rparr>)"
| rescans: "rescan_key kv js tracked now key (nodes s i, bucket s) = (a, b) \<Longrightarrow>
    cluster_step kv js s (s\<lparr>nodes := (nodes s)(i := a), bucket := b\<rparr>)"
| adds: "add_timer kv js stored key meta timeout (bucket s) = (r, b) \<Longrightarrow>
    cluster_step kv js s (s\<lparr>bucket := b\<rparr>)"
| holds: "hold_timer kv js (acfg (nodes s i)) key (bucket s) = (r, b) \<Longrightarrow>
    cluster_step kv js s (s\<lparr>bucket := b, holding := holding s @ (case r of Inl err \<Rightarrow> [] | Inr h \<Rightarrow> [h])\<rparr>)"
| releases: "holding s = before @ h # later \<Longrightarrow>
    cluster_step kv js s (s\<lparr>bucket := release_hold kv js stopped h (bucket s), holding := before @ later\<rparr>)"
| clears: "clear_timer kv key (nodes s i, bucket s) = (r, a, b) \<Longrightarrow>
    cluster_step kv js s (s\<lparr>nodes := (nodes s)(i := a), bucket := b\<rparr>)"
| subscribes: "cluster_step kv js s (s\<lparr>nodes := (nodes s)(i := snd (subscribe pattern match (nodes s i)))\<rparr>)"
| stops: "cluster_step kv js s (s\<lparr>nodes := (nodes s)(i := stop_actor (nodes s i))\<rparr>)"

abbreviation cluster_run :: "'b kv_client \<Rightarrow> 'm json \<Rightarrow> ('m, 'b) cluster \<Rightarrow> ('m, 'b) cluster \<Rightarrow> bool" where
  "cluster_run kv js \<equiv> (cluster_step kv js)\<^sup>*\<^sup>*"

lemma add_grows:
  assumes "kv_laws kv rv" "add_timer kv js st k m d b = (r, b')"
  shows "revisions_grow rv b b'"
proof -
  obtain now b1 where n: "kv_now kv b = (now, b1)" by fastforce
  note g = kv_grow(5) [OF assms(1) n]
  show ?thesis
  proof (cases "marshal_payload js \<lparr>ExpiresAt = unix_nano (now + d), Metadata = m, Trace = st\<rparr>")
    case (Inl e)
    then show ?thesis using assms(2) n g by (simp add: add_timer_def)
  next
    case (Inr v)
    obtain y b2 where p: "kv_put kv k v b1 = (y, b2)" by fastforce
    have "revisions_grow rv b b2" by (rule kv_after(2) [OF assms(1) p g])
    then show ?thesis using assms(2) n Inr p by (cases y) (simp_all add: add_timer_def)
  qed
qed

lemma hold_grows:
  assumes "kv_laws kv rv" "hold_timer kv js cfg k b = (r, b')"
  shows "revisions_grow rv b b'"
proof -
  obtain x b1 where x: "kv_get kv k b = (x, b1)" by fastforce
  note g1 = kv_grow(1) [OF assms(1) x]
  show ?thesis
  proof (cases x)
    case (Inl e)
    then show ?thesis using assms(2) x g1 by (simp add: hold_timer_def)
  next
    case (Inr vr)
    obtain v r0 where vr: "vr = (v, r0)" by fastforce
    obtain now b2 where n: "kv_now kv b1 = (now, b2)" by fastforce
    note g2 = kv_after(5) [OF assms(1) n g1]
    have g3: "kv_update kv k v' r0 b2 = (y, b3) \<Longrightarrow> revisions_grow rv b b3" for v' y b3
      by (rule kv_after(3) [OF assms(1) _ g2])
    show ?thesis using assms(2) x Inr vr n g1 g2 g3
      by (auto simp: hold_timer_def Let_def split: prod.splits sum.splits)
  qed
qed

lemma release_grows:
  assumes "kv_laws kv rv"
  shows "revisions_grow rv b (release_hold kv js stopped h b)"
proof -
  have "revisions_grow rv b b' \<Longrightarrow> revisions_grow rv b (snd (kv_update kv k v n b'))" for k v n b'
    using kv_after(3) [OF assms] by (metis prod.collapse)
  moreover obtain x b1 where x: "kv_get kv (hkey h) b = (x, b1)" by fastforce
  moreover have "revisions_grow rv b b1" by (rule kv_grow(1) [OF assms x])
  ultimately show ?thesis by (cases x) (auto simp: release_hold_def split: sum.split)
qed

lemma clear_wins:
  "kv_laws kv rv \<Longrightarrow> clear_timer kv k (a, b) = (r, a', b') \<Longrightarrow> wins_forward rv (a, b) (a', b')"
  by (auto simp: clear_timer_def wins_none split: prod.splits option.splits dest!: remove_key_grow [of kv rv])

text \<open>Every step of the cluster is one replica's step, and leaves the other replicas alone.\<close>

lemma cluster_step_wins:
  assumes "kv_laws kv rv" "cluster_step kv js s s'"
  shows "\<exists>i. wins_forward rv (nodes s i, bucket s) (nodes s' i, bucket s') \<and> (\<forall>j. j \<noteq> i \<longrightarrow> nodes s' j = nodes s j)"
  using assms(2)
proof (cases rule: cluster_step.cases)
  case (watches e i a b)
  then show ?thesis using watch_entry_wins [OF assms(1), of "nodes s i" "bucket s" js e] by (intro exI [of _ i]) simp
next
  case (expires i n t)
  then show ?thesis by (intro exI [of _ i]) (simp add: wins_none)
next
  case (claims before i t later a b)
  then show ?thesis using claim_wins [OF assms(1), of "nodes s i" "bucket s" "tkey t" "trev t" "tmeta t" "ttrace t"]
    by (intro exI [of _ i]) simp
next
  case (rescans tracked now key i a b)
  then show ?thesis using rescan_key_wins [OF assms(1), of "nodes s i" "bucket s" js tracked now key]
    by (intro exI [of _ i]) simp
next
  case (adds stored key meta timeout r b)
  then show ?thesis using add_grows [OF assms(1) adds(2)] by (intro exI [of _ 0]) (simp add: wins_none)
next
  case (holds i key r b)
  then show ?thesis using hold_grows [OF assms(1) holds(2)] by (intro exI [of _ 0]) (simp add: wins_none)
next
  case (releases before h later stopped)
  then show ?thesis using release_grows [OF assms(1), of "bucket s" js stopped h] by (intro exI [of _ 0]) (simp add: wins_none)
next
  case (clears key i r a b)
  then show ?thesis using clear_wins [OF assms(1)] by (intro exI [of _ i]) simp
next
  case (subscribes i pattern match)
  then show ?thesis by (intro exI [of _ i]) (simp add: wins_none subscribe_def Let_def)
next
  case (stops i)
  then show ?thesis by (intro exI [of _ i]) (simp add: wins_none stop_actor_def)
qed

definition cluster_inv :: "('b \<Rightarrow> string \<Rightarrow> nat) \<Rightarrow> ('m, 'b) cluster \<Rightarrow> bool" where
  "cluster_inv rv s \<longleftrightarrow>
     (\<forall>i. distinct (won (nodes s i)) \<and> calls_won (nodes s i) \<and>
        (\<forall>(k, r) \<in> set (won (nodes s i)). r < rv (bucket s) k)) \<and>
     (\<forall>i j. i \<noteq> j \<longrightarrow> set (won (nodes s i)) \<inter> set (won (nodes s j)) = {})"

lemma cluster_step_inv:
  assumes "kv_laws kv rv" "cluster_inv rv s" "cluster_step kv js s s'"
  shows "cluster_inv rv s'"
proof -
  obtain i where i: "wins_forward rv (nodes s i, bucket s) (nodes s' i, bucket s')"
    "\<forall>j. j \<noteq> i \<longrightarrow> nodes s' j = nodes s j"
    using cluster_step_wins [OF assms(1,3)] by blast
  obtain new where new: "won (nodes s' i) = won (nodes s i) @ new" "distinct new"
    "\<forall>(k, r) \<in> set new. rv (bucket s) k \<le> r \<and> r < rv (bucket s') k"
    using i(1) unfolding wins_forward_def by auto
  have grow: "\<forall>k. rv (bucket s) k \<le> rv (bucket s') k"
    using i(1) by (simp add: wins_forward_def revisions_grow_def)
  have old: "\<forall>(k, r) \<in> set (won (nodes s j)). r < rv (bucket s) k" for j
    using assms(2) by (simp add: cluster_inv_def)
  have apart: "set (won (nodes s j)) \<inter> set new = {}" for j using old new(3) by fastforce
  have below: "\<forall>(k, r) \<in> set (won (nodes s' j)). r < rv (bucket s') k" for j
    using old [of j] new(1,3) i(2) grow by (cases "j = i") (auto intro: less_le_trans)
  have calls: "calls_won (nodes s' j)" for j
    using i assms(2) by (cases "j = i") (simp_all add: cluster_inv_def wins_forward_def)
  have dist: "distinct (won (nodes s' j))" for j
    using assms(2) new(1,2) apart [of i] i(2) by (cases "j = i") (simp_all add: cluster_inv_def)
  have "set (won (nodes s' j)) \<inter> set (won (nodes s' l)) = {}" if "j \<noteq> l" for j l
  proof -
    have "set (won (nodes s j)) \<inter> set (won (nodes s l)) = {}" using assms(2) that by (simp add: cluster_inv_def)
    then show ?thesis using i(2) new(1) apart that
      by (cases "j = i"; cases "l = i") (auto simp: Int_Un_distrib Int_Un_distrib2 Int_commute)
  qed
  then show ?thesis using dist calls below by (simp add: cluster_inv_def)
qed

lemma cluster_run_inv:
  assumes "kv_laws kv rv" "cluster_run kv js s s'" "cluster_inv rv s"
  shows "cluster_inv rv s'"
  using assms(2,3) by induction (blast intro: cluster_step_inv [OF assms(1)])+

text \<open>A revision that is gone is never won again.\<close>

lemma gone_never_won:
  assumes "kv_laws kv rv" "cluster_run kv js s s'" "r < rv (bucket s) k"
  shows "r < rv (bucket s') k \<and> (\<forall>i. (k, r) \<in> set (won (nodes s' i)) \<longleftrightarrow> (k, r) \<in> set (won (nodes s i)))"
  using assms(2)
proof induction
  case base
  show ?case using assms(3) by simp
next
  case (step s1 s2)
  obtain i where i: "wins_forward rv (nodes s1 i, bucket s1) (nodes s2 i, bucket s2)"
    "\<forall>j. j \<noteq> i \<longrightarrow> nodes s2 j = nodes s1 j"
    using cluster_step_wins [OF assms(1) step.hyps(2)] by blast
  obtain new where new: "won (nodes s2 i) = won (nodes s1 i) @ new"
    "\<forall>(k, r) \<in> set new. rv (bucket s1) k \<le> r \<and> r < rv (bucket s2) k"
    using i(1) unfolding wins_forward_def by auto
  have "rv (bucket s1) k \<le> rv (bucket s2) k"
    using i(1) by (simp add: wins_forward_def revisions_grow_def)
  moreover have "(k, r) \<notin> set new" using new(2) step.IH by fastforce
  moreover have "(k, r) \<in> set (won (nodes s2 j)) \<longleftrightarrow> (k, r) \<in> set (won (nodes s1 j))" for j
    using new(1) \<open>(k, r) \<notin> set new\<close> i(2) by (cases "j = i") simp_all
  ultimately show ?case using step.IH by (meson less_le_trans)
qed

lemma hold_bumps:
  assumes "kv_laws kv rv" "hold_timer kv js cfg key b = (Inr h, b')"
  shows "hrev h \<le> rv b' key \<and> hkey h = key"
  using assms(2) by (auto simp: hold_timer_def Let_def split: prod.splits sum.splits dest: update_guard [OF assms(1)])

section \<open>Properties\<close>

text \<open>
  C4. Exactly one replica fires. Whatever the watchers deliver, whenever timers expire, and however
  rescans, holds, clears and retries of the replicas interleave: no revision of a key is won twice, by
  the same or by different replicas, and no replica runs a callback for a key more often than it has won
  a removal of that key. The bucket may fail at any call; only a removal guarded by a revision that
  succeeded must have met that revision.
\<close>
theorem callbacks_at_most_once:
  assumes "kv_laws kv rv" "cluster_run kv js s s'"
    and "\<forall>i. won (nodes s i) = [] \<and> called (nodes s i) = []"
  shows "distinct (won (nodes s' i)) \<and> (i \<noteq> j \<longrightarrow> set (won (nodes s' i)) \<inter> set (won (nodes s' j)) = {}) \<and>
    runs_of n k (nodes s' i) \<le> wins_of k (nodes s' i)"
proof -
  have "cluster_inv rv s" using assms(3) by (simp add: cluster_inv_def calls_won_def runs_of_def)
  from cluster_run_inv [OF assms(1,2) this] show ?thesis by (simp add: cluster_inv_def calls_won_def)
qed

text \<open>
  C22. A hold suppresses the timer on every replica. Once a hold was granted, no replica wins the key at
  a revision before the hold, whatever timers were armed for it and whatever happens from then on.
\<close>
theorem hold_suppresses:
  assumes "kv_laws kv rv" "hold_timer kv js cfg key (bucket s) = (Inr h, b)"
    and "cluster_run kv js (s\<lparr>bucket := b\<rparr>) s'" "r < hrev h"
  shows "(key, r) \<in> set (won (nodes s' i)) \<longleftrightarrow> (key, r) \<in> set (won (nodes s i))"
  using gone_never_won [OF assms(1,3), of r key] hold_bumps [OF assms(1,2)] assms(4) by auto

text \<open>
  What the bucket promises of its entries, \<open>at\<close>: reading changes nothing and returns what is there,
  and an update that succeeds writes what it was given.
\<close>

definition kv_contents :: "'b kv_client \<Rightarrow> ('b \<Rightarrow> string \<Rightarrow> (string \<times> nat) option) \<Rightarrow> bool" where
  "kv_contents kv at \<longleftrightarrow>
     (\<forall>k b x b'. kv_get kv k b = (x, b') \<longrightarrow> at b' = at b \<and> (\<forall>vr. x = Inr vr \<longrightarrow> at b k = Some vr)) \<and>
     (\<forall>k v n b n' b'. kv_update kv k v n b = (Inr n', b') \<longrightarrow> at b' k = Some (v, n')) \<and>
     (\<forall>b. at (snd (kv_now kv b)) = at b)"

lemma kv_contentsD:
  assumes "kv_contents kv at"
  shows "kv_get kv k b = (x, b') \<Longrightarrow> at b' = at b"
    and "kv_get kv k b = (Inr vr, b') \<Longrightarrow> at b k = Some vr"
    and "kv_update kv k v n b = (Inr n', b') \<Longrightarrow> at b' k = Some (v, n')"
    and "kv_now kv b = (t, b') \<Longrightarrow> at b' = at b"
  using assms unfolding kv_contents_def by (metis snd_conv)+

lemma hold_timer_effect:
  assumes "kv_contents kv at" "hold_timer kv js cfg key b = (Inr h, b')"
  obtains v r p v' e where "at b key = Some (v, r)" "unmarshal_payload js v = Inr p" "horiginal h = p" "hkey h = key"
    "ExpiresAt p \<le> e" "marshal_payload js \<lparr>ExpiresAt = unix_nano e, Metadata = Metadata p, Trace = Trace p\<rparr> = Inr v'"
    "at b' key = Some (v', hrev h)"
proof -
  obtain v r b1 where g: "kv_get kv key b = (Inr (v, r), b1)"
    using assms(2) by (auto simp: hold_timer_def split: prod.splits sum.splits)
  obtain p where p: "unmarshal_payload js v = Inr p"
    using assms(2) g by (auto simp: hold_timer_def split: sum.splits)
  obtain now b2 where n: "kv_now kv b1 = (now, b2)" by fastforce
  let ?e = "hold_deadline (ExpiresAt p) now (MaxHoldDuration cfg)"
  obtain v' n' where m: "marshal_payload js \<lparr>ExpiresAt = unix_nano ?e, Metadata = Metadata p, Trace = Trace p\<rparr> = Inr v'"
    and u: "kv_update kv key v' r b2 = (Inr n', b')" and h: "h = \<lparr>hkey = key, horiginal = p, hrev = n'\<rparr>"
    using assms(2) g p n by (auto simp: hold_timer_def Let_def split: prod.splits sum.splits)
  have "ExpiresAt p \<le> ?e" by (simp add: hold_deadline_def Let_def)
  then show thesis
    using that [OF kv_contentsD(2) [OF assms(1) g] p _ _ _ m] kv_contentsD(3) [OF assms(1) u] h by simp
qed

text \<open>
  Releasing a hold. A hold keeps the metadata of the entry and never brings its expiry forward. When
  it is released and the entry is as the hold left it, the entry holds the original payload again,
  provided the bucket and the JSON library answer; when somebody else wrote the entry meanwhile, the
  release writes nothing.
\<close>
theorem hold_release_restores:
  assumes "kv_contents kv at" "hold_timer kv js cfg key b = (Inr h, b1)"
    and "kv_get kv key b2 = (Inr (v2, r2), b3)" "marshal_payload js (horiginal h) = Inr v"
    and "kv_update kv key v (hrev h) b3 = (Inr r4, b4)"
  shows "at b key \<noteq> None \<and> unmarshal_payload js (fst (the (at b key))) = Inr (horiginal h) \<and>
    (r2 = hrev h \<longrightarrow> at (release_hold kv js False h b2) key = Some (v, r4)) \<and>
    (r2 \<noteq> hrev h \<longrightarrow> at (release_hold kv js False h b2) = at b2) \<and>
    (at b2 key = at b1 key \<longrightarrow> r2 = hrev h)"
proof -
  obtain v0 r0 p v1 e where h: "at b key = Some (v0, r0)" "unmarshal_payload js v0 = Inr p" "horiginal h = p"
    "hkey h = key" "at b1 key = Some (v1, hrev h)"
    by (rule hold_timer_effect [OF assms(1,2)]) blast
  have "at b2 key = Some (v2, r2)" "at b3 = at b2" using kv_contentsD [OF assms(1)] assms(3) by blast+
  then show ?thesis
    using h assms(3-5) kv_contentsD(3) [OF assms(1,5)] by (simp add: release_hold_def)
qed

text \<open>
  What a removal comes to. Every outcome of firing a timer: the removal is won, the matching
  callbacks run in their order and the timer is forgotten; it is lost to another replica, and nothing
  runs; or it fails, nothing runs, and with a rescan interval a retry with the same revision is armed,
  unless the actor is stopping.
\<close>
theorem try_fire_outcomes:
  assumes "remove_key kv (acfg a) key (Some r) b = (err, b1)"
    and "try_fire_callback kv key r meta st (a, b) = (a', b')"
  shows "b' = b1 \<and> (case err of
      None \<Rightarrow> won a' = won a @ [(key, r)] \<and> timers a' key = None \<and>
        called a' = called a @ map (\<lambda>i. (i, key, meta)) (matching (subs a) meta)
    | Some e \<Rightarrow> won a' = won a \<and> called a' = called a \<and>
        (if is_revision_mismatch e \<or> errors_is e ErrKeyNotFound \<or> RescanInterval (acfg a) \<le> 0 \<or> stopping a
         then timers a' key = None
         else timers a' key = Some (next_timer a) \<and> live a' (next_timer a) =
           Some \<lparr>tkey = key, trev = r, tdelay = CheckInterval (acfg a), tmeta = meta, ttrace = st\<rparr>))"
proof (cases err)
  case None
  then show ?thesis using assms
    by (auto simp: try_fire_callback_def claim_and_fire_def forget_timer_def fire_matching_callbacks_def)
next
  case (Some e)
  then show ?thesis using assms
    by (auto simp: try_fire_callback_def claim_and_fire_def forget_timer_def retry_later_def start_timer_def
        split: if_splits)
qed

text \<open>
  A configuration that crashes. A configuration with a bucket name and no check interval is
  accepted, and the first watcher that opens with it panics: the period of its ticker is not positive.
\<close>
theorem watcher_panics:
  assumes "BucketName c \<noteq> ''''" "CheckInterval c \<le> 0" "RescanInterval c = 0" "MarkerTTL c = 0" "1 \<le> KVReplicas c"
    and "marker_lookup (''KV_'' @ BucketName c) = Inr ttl" "\<And>bc. create_bucket bc = None"
  shows "\<exists>a. new_actor env marker_lookup create_bucket c = Inr a \<and>
    run_watcher kv js True evs (a, b) = (Panicked, a, b)"
  using assms
  by (simp add: new_actor_def validate_timer_def bucket_marker_ttl_def run_watcher_def rescan_every_def Let_def)

theorem watcher_panics_witness:
  "\<exists>a. new_actor demo_stream_env (\<lambda>_. Inr 0) (\<lambda>_. None)
      (default_timer_config\<lparr>BucketName := ''timers'', CheckInterval := 0, KVReplicas := 1\<rparr>) = Inr a \<and>
    run_watcher (undefined :: unit kv_client) (undefined :: unit json) True [] (a, ()) = (Panicked, a, ())"
  by (rule watcher_panics) (simp_all add: default_timer_config_def)

text \<open>The backoff between two openings of a watcher stays within its bounds.\<close>

lemma watch_backoff_bounds:
  assumes "watch_retry_min \<le> backoff" "backoff \<le> watch_retry_max"
  shows "case watch_backoff started backoff of (wait, next_one) \<Rightarrow>
    watch_retry_min \<le> wait \<and> wait \<le> watch_retry_max \<and> wait \<le> next_one \<and> next_one \<le> watch_retry_max"
  using assms by (auto simp: watch_backoff_def Let_def watch_retry_min_def watch_retry_max_def)

section \<open>A bucket\<close>

record demo_bucket =
  vals :: "string \<rightharpoonup> string"
  revs :: "string \<Rightarrow> nat"

definition demo_kv :: "demo_bucket kv_client" where
  "demo_kv = \<lparr>
     kv_get = \<lambda>k b. (case vals b k of None \<Rightarrow> Inl (Sent ErrKeyNotFound) | Some v \<Rightarrow> Inr (v, revs b k), b),
     kv_put = \<lambda>k v b. (Inr (Suc (revs b k)), b\<lparr>vals := (vals b)(k \<mapsto> v), revs := (revs b)(k := Suc (revs b k))\<rparr>),
     kv_update = \<lambda>k v n b. if revs b k = n
       then (Inr (Suc n), b\<lparr>vals := (vals b)(k \<mapsto> v), revs := (revs b)(k := Suc n)\<rparr>) else (Inl (Api 10071), b),
     kv_delete = \<lambda>k g b. if g = None \<or> g = Some (revs b k)
       then (None, b\<lparr>vals := (vals b)(k := None), revs := (revs b)(k := Suc (revs b k))\<rparr>) else (Some (Api 10071), b),
     kv_purge = \<lambda>k g t b. if g = None \<or> g = Some (revs b k)
       then (None, b\<lparr>vals := (vals b)(k := None), revs := (revs b)(k := Suc (revs b k))\<rparr>) else (Some (Api 10071), b),
     kv_list_keys = \<lambda>b. (Inl (Sent ErrNoKeysFound), b),
     kv_now = \<lambda>b. (0, b)\<rparr>"

definition demo_json :: "unit json" where
  "demo_json = \<lparr>to_json = \<lambda>p. Inr ''v'', from_json = \<lambda>d. Inr \<lparr>ExpiresAt = -1, Metadata = (), Trace = Map.empty\<rparr>,
     zero_meta = ()\<rparr>"

lemma demo_kv_laws: "kv_laws demo_kv revs"
  by (auto simp: kv_laws_def demo_kv_def revisions_grow_def split: option.split)

lemma demo_kv_contents: "kv_contents demo_kv (\<lambda>b k. map_option (\<lambda>v. (v, revs b k)) (vals b k))"
  by (auto simp: kv_contents_def demo_kv_def split: if_splits option.splits)

definition demo_actor :: "unit actor" where
  "demo_actor = \<lparr>acfg = default_timer_config, timers = Map.empty, live = Map.empty, next_timer = 0, subs = [None],
     watching = [], stopping = False, called = [], won = []\<rparr>"

definition demo_cluster :: "(unit, demo_bucket) cluster" where
  "demo_cluster = \<lparr>bucket = \<lparr>vals = [''k'' \<mapsto> ''v''], revs = (\<lambda>_. 1)\<rparr>, nodes = \<lambda>_. demo_actor, firing = [], holding = []\<rparr>"

text \<open>The state after replica 0 found the overdue key in a rescan.\<close>

definition demo_fired :: "(unit, demo_bucket) cluster" where
  "demo_fired = demo_cluster\<lparr>
     nodes := (nodes demo_cluster)(0 := demo_actor\<lparr>won := [(''k'', 1)], called := [(0, ''k'', ())]\<rparr>),
     bucket := \<lparr>vals = [''k'' \<mapsto> ''v''](''k'' := None), revs = (\<lambda>_. 1)(''k'' := Suc 1)\<rparr>\<rparr>"

lemma demo_cluster_run: "cluster_run demo_kv demo_json demo_cluster demo_fired"
proof -
  have "rescan_key demo_kv demo_json Map.empty 0 ''k'' (nodes demo_cluster 0, bucket demo_cluster) =
      (nodes demo_fired 0, bucket demo_fired)"
    by (simp add: rescan_key_def demo_kv_def demo_json_def demo_cluster_def demo_fired_def demo_actor_def
        unmarshal_payload_def try_fire_callback_def claim_and_fire_def forget_timer_def remove_key_def
        fire_matching_callbacks_def matching_def default_timer_config_def)
  from cluster_step.rescans [OF this]
  have "cluster_step demo_kv demo_json demo_cluster demo_fired"
    by (simp add: demo_fired_def demo_cluster_def)
  then show ?thesis by simp
qed

theorem callbacks_at_most_once_witness:
  "(''k'', 1) \<in> set (won (nodes demo_fired 0)) \<and> (''k'', 1) \<notin> set (won (nodes demo_fired 1))"
  using callbacks_at_most_once [OF demo_kv_laws demo_cluster_run, of 0 1]
  by (simp add: demo_cluster_def demo_actor_def demo_fired_def)

theorem hold_suppresses_witness:
  "\<exists>h b. hold_timer demo_kv demo_json default_timer_config ''k'' (bucket demo_cluster) = (Inr h, b) \<and>
     (''k'', 1) \<notin> set (won (nodes (demo_cluster\<lparr>bucket := b\<rparr>) 0))"
proof -
  obtain h b where h: "hold_timer demo_kv demo_json default_timer_config ''k'' (bucket demo_cluster) = (Inr h, b)" "hrev h = 2"
    by (simp add: hold_timer_def demo_kv_def demo_json_def demo_cluster_def unmarshal_payload_def marshal_payload_def Let_def)
  from hold_suppresses [OF demo_kv_laws h(1) rtranclp.rtrancl_refl, of 1 0] h show ?thesis
    by (auto simp: demo_cluster_def demo_actor_def)
qed

theorem hold_release_restores_witness:
  "\<exists>h b1. hold_timer demo_kv demo_json default_timer_config ''k'' (bucket demo_cluster) = (Inr h, b1) \<and>
     vals (release_hold demo_kv demo_json False h b1) ''k'' = Some ''v''"
proof -
  let ?b = "bucket demo_cluster" and ?at = "\<lambda>b k. map_option (\<lambda>v. (v, revs b k)) (vals b k)"
  obtain h b1 where h: "hold_timer demo_kv demo_json default_timer_config ''k'' ?b = (Inr h, b1)" "hrev h = 2"
    "revs b1 ''k'' = 2" "vals b1 ''k'' = Some ''v''"
    by (simp add: hold_timer_def demo_kv_def demo_json_def demo_cluster_def unmarshal_payload_def marshal_payload_def Let_def)
  have "kv_get demo_kv ''k'' b1 = (Inr (''v'', 2), b1)" using h by (simp add: demo_kv_def)
  moreover have "kv_update demo_kv ''k'' ''v'' (hrev h) b1 =
      (Inr 3, b1\<lparr>vals := (vals b1)(''k'' \<mapsto> ''v''), revs := (revs b1)(''k'' := 3)\<rparr>)"
    using h by (simp add: demo_kv_def numeral_3_eq_3)
  moreover have "marshal_payload demo_json (horiginal h) = Inr ''v''" by (simp add: marshal_payload_def demo_json_def)
  ultimately have "?at (release_hold demo_kv demo_json False h b1) ''k'' = Some (''v'', 3)"
    using hold_release_restores [OF demo_kv_contents h(1), of b1 "''v''" 2 b1 "''v''" 3] h(2) by simp
  then show ?thesis using h(1) by auto
qed

theorem try_fire_outcomes_witness:
  "won (fst (try_fire_callback demo_kv ''k'' 1 () Map.empty (demo_actor, bucket demo_cluster))) = [(''k'', 1)]"
proof -
  obtain a' b' where t: "try_fire_callback demo_kv ''k'' 1 () Map.empty (demo_actor, bucket demo_cluster) = (a', b')"
    by fastforce
  have "fst (remove_key demo_kv (acfg demo_actor) ''k'' (Some 1) (bucket demo_cluster)) = None"
    by (simp add: remove_key_def demo_kv_def demo_cluster_def demo_actor_def default_timer_config_def)
  then obtain b1 where "remove_key demo_kv (acfg demo_actor) ''k'' (Some 1) (bucket demo_cluster) = (None, b1)"
    by (metis prod.collapse)
  from try_fire_outcomes [OF this t] t show ?thesis by (simp add: demo_actor_def)
qed

end
