(* ===== verification/Pg_Timer.thy ===== *)
theory Pg_Timer imports Go_Strings "HOL-Library.Multiset" begin

text \<open>
  Timers in a PostgreSQL table (\<^verbatim>\<open>pkg/pgtimer\<close>): a poller claims due rows by
  moving their due time to the end of a lease, runs their handlers, and deletes a row only after its
  handler returned without an error.
\<close>

section \<open>Settings\<close>

abbreviation ErrPgConfig :: sentinel where "ErrPgConfig \<equiv> Sentinel ''pgtimer.ErrInvalidConfig''"
abbreviation ErrPgStarted :: sentinel where "ErrPgStarted \<equiv> Sentinel ''pgtimer.ErrStarted''"
abbreviation ErrPgNoHandlers :: sentinel where "ErrPgNoHandlers \<equiv> Sentinel ''pgtimer.ErrNoHandlers''"
abbreviation ErrPgDuplicateHandler :: sentinel where "ErrPgDuplicateHandler \<equiv> Sentinel ''pgtimer.ErrDuplicateHandler''"
abbreviation ErrPgHandlerPanic :: sentinel where "ErrPgHandlerPanic \<equiv> Sentinel ''pgtimer.ErrHandlerPanic''"

record pg_config =
  cLease :: duration
  cHandlerTimeout :: duration
  cPoll :: duration
  cBatch :: int
  cConcurrency :: int

record settings =
  lease :: duration
  handler_timeout :: duration
  poll :: duration
  batch :: int
  concurrency :: int

definition default_lease :: duration where "default_lease = 60 * second"
definition default_handler_timeout :: duration where "default_handler_timeout = 30 * second"
definition default_poll :: duration where "default_poll = second"
definition default_batch :: int where "default_batch = 100"
definition default_concurrency :: int where "default_concurrency = 8"
definition limit_batch :: int where "limit_batch = 1000"
definition limit_concurrency :: int where "limit_concurrency = 256"
definition max_remove_timeout :: duration where "max_remove_timeout = 5 * second"

definition remove_timeout :: "settings \<Rightarrow> duration" where
  "remove_timeout s = min max_remove_timeout (go_div (lease s) 4)"

definition validate_settings :: "settings \<Rightarrow> goerr option" where
  "validate_settings s =
     (if lease s \<le> 0 \<or> handler_timeout s \<le> 0 \<or> poll s \<le> 0 then Some (Sent ErrPgConfig)
      else if handler_timeout s > go_div (lease s) 2 then Some (Sent ErrPgConfig)
      else if batch s < 1 \<or> batch s > limit_batch then Some (Sent ErrPgConfig)
      else if concurrency s < 1 \<or> concurrency s > limit_concurrency then Some (Sent ErrPgConfig)
      else None)"

definition resolve_duration :: "environment \<Rightarrow> duration \<Rightarrow> string \<Rightarrow> duration \<Rightarrow> goerr + duration" where
  "resolve_duration env explicit name fallback =
     (if explicit \<noteq> 0 then Inr explicit
      else let raw = getenv env name in
        if raw = '''' then Inr fallback
        else case parse_duration env raw of None \<Rightarrow> Inl (Sent ErrPgConfig) | Some d \<Rightarrow> Inr d)"

definition resolve_int :: "environment \<Rightarrow> int \<Rightarrow> string \<Rightarrow> int \<Rightarrow> goerr + int" where
  "resolve_int env explicit name fallback =
     (if explicit \<noteq> 0 then Inr explicit
      else let raw = getenv env name in
        if raw = '''' then Inr fallback
        else case parse_int raw of None \<Rightarrow> Inl (Sent ErrPgConfig) | Some d \<Rightarrow> Inr d)"

definition bind_result :: "goerr + 'a \<Rightarrow> ('a \<Rightarrow> goerr + 'b) \<Rightarrow> goerr + 'b" where
  "bind_result r f = (case r of Inl err \<Rightarrow> Inl err | Inr v \<Rightarrow> f v)"

lemma bind_result_simps [simp]: "bind_result (Inl e) f = Inl e" "bind_result (Inr v) f = f v"
  by (simp_all add: bind_result_def)

lemma bind_result_Inr: "bind_result r f = Inr y \<longleftrightarrow> (\<exists>v. r = Inr v \<and> f v = Inr y)"
  by (cases r) simp_all

definition resolve_settings :: "environment \<Rightarrow> pg_config \<Rightarrow> goerr + settings" where
  "resolve_settings env cfg =
     bind_result (resolve_duration env (cLease cfg) ''BROKERFX_PGTIMER_LEASE'' default_lease) (\<lambda>l.
     bind_result (resolve_duration env (cHandlerTimeout cfg) ''BROKERFX_PGTIMER_HANDLER_TIMEOUT'' default_handler_timeout) (\<lambda>h.
     bind_result (resolve_duration env (cPoll cfg) ''BROKERFX_PGTIMER_POLL'' default_poll) (\<lambda>p.
     bind_result (resolve_int env (cBatch cfg) ''BROKERFX_PGTIMER_BATCH'' default_batch) (\<lambda>n.
     bind_result (resolve_int env (cConcurrency cfg) ''BROKERFX_PGTIMER_CONCURRENCY'' default_concurrency) (\<lambda>c.
       let s = \<lparr>lease = l, handler_timeout = h, poll = p, batch = n, concurrency = c\<rparr> in
       case validate_settings s of Some err \<Rightarrow> Inl err | None \<Rightarrow> Inr s)))))"

section \<open>Queries\<close>

record pg_names =
  nName :: string
  nKey :: string
  nTimerName :: string
  nAttempt :: string
  nDueAt :: string
  nCreatedAt :: string
  nUpdatedAt :: string

text \<open>The regular expression of a plain name.\<close>

definition letter_or_underscore :: "char \<Rightarrow> bool" where
  "letter_or_underscore c \<longleftrightarrow> lower_letter c \<or> upper_letter c \<or> c = CHR ''_''"

definition plain_identifier :: "string \<Rightarrow> bool" where
  "plain_identifier s \<longleftrightarrow> s \<noteq> '''' \<and> letter_or_underscore (hd s) \<and> length s \<le> 63 \<and>
     list_all (\<lambda>c. letter_or_underscore c \<or> is_digit c) s"

definition quote_column :: "string \<Rightarrow> goerr + string" where
  "quote_column name = (if plain_identifier name then Inr (CHR 0x22 # name @ [CHR 0x22]) else Inl (Sent ErrPgConfig))"

fun quote_parts :: "string list \<Rightarrow> goerr + string list" where
  "quote_parts [] = Inr []"
| "quote_parts (p # ps) = bind_result (quote_column p) (\<lambda>q. bind_result (quote_parts ps) (\<lambda>qs. Inr (q # qs)))"

definition quote_table :: "string \<Rightarrow> goerr + string" where
  "quote_table name =
     (let parts = split_at CHR ''.'' name in
      if length parts > 2 then Inl (Sent ErrPgConfig)
      else bind_result (quote_parts parts) (\<lambda>qs. Inr (join_at CHR ''.'' qs)))"

record pg_queries =
  claim_sql :: string
  remove_sql :: string

definition claim_text :: "string \<Rightarrow> string \<Rightarrow> string \<Rightarrow> string \<Rightarrow> string \<Rightarrow> string \<Rightarrow> string \<Rightarrow> string" where
  "claim_text name key due tname attempt order touch =
     ''WITH due AS MATERIALIZED ('' @ [CHR 0x0a] @
     [CHR 0x09] @ ''SELECT ctid AS row_id, '' @ due @ '' AS original_due_at'' @ [CHR 0x0a] @
     [CHR 0x09] @ ''FROM '' @ name @ [CHR 0x0a] @
     [CHR 0x09] @ ''WHERE '' @ due @ '' <= now() AND '' @ tname @ '' IN ?'' @ [CHR 0x0a] @
     [CHR 0x09] @ ''ORDER BY '' @ order @ [CHR 0x0a] @
     [CHR 0x09] @ ''LIMIT ?'' @ [CHR 0x0a] @
     [CHR 0x09] @ ''FOR UPDATE SKIP LOCKED'' @ [CHR 0x0a] @
     '')'' @ [CHR 0x0a] @
     ''UPDATE '' @ name @ '' AS t'' @ [CHR 0x0a] @
     ''SET '' @ due @ '' = now() + ? * interval '' @ [CHR 0x27] @ ''1 millisecond'' @ [CHR 0x27] @ touch @ [CHR 0x0a] @
     ''FROM due'' @ [CHR 0x0a] @
     ''WHERE t.ctid = due.row_id'' @ [CHR 0x0a] @
     ''RETURNING t.'' @ key @ ''::text AS timer_key, t.'' @ tname @ ''::text AS timer_name, t.'' @ attempt @
     ''::text AS timer_attempt, due.original_due_at, t.'' @ due @ '' AS lease_due_at, now() AS claimed_at''"

definition remove_text :: "string \<Rightarrow> string \<Rightarrow> string \<Rightarrow> string \<Rightarrow> string \<Rightarrow> string" where
  "remove_text name key due tname attempt =
     ''DELETE FROM '' @ name @ '' WHERE '' @ key @ '' = ? AND '' @ tname @ '' = ? AND '' @ attempt @
     '' = ? AND '' @ due @ '' = ?''"

definition build_queries :: "pg_names \<Rightarrow> goerr + pg_queries" where
  "build_queries t =
     bind_result (quote_table (nName t)) (\<lambda>name.
     bind_result (quote_column (nKey t)) (\<lambda>key.
     bind_result (quote_column (nTimerName t)) (\<lambda>tname.
     bind_result (quote_column (nAttempt t)) (\<lambda>attempt.
     bind_result (quote_column (nDueAt t)) (\<lambda>due.
     bind_result (if nCreatedAt t = '''' then Inr due
                  else bind_result (quote_column (nCreatedAt t)) (\<lambda>created. Inr (due @ '', '' @ created))) (\<lambda>order.
     bind_result (if nUpdatedAt t = '''' then Inr ''''
                  else bind_result (quote_column (nUpdatedAt t)) (\<lambda>updated. Inr ('', '' @ updated @ '' = now()''))) (\<lambda>touch.
       Inr \<lparr>claim_sql = claim_text name key due tname attempt order touch,
            remove_sql = remove_text name key due tname attempt\<rparr>)))))))"

section \<open>What the queries do\<close>

text \<open>
  The statements above, on a list of rows: \<open>row_id\<close> is the physical row, \<open>pcreated\<close> the
  second order key (the same for all rows when there is none). Rows that another session holds locked
  are skipped.
\<close>

record pg_row =
  row_id :: nat
  pkey :: string
  pname :: string
  pattempt :: string
  pdue :: int
  pcreated :: int

record pg_timer =
  tm_row :: nat                  \<comment> \<open>not in the source: the row it was read from\<close>
  tm_key :: string
  tm_name :: string
  tm_attempt :: string
  tm_due :: int
  tm_lease_due :: int
  tm_claimed :: int

definition due_rows ::
  "string list \<Rightarrow> (pg_row \<Rightarrow> bool) \<Rightarrow> nat \<Rightarrow> int \<Rightarrow> pg_row list \<Rightarrow> pg_row list" where
  "due_rows ns locked limit now rows =
     take limit (filter (\<lambda>r. \<not> locked r)
       (sort_key pdue (sort_key pcreated (filter (\<lambda>r. pdue r \<le> now \<and> pname r \<in> set ns) rows))))"

definition lease_ms :: "settings \<Rightarrow> int" where
  "lease_ms s = go_div (lease s) millisecond"

definition lease_end :: "settings \<Rightarrow> int \<Rightarrow> int" where
  "lease_end s now = now + lease_ms s * millisecond"

definition claim_statement ::
  "settings \<Rightarrow> string list \<Rightarrow> (pg_row \<Rightarrow> bool) \<Rightarrow> nat \<Rightarrow> int \<Rightarrow> pg_row list \<Rightarrow> pg_timer list \<times> pg_row list" where
  "claim_statement s ns locked limit now rows =
     (let due = due_rows ns locked limit now rows; ids = map row_id due in
      (map (\<lambda>r. \<lparr>tm_row = row_id r, tm_key = pkey r, tm_name = pname r, tm_attempt = pattempt r, tm_due = pdue r,
         tm_lease_due = lease_end s now, tm_claimed = now\<rparr>) due,
       map (\<lambda>r. if row_id r \<in> set ids then r\<lparr>pdue := lease_end s now\<rparr> else r) rows))"

definition remove_statement :: "pg_timer \<Rightarrow> pg_row list \<Rightarrow> nat \<times> pg_row list" where
  "remove_statement t rows =
     (let hit = (\<lambda>r. pkey r = tm_key t \<and> pname r = tm_name t \<and> pattempt r = tm_attempt t \<and> pdue r = tm_lease_due t)
      in (length (filter hit rows), filter (\<lambda>r. \<not> hit r) rows))"

section \<open>The poller\<close>

datatype poller_state = StateIdle | StateRunning | StateStopped

text \<open>A handler is a function of its context's outcome: what it returns is up to it.\<close>

record poller =
  pset :: settings
  pstate :: poller_state
  handlers :: "(string \<times> (pg_timer \<Rightarrow> unit ret)) list"
  poll_names :: "string list"
  slots :: nat

definition new_poller :: "environment \<Rightarrow> bool \<Rightarrow> pg_config \<Rightarrow> pg_names \<Rightarrow> goerr + poller \<times> pg_queries" where
  "new_poller env db_nil cfg names =
     (if db_nil then Inl (Sent ErrPgConfig)
      else bind_result (resolve_settings env cfg) (\<lambda>s.
           bind_result (build_queries names) (\<lambda>q.
             Inr (\<lparr>pset = s, pstate = StateIdle, handlers = [], poll_names = [], slots = 0\<rparr>, q))))"

definition add_handler :: "string \<Rightarrow> (pg_timer \<Rightarrow> unit ret) option \<Rightarrow> poller \<Rightarrow> goerr option \<times> poller" where
  "add_handler name h p =
     (case h of
        None \<Rightarrow> (Some (Sent ErrPgConfig), p)
      | Some f \<Rightarrow>
          if name = '''' then (Some (Sent ErrPgConfig), p)
          else if pstate p \<noteq> StateIdle then (Some (Sent ErrPgStarted), p)
          else if map_of (handlers p) name \<noteq> None then (Some (Sent ErrPgDuplicateHandler), p)
          else (None, p\<lparr>handlers := handlers p @ [(name, f)]\<rparr>))"

definition start_poller :: "poller \<Rightarrow> goerr option \<times> poller" where
  "start_poller p =
     (if pstate p \<noteq> StateIdle then (Some (Sent ErrPgStarted), p)
      else if handlers p = [] then (Some (Sent ErrPgNoHandlers), p)
      else (None, p\<lparr>poll_names := sort (map fst (handlers p)), pstate := StateRunning\<rparr>))"

definition stop_poller :: "poller \<Rightarrow> bool \<times> poller" where
  "stop_poller p = (pstate p = StateRunning, p\<lparr>pstate := StateStopped\<rparr>)"

text \<open>
  \<open>reserve\<close> once a slot is free: it takes slots up to the batch, without waiting, and stops at
  the first that is not free; \<open>free_at\<close> are the free slots at each attempt, as other
  goroutines may release theirs meanwhile.
\<close>

fun reserve_more :: "nat \<Rightarrow> int \<Rightarrow> (nat \<Rightarrow> bool) \<Rightarrow> nat \<Rightarrow> nat" where
  "reserve_more 0 n free reserved = reserved"
| "reserve_more (Suc fuel) n free reserved =
     (if int reserved < n then (if free reserved then reserve_more fuel n free (Suc reserved) else reserved)
      else reserved)"

definition reserve :: "bool \<Rightarrow> (nat \<Rightarrow> bool) \<Rightarrow> poller \<Rightarrow> nat \<times> poller" where
  "reserve ctx_done free p =
     (if ctx_done then (0, p)
      else let n = reserve_more (nat (batch (pset p))) (batch (pset p)) free 1
        in (n, p\<lparr>slots := slots p + n\<rparr>))"

definition release_slots :: "nat \<Rightarrow> poller \<Rightarrow> poller" where
  "release_slots n p = p\<lparr>slots := slots p - n\<rparr>"

definition call_handler :: "(pg_timer \<Rightarrow> unit ret) \<Rightarrow> pg_timer \<Rightarrow> goerr option" where
  "call_handler h t =
     (case h t of Returned _ \<Rightarrow> None | Failed err \<Rightarrow> Some err | Panicked \<Rightarrow> Some (Sent ErrPgHandlerPanic))"

text \<open>What the database says of a statement: done, refused, or done but the answer was lost.\<close>

datatype db_reply = Done | Refused goerr | Unheard goerr

definition remove_row :: "db_reply \<Rightarrow> pg_timer \<Rightarrow> pg_row list \<Rightarrow> (bool \<times> goerr option) \<times> pg_row list" where
  "remove_row reply t rows =
     (let (n, rows') = remove_statement t rows in
      case reply of
        Done \<Rightarrow> ((n > 0, None), rows')
      | Refused err \<Rightarrow> ((False, Some err), rows)
      | Unheard err \<Rightarrow> ((False, Some err), rows'))"

record fire_event =
  fe_name :: string
  fe_lag :: duration
  fe_deleted :: bool
  fe_err :: "goerr option"

definition fire_timer ::
  "poller \<Rightarrow> db_reply \<Rightarrow> pg_timer \<Rightarrow> pg_row list \<Rightarrow> fire_event \<times> pg_row list" where
  "fire_timer p reply t rows =
     (let h = (case map_of (handlers p) (tm_name t) of None \<Rightarrow> (\<lambda>_. Panicked) | Some f \<Rightarrow> f);
          err = call_handler h t;
          ((deleted, err'), rows') = (case err of
             None \<Rightarrow> remove_row reply t rows
           | Some e \<Rightarrow> ((False, Some e), rows))
      in (\<lparr>fe_name = tm_name t, fe_lag = tm_claimed t - tm_due t, fe_deleted = deleted, fe_err = err'\<rparr>, rows'))"

text \<open>One round of the loop: the timers to dispatch, none when the loop ends.\<close>

definition claim_timers ::
  "poller \<Rightarrow> db_reply \<Rightarrow> (pg_row \<Rightarrow> bool) \<Rightarrow> nat \<Rightarrow> int \<Rightarrow> pg_row list \<Rightarrow> (goerr option \<times> pg_timer list) \<times> pg_row list" where
  "claim_timers p reply locked limit now rows =
     (let (ts, rows') = claim_statement (pset p) (poll_names p) locked limit now rows in
      case reply of
        Done \<Rightarrow> ((None, ts), rows')
      | Refused err \<Rightarrow> ((Some err, []), rows)
      | Unheard err \<Rightarrow> ((Some err, []), rows'))"

definition poll_round ::
  "bool \<Rightarrow> (nat \<Rightarrow> bool) \<Rightarrow> db_reply \<Rightarrow> (pg_row \<Rightarrow> bool) \<Rightarrow> int \<Rightarrow> poller \<Rightarrow> pg_row list
     \<Rightarrow> pg_timer list option \<times> poller \<times> pg_row list" where
  "poll_round ctx_done free reply locked now p rows =
     (let (n, p1) = reserve ctx_done free p in
      if n = 0 then (None, p1, rows)
      else let ((err, ts), rows') = claim_timers p1 reply locked n now rows;
               p2 = release_slots (n - length ts) p1
        in (Some ts, p2, rows'))"


section \<open>Settings that keep a handler within its lease\<close>

lemma validate_settingsD:
  "validate_settings s = None \<Longrightarrow> 0 < lease s \<and> 0 < handler_timeout s \<and> handler_timeout s \<le> lease s div 2 \<and>
     1 \<le> batch s \<and> batch s \<le> limit_batch \<and> 1 \<le> concurrency s \<and> concurrency s \<le> limit_concurrency \<and> 0 < poll s"
  by (auto simp: validate_settings_def go_div_nonneg split: if_splits)

lemma resolve_settingsD: "resolve_settings env cfg = Inr s \<Longrightarrow> validate_settings s = None"
  by (auto simp: resolve_settings_def bind_result_Inr Let_def split: option.splits)

lemma lease_ms_nonneg: "validate_settings s = None \<Longrightarrow> 0 \<le> lease_ms s"
  by (auto simp: lease_ms_def go_div_nonneg dest: validate_settingsD)

lemma handler_ends_before_lease:
  assumes "validate_settings s = None" "4 * millisecond \<le> lease s"
  shows "handler_timeout s + remove_timeout s < lease_ms s * millisecond"
proof -
  have "handler_timeout s \<le> lease s div 2" using validate_settingsD [OF assms(1)] by simp
  moreover have "remove_timeout s \<le> lease s div 4" using assms(2) by (simp add: remove_timeout_def go_div_nonneg)
  moreover have "lease s < lease_ms s * millisecond + millisecond"
    using assms(2) by (simp add: lease_ms_def go_div_nonneg)
  moreover have "2 * (lease s div 2) \<le> lease s" "4 * (lease s div 4) \<le> lease s" by presburger+
  ultimately show ?thesis using assms(2) by linarith
qed

text \<open>A lease below a millisecond is accepted, and leases nothing: the row stays due.\<close>

lemma short_lease_refires:
  assumes "lease s = 900000" "handler_timeout s = 450000" "0 < poll s" "batch s = 1" "concurrency s = 1"
  shows "validate_settings s = None \<and> lease_end s now = now"
  using assms by (simp add: validate_settings_def go_div_nonneg limit_batch_def limit_concurrency_def
      lease_end_def lease_ms_def)

section \<open>Pollers on one table\<close>

text \<open>
  Several pollers with the same settings share a table. \<open>running\<close> are the timers whose handler
  runs, \<open>leaving\<close> those whose handler returned without error and whose row is still to be
  deleted, \<open>succeeded\<close> all that ever did; \<open>claim_log\<close> has every claim of a row with its time.
\<close>

record pg_world =
  wrows :: "pg_row list"
  wnow :: int
  running :: "pg_timer list"
  leaving :: "pg_timer list"
  succeeded :: "pg_timer list"
  claim_log :: "(nat \<times> int) list"

definition claim_entries :: "db_reply \<Rightarrow> pg_timer list \<Rightarrow> (nat \<times> int) list" where
  "claim_entries reply ts = (case reply of Refused _ \<Rightarrow> [] | _ \<Rightarrow> map (\<lambda>t. (tm_row t, tm_claimed t)) ts)"

inductive pg_step :: "settings \<Rightarrow> pg_world \<Rightarrow> pg_world \<Rightarrow> bool" for s where
  time_passes: "wnow w \<le> t \<Longrightarrow> pg_step s w (w\<lparr>wnow := t\<rparr>)"
| inserts: "row_id r \<notin> row_id ` set (wrows w) \<Longrightarrow> row_id r \<notin> fst ` set (claim_log w) \<Longrightarrow>
    pg_step s w (w\<lparr>wrows := wrows w @ [r]\<rparr>)"
| claims: "pset p = s \<Longrightarrow> claim_timers p reply locked limit (wnow w) (wrows w) = ((err, ts), rows) \<Longrightarrow>
    pg_step s w (w\<lparr>wrows := rows, running := running w @ ts,
      claim_log := claim_log w @ claim_entries reply
        (fst (claim_statement s (poll_names p) locked limit (wnow w) (wrows w)))\<rparr>)"
| succeeds: "running w = before @ t # later \<Longrightarrow> call_handler h t = None \<Longrightarrow>
    pg_step s w (w\<lparr>running := before @ later, leaving := leaving w @ [t], succeeded := succeeded w @ [t]\<rparr>)"
| fails: "running w = before @ t # later \<Longrightarrow> call_handler h t \<noteq> None \<Longrightarrow>
    pg_step s w (w\<lparr>running := before @ later\<rparr>)"
| removes: "leaving w = before @ t # later \<Longrightarrow> remove_row reply t (wrows w) = (res, rows) \<Longrightarrow>
    pg_step s w (w\<lparr>wrows := rows, leaving := before @ later\<rparr>)"

text \<open>The service moves a timer to another time.\<close>

inductive owner_step :: "pg_world \<Rightarrow> pg_world \<Rightarrow> bool" where
  reschedules: "owner_step w (w\<lparr>wrows := map (\<lambda>r. if row_id r = i then r\<lparr>pdue := d\<rparr> else r) (wrows w)\<rparr>)"

definition same_timer :: "pg_row \<Rightarrow> pg_row \<Rightarrow> bool" where
  "same_timer r r' \<longleftrightarrow> row_id r = row_id r' \<and> pkey r = pkey r' \<and> pname r = pname r' \<and> pattempt r = pattempt r'"

definition timer_of :: "pg_timer \<Rightarrow> pg_row \<Rightarrow> bool" where
  "timer_of t r \<longleftrightarrow> tm_key t = pkey r \<and> tm_name t = pname r \<and> tm_attempt t = pattempt r"

text \<open>A row is still in the table, or a handler of its timer returned without an error.\<close>

definition kept_or_done :: "pg_row \<Rightarrow> pg_world \<Rightarrow> bool" where
  "kept_or_done r w \<longleftrightarrow> (\<exists>r' \<in> set (wrows w). same_timer r r') \<or> (\<exists>t \<in> set (succeeded w). timer_of t r)"

lemma remove_row_rows:
  assumes "remove_row reply t rows = (res, rows')" "r \<in> set rows"
  shows "r \<in> set rows' \<or> timer_of t r \<and> pdue r = tm_lease_due t"
  using assms by (auto simp: remove_row_def remove_statement_def timer_of_def Let_def split: db_reply.splits)

lemma claim_timers_rows:
  assumes "claim_timers p reply locked limit now rows = ((err, ts), rows')" "r \<in> set rows"
  shows "\<exists>r' \<in> set rows'. same_timer r r'"
proof -
  let ?f = "\<lambda>r. if row_id r \<in> row_id ` set (due_rows (poll_names p) locked limit now rows)
    then r\<lparr>pdue := lease_end (pset p) now\<rparr> else r"
  have "rows' = rows \<or> rows' = map ?f rows"
    using assms(1) by (auto simp: claim_timers_def claim_statement_def Let_def split: db_reply.splits)
  then show ?thesis
  proof
    assume "rows' = rows"
    then show ?thesis using assms(2) by (intro bexI [of _ r]) (simp_all add: same_timer_def)
  next
    assume "rows' = map ?f rows"
    then have "set rows' = ?f ` set rows" by simp
    moreover have "?f r \<in> ?f ` set rows" using assms(2) by (rule imageI)
    ultimately have "?f r \<in> set rows'" by simp
    then show ?thesis by (rule bexI [rotated]) (simp add: same_timer_def)
  qed
qed

definition leaving_succeeded :: "pg_world \<Rightarrow> bool" where
  "leaving_succeeded w \<longleftrightarrow> set (leaving w) \<subseteq> set (succeeded w)"

lemma same_timer_trans: "same_timer a b \<Longrightarrow> same_timer b c \<Longrightarrow> same_timer a c"
  by (simp add: same_timer_def)

lemma timer_of_same: "timer_of t b \<Longrightarrow> same_timer a b \<Longrightarrow> timer_of t a"
  by (simp add: timer_of_def same_timer_def)

lemma pg_step_keeps:
  assumes "pg_step s w w'" "leaving_succeeded w" "kept_or_done r w"
  shows "leaving_succeeded w' \<and> kept_or_done r w'"
  using assms(1)
proof (cases rule: pg_step.cases)
  case (claims p reply locked limit err ts rows)
  have "\<exists>r'' \<in> set rows. same_timer r r''" if "r' \<in> set (wrows w)" "same_timer r r'" for r'
    using claim_timers_rows [OF claims(3) that(1)] same_timer_trans [OF that(2)] by blast
  then show ?thesis using claims(1) assms(2,3) by (auto simp: leaving_succeeded_def kept_or_done_def)
next
  case (removes before t later reply res rows)
  have "t \<in> set (succeeded w)" using removes(2) assms(2) by (auto simp: leaving_succeeded_def)
  moreover have "r' \<in> set rows \<or> timer_of t r" if "r' \<in> set (wrows w)" "same_timer r r'" for r'
    using remove_row_rows [OF removes(3) that(1)] timer_of_same that(2) by blast
  ultimately show ?thesis using removes(1,2) assms(2,3) by (auto simp: leaving_succeeded_def kept_or_done_def)
qed (use assms(2,3) in \<open>auto simp: leaving_succeeded_def kept_or_done_def\<close>)

lemma owner_step_keeps:
  assumes "owner_step w w'" "leaving_succeeded w" "kept_or_done r w"
  shows "leaving_succeeded w' \<and> kept_or_done r w'"
  using assms(1)
proof (cases rule: owner_step.cases)
  case (reschedules i d)
  let ?f = "\<lambda>r. if row_id r = i then r\<lparr>pdue := d\<rparr> else r"
  have "\<exists>r'' \<in> set (wrows w'). same_timer r r''" if "r' \<in> set (wrows w)" "same_timer r r'" for r'
  proof -
    have "?f r' \<in> ?f ` set (wrows w)" using that(1) by (rule imageI)
    then have "?f r' \<in> set (wrows w')" using reschedules by simp
    then show ?thesis by (rule bexI [rotated]) (use that(2) in \<open>simp add: same_timer_def\<close>)
  qed
  then show ?thesis using reschedules assms(2,3) by (auto simp: leaving_succeeded_def kept_or_done_def)
qed

definition claim_gaps :: "int \<Rightarrow> (nat \<times> int) list \<Rightarrow> bool" where
  "claim_gaps gap l \<longleftrightarrow> sorted_wrt (\<lambda>(i, c) (j, d). i = j \<longrightarrow> c + gap \<le> d) l"

text \<open>Every claimed row still in the table is due no sooner than the end of its leases.\<close>

definition lease_inv :: "int \<Rightarrow> pg_world \<Rightarrow> bool" where
  "lease_inv gap w \<longleftrightarrow> distinct (map row_id (wrows w)) \<and> claim_gaps gap (claim_log w) \<and>
     (\<forall>(i, c) \<in> set (claim_log w). \<forall>r \<in> set (wrows w). row_id r = i \<longrightarrow> c + gap \<le> pdue r)"

lemma due_rows_set:
  "r \<in> set (due_rows ns locked limit now rows) \<Longrightarrow> r \<in> set rows \<and> pdue r \<le> now \<and> pname r \<in> set ns \<and> \<not> locked r"
  by (auto simp: due_rows_def dest!: in_set_takeD)

lemma due_rows_distinct:
  assumes "distinct (map row_id rows)"
  shows "distinct (map row_id (due_rows ns locked limit now rows))"
proof -
  let ?l = "sort_key pdue (sort_key pcreated (filter (\<lambda>r. pdue r \<le> now \<and> pname r \<in> set ns) rows))"
  have "mset (map row_id ?l) = mset (map row_id (filter (\<lambda>r. pdue r \<le> now \<and> pname r \<in> set ns) rows))"
    by (simp only: mset_map mset_sort)
  from mset_eq_imp_distinct_iff [OF this] have "distinct (map row_id ?l)"
    using assms by (simp add: distinct_map_filter)
  then show ?thesis unfolding due_rows_def take_map [symmetric]
    by (intro distinct_take) (simp add: distinct_map_filter)
qed

lemma claim_step_lease:
  assumes "lease_inv gap w" "gap = lease_ms s * millisecond" "0 \<le> gap"
    and "claim_timers p reply locked limit (wnow w) (wrows w) = ((err, ts), rows)" "pset p = s"
    and "claim_statement s (poll_names p) locked limit (wnow w) (wrows w) = (ts', rows')"
  shows "lease_inv gap (w\<lparr>wrows := rows, running := run, claim_log := claim_log w @ claim_entries reply ts'\<rparr>)"
proof (cases "\<exists>e. reply = Refused e")
  case True
  then show ?thesis using assms by (auto simp: claim_timers_def claim_entries_def lease_inv_def)
next
  case False
  let ?due = "due_rows (poll_names p) locked limit (wnow w) (wrows w)"
  let ?f = "\<lambda>r. if row_id r \<in> row_id ` set ?due then r\<lparr>pdue := lease_end s (wnow w)\<rparr> else r"
  have rows: "rows = map ?f (wrows w)" and entries: "claim_entries reply ts' = map (\<lambda>r. (row_id r, wnow w)) ?due"
    using assms(4-6) False
    by (auto simp: claim_timers_def claim_statement_def claim_entries_def Let_def split: db_reply.splits)
  note inv = assms(1) [unfolded lease_inv_def]
  have ids: "map row_id rows = map row_id (wrows w)" unfolding rows by (simp add: comp_def if_distrib cong: if_cong)
  have new: "claim_gaps gap (map (\<lambda>r. (row_id r, wnow w)) ?due)"
  proof -
    have "distinct (map row_id ?due)" using due_rows_distinct inv by blast
    then show ?thesis
      by (auto simp: claim_gaps_def sorted_wrt_iff_nth_less nth_eq_iff_index_eq distinct_conv_nth)
  qed
  have across: "c + gap \<le> wnow w" if "(i, c) \<in> set (claim_log w)" "r \<in> set ?due" "row_id r = i" for i c r
    using inv that due_rows_set [OF that(2)] by fastforce
  have "claim_gaps gap (claim_log w @ claim_entries reply ts')"
    using inv new across unfolding claim_gaps_def entries sorted_wrt_append by fastforce
  moreover have "c + gap \<le> pdue r" if e: "(i, c) \<in> set (claim_log w @ claim_entries reply ts')"
      "r \<in> set rows" "row_id r = i" for i c r
  proof -
    obtain r0 where r0: "r0 \<in> set (wrows w)" "r = ?f r0" using e(2) rows by auto
    have old: "c + gap \<le> pdue r0" if "(i, c) \<in> set (claim_log w)" using inv that r0 e(3) by fastforce
    show ?thesis
    proof (cases "row_id r0 \<in> row_id ` set ?due")
      case True
      then obtain r1 where r1: "r1 \<in> set ?due" "row_id r1 = i" using r0 e(3) by auto
      have "c + gap \<le> wnow w \<or> c = wnow w" using e(1) across [OF _ r1] entries by auto
      then show ?thesis using True r0 assms(2,3) by (auto simp: lease_end_def)
    next
      case False
      then have "(i, c) \<in> set (claim_log w)" using e(1,3) r0 entries by (auto simp: image_iff)
      then show ?thesis using old False r0 by simp
    qed
  qed
  ultimately show ?thesis using inv ids unfolding lease_inv_def by auto
qed

lemma pg_step_lease:
  assumes "pg_step s w w'" "lease_inv (lease_ms s * millisecond) w" "0 \<le> lease_ms s"
  shows "lease_inv (lease_ms s * millisecond) w'"
  using assms(1)
proof (cases rule: pg_step.cases)
  case (inserts r)
  then show ?thesis using assms(2) unfolding lease_inv_def by (auto simp: rev_image_eqI)
next
  case (claims p reply locked limit err ts rows)
  obtain ts' rows' where st: "claim_statement s (poll_names p) locked limit (wnow w) (wrows w) = (ts', rows')"
    by fastforce
  show ?thesis unfolding claims(1) st fst_conv
    by (rule claim_step_lease [OF assms(2) HOL.refl _ claims(3,2) st]) (use assms(3) in simp)
next
  case (removes before t later reply res rows)
  have "set rows \<subseteq> set (wrows w) \<and> distinct (map row_id rows)"
    using removes(3) assms(2)
    by (auto simp: remove_row_def remove_statement_def lease_inv_def distinct_map_filter Let_def split: db_reply.splits)
  then have sub: "r \<in> set (wrows w)" if "r \<in> set rows" for r using that by blast
  show ?thesis using removes(1) assms(2) sub \<open>_ \<and> distinct (map row_id rows)\<close> unfolding lease_inv_def by fastforce
qed (use assms(2) in \<open>auto simp: lease_inv_def\<close>)

section \<open>Properties\<close>



section \<open>A table\<close>

definition demo_settings :: settings where
  "demo_settings = \<lparr>lease = minute, handler_timeout = 30 * second, poll = second, batch = 100, concurrency = 8\<rparr>"

definition demo_poller :: poller where
  "demo_poller = \<lparr>pset = demo_settings, pstate = StateRunning, handlers = [], poll_names = [''n''], slots = 0\<rparr>"

definition demo_due :: "int \<Rightarrow> pg_row" where
  "demo_due d = \<lparr>row_id = 0, pkey = ''k'', pname = ''n'', pattempt = ''1'', pdue = d, pcreated = 0\<rparr>"

definition demo_claim :: "int \<Rightarrow> int \<Rightarrow> pg_timer" where
  "demo_claim d now = \<lparr>tm_row = 0, tm_key = ''k'', tm_name = ''n'', tm_attempt = ''1'', tm_due = d,
     tm_lease_due = now + minute, tm_claimed = now\<rparr>"

definition demo_pg :: pg_world where
  "demo_pg = \<lparr>wrows = [demo_due 0], wnow = 0, running = [], leaving = [], succeeded = [], claim_log = []\<rparr>"

lemma demo_settings_resolved:
  "resolve_settings \<lparr>env_lookup = Map.empty, parse_duration = Map.empty\<rparr>
     \<lparr>cLease = 0, cHandlerTimeout = 0, cPoll = 0, cBatch = 0, cConcurrency = 0\<rparr> = Inr demo_settings"
  by (simp add: resolve_settings_def resolve_duration_def resolve_int_def getenv_def default_lease_def
      default_handler_timeout_def default_poll_def default_batch_def default_concurrency_def
      validate_settings_def go_div_nonneg limit_batch_def limit_concurrency_def demo_settings_def)

lemma three_steps: "r a b \<Longrightarrow> r b c \<Longrightarrow> r c d \<Longrightarrow> r\<^sup>*\<^sup>* a d"
  by (blast intro: converse_rtranclp_into_rtranclp)

lemma demo_claim_statement:
  "d \<le> now \<Longrightarrow> claim_statement demo_settings [''n''] (\<lambda>_. False) (Suc 0) now [demo_due d] =
     ([demo_claim d now], [demo_due (now + minute)])"
  by (simp add: claim_statement_def due_rows_def demo_due_def demo_claim_def lease_end_def lease_ms_def
      demo_settings_def go_div_nonneg)

lemma demo_claims:
  assumes "wrows w = [demo_due d]" "d \<le> wnow w"
  shows "pg_step demo_settings w (w\<lparr>wrows := [demo_due (wnow w + minute)], running := running w @ [demo_claim d (wnow w)],
    claim_log := claim_log w @ [(0, wnow w)]\<rparr>)"
proof -
  have "claim_timers demo_poller Done (\<lambda>_. False) (Suc 0) (wnow w) (wrows w) =
      ((None, [demo_claim d (wnow w)]), [demo_due (wnow w + minute)])"
    using assms by (simp add: claim_timers_def demo_poller_def demo_claim_statement)
  from pg_step.claims [OF _ this, of demo_settings] show ?thesis
    using assms by (simp add: demo_poller_def demo_claim_statement claim_entries_def demo_claim_def)
qed



text \<open>The slots never exceed the concurrency, and a reservation is at least one slot and at most a batch.\<close>

lemma reserve_more_bounds:
  "int reserved \<le> n \<Longrightarrow> int (reserve_more fuel n free reserved) \<le> n \<and> reserved \<le> reserve_more fuel n free reserved"
  by (induction fuel n free reserved rule: reserve_more.induct) (auto, linarith?)

lemma reserve_more_free:
  "reserved < reserve_more fuel n free reserved \<Longrightarrow> free (reserve_more fuel n free reserved - 1)"
proof (induction fuel n free reserved rule: reserve_more.induct)
  case (2 fuel n free reserved)
  have "reserve_more fuel n free (Suc reserved) = Suc reserved \<or> Suc reserved < reserve_more fuel n free (Suc reserved)"
    if "int reserved < n"
    using reserve_more_bounds [of "Suc reserved" n fuel free] that by linarith
  then show ?case using 2 by (auto split: if_splits)
qed simp

lemma reserve_within:
  assumes "reserve False free p = (n, p')" "1 \<le> batch (pset p)" "int (slots p) < concurrency (pset p)"
    and "\<And>k. free k \<Longrightarrow> int (slots p + k) < concurrency (pset p)"
  shows "1 \<le> n \<and> int n \<le> batch (pset p) \<and> int (slots p') \<le> concurrency (pset p)"
proof -
  have n: "n = reserve_more (nat (batch (pset p))) (batch (pset p)) free 1" "slots p' = slots p + n"
    using assms(1) by (auto simp: reserve_def Let_def)
  have b: "int n \<le> batch (pset p) \<and> 1 \<le> n"
    using reserve_more_bounds [of 1 "batch (pset p)" "nat (batch (pset p))" free] assms(2) n by simp
  have "int (slots p') \<le> concurrency (pset p)"
  proof (cases "n = 1")
    case True
    then show ?thesis using assms(3) n by simp
  next
    case False
    then have "free (n - 1)" using reserve_more_free [of 1 _ _ free] b n(1) by auto
    from assms(4) [OF this] show ?thesis using n(2) b by linarith
  qed
  then show ?thesis using b by simp
qed

end
