(* ===== verification/Replay.thy ===== *)
theory Replay imports Outbox_Frames Go_Numbers "HOL-Library.AList" begin

text \<open>
  Replaying a snapshot (\<^verbatim>\<open>pkg/replay\<close>): the items of a source are published one by one
  to a subject, followed by an end marker with their count and the outcome. The server, the context and
  the source are parameters: a world counts ticks, and an environment says what each tick brings.
\<close>

section \<open>Requests and items\<close>

abbreviation ErrInvalidRequest :: sentinel where "ErrInvalidRequest \<equiv> Sentinel ''replay.ErrInvalidRequest''"
abbreviation ErrInvalidItem :: sentinel where "ErrInvalidItem \<equiv> Sentinel ''replay.ErrInvalidItem''"
abbreviation ErrNotReplay :: sentinel where "ErrNotReplay \<equiv> Sentinel ''replay.ErrNotReplay''"
abbreviation ErrStreamUnsuitable :: sentinel where "ErrStreamUnsuitable \<equiv> Sentinel ''replay.ErrStreamUnsuitable''"
abbreviation ErrPayloadTooLarge :: sentinel where "ErrPayloadTooLarge \<equiv> Sentinel ''replay.ErrPayloadTooLarge''"
abbreviation ErrStreamNotFound :: sentinel where "ErrStreamNotFound \<equiv> Sentinel ''jetstream.ErrStreamNotFound''"
abbreviation errMarkerFailed :: sentinel where "errMarkerFailed \<equiv> Sentinel ''replay: end marker not published''"

definition HeaderReplayID :: string where "HeaderReplayID = ''X-Replay-Id''"
definition HeaderSeq :: string where "HeaderSeq = ''X-Replay-Seq''"
definition HeaderEnd :: string where "HeaderEnd = ''X-Replay-End''"
definition HeaderReplayCount :: string where "HeaderReplayCount = ''X-Replay-Count''"
definition HeaderStatus :: string where "HeaderStatus = ''X-Replay-Status''"
definition HeaderError :: string where "HeaderError = ''X-Replay-Error''"
definition StatusComplete :: string where "StatusComplete = ''complete''"
definition StatusFailed :: string where "StatusFailed = ''failed''"
definition max_replay_id_len :: nat where "max_replay_id_len = 64"
definition max_error_len :: nat where "max_error_len = 256"
definition end_true :: string where "end_true = ''true''"

lemmas replay_headers = HeaderReplayID_def HeaderSeq_def HeaderEnd_def HeaderReplayCount_def HeaderStatus_def
  HeaderError_def MsgIDHeader_def

record replay_config =
  RatePerSecond :: int
  PublishAttempts :: int
  RetryDelay :: duration
  FinalizeTimeout :: duration

definition default_replay_config :: replay_config where
  "default_replay_config = \<lparr>RatePerSecond = 200, PublishAttempts = 5, RetryDelay = second, FinalizeTimeout = 5 * second\<rparr>"

definition validate_replay_config :: "replay_config \<Rightarrow> goerr option" where
  "validate_replay_config c =
     (if RatePerSecond c \<le> 0 then Some (Foreign ''replay: RatePerSecond must be positive'')
      else if PublishAttempts c \<le> 0 then Some (Foreign ''replay: PublishAttempts must be positive'')
      else if RetryDelay c \<le> 0 then Some (Foreign ''replay: RetryDelay must be positive'')
      else if FinalizeTimeout c \<le> 0 then Some (Foreign ''replay: FinalizeTimeout must be positive'')
      else None)"

text \<open>The headers of a map, by name; only the value of each name matters.\<close>

record item =
  itKey :: string
  itVersion :: string
  itPayload :: string
  itHeaders :: "(string \<times> string) list"

record request =
  rqID :: string
  rqSubject :: string
  rqEndPayload :: string

definition is_id_char :: "char \<Rightarrow> bool" where
  "is_id_char c \<longleftrightarrow> lower_letter c \<or> upper_letter c \<or>
     CHR ''0'' \<le> c \<and> c \<le> CHR ''9'' \<or> c = CHR ''_'' \<or> c = CHR ''-''"

definition validate_request :: "request \<Rightarrow> goerr option" where
  "validate_request r =
     (if rqID r = '''' \<or> length (rqID r) > max_replay_id_len then Some (Sent ErrInvalidRequest)
      else if list_ex (\<lambda>c. \<not> is_id_char c) (rqID r) then Some (Sent ErrInvalidRequest)
      else if rqSubject r = '''' then Some (Sent ErrInvalidRequest)
      else if contains_any (rqSubject r) (''*> '' @ [CHR 0x09, CHR 0x0d, CHR 0x0a]) then Some (Sent ErrInvalidRequest)
      else if list_ex (\<lambda>tok. tok = '''') (split_at CHR ''.'' (rqSubject r)) then Some (Sent ErrInvalidRequest)
      else None)"

definition reserved_header :: "string \<Rightarrow> bool" where
  "reserved_header name =
     (let lower = map to_lower name in has_prefix lower ''nats-'' \<or> has_prefix lower ''x-replay-'')"

definition validate_item :: "item \<Rightarrow> goerr option" where
  "validate_item i =
     (if itKey i = '''' then Some (Sent ErrInvalidItem)
      else if itVersion i = '''' then Some (Sent ErrInvalidItem)
      else if list_ex (\<lambda>(name, _). reserved_header name) (itHeaders i) then Some (Sent ErrInvalidItem)
      else None)"

section \<open>Messages\<close>

record replay_msg =
  rmSubject :: string
  rmData :: string
  rmHeaders :: "(string \<times> string) list"

definition set_headers :: "(string \<times> string) list \<Rightarrow> (string \<times> string) list \<Rightarrow> (string \<times> string) list" where
  "set_headers kvs h = fold (\<lambda>(k, v). AList.update k v) kvs h"

definition build_snapshot :: "request \<Rightarrow> item \<Rightarrow> nat \<Rightarrow> replay_msg" where
  "build_snapshot req it seq =
     \<lparr>rmSubject = rqSubject req, rmData = itPayload it,
      rmHeaders = set_headers
        [(HeaderReplayID, rqID req), (HeaderSeq, itoa seq),
         (MsgIDHeader, rqID req @ '':'' @ itKey it @ '':'' @ itVersion it)]
        (set_headers (itHeaders it) [])\<rparr>"

text \<open>The number of bytes of the first rune of valid UTF-8, 0 when it is not valid.\<close>

definition byte_at :: "string \<Rightarrow> nat \<Rightarrow> nat" where
  "byte_at s i = (if i < length s then of_char (s ! i) else 0)"

fun utf8_cont :: "nat \<Rightarrow> string \<Rightarrow> bool" where
  "utf8_cont 0 cs = True"
| "utf8_cont (Suc n) [] = False"
| "utf8_cont (Suc n) (c # cs) \<longleftrightarrow> byte_at (c # cs) 0 div 64 = 2 \<and> utf8_cont n cs"

definition utf8_rune :: "string \<Rightarrow> nat" where
  "utf8_rune s =
     (case s of
        [] \<Rightarrow> 0
      | c # cs \<Rightarrow>
          let b = byte_at (c # cs) 0; b2 = byte_at (c # cs) 1
          in if b < 0x80 then 1
             else if 0xC2 \<le> b \<and> b \<le> 0xDF \<and> utf8_cont 1 cs then 2
             else if 0xE0 \<le> b \<and> b \<le> 0xEF \<and> utf8_cont 2 cs \<and>
                     (b = 0xE0 \<longrightarrow> 0xA0 \<le> b2) \<and> (b = 0xED \<longrightarrow> b2 \<le> 0x9F) then 3
             else if 0xF0 \<le> b \<and> b \<le> 0xF4 \<and> utf8_cont 3 cs \<and>
                     (b = 0xF0 \<longrightarrow> 0x90 \<le> b2) \<and> (b = 0xF4 \<longrightarrow> b2 \<le> 0x8F) then 4
             else 0)"

text \<open>\<^verbatim>\<open>strings.ToValidUTF8(s, "")\<close>: \<open>keep\<close> counts the bytes left of the current rune.\<close>

fun valid_utf8_from :: "nat \<Rightarrow> string \<Rightarrow> string" where
  "valid_utf8_from keep [] = []"
| "valid_utf8_from (Suc keep) (c # cs) = c # valid_utf8_from keep cs"
| "valid_utf8_from 0 (c # cs) =
     (case utf8_rune (c # cs) of 0 \<Rightarrow> valid_utf8_from 0 cs | Suc n \<Rightarrow> c # valid_utf8_from n cs)"

definition sanitize_error :: "string \<Rightarrow> string" where
  "sanitize_error s =
     (let t = map (\<lambda>c. if c = CHR 0x0d \<or> c = CHR 0x0a then CHR '' '' else c) s
      in if length t > max_error_len then valid_utf8_from 0 (take max_error_len t) else t)"

record replay_result =
  rPublished :: nat
  rDuplicates :: nat
  rStatus :: string

definition end_marker :: "request \<Rightarrow> replay_result \<Rightarrow> string \<Rightarrow> string \<Rightarrow> replay_msg" where
  "end_marker req res status cause =
     (let h = set_headers
        [(HeaderReplayID, rqID req), (HeaderEnd, end_true), (HeaderReplayCount, itoa (rPublished res + rDuplicates res)),
         (HeaderStatus, status), (MsgIDHeader, rqID req @ '':end:'' @ status)] []
      in \<lparr>rmSubject = rqSubject req, rmData = rqEndPayload req,
          rmHeaders = (if status = StatusFailed then set_headers [(HeaderError, sanitize_error cause)] h else h)\<rparr>)"

definition check_size :: "int \<Rightarrow> replay_msg \<Rightarrow> goerr option" where
  "check_size limit msg =
     (if limit \<le> 0 then None
      else let size = length (rmSubject msg) + length (rmData msg);
               size' = (if length (rmHeaders msg) > 0
                 then size + 12 + (\<Sum>(k, v) \<leftarrow> rmHeaders msg. length k + 2 + length v + 2) else size)
        in if int size' > limit then Some (Sent ErrPayloadTooLarge) else None)"

section \<open>Reading\<close>

record meta =
  mReplayID :: string
  mSeq :: int
  mEnd :: bool
  mCount :: int
  mStatus :: string
  mError :: string

definition parse_count :: "string \<Rightarrow> goerr + int" where
  "parse_count v =
     (if v = '''' then Inr 0
      else case parse_int v of
        None \<Rightarrow> Inl (Foreign ''replay: invalid number'')
      | Some n \<Rightarrow> if n < 0 then Inl (Foreign ''replay: invalid number'') else Inr n)"

definition parse_meta :: "header \<Rightarrow> goerr + meta" where
  "parse_meta h =
     (if header_get h HeaderReplayID = '''' then Inl (Sent ErrNotReplay)
      else case parse_count (header_get h HeaderSeq) of
        Inl err \<Rightarrow> Inl err
      | Inr seq \<Rightarrow>
          (case parse_count (header_get h HeaderReplayCount) of
             Inl err \<Rightarrow> Inl err
           | Inr n \<Rightarrow>
               let s = header_get h HeaderStatus in
               if s = '''' \<or> s = StatusComplete \<or> s = StatusFailed
               then Inr \<lparr>mReplayID = header_get h HeaderReplayID, mSeq = seq, mEnd = (header_get h HeaderEnd = end_true),
                         mCount = n, mStatus = s, mError = header_get h HeaderError\<rparr>
               else Inl (Foreign ''replay: unknown status'')))"

section \<open>Publishing\<close>

text \<open>What becomes of a publish call: heard, refused, or done with the answer lost.\<close>

datatype publish_reply = Heard | Denied goerr | Lost goerr

text \<open>
  At each tick: the error of the context, the end of a sleep, the clock, the reply of the server, and
  whether the server has by then forgotten the message ids it has seen (its duplicate window has passed).
  The source is its answers, call by call. \<open>err_text\<close> is \<^verbatim>\<open>err.Error()\<close>.
\<close>

record replay_env =
  ctx_at :: "nat \<Rightarrow> goerr option"
  sleep_at :: "nat \<Rightarrow> goerr option"
  clock_at :: "nat \<Rightarrow> int"
  reply_at :: "nat \<Rightarrow> publish_reply"
  forgets_at :: "nat \<Rightarrow> bool"
  source :: "nat \<Rightarrow> goerr + item list"
  max_payload :: int
  no_streams :: bool
  stream_by_subject :: "goerr + string"
  stream_max_per_subject :: "goerr + int"
  err_text :: "goerr \<Rightarrow> string"

record replay_world =
  tick :: nat
  rstream :: "replay_msg list"

definition tick_on :: "replay_world \<Rightarrow> replay_world" where
  "tick_on w = w\<lparr>tick := Suc (tick w)\<rparr>"

definition msg_id_of :: "replay_msg \<Rightarrow> string option" where
  "msg_id_of m = map_of (rmHeaders m) MsgIDHeader"

definition known_id :: "replay_msg \<Rightarrow> replay_msg list \<Rightarrow> bool" where
  "known_id m ms \<longleftrightarrow> msg_id_of m \<in> set (map msg_id_of ms)"

text \<open>The server stores a message unless it knows its id; the answer says whether it is a duplicate.\<close>

definition publish_msg :: "replay_env \<Rightarrow> replay_msg \<Rightarrow> replay_world \<Rightarrow> (goerr + bool) \<times> replay_world" where
  "publish_msg e m w =
     (let dup = known_id m (rstream w) \<and> \<not> forgets_at e (tick w);
          w1 = tick_on w;
          w2 = (if dup then w1 else w1\<lparr>rstream := rstream w1 @ [m]\<rparr>)
      in case reply_at e (tick w) of
           Heard \<Rightarrow> (Inr dup, w2)
         | Denied err \<Rightarrow> (Inl err, w1)
         | Lost err \<Rightarrow> (Inl err, w2))"

text \<open>
  \<open>publish\<close>, with the attempts left and the last error: \<open>Inr None\<close> is neither an
  acknowledgement nor an error.
\<close>

fun publish_loop ::
  "replay_env \<Rightarrow> replay_msg \<Rightarrow> nat \<Rightarrow> goerr option \<Rightarrow> replay_world \<Rightarrow> (goerr + bool option) \<times> replay_world" where
  "publish_loop e m 0 final w = ((case final of None \<Rightarrow> Inr None | Some err \<Rightarrow> Inl err), w)"
| "publish_loop e m (Suc n) final w =
     (case ctx_at e (tick w) of
        Some err \<Rightarrow> (Inl err, w)
      | None \<Rightarrow>
          (case publish_msg e m (tick_on w) of
             (Inr dup, w1) \<Rightarrow> (Inr (Some dup), w1)
           | (Inl err, w1) \<Rightarrow>
               (case ctx_at e (tick w1) of
                  Some cerr \<Rightarrow> (Inl cerr, w1)
                | None \<Rightarrow>
                    if n = 0 then (Inl err, w1)
                    else (case sleep_at e (tick w1) of
                            Some serr \<Rightarrow> (Inl serr, w1)
                          | None \<Rightarrow> publish_loop e m n (Some err) (tick_on w1)))))"

definition publish ::
  "replay_env \<Rightarrow> replay_config \<Rightarrow> replay_msg \<Rightarrow> replay_world \<Rightarrow> (goerr + bool option) \<times> replay_world" where
  "publish e cfg m w = publish_loop e m (nat (PublishAttempts cfg)) None w"

definition wait_until :: "replay_env \<Rightarrow> int \<Rightarrow> replay_world \<Rightarrow> goerr option \<times> replay_world" where
  "wait_until e t w =
     (if t - clock_at e (tick w) \<le> 0 then (None, w) else (sleep_at e (tick w), tick_on w))"

definition count_ack :: "bool option \<Rightarrow> replay_result \<Rightarrow> replay_result" where
  "count_ack ack res =
     (if ack = Some True then res\<lparr>rDuplicates := rDuplicates res + 1\<rparr> else res\<lparr>rPublished := rPublished res + 1\<rparr>)"

text \<open>The inner loop of \<open>snapshots\<close>: \<open>seq\<close> items were published before.\<close>

fun snapshot_items ::
  "replay_env \<Rightarrow> replay_config \<Rightarrow> request \<Rightarrow> int \<Rightarrow> item list \<Rightarrow> nat \<Rightarrow> replay_result \<Rightarrow> replay_world
     \<Rightarrow> (goerr option \<times> nat \<times> replay_result) \<times> replay_world" where
  "snapshot_items e cfg req start [] seq res w = ((None, seq, res), w)"
| "snapshot_items e cfg req start (it # its) seq res w =
     (case validate_item it of
        Some err \<Rightarrow> ((Some err, seq, res), w)
      | None \<Rightarrow>
          (case wait_until e (start + int seq * go_div second (RatePerSecond cfg)) w of
             (Some err, w1) \<Rightarrow> ((Some err, seq, res), w1)
           | (None, w1) \<Rightarrow>
               (case check_size (max_payload e) (build_snapshot req it (Suc seq)) of
                  Some err \<Rightarrow> ((Some err, Suc seq, res), w1)
                | None \<Rightarrow>
                    (case publish e cfg (build_snapshot req it (Suc seq)) w1 of
                       (Inl err, w2) \<Rightarrow> ((Some err, Suc seq, res), w2)
                     | (Inr ack, w2) \<Rightarrow> snapshot_items e cfg req start its (Suc seq) (count_ack ack res) w2))))"

text \<open>The outer loop: \<open>k\<close> answers of the source were taken before.\<close>

partial_function (option) snapshot_rounds ::
  "replay_env \<Rightarrow> replay_config \<Rightarrow> request \<Rightarrow> int \<Rightarrow> nat \<Rightarrow> nat \<Rightarrow> replay_result \<Rightarrow> replay_world
     \<Rightarrow> ((goerr option \<times> replay_result) \<times> replay_world) option" where
  "snapshot_rounds e cfg req start k seq res w =
     (case ctx_at e (tick w) of
        Some err \<Rightarrow> Some ((Some err, res), w)
      | None \<Rightarrow>
          (case source e k of
             Inl err \<Rightarrow> Some ((Some err, res), tick_on w)
           | Inr items \<Rightarrow>
               if items = [] then Some ((None, res), tick_on w)
               else (case snapshot_items e cfg req start items seq res (tick_on w) of
                       ((Some err, seq', res'), w1) \<Rightarrow> Some ((Some err, res'), w1)
                     | ((None, seq', res'), w1) \<Rightarrow> snapshot_rounds e cfg req start (Suc k) seq' res' w1)))"

definition snapshots ::
  "replay_env \<Rightarrow> replay_config \<Rightarrow> request \<Rightarrow> replay_world \<Rightarrow> ((goerr option \<times> replay_result) \<times> replay_world) option" where
  "snapshots e cfg req w =
     snapshot_rounds e cfg req (clock_at e (tick w)) 0 0 \<lparr>rPublished = 0, rDuplicates = 0, rStatus = ''''\<rparr> w"

definition finish ::
  "replay_env \<Rightarrow> replay_config \<Rightarrow> request \<Rightarrow> replay_result \<Rightarrow> string \<Rightarrow> string \<Rightarrow> replay_world
     \<Rightarrow> goerr option \<times> replay_world" where
  "finish e cfg req res status cause w =
     (case publish e cfg (end_marker req res status cause) w of
        (Inl err, w1) \<Rightarrow> (Some (Wrap (Sent errMarkerFailed) err), w1)
      | (Inr ack, w1) \<Rightarrow> (None, w1))"

definition lookup_error :: "goerr \<Rightarrow> goerr" where
  "lookup_error err =
     (if errors_is err ErrStreamNotFound then Wrap (Sent ErrStreamUnsuitable) err else err)"

definition check_stream :: "replay_env \<Rightarrow> goerr option" where
  "check_stream e =
     (if no_streams e then None
      else case stream_by_subject e of
        Inl err \<Rightarrow> Some (lookup_error err)
      | Inr name \<Rightarrow>
          (case stream_max_per_subject e of
             Inl err \<Rightarrow> Some (lookup_error err)
           | Inr n \<Rightarrow> if n > 0 then Some (Sent ErrStreamUnsuitable) else None))"

definition new_publisher :: "bool \<Rightarrow> replay_config \<Rightarrow> goerr + replay_config" where
  "new_publisher js_nil cfg =
     (if js_nil then Inl (Foreign ''replay: jetstream is nil'')
      else case validate_replay_config cfg of Some err \<Rightarrow> Inl err | None \<Rightarrow> Inr cfg)"

definition no_result :: replay_result where
  "no_result = \<lparr>rPublished = 0, rDuplicates = 0, rStatus = ''''\<rparr>"

text \<open>The end of a run: the marker of a complete one, that of a failed one when it or its marker failed.\<close>

definition conclude ::
  "replay_env \<Rightarrow> replay_config \<Rightarrow> request \<Rightarrow> goerr option \<Rightarrow> replay_result \<Rightarrow> replay_world
     \<Rightarrow> (replay_result \<times> goerr option) \<times> replay_world" where
  "conclude e cfg req err res w =
     (let (err1, w1) = (if err = None then finish e cfg req res StatusComplete '''' w else (err, w)) in
      case err1 of
        None \<Rightarrow> ((res\<lparr>rStatus := StatusComplete\<rparr>, None), w1)
      | Some x \<Rightarrow>
          let res' = res\<lparr>rStatus := StatusFailed\<rparr>;
              (merr, w2) = finish e cfg req res' StatusFailed (err_text e x) w1
          in ((res', Some (case merr of None \<Rightarrow> x | Some y \<Rightarrow> Wrap x y)), w2))"

definition run ::
  "replay_env \<Rightarrow> replay_config \<Rightarrow> request \<Rightarrow> bool \<Rightarrow> replay_world \<Rightarrow> ((replay_result \<times> goerr option) \<times> replay_world) option" where
  "run e cfg req src_nil w =
     (case validate_request req of
        Some err \<Rightarrow> Some ((no_result, Some err), w)
      | None \<Rightarrow>
          if src_nil then Some ((no_result, Some (Sent ErrInvalidRequest)), w)
          else (case check_stream e of
             Some err \<Rightarrow> Some ((no_result, Some err), w)
           | None \<Rightarrow>
               (case snapshots e cfg req w of
                  None \<Rightarrow> None
                | Some ((err, res), w1) \<Rightarrow> Some (conclude e cfg req err res w1))))"


section \<open>What a run adds to the stream\<close>

lemma known_id_append: "known_id m (S @ T) \<longleftrightarrow> known_id m S \<or> known_id m T"
  by (auto simp: known_id_def)

lemma known_id_replicate: "known_id m (replicate c m) \<longleftrightarrow> 0 < c"
  by (auto simp: known_id_def)

lemma known_id_mono: "known_id m S \<Longrightarrow> set S \<subseteq> set T \<Longrightarrow> known_id m T"
  by (auto simp: known_id_def)

lemma tick_on_stream [simp]: "rstream (tick_on w) = rstream w"
  by (simp add: tick_on_def)

definition remembers :: "replay_env \<Rightarrow> bool" where
  "remembers e \<longleftrightarrow> (\<forall>t. \<not> forgets_at e t)"

text \<open>\<open>m\<close> was stored \<open>c\<close> times in at most \<open>n\<close> attempts, after the messages \<open>S\<close>.\<close>

definition stored_times :: "replay_env \<Rightarrow> replay_msg \<Rightarrow> nat \<Rightarrow> replay_msg list \<Rightarrow> nat \<Rightarrow> bool" where
  "stored_times e m n S c \<longleftrightarrow> c \<le> n \<and> (remembers e \<longrightarrow> c \<le> 1 \<and> (known_id m S \<longrightarrow> c = 0))"

lemma publish_msg_effect:
  assumes "publish_msg e m w = (r, w')"
  shows "\<exists>c. stored_times e m 1 (rstream w) c \<and> rstream w' = rstream w @ replicate c m \<and>
    (\<forall>dup. r = Inr dup \<longrightarrow> 0 < c \<or> known_id m (rstream w))"
proof -
  let ?dup = "known_id m (rstream w) \<and> \<not> forgets_at e (tick w)"
  consider "rstream w' = rstream w" "\<And>dup. r = Inr dup \<Longrightarrow> ?dup" | "rstream w' = rstream w @ [m]" "\<not> ?dup"
    using assms by (cases ?dup) (auto simp: publish_msg_def Let_def split: publish_reply.splits)
  then show ?thesis
  proof cases
    case 1
    then show ?thesis by (intro exI [of _ 0]) (auto simp: stored_times_def)
  next
    case 2
    then show ?thesis by (intro exI [of _ 1]) (auto simp: stored_times_def remembers_def)
  qed
qed

lemma stored_times_add:
  assumes "stored_times e m 1 S c" "stored_times e m n (S @ replicate c m) d"
  shows "stored_times e m (Suc n) S (c + d)"
  using assms by (auto simp: stored_times_def known_id_append known_id_replicate)

lemma publish_loop_effect:
  assumes "publish_loop e m n final w = (r, w')"
  shows "\<exists>c. stored_times e m n (rstream w) c \<and> rstream w' = rstream w @ replicate c m \<and>
    (\<forall>ack. r = Inr ack \<longrightarrow> 0 < n \<longrightarrow> 0 < c \<or> known_id m (rstream w))"
  using assms
proof (induction e m n final w arbitrary: r w' rule: publish_loop.induct)
  case (1 e m final w)
  then show ?case by (auto simp: stored_times_def)
next
  case (2 e m n final w)
  show ?case
  proof (cases "ctx_at e (tick w)")
    case (Some err)
    then show ?thesis using 2(2) by (auto simp: stored_times_def)
  next
    case ctx: None
    obtain r1 w1 where p: "publish_msg e m (tick_on w) = (r1, w1)" by fastforce
    from publish_msg_effect [OF this] obtain c where
      c: "stored_times e m 1 (rstream w) c" "rstream w1 = rstream w @ replicate c m"
        "\<And>dup. r1 = Inr dup \<Longrightarrow> 0 < c \<or> known_id m (rstream w)" by auto
    have here: "stored_times e m (Suc n) (rstream w) c" using c(1) by (auto simp: stored_times_def)
    consider dup where "r1 = Inr dup" "w' = w1" | (gives_up) x where "r = Inl x" "w' = w1"
      | (again) err where "r1 = Inl err" "ctx_at e (tick w1) = None" "n \<noteq> 0" "sleep_at e (tick w1) = None"
          "publish_loop e m n (Some err) (tick_on w1) = (r, w')"
      using 2(2) ctx p by (auto split: sum.splits option.splits if_splits)
    then show ?thesis
    proof cases
      case again
      from 2(1) [OF ctx p [symmetric] again(1,2,3,4,5)] obtain d where
        "stored_times e m n (rstream w1) d" "rstream w' = rstream w1 @ replicate d m"
        "\<And>ack. r = Inr ack \<Longrightarrow> 0 < d \<or> known_id m (rstream w1)" using again(3) by auto
      then show ?thesis using stored_times_add [OF c(1), of n d] c(2)
        by (intro exI [of _ "c + d"]) (auto simp: replicate_add known_id_append known_id_replicate)
    qed (use here c in auto)
  qed
qed

lemma publish_effect:
  assumes "publish e cfg m w = (r, w')"
  obtains c where "stored_times e m (nat (PublishAttempts cfg)) (rstream w) c" "rstream w' = rstream w @ replicate c m"
    "\<And>ack. r = Inr ack \<Longrightarrow> 0 < PublishAttempts cfg \<Longrightarrow> known_id m (rstream w')"
proof -
  from publish_loop_effect [OF assms [unfolded publish_def]] obtain c where
    "stored_times e m (nat (PublishAttempts cfg)) (rstream w) c" "rstream w' = rstream w @ replicate c m"
    "\<And>ack. r = Inr ack \<Longrightarrow> 0 < nat (PublishAttempts cfg) \<Longrightarrow> 0 < c \<or> known_id m (rstream w)" by blast
  then show thesis by (intro that [of c]) (auto simp: known_id_append known_id_replicate)
qed

lemma wait_until_stream [simp]: "wait_until e t w = (r, w') \<Longrightarrow> rstream w' = rstream w"
  by (auto simp: wait_until_def split: if_splits)

text \<open>The messages of the first items, each as often as \<open>cs\<close> says.\<close>

fun copies :: "request \<Rightarrow> nat \<Rightarrow> item list \<Rightarrow> nat list \<Rightarrow> replay_msg list" where
  "copies req seq (it # its) (c # cs) = replicate c (build_snapshot req it (Suc seq)) @ copies req (Suc seq) its cs"
| "copies req seq its cs = []"

definition all_known :: "request \<Rightarrow> nat \<Rightarrow> item list \<Rightarrow> replay_msg list \<Rightarrow> bool" where
  "all_known req seq its S \<longleftrightarrow> (\<forall>i < length its. known_id (build_snapshot req (its ! i) (Suc (seq + i))) S)"

lemma all_known_Nil [simp]: "all_known req seq [] S"
  by (simp add: all_known_def)

lemma all_known_Cons: "all_known req seq (it # its) S \<longleftrightarrow>
    known_id (build_snapshot req it (Suc seq)) S \<and> all_known req (Suc seq) its S"
  by (auto simp: all_known_def less_Suc_eq_0_disj)

lemma all_known_append: "all_known req seq (xs @ ys) S \<longleftrightarrow> all_known req seq xs S \<and> all_known req (seq + length xs) ys S"
  by (induction xs arbitrary: seq) (simp_all add: all_known_Cons)

lemma all_known_mono: "all_known req seq its S \<Longrightarrow> set S \<subseteq> set T \<Longrightarrow> all_known req seq its T"
  using known_id_mono by (auto simp: all_known_def)

lemma copies_append:
  "length cs = length xs \<Longrightarrow> copies req seq (xs @ ys) (cs @ ds) = copies req seq xs cs @ copies req (seq + length xs) ys ds"
  by (induction xs cs arbitrary: seq rule: list_induct2') simp_all

lemma copies_in:
  "m \<in> set (copies req seq its cs) \<Longrightarrow> \<exists>it n. it \<in> set (take (length cs) its) \<and> m = build_snapshot req it (Suc n)"
  by (induction req seq its cs rule: copies.induct) (auto split: if_splits)

text \<open>
  What publishing items came to: the copies in the stream, no more than attempts, of valid items only;
  and at the end without an error every item is in the stream and counted.
\<close>

definition replayed ::
  "replay_env \<Rightarrow> replay_config \<Rightarrow> request \<Rightarrow> item list \<Rightarrow> nat \<Rightarrow> replay_result \<Rightarrow> replay_msg list \<Rightarrow>
     goerr option \<Rightarrow> nat list \<Rightarrow> replay_result \<Rightarrow> replay_msg list \<Rightarrow> bool" where
  "replayed e cfg req its seq res S err cs res' S' \<longleftrightarrow>
     S' = S @ copies req seq its cs \<and> length cs \<le> length its \<and>
     (\<forall>c \<in> set cs. int c \<le> PublishAttempts cfg \<and> (remembers e \<longrightarrow> c \<le> 1)) \<and>
     (\<forall>it \<in> set (take (length cs) its). validate_item it = None) \<and>
     (err = None \<longrightarrow> length cs = length its \<and> all_known req seq its S' \<and>
        rPublished res' + rDuplicates res' = rPublished res + rDuplicates res + length its)"

lemma replayed_start: "replayed e cfg req its seq res S (Some err) [] res S"
  by (simp add: replayed_def)

lemma replayed_Nil: "replayed e cfg req [] seq res S None [] res S"
  by (simp add: replayed_def)

lemma count_ack_total: "rPublished (count_ack ack res) + rDuplicates (count_ack ack res) = Suc (rPublished res + rDuplicates res)"
  by (simp add: count_ack_def)

lemma stored_times_attempts: "stored_times e m (nat n) S c \<Longrightarrow> 0 < n \<Longrightarrow> int c \<le> n"
  by (simp add: stored_times_def) linarith

lemma replayed_Cons:
  assumes "stored_times e (build_snapshot req it (Suc seq)) (nat (PublishAttempts cfg)) S c" "validate_item it = None"
    and "0 < PublishAttempts cfg" "S1 = S @ replicate c (build_snapshot req it (Suc seq))"
    and "known_id (build_snapshot req it (Suc seq)) S1"
    and "replayed e cfg req its (Suc seq) (count_ack ack res) S1 err cs res' S'"
  shows "replayed e cfg req (it # its) seq res S err (c # cs) res' S'"
proof -
  have "set S1 \<subseteq> set S'" using assms(6) by (auto simp: replayed_def)
  then have "known_id (build_snapshot req it (Suc seq)) S'" using assms(5) known_id_mono by blast
  moreover have "int c \<le> PublishAttempts cfg" by (rule stored_times_attempts [OF assms(1,3)])
  moreover have "remembers e \<Longrightarrow> c \<le> 1" using assms(1) by (simp add: stored_times_def)
  ultimately show ?thesis using assms(2,4,6) by (auto simp: replayed_def all_known_Cons count_ack_total)
qed

lemma replayed_failed:
  assumes "stored_times e (build_snapshot req it (Suc seq)) (nat (PublishAttempts cfg)) S c" "validate_item it = None"
    and "0 < PublishAttempts cfg" "S1 = S @ replicate c (build_snapshot req it (Suc seq))"
  shows "replayed e cfg req (it # its) seq res S (Some err) [c] res S1"
  using assms stored_times_attempts [OF assms(1,3)] by (auto simp: replayed_def stored_times_def)

lemma snapshot_items_effect:
  assumes "snapshot_items e cfg req start its seq res w = ((err, seq', res'), w')" "0 < PublishAttempts cfg"
  shows "(\<exists>cs. replayed e cfg req its seq res (rstream w) err cs res' (rstream w')) \<and> (err = None \<longrightarrow> seq' = seq + length its)"
  using assms
proof (induction e cfg req start its seq res w arbitrary: err seq' res' w' rule: snapshot_items.induct)
  case (1 e cfg req start seq res w)
  then show ?case using replayed_Nil by fastforce
next
  case (2 e cfg req start it its seq res w)
  let ?m = "build_snapshot req it (Suc seq)"
  obtain r w1 where w1: "wait_until e (start + int seq * go_div second (RatePerSecond cfg)) w = (r, w1)" by fastforce
  obtain p w2 where w2: "publish e cfg ?m w1 = (p, w2)" by fastforce
  obtain c where c: "stored_times e ?m (nat (PublishAttempts cfg)) (rstream w) c" "rstream w2 = rstream w @ replicate c ?m"
    "\<And>ack. p = Inr ack \<Longrightarrow> known_id ?m (rstream w2)"
    using publish_effect [OF w2] wait_until_stream [OF w1] 2(3) by metis
  consider "err \<noteq> None" "res' = res" "rstream w' = rstream w"
    | "validate_item it = None" "err \<noteq> None" "res' = res" "w' = w2"
    | (on) ack where "validate_item it = None" "r = None" "check_size (max_payload e) ?m = None" "p = Inr ack"
        "snapshot_items e cfg req start its (Suc seq) (count_ack ack res) w2 = ((err, seq', res'), w')"
    using 2(2) w1 w2 wait_until_stream [OF w1]
    by (auto simp: option.case_eq_if split: sum.splits if_splits)
  then show ?case
  proof cases
    case 1
    then show ?thesis using replayed_start [of e cfg req "it # its" seq res "rstream w"] by (metis option.exhaust)
  next
    case 2
    then show ?thesis using replayed_failed [OF c(1) _ \<open>0 < PublishAttempts cfg\<close> c(2)] by auto
  next
    case on
    from "2.IH" [OF on(1) w1 [symmetric] _ on(3) w2 [symmetric] on(4,5) 2(3)] on(2)
    obtain cs where "replayed e cfg req its (Suc seq) (count_ack ack res) (rstream w2) err cs res' (rstream w')"
      "err = None \<longrightarrow> seq' = Suc seq + length its" by auto
    from replayed_Cons [OF c(1) on(1) 2(3) c(2) c(3) [OF on(4)] this(1)] this(2) show ?thesis by auto
  qed
qed

lemma replayed_append:
  assumes "replayed e cfg req xs seq res S None cs res1 S1" "replayed e cfg req ys (seq + length xs) res1 S1 err ds res' S'"
  shows "replayed e cfg req (xs @ ys) seq res S err (cs @ ds) res' S'"
proof -
  have "set S1 \<subseteq> set S'" using assms(2) by (auto simp: replayed_def)
  then have "all_known req seq xs S'" using assms(1) all_known_mono unfolding replayed_def by blast
  then show ?thesis using assms by (auto simp: replayed_def copies_append all_known_append)
qed

text \<open>The items of the answers \<open>k\<close> up to \<open>n\<close>.\<close>

definition handed_out :: "replay_env \<Rightarrow> nat \<Rightarrow> nat \<Rightarrow> item list" where
  "handed_out e k n = concat (map (\<lambda>i. projr (source e i)) [k..<n])"

lemma handed_out_self [simp]: "handed_out e n n = []"
  by (simp add: handed_out_def)

lemma handed_out_Cons: "source e k = Inr its \<Longrightarrow> k < n \<Longrightarrow> handed_out e k n = its @ handed_out e (Suc k) n"
  by (simp add: handed_out_def upt_conv_Cons)

definition rounds_end :: "replay_env \<Rightarrow> replay_config \<Rightarrow> request \<Rightarrow> nat \<Rightarrow> nat \<Rightarrow> replay_result \<Rightarrow> replay_world
    \<Rightarrow> goerr option \<Rightarrow> replay_result \<Rightarrow> replay_world \<Rightarrow> bool" where
  "rounds_end e cfg req k seq res w err res' w' \<longleftrightarrow>
     (\<exists>n cs. k \<le> n \<and> (\<forall>i. k \<le> i \<and> i < n \<longrightarrow> (\<exists>its. source e i = Inr its \<and> its \<noteq> [])) \<and>
        replayed e cfg req (handed_out e k n) seq res (rstream w) err cs res' (rstream w') \<and>
        (err = None \<longrightarrow> source e n = Inr []))"

lemma rounds_end_here:
  assumes "rstream w' = rstream w" "err = None \<longrightarrow> source e k = Inr []"
  shows "rounds_end e cfg req k seq res w err res w'"
proof -
  have "replayed e cfg req [] seq res (rstream w) err [] res (rstream w')" by (simp add: replayed_def assms(1))
  then show ?thesis unfolding rounds_end_def using assms(2)
    by (intro exI [of _ k] exI [of _ "[]"]) (simp add: not_le [symmetric])
qed

lemma rounds_end_in:
  assumes "source e k = Inr its" "its \<noteq> []" "replayed e cfg req its seq res (rstream w) (Some x) cs res' (rstream w')"
  shows "rounds_end e cfg req k seq res w (Some x) res' w'"
proof -
  have "handed_out e k (Suc k) = its" using handed_out_Cons [OF assms(1), of "Suc k"] by simp
  moreover have "\<exists>its. source e i = Inr its \<and> its \<noteq> []" if "k \<le> i \<and> i < Suc k" for i
  proof -
    have "i = k" using that by simp
    then show ?thesis using assms(1,2) by simp
  qed
  ultimately show ?thesis unfolding rounds_end_def
    using assms(3) by (intro exI [of _ "Suc k"] exI [of _ cs]) simp
qed

lemma rounds_end_on:
  assumes "source e k = Inr its" "its \<noteq> []" "replayed e cfg req its seq res (rstream w) None cs res1 (rstream w1)"
    and "rounds_end e cfg req (Suc k) (seq + length its) res1 w1 err res' w'"
  shows "rounds_end e cfg req k seq res w err res' w'"
proof -
  from assms(4) obtain n ds where n: "Suc k \<le> n" "\<forall>i. Suc k \<le> i \<and> i < n \<longrightarrow> (\<exists>its. source e i = Inr its \<and> its \<noteq> [])"
      "replayed e cfg req (handed_out e (Suc k) n) (seq + length its) res1 (rstream w1) err ds res' (rstream w')"
      "err = None \<longrightarrow> source e n = Inr []"
    unfolding rounds_end_def by blast
  have "\<exists>its. source e i = Inr its \<and> its \<noteq> []" if "k \<le> i \<and> i < n" for i
    using n(2) assms(1,2) that by (cases "i = k") auto
  then show ?thesis unfolding rounds_end_def
    using n(1,4) replayed_append [OF assms(3) n(3)] handed_out_Cons [OF assms(1), of n]
    by (intro exI [of _ n] exI [of _ "cs @ ds"]) auto
qed

lemma snapshot_rounds_effect:
  assumes "snapshot_rounds e cfg req start k seq res w = Some ((err, res'), w')" "0 < PublishAttempts cfg"
  shows "rounds_end e cfg req k seq res w err res' w'"
proof -
  have "\<forall>err res' w'. y = ((err, res'), w') \<longrightarrow> 0 < PublishAttempts cfg \<longrightarrow> rounds_end e cfg req k seq res w err res' w'"
    if "snapshot_rounds e cfg req start k seq res w = Some y" for y
  proof (rule snapshot_rounds.raw_induct
      [where P = "\<lambda>e cfg req start k seq res w y. \<forall>err res' w'. y = ((err, res'), w') \<longrightarrow> 0 < PublishAttempts cfg \<longrightarrow>
         rounds_end e cfg req k seq res w err res' w'", OF _ that])
    fix f e cfg req start k seq res w y
    assume ih: "\<And>e cfg req start k seq res w y. f e cfg req start k seq res w = Some y \<Longrightarrow>
        \<forall>err res' w'. y = ((err, res'), w') \<longrightarrow> 0 < PublishAttempts cfg \<longrightarrow> rounds_end e cfg req k seq res w err res' w'"
      and body: "(case ctx_at e (tick w) of Some err \<Rightarrow> Some ((Some err, res), w)
        | None \<Rightarrow> (case source e k of Inl err \<Rightarrow> Some ((Some err, res), tick_on w)
           | Inr items \<Rightarrow> if items = [] then Some ((None, res), tick_on w)
             else (case snapshot_items e cfg req start items seq res (tick_on w) of
               ((Some err, seq', res'), w1) \<Rightarrow> Some ((Some err, res'), w1)
             | ((None, seq', res'), w1) \<Rightarrow> f e cfg req start (Suc k) seq' res' w1))) = Some y"
    show "\<forall>err res' w'. y = ((err, res'), w') \<longrightarrow> 0 < PublishAttempts cfg \<longrightarrow> rounds_end e cfg req k seq res w err res' w'"
    proof (intro allI impI)
      fix err res' w' assume y: "y = ((err, res'), w')" and pa: "0 < PublishAttempts cfg"
      show "rounds_end e cfg req k seq res w err res' w'"
      proof (cases "ctx_at e (tick w) = None \<and> (\<exists>its. source e k = Inr its \<and> its \<noteq> [])")
        case False
        then show ?thesis using body y
          by (auto intro!: rounds_end_here split: option.splits sum.splits if_splits)
      next
        case True
        then obtain its where its: "ctx_at e (tick w) = None" "source e k = Inr its" "its \<noteq> []" by blast
        obtain x seq1 res1 w1 where s: "snapshot_items e cfg req start its seq res (tick_on w) = ((x, seq1, res1), w1)"
          by (metis prod_cases3 surj_pair)
        from snapshot_items_effect [OF s pa] obtain cs where
          r: "replayed e cfg req its seq res (rstream w) x cs res1 (rstream w1)" "x = None \<longrightarrow> seq1 = seq + length its"
          by auto
        show ?thesis
        proof (cases x)
          case None
          then have "f e cfg req start (Suc k) (seq + length its) res1 w1 = Some y" using body its s r(2) by simp
          from ih [OF this] y pa have "rounds_end e cfg req (Suc k) (seq + length its) res1 w1 err res' w'" by blast
          then show ?thesis using rounds_end_on its r(1) None by blast
        next
          case (Some z)
          then show ?thesis using body its s r(1) y rounds_end_in [OF its(2,3)] by auto
        qed
      qed
    qed
  qed
  then show ?thesis using assms by blast
qed

lemma finish_effect:
  assumes "finish e cfg req res status cause w = (err, w')"
  obtains c where "stored_times e (end_marker req res status cause) (nat (PublishAttempts cfg)) (rstream w) c"
    "rstream w' = rstream w @ replicate c (end_marker req res status cause)"
    "err = None \<Longrightarrow> 0 < PublishAttempts cfg \<Longrightarrow> known_id (end_marker req res status cause) (rstream w')"
proof -
  obtain r w1 where p: "publish e cfg (end_marker req res status cause) w = (r, w1)" by fastforce
  from publish_effect [OF p] obtain c where
    "stored_times e (end_marker req res status cause) (nat (PublishAttempts cfg)) (rstream w) c"
    "rstream w1 = rstream w @ replicate c (end_marker req res status cause)"
    "\<And>ack. r = Inr ack \<Longrightarrow> 0 < PublishAttempts cfg \<Longrightarrow> known_id (end_marker req res status cause) (rstream w1)" by blast
  then show thesis using assms p by (intro that [of c]) (auto simp: finish_def split: sum.splits)
qed

lemma end_marker_status [simp]: "end_marker req (res\<lparr>rStatus := s\<rparr>) status cause = end_marker req res status cause"
  by (simp add: end_marker_def)

definition run_cases ::
  "replay_env \<Rightarrow> replay_config \<Rightarrow> request \<Rightarrow> replay_world \<Rightarrow> replay_result \<Rightarrow> goerr option \<Rightarrow> replay_world \<Rightarrow> bool" where
  "run_cases e cfg req w res err w' \<longleftrightarrow>
     err \<noteq> None \<and> rstream w' = rstream w \<or>
     validate_request req = None \<and>
     (\<exists>err1 res1 w1. rounds_end e cfg req 0 0 no_result w err1 res1 w1 \<and> conclude e cfg req err1 res1 w1 = ((res, err), w'))"

lemma run_effect:
  assumes "run e cfg req src_nil w = Some ((res, err), w')" "0 < PublishAttempts cfg"
  shows "run_cases e cfg req w res err w'"
proof (cases "validate_request req = None \<and> \<not> src_nil \<and> check_stream e = None")
  case True
  then obtain err1 res1 w1 where s: "snapshots e cfg req w = Some ((err1, res1), w1)"
      "conclude e cfg req err1 res1 w1 = ((res, err), w')"
    using assms(1) by (auto simp: run_def split: option.splits)
  have "rounds_end e cfg req 0 0 no_result w err1 res1 w1"
    by (rule snapshot_rounds_effect [OF _ assms(2)]) (use s(1) in \<open>simp add: snapshots_def no_result_def\<close>)
  then show ?thesis using True s(2) by (auto simp: run_cases_def)
next
  case False
  then show ?thesis using assms(1) by (auto simp: run_def run_cases_def split: option.splits if_splits)
qed

lemma replayed_status [simp]:
  "replayed e cfg req its seq res S err cs (res'\<lparr>rStatus := s\<rparr>) S' \<longleftrightarrow> replayed e cfg req its seq res S err cs res' S'"
  by (simp add: replayed_def)

text \<open>A run without an error: the rounds, then the marker of a complete run.\<close>

lemma run_complete:
  assumes "run e cfg req src_nil w = Some ((res, None), w')" "validate_replay_config cfg = None"
  obtains n cs c S where "source e n = Inr []" "\<forall>i < n. \<exists>its. source e i = Inr its \<and> its \<noteq> []"
    "replayed e cfg req (handed_out e 0 n) 0 no_result (rstream w) None cs res S"
    "stored_times e (end_marker req res StatusComplete '''') (nat (PublishAttempts cfg)) S c"
    "rstream w' = S @ replicate c (end_marker req res StatusComplete '''')"
    "known_id (end_marker req res StatusComplete '''') (rstream w')" "rStatus res = StatusComplete" "validate_request req = None"
proof -
  have pa: "0 < PublishAttempts cfg" using assms(2) by (auto simp: validate_replay_config_def split: if_splits)
  from run_effect [OF assms(1) pa] obtain err1 res1 w1 where
    r: "rounds_end e cfg req 0 0 no_result w err1 res1 w1" "conclude e cfg req err1 res1 w1 = ((res, None), w')"
    "validate_request req = None" by (auto simp: run_cases_def)
  from r(2) have f: "err1 = None" "finish e cfg req res1 StatusComplete '''' w1 = (None, w')" "res = res1\<lparr>rStatus := StatusComplete\<rparr>"
    by (auto simp: conclude_def Let_def split: option.splits if_splits prod.splits)
  from finish_effect [OF f(2)] obtain c where
    c: "stored_times e (end_marker req res1 StatusComplete '''') (nat (PublishAttempts cfg)) (rstream w1) c"
      "rstream w' = rstream w1 @ replicate c (end_marker req res1 StatusComplete '''')"
      "known_id (end_marker req res1 StatusComplete '''') (rstream w')" using pa by blast
  from r(1) f(1) obtain n cs where n: "\<forall>i < n. \<exists>its. source e i = Inr its \<and> its \<noteq> []" "source e n = Inr []"
      "replayed e cfg req (handed_out e 0 n) 0 no_result (rstream w) None cs res1 (rstream w1)"
    by (auto simp: rounds_end_def)
  show thesis by (rule that [OF n(2,1), of cs "rstream w1" c]) (use n(3) c f(3) r(3) in simp_all)
qed

section \<open>Reading what was written\<close>

lemma parse_count_itoa: "int n < 2 ^ 63 \<Longrightarrow> parse_count (itoa n) = Inr (int n)"
  by (simp add: parse_count_def parse_itoa itoa_not_empty)

lemma map_of_set_headers:
  "map_of (set_headers [] h) = map_of h"
  "map_of (set_headers ((k, v) # kvs) h) = map_of (set_headers kvs (AList.update k v h))"
  by (simp_all add: set_headers_def)

lemma map_of_set_headers_absent:
  "k \<notin> fst ` set kvs \<Longrightarrow> map_of (set_headers kvs h) k = map_of h k"
  by (induction kvs arbitrary: h) (auto simp: set_headers_def update_conv')

lemma validate_item_no_reserved:
  "validate_item it = None \<Longrightarrow> reserved_header k \<Longrightarrow> map_of (set_headers (itHeaders it) []) k = None"
  by (subst map_of_set_headers_absent) (auto simp: validate_item_def list_ex_iff split: if_splits)

lemma replay_headers_reserved:
  "reserved_header HeaderEnd" "reserved_header HeaderReplayCount" "reserved_header HeaderStatus" "reserved_header HeaderError"
  by code_simp+

lemma snapshot_headers:
  assumes "validate_item it = None"
  shows "map_of (rmHeaders (build_snapshot req it n)) HeaderReplayID = Some (rqID req)"
    "map_of (rmHeaders (build_snapshot req it n)) HeaderSeq = Some (itoa n)"
    "map_of (rmHeaders (build_snapshot req it n)) HeaderEnd = None"
    "map_of (rmHeaders (build_snapshot req it n)) HeaderReplayCount = None"
    "map_of (rmHeaders (build_snapshot req it n)) HeaderStatus = None"
    "map_of (rmHeaders (build_snapshot req it n)) HeaderError = None"
    "msg_id_of (build_snapshot req it n) = Some (rqID req @ '':'' @ itKey it @ '':'' @ itVersion it)"
  using replay_headers_reserved [THEN validate_item_no_reserved [OF assms]]
  by (simp_all add: build_snapshot_def map_of_set_headers update_conv' msg_id_of_def replay_headers)

lemma snapshot_meta:
  assumes "validate_item it = None" "rqID req \<noteq> ''''" "int n < 2 ^ 63"
  shows "parse_meta (header_of (rmHeaders (build_snapshot req it n))) =
    Inr \<lparr>mReplayID = rqID req, mSeq = int n, mEnd = False, mCount = 0, mStatus = '''', mError = ''''\<rparr>"
  using assms snapshot_headers [OF assms(1)]
  by (simp add: parse_meta_def header_of_def header_get_def parse_count_itoa parse_count_def [of "[]"] end_true_def)

lemma marker_meta:
  assumes "status = StatusComplete \<or> status = StatusFailed" "rqID req \<noteq> ''''" "int (rPublished res + rDuplicates res) < 2 ^ 63"
  shows "parse_meta (header_of (rmHeaders (end_marker req res status cause))) =
    Inr \<lparr>mReplayID = rqID req, mSeq = 0, mEnd = True, mCount = int (rPublished res + rDuplicates res), mStatus = status,
      mError = (if status = StatusFailed then sanitize_error cause else '''')\<rparr>"
  using assms
  by (auto simp: parse_meta_def header_of_def header_get_def end_marker_def map_of_set_headers update_conv' replay_headers
      StatusComplete_def StatusFailed_def Let_def parse_count_def [of "[]"] end_true_def parse_count_itoa)

lemma conclude_effect:
  assumes "conclude e cfg req err1 res1 w1 = ((res, err), w')"
  shows "\<exists>T. rstream w' = rstream w1 @ T \<and>
    (\<forall>m \<in> set T. \<exists>status cause. (status = StatusComplete \<or> status = StatusFailed) \<and> m = end_marker req res status cause)"
proof -
  obtain err2 w2 where f: "(if err1 = None then finish e cfg req res1 StatusComplete '''' w1 else (err1, w1)) = (err2, w2)"
    by fastforce
  have "\<exists>c. rstream w2 = rstream w1 @ replicate c (end_marker req res1 StatusComplete '''')"
  proof (cases "err1 = None")
    case True
    then have "finish e cfg req res1 StatusComplete '''' w1 = (err2, w2)" using f by simp
    from finish_effect [OF this] show ?thesis by blast
  next
    case False
    then have "w2 = w1" using f by (auto split: if_splits)
    then show ?thesis by (intro exI [of _ 0]) simp
  qed
  then obtain c where c: "rstream w2 = rstream w1 @ replicate c (end_marker req res1 StatusComplete '''')" by blast
  show ?thesis
  proof (cases err2)
    case None
    then have "w' = w2" "res = res1\<lparr>rStatus := StatusComplete\<rparr>" using assms f by (auto simp: conclude_def)
    then show ?thesis using c by (intro exI [of _ "replicate c _"]) auto
  next
    case (Some x)
    obtain merr w3 where f2: "finish e cfg req (res1\<lparr>rStatus := StatusFailed\<rparr>) StatusFailed (err_text e x) w2 = (merr, w3)"
      by fastforce
    from finish_effect [OF this] obtain d where
      d: "rstream w3 = rstream w2 @ replicate d (end_marker req res1 StatusFailed (err_text e x))" by auto
    have "w' = w3" "res = res1\<lparr>rStatus := StatusFailed\<rparr>" using assms f f2 Some by (auto simp: conclude_def Let_def)
    then show ?thesis using c d
      by (intro exI [of _ "replicate c (end_marker req res StatusComplete '''') @ replicate d (end_marker req res StatusFailed (err_text e x))"])
        (auto 0 3 simp: Bex_def)
  qed
qed

lemma validate_request_id: "validate_request req = None \<Longrightarrow> rqID req \<noteq> ''''"
  by (auto simp: validate_request_def)

lemma validate_replay_attempts: "validate_replay_config cfg = None \<Longrightarrow> 0 < PublishAttempts cfg"
  by (auto simp: validate_replay_config_def split: if_splits)

lemma snapshot_rounds_end:
  assumes "\<exists>err. source e n = Inl err \<or> source e n = Inr []" "k \<le> n"
  shows "\<exists>y. snapshot_rounds e cfg req start k seq res w = Some y"
  using assms(2)
proof (induction "n - k" arbitrary: k seq res w)
  case 0
  then show ?case using assms(1) by (subst snapshot_rounds.simps) (auto split: option.splits sum.splits)
next
  case (Suc d)
  then have "\<exists>y. snapshot_rounds e cfg req start (Suc k) seq' res' w' = Some y" for seq' res' w'
    using Suc(1) [of "Suc k"] by simp
  then show ?case by (subst snapshot_rounds.simps) (auto split: option.splits sum.splits prod.splits)
qed

section \<open>Properties\<close>

definition demo_item :: "string \<Rightarrow> string \<Rightarrow> item" where
  "demo_item k v = \<lparr>itKey = k, itVersion = v, itPayload = ''p'', itHeaders = [(''trace'', ''t'')]\<rparr>"

definition demo_request :: request where
  "demo_request = \<lparr>rqID = ''r1'', rqSubject = ''snap.r1'', rqEndPayload = ''''\<rparr>"

definition demo_replay :: "item list \<Rightarrow> replay_env" where
  "demo_replay its = \<lparr>ctx_at = (\<lambda>_. None), sleep_at = (\<lambda>_. None), clock_at = (\<lambda>_. 0), reply_at = (\<lambda>_. Heard),
     forgets_at = (\<lambda>_. False), source = (\<lambda>k. if k = 0 then Inr its else Inr []), max_payload = 0, no_streams = True,
     stream_by_subject = Inr '''', stream_max_per_subject = Inr 0, err_text = (\<lambda>_. '''')\<rparr>"

definition demo_stream :: replay_world where
  "demo_stream = \<lparr>tick = 0, rstream = []\<rparr>"

lemmas demo_replay_defs = demo_replay_def demo_request_def demo_stream_def demo_item_def default_replay_config_def

text \<open>
  C12. A complete run, in order. A run that returns no error published every item the source handed out,
  in the order of the source, and then the marker: each message is in the stream under its id, stored
  no more often than attempts allow and, while the server remembers its ids, at most once; and the
  count in the result and the marker is the number of items.
\<close>
theorem replay_complete_in_order:
  assumes "run e cfg req src_nil w = Some ((res, None), w')" "validate_replay_config cfg = None"
  shows "\<exists>n its cs c. source e n = Inr [] \<and> its = handed_out e 0 n \<and> rStatus res = StatusComplete \<and>
    rPublished res + rDuplicates res = length its \<and> length cs = length its \<and>
    rstream w' = rstream w @ copies req 0 its cs @ replicate c (end_marker req res StatusComplete '''') \<and>
    (\<forall>x \<in> set (c # cs). int x \<le> PublishAttempts cfg \<and> (remembers e \<longrightarrow> x \<le> 1)) \<and>
    (\<forall>i < length its. known_id (build_snapshot req (its ! i) (Suc i)) (rstream w')) \<and>
    known_id (end_marker req res StatusComplete '''') (rstream w')"
proof -
  obtain n cs c S where source_end: "source e n = Inr []" and "\<forall>i < n. \<exists>its. source e i = Inr its \<and> its \<noteq> []"
    and items: "replayed e cfg req (handed_out e 0 n) 0 no_result (rstream w) None cs res S"
    and marker: "stored_times e (end_marker req res StatusComplete '''') (nat (PublishAttempts cfg)) S c"
    and out: "rstream w' = S @ replicate c (end_marker req res StatusComplete '''')"
    and end_known: "known_id (end_marker req res StatusComplete '''') (rstream w')" and status: "rStatus res = StatusComplete"
    and "validate_request req = None"
    by (rule run_complete [OF assms])
  have "all_known req 0 (handed_out e 0 n) S" using items unfolding replayed_def by blast
  then have "all_known req 0 (handed_out e 0 n) (rstream w')" by (rule all_known_mono) (simp add: out)
  moreover have "int c \<le> PublishAttempts cfg" "remembers e \<longrightarrow> c \<le> 1"
    using marker stored_times_attempts [OF marker validate_replay_attempts [OF assms(2)]] by (simp_all add: stored_times_def)
  ultimately show ?thesis using source_end items out end_known status
    by (intro exI [of _ n] exI [of _ "handed_out e 0 n"] exI [of _ cs] exI [of _ c])
      (simp add: replayed_def all_known_def no_result_def)
qed

text \<open>
  C23. What a run writes can be read back. Every message a run adds to the stream, failed or not, is the
  message of a valid item, which reads back as its replay id and number and never as a marker, or an
  end marker, which reads back as one with the count, the status and the error.
\<close>
theorem replay_reads_back:
  assumes "run e cfg req src_nil w = Some ((res, err), w')" "validate_replay_config cfg = None"
    and "m \<in> set (drop (length (rstream w)) (rstream w'))"
  shows "(\<exists>it n. m = build_snapshot req it (Suc n) \<and> validate_item it = None \<and> (int (Suc n) < 2 ^ 63 \<longrightarrow>
      parse_meta (header_of (rmHeaders m)) =
        Inr \<lparr>mReplayID = rqID req, mSeq = int (Suc n), mEnd = False, mCount = 0, mStatus = '''', mError = ''''\<rparr>)) \<or>
    (\<exists>status cause. m = end_marker req res status cause \<and> (int (rPublished res + rDuplicates res) < 2 ^ 63 \<longrightarrow>
      parse_meta (header_of (rmHeaders m)) =
        Inr \<lparr>mReplayID = rqID req, mSeq = 0, mEnd = True, mCount = int (rPublished res + rDuplicates res), mStatus = status,
          mError = (if status = StatusFailed then sanitize_error cause else '''')\<rparr>))"
proof -
  from run_effect [OF assms(1) validate_replay_attempts [OF assms(2)]] assms(3) obtain err1 res1 w1 where
    r: "rounds_end e cfg req 0 0 no_result w err1 res1 w1" "conclude e cfg req err1 res1 w1 = ((res, err), w')"
      "validate_request req = None" by (auto simp: run_cases_def)
  note id = validate_request_id [OF r(3)]
  from conclude_effect [OF r(2)] obtain T where T: "rstream w' = rstream w1 @ T"
    "\<forall>m \<in> set T. \<exists>status cause. (status = StatusComplete \<or> status = StatusFailed) \<and> m = end_marker req res status cause"
    by blast
  from r(1) obtain its cs where i: "rstream w1 = rstream w @ copies req 0 its cs"
      "\<forall>it \<in> set (take (length cs) its). validate_item it = None"
    by (auto simp: rounds_end_def replayed_def)
  have "m \<in> set (copies req 0 its cs) \<or> m \<in> set T" using assms(3) T(1) i(1) by simp
  then show ?thesis
  proof
    assume "m \<in> set (copies req 0 its cs)"
    from copies_in [OF this] i(2) obtain it n where m: "m = build_snapshot req it (Suc n)" "validate_item it = None" by blast
    then show ?thesis using snapshot_meta [OF m(2) id, of "Suc n"] by blast
  next
    assume "m \<in> set T"
    then obtain status cause where m: "status = StatusComplete \<or> status = StatusFailed" "m = end_marker req res status cause"
      using T(2) by blast
    then show ?thesis using marker_meta [OF m(1) id, of res] by blast
  qed
qed

text \<open>
  An item can swallow the end marker. When a complete run published an item with key \<open>end\<close>
  and version \<open>complete\<close>, its message has the id of the marker: the server drops the marker as a
  duplicate, and although the run reports success the stream holds no end marker.
\<close>
theorem replay_marker_swallowed:
  assumes "run e cfg req src_nil w = Some ((res, None), w')" "validate_replay_config cfg = None" "remembers e"
    and "\<And>n. source e n = Inr [] \<Longrightarrow> it \<in> set (handed_out e 0 n)" "itKey it = ''end''" "itVersion it = ''complete''"
  shows "rStatus res = StatusComplete \<and>
    (\<forall>m \<in> set (drop (length (rstream w)) (rstream w')). map_of (rmHeaders m) HeaderEnd = None)"
proof -
  obtain n cs c S where source_end: "source e n = Inr []" and "\<forall>i < n. \<exists>its. source e i = Inr its \<and> its \<noteq> []"
    and items: "replayed e cfg req (handed_out e 0 n) 0 no_result (rstream w) None cs res S"
    and marker: "stored_times e (end_marker req res StatusComplete '''') (nat (PublishAttempts cfg)) S c"
    and out: "rstream w' = S @ replicate c (end_marker req res StatusComplete '''')"
    and end_known: "known_id (end_marker req res StatusComplete '''') (rstream w')" and status: "rStatus res = StatusComplete"
    and "validate_request req = None"
    by (rule run_complete [OF assms(1,2)])
  have valid: "\<forall>it \<in> set (handed_out e 0 n). validate_item it = None" using items by (auto simp: replayed_def)
  obtain i where i: "i < length (handed_out e 0 n)" "handed_out e 0 n ! i = it"
    using assms(4) [OF source_end] by (auto simp: in_set_conv_nth)
  have "known_id (build_snapshot req it (Suc i)) S" using items i by (auto simp: replayed_def all_known_def)
  moreover have "msg_id_of (end_marker req res StatusComplete '''') = msg_id_of (build_snapshot req it (Suc i))"
  proof -
    have "validate_item it = None" using valid assms(4) [OF source_end] by blast
    from snapshot_headers(7) [OF this] show ?thesis using assms(5,6)
      by (simp add: msg_id_of_def end_marker_def map_of_set_headers update_conv' replay_headers StatusComplete_def StatusFailed_def)
  qed
  ultimately have "known_id (end_marker req res StatusComplete '''') S" by (simp add: known_id_def)
  then have "rstream w' = S" using marker out assms(3) by (simp add: stored_times_def)
  moreover have "map_of (rmHeaders m) HeaderEnd = None" if "m \<in> set (copies req 0 (handed_out e 0 n) cs)" for m
    using copies_in [OF that] valid snapshot_headers(3) by (meson in_set_takeD)
  ultimately show ?thesis using items status by (auto simp: replayed_def)
qed

text \<open>
  A run ends. When some answer of the source is empty or an error, a run returns, whatever the
  server, the context and the clock do.
\<close>
theorem replay_ends:
  assumes "\<exists>err. source e n = Inl err \<or> source e n = Inr []"
  shows "\<exists>res err w'. run e cfg req src_nil w = Some ((res, err), w')"
proof -
  obtain y where "snapshots e cfg req w = Some y"
    unfolding snapshots_def using snapshot_rounds_end [OF assms le0] by blast
  then show ?thesis by (cases y) (auto simp: run_def split: option.splits prod.splits, metis surj_pair)
qed


definition demo_result :: "nat \<Rightarrow> nat \<Rightarrow> replay_result" where
  "demo_result a b = \<lparr>rPublished = a, rDuplicates = b, rStatus = StatusComplete\<rparr>"

definition demo_rounds :: "item list \<Rightarrow> (replay_result \<times> goerr option) \<times> replay_world" where
  "demo_rounds its =
     (case snapshot_items (demo_replay its) default_replay_config demo_request 0 its 0 no_result (tick_on demo_stream) of
        ((Some err, seq, res), w1) \<Rightarrow> conclude (demo_replay its) default_replay_config demo_request (Some err) res w1
      | ((None, seq, res), w1) \<Rightarrow> conclude (demo_replay its) default_replay_config demo_request None res (tick_on w1))"

lemma demo_replay_run:
  assumes "its \<noteq> []"
  shows "run (demo_replay its) default_replay_config demo_request False demo_stream = Some (demo_rounds its)"
proof -
  have e: "ctx_at (demo_replay its) t = None" "source (demo_replay its) 0 = Inr its" "source (demo_replay its) (Suc k) = Inr []"
    "clock_at (demo_replay its) t = 0" "check_stream (demo_replay its) = None" for t k
    by (simp_all add: demo_replay_def check_stream_def)
  have "validate_request demo_request = None" by code_simp
  moreover have "snapshot_rounds (demo_replay its) cfg req start (Suc k) seq res w = Some ((None, res), tick_on w)"
    for cfg req start k seq res w by (subst snapshot_rounds.simps) (simp add: e)
  then have "snapshots (demo_replay its) default_replay_config demo_request demo_stream =
      (case snapshot_items (demo_replay its) default_replay_config demo_request 0 its 0 no_result (tick_on demo_stream) of
        ((Some err, seq, res), w1) \<Rightarrow> Some ((Some err, res), w1)
      | ((None, seq, res), w1) \<Rightarrow> Some ((None, res), tick_on w1))"
    unfolding snapshots_def using assms
    by (subst snapshot_rounds.simps) (simp add: e no_result_def split: option.splits prod.splits)
  ultimately show ?thesis
    by (simp add: run_def e demo_rounds_def split: option.splits prod.splits)
qed

lemma demo_config_valid: "validate_replay_config default_replay_config = None"
  by code_simp

lemma demo_remembers: "remembers (demo_replay its)"
  by (simp add: remembers_def demo_replay_def)

text \<open>The run of two versions of one key: the count is 2, but only one key was received.\<close>

lemma demo_versions:
  "demo_rounds [demo_item ''a'' ''1'', demo_item ''a'' ''2''] =
     ((demo_result 2 0, None), \<lparr>tick = 9, rstream =
        [build_snapshot demo_request (demo_item ''a'' ''1'') 1, build_snapshot demo_request (demo_item ''a'' ''2'') 2,
         end_marker demo_request (demo_result 2 0) StatusComplete '''']\<rparr>)"
  by code_simp

lemma demo_end_item:
  "demo_rounds [demo_item ''end'' ''complete''] =
     ((demo_result 1 0, None), \<lparr>tick = 6, rstream = [build_snapshot demo_request (demo_item ''end'' ''complete'') 1]\<rparr>)"
  by code_simp

theorem replay_complete_in_order_witness:
  "\<exists>w' n its cs c. run (demo_replay [demo_item ''a'' ''1'', demo_item ''a'' ''2'']) default_replay_config demo_request False demo_stream
       = Some ((demo_result 2 0, None), w') \<and> length its = 2 \<and>
     rstream w' = copies demo_request 0 its cs @ replicate c (end_marker demo_request (demo_result 2 0) StatusComplete '''')"
proof -
  let ?r = "run (demo_replay [demo_item ''a'' ''1'', demo_item ''a'' ''2'']) default_replay_config demo_request False demo_stream"
  obtain w' where r: "?r = Some ((demo_result 2 0, None), w')" using demo_versions by (simp add: demo_replay_run)
  obtain n its cs c where "rPublished (demo_result 2 0) + rDuplicates (demo_result 2 0) = length its"
      "rstream w' = rstream demo_stream @ copies demo_request 0 its cs @ replicate c (end_marker demo_request (demo_result 2 0) StatusComplete '''')"
    using replay_complete_in_order [OF r demo_config_valid] by blast
  then have "length its = 2 \<and> rstream w' = copies demo_request 0 its cs @ replicate c (end_marker demo_request (demo_result 2 0) StatusComplete '''')"
    by (simp add: demo_result_def demo_stream_def)
  then show ?thesis using r by blast
qed

theorem replay_marker_swallowed_witness:
  "\<exists>w'. run (demo_replay [demo_item ''end'' ''complete'']) default_replay_config demo_request False demo_stream
       = Some ((demo_result 1 0, None), w') \<and> (\<forall>m \<in> set (rstream w'). map_of (rmHeaders m) HeaderEnd = None)"
proof -
  let ?it = "demo_item ''end'' ''complete''"
  obtain w' where r: "run (demo_replay [?it]) default_replay_config demo_request False demo_stream = Some ((demo_result 1 0, None), w')"
    using demo_end_item by (simp add: demo_replay_run)
  have src: "source (demo_replay [?it]) n = (if n = 0 then Inr [?it] else Inr [])" for n
    by (simp add: demo_replay_def)
  have "?it \<in> set (handed_out (demo_replay [?it]) 0 n)" if "source (demo_replay [?it]) n = Inr []" for n
  proof -
    have "0 < n" using that src by (cases n) simp_all
    then show ?thesis using handed_out_Cons [of "demo_replay [?it]" 0 "[?it]" n] src by simp
  qed
  from replay_marker_swallowed [OF r demo_config_valid demo_remembers this]
  have "\<forall>m \<in> set (rstream w'). map_of (rmHeaders m) HeaderEnd = None" by (simp add: demo_item_def demo_stream_def)
  then show ?thesis using r by blast
qed

theorem replay_reads_back_witness:
  "\<exists>w'. run (demo_replay [demo_item ''a'' ''1'', demo_item ''a'' ''2'']) default_replay_config demo_request False demo_stream
       = Some ((demo_result 2 0, None), w') \<and>
     (\<forall>m \<in> set (rstream w'). (\<exists>it n. m = build_snapshot demo_request it (Suc n)) \<or> (\<exists>s c. m = end_marker demo_request (demo_result 2 0) s c))"
proof -
  let ?r = "run (demo_replay [demo_item ''a'' ''1'', demo_item ''a'' ''2'']) default_replay_config demo_request False demo_stream"
  obtain w' where r: "?r = Some ((demo_result 2 0, None), w')" using demo_versions by (simp add: demo_replay_run)
  have "(\<exists>it n. m = build_snapshot demo_request it (Suc n)) \<or> (\<exists>s c. m = end_marker demo_request (demo_result 2 0) s c)"
    if "m \<in> set (rstream w')" for m
  proof -
    have "m \<in> set (drop (length (rstream demo_stream)) (rstream w'))" using that by (simp add: demo_stream_def)
    from replay_reads_back [OF r demo_config_valid this] show ?thesis by blast
  qed
  then show ?thesis using r by blast
qed

theorem replay_ends_witness:
  "\<exists>res err w'. run (demo_replay [demo_item ''a'' ''1'']) default_replay_config demo_request False demo_stream = Some ((res, err), w')"
  by (rule replay_ends [of _ 1]) (simp add: demo_replay_def)

text \<open>Two different items can have one message id.\<close>

lemma replay_ids_collide:
  "msg_id_of (build_snapshot demo_request (demo_item ''a:b'' ''c'') 1) =
   msg_id_of (build_snapshot demo_request (demo_item ''a'' ''b:c'') 2)"
  by code_simp

lemma valid_utf8_from_length: "length (valid_utf8_from k s) \<le> length s"
  by (induction k s rule: valid_utf8_from.induct) (auto split: nat.split)

text \<open>The error text of a marker fits a header: short, on one line.\<close>

lemma valid_utf8_from_set: "set (valid_utf8_from k s) \<subseteq> set s"
  by (induction k s rule: valid_utf8_from.induct) (auto split: nat.split)

lemma sanitize_error_header:
  "length (sanitize_error s) \<le> max_error_len \<and> CHR 0x0a \<notin> set (sanitize_error s) \<and> CHR 0x0d \<notin> set (sanitize_error s)"
proof -
  let ?t = "map (\<lambda>c. if c = CHR 0x0d \<or> c = CHR 0x0a then CHR '' '' else c) s"
  have "set (sanitize_error s) \<subseteq> set ?t"
    using valid_utf8_from_set [of 0 "take max_error_len ?t"] set_take_subset [of max_error_len ?t]
    by (auto simp: sanitize_error_def Let_def simp del: set_map)
  moreover have "CHR 0x0a \<notin> set ?t \<and> CHR 0x0d \<notin> set ?t" by auto
  moreover have "length (sanitize_error s) \<le> max_error_len"
    using valid_utf8_from_length [of 0 "take max_error_len ?t"] by (auto simp: sanitize_error_def Let_def)
  ultimately show ?thesis by blast
qed

end
