(* ===== verification/Reply_Wait.thy ===== *)
theory Reply_Wait imports Stream_Opts "HOL-Library.AList" begin

text \<open>
  Waiting for a reply (\<^verbatim>\<open>pkg/replywait\<close>): callers register under a correlation id, the
  listener resolves the waiter of a reply, and a drain fails those that are left. The goroutines are
  interleaved by lists of actions, each the code between two points where another can run.
\<close>

section \<open>Configuration\<close>

abbreviation ErrReplyConfig :: sentinel where "ErrReplyConfig \<equiv> Sentinel ''replywait.ErrInvalidConfig''"
abbreviation ErrInvalidInstance :: sentinel where "ErrInvalidInstance \<equiv> Sentinel ''replywait.ErrInvalidInstance''"
abbreviation ErrDuplicateCorrelation :: sentinel where "ErrDuplicateCorrelation \<equiv> Sentinel ''replywait.ErrDuplicateCorrelation''"
abbreviation ErrReplyTimeout :: sentinel where "ErrReplyTimeout \<equiv> Sentinel ''replywait.ErrTimeout''"
abbreviation ErrDrained :: sentinel where "ErrDrained \<equiv> Sentinel ''replywait.ErrDrained''"
abbreviation ErrDraining :: sentinel where "ErrDraining \<equiv> Sentinel ''replywait.ErrDraining''"
abbreviation ErrInvalidStreamOpts :: sentinel where "ErrInvalidStreamOpts \<equiv> Sentinel ''replywait.ErrInvalidStreamOpts''"

record 'm reply_config =
  rcStream :: string
  rcSubject :: string
  rcCorrelation :: "('m \<Rightarrow> goerr + string) option"
  rcDefaultTimeout :: duration
  rcInactive :: duration
  rcDrainTimeout :: duration

definition min_reply_subject_tokens :: nat where "min_reply_subject_tokens = 4"

definition validate_reply_subject :: "string \<Rightarrow> goerr option" where
  "validate_reply_subject subject =
     (if subject = '''' then Some (Foreign ''reply subject is required'')
      else let tokens = split_at CHR ''.'' subject in
        if length tokens < min_reply_subject_tokens then Some (Foreign ''reply subject must have at least 4 tokens'')
        else if list_ex (\<lambda>t. t = '''' \<or> contains_any t ''*> '') tokens
        then Some (Foreign ''reply subject token must not be empty, a wildcard or a space'')
        else None)"

definition validate_reply_config :: "'m reply_config \<Rightarrow> goerr option" where
  "validate_reply_config c =
     (if rcStream c = '''' then Some (Sent ErrReplyConfig)
      else if validate_reply_subject (rcSubject c) \<noteq> None then Some (Sent ErrReplyConfig)
      else if rcCorrelation c = None then Some (Sent ErrReplyConfig)
      else if rcInactive c \<le> rcDefaultTimeout c then Some (Sent ErrReplyConfig)
      else if rcDrainTimeout c \<le> 0 then Some (Sent ErrReplyConfig)
      else None)"

definition instance_from_env :: "environment \<Rightarrow> goerr + string" where
  "instance_from_env env =
     (let inst = getenv env ''POD_NAME'' in
      if inst = '''' then Inl (Sent ErrInvalidInstance)
      else if CHR ''.'' \<in> set inst then Inl (Sent ErrInvalidInstance)
      else Inr inst)"

section \<open>The registry\<close>

text \<open>
  A waiter is known by its place in \<open>waiters\<close>. Each of its channels has room for one value;
  \<open>sends\<close> records what was sent, to whom.
\<close>

record 'm waiter =
  w_id :: string
  w_result :: "'m option"
  w_fail :: "goerr option"

record 'm registry =
  rg_entries :: "(string \<times> nat) list"
  waiters :: "'m waiter list"
  sends :: "(nat \<times> (goerr + 'm)) list"

definition new_registry :: "'m registry" where
  "new_registry = \<lparr>rg_entries = [], waiters = [], sends = []\<rparr>"

definition put_channel :: "goerr + 'm \<Rightarrow> 'm waiter \<Rightarrow> 'm waiter" where
  "put_channel x w = (case x of Inr m \<Rightarrow> w\<lparr>w_result := Some m\<rparr> | Inl err \<Rightarrow> w\<lparr>w_fail := Some err\<rparr>)"

definition send_to :: "nat \<Rightarrow> goerr + 'm \<Rightarrow> 'm registry \<Rightarrow> 'm registry" where
  "send_to k x r = r\<lparr>waiters := (waiters r)[k := put_channel x (waiters r ! k)], sends := sends r @ [(k, x)]\<rparr>"

text \<open>A send to a full channel does not return.\<close>

definition send_blocks :: "nat \<Rightarrow> 'm registry \<Rightarrow> bool" where
  "send_blocks k r \<longleftrightarrow> w_result (waiters r ! k) \<noteq> None \<or> w_fail (waiters r ! k) \<noteq> None"

definition register_waiter :: "string \<Rightarrow> 'm registry \<Rightarrow> (goerr + nat) \<times> 'm registry" where
  "register_waiter i r =
     (case map_of (rg_entries r) i of
        Some _ \<Rightarrow> (Inl (Sent ErrDuplicateCorrelation), r)
      | None \<Rightarrow> (Inr (length (waiters r)),
          r\<lparr>waiters := waiters r @ [\<lparr>w_id = i, w_result = None, w_fail = None\<rparr>],
            rg_entries := AList.update i (length (waiters r)) (rg_entries r)\<rparr>))"

definition resolve_waiter :: "string \<Rightarrow> 'm \<Rightarrow> 'm registry \<Rightarrow> bool \<times> 'm registry" where
  "resolve_waiter i msg r =
     (case map_of (rg_entries r) i of
        None \<Rightarrow> (False, r)
      | Some k \<Rightarrow> (True, send_to k (Inr msg) (r\<lparr>rg_entries := AList.delete i (rg_entries r)\<rparr>)))"

definition fail_all :: "goerr \<Rightarrow> 'm registry \<Rightarrow> 'm registry" where
  "fail_all err r = fold (\<lambda>(_, k). send_to k (Inl err)) (rg_entries r) (r\<lparr>rg_entries := []\<rparr>)"

definition inflight :: "'m registry \<Rightarrow> nat" where
  "inflight r = length (rg_entries r)"

definition remove_id :: "string \<Rightarrow> 'm registry \<Rightarrow> 'm registry" where
  "remove_id i r = r\<lparr>rg_entries := AList.delete i (rg_entries r)\<rparr>"

definition cancel_waiter :: "nat \<Rightarrow> 'm registry \<Rightarrow> 'm registry" where
  "cancel_waiter k r = remove_id (w_id (waiters r ! k)) r"

text \<open>\<open>Wait\<close>, by the case its select takes: none when that channel is not ready.\<close>

datatype wait_case = OnResult | OnFail | OnDone goerr

definition wait_reply :: "nat \<Rightarrow> wait_case \<Rightarrow> 'm registry \<Rightarrow> ((goerr + 'm) \<times> 'm registry) option" where
  "wait_reply k c r =
     (let w = waiters r ! k in
      case c of
        OnResult \<Rightarrow> (case w_result w of None \<Rightarrow> None
                     | Some m \<Rightarrow> Some (Inr m, r\<lparr>waiters := (waiters r)[k := w\<lparr>w_result := None\<rparr>]\<rparr>))
      | OnFail \<Rightarrow> (case w_fail w of None \<Rightarrow> None
                   | Some err \<Rightarrow> Some (Inl err, r\<lparr>waiters := (waiters r)[k := w\<lparr>w_fail := None\<rparr>]\<rparr>))
      | OnDone cause \<Rightarrow>
          Some (Inl (if errors_is cause DeadlineExceeded then Sent ErrReplyTimeout else cause), remove_id (w_id w) r))"

section \<open>The listener and the waiter\<close>

text \<open>A message whose correlation cannot be read is rejected, one without a waiter is late.\<close>

datatype reply_fate = Rejected goerr | Late string | Resolved string

definition handle_reply :: "('m \<Rightarrow> goerr + string) \<Rightarrow> 'm \<Rightarrow> 'm registry \<Rightarrow> reply_fate \<times> 'm registry" where
  "handle_reply corr msg r =
     (case corr msg of
        Inl err \<Rightarrow> (Rejected err, r)
      | Inr i \<Rightarrow> (let (ok, r') = resolve_waiter i msg r in (if ok then Resolved i else Late i, r')))"

record 'm reply_waiter =
  rw_reg :: "'m registry"
  draining :: bool
  drained :: bool
  drain_err :: "goerr option"
  listening :: bool

definition new_reply_waiter :: "'m reply_waiter" where
  "new_reply_waiter = \<lparr>rw_reg = new_registry, draining = False, drained = False, drain_err = None, listening = True\<rparr>"

definition begin_drain :: "'m reply_waiter \<Rightarrow> 'm reply_waiter" where
  "begin_drain rw = rw\<lparr>draining := True\<rparr>"

text \<open>
  \<open>waitForInflight\<close>: at each look the number in flight, until it is zero or the deadline
  comes first; \<open>None\<close> while neither.
\<close>

fun wait_for_inflight :: "(nat \<times> bool) list \<Rightarrow> goerr option option" where
  "wait_for_inflight [] = None"
| "wait_for_inflight ((n, deadline) # looks) =
     (if n = 0 then Some None
      else if deadline then Some (Some (Sent ErrDrained)) else wait_for_inflight looks)"

text \<open>The part of \<open>Drain\<close> after the wait: it fails the waiters, then stops the listener.\<close>

definition fail_waiters :: "'m reply_waiter \<Rightarrow> 'm reply_waiter" where
  "fail_waiters rw = rw\<lparr>rw_reg := fail_all (Sent ErrDrained) (rw_reg rw)\<rparr>"

definition end_drain :: "goerr option \<Rightarrow> 'm reply_waiter \<Rightarrow> 'm reply_waiter" where
  "end_drain err rw = rw\<lparr>listening := False, drained := True, drain_err := err\<rparr>"

definition drain :: "(nat \<times> bool) list \<Rightarrow> 'm reply_waiter \<Rightarrow> (goerr option \<times> 'm reply_waiter) option" where
  "drain looks rw =
     (if drained rw then Some (drain_err rw, rw)
      else case wait_for_inflight looks of
        None \<Rightarrow> None
      | Some err \<Rightarrow> Some (err, end_drain err (fail_waiters (begin_drain rw))))"

definition register_id :: "string \<Rightarrow> 'm reply_waiter \<Rightarrow> (goerr + nat) \<times> 'm reply_waiter" where
  "register_id i rw =
     (if draining rw then (Inl (Sent ErrDraining), rw)
      else let (res, r) = register_waiter i (rw_reg rw) in (res, rw\<lparr>rw_reg := r\<rparr>))"

text \<open>
  \<open>Request\<close>, alone: whether its publish fails, what the listener handles meanwhile, and the case
  its wait takes.
\<close>

definition request_reply ::
  "('m \<Rightarrow> goerr + string) \<Rightarrow> string \<Rightarrow> goerr option \<Rightarrow> 'm list \<Rightarrow> wait_case \<Rightarrow> 'm reply_waiter
     \<Rightarrow> ((goerr + 'm) \<times> 'm reply_waiter) option" where
  "request_reply corr i publish_err msgs c rw =
     (case register_id i rw of
        (Inl err, rw1) \<Rightarrow> Some (Inl err, rw1)
      | (Inr k, rw1) \<Rightarrow>
          (case publish_err of
             Some err \<Rightarrow> Some (Inl err, rw1\<lparr>rw_reg := cancel_waiter k (rw_reg rw1)\<rparr>)
           | None \<Rightarrow>
               (case wait_reply k c (fold (\<lambda>m r. snd (handle_reply corr m r)) msgs (rw_reg rw1)) of
                  None \<Rightarrow> None
                | Some (res, r) \<Rightarrow> Some (res, rw1\<lparr>rw_reg := r\<rparr>))))"

section \<open>The reply stream\<close>

record reply_stream_opts =
  rsName :: string
  rsSubjects :: "string list"
  rsReplicas :: int
  rsMaxAge :: duration

definition validate_stream_opts :: "reply_stream_opts \<Rightarrow> goerr option" where
  "validate_stream_opts o' =
     (if rsName o' = '''' then Some (Sent ErrInvalidStreamOpts)
      else if rsSubjects o' = [] then Some (Sent ErrInvalidStreamOpts)
      else if rsReplicas o' < 1 then Some (Sent ErrInvalidStreamOpts)
      else if rsMaxAge o' \<le> 0 then Some (Sent ErrInvalidStreamOpts)
      else None)"

text \<open>The configuration of a stream as far as it is used here; \<open>rcf_rest\<close> are the other fields.\<close>

record reply_stream_config =
  rcf_name :: string
  rcf_subjects :: "string list"
  rcf_replicas :: int
  rcf_max_age :: duration
  rcf_limits_retention :: bool
  rcf_file_storage :: bool
  rcf_rest :: string

definition stream_config_from_opts :: "reply_stream_opts \<Rightarrow> reply_stream_config" where
  "stream_config_from_opts o' =
     \<lparr>rcf_name = rsName o', rcf_subjects = rsSubjects o', rcf_replicas = rsReplicas o', rcf_max_age = rsMaxAge o',
      rcf_limits_retention = True, rcf_file_storage = True, rcf_rest = ''''\<rparr>"

fun subjects_equal :: "string list \<Rightarrow> string list \<Rightarrow> bool" where
  "subjects_equal [] [] = True"
| "subjects_equal (a # as) (b # bs) \<longleftrightarrow> a = b \<and> subjects_equal as bs"
| "subjects_equal _ _ = False"

definition reply_stream_config_matches :: "reply_stream_config \<Rightarrow> reply_stream_opts \<Rightarrow> bool" where
  "reply_stream_config_matches c o' =
     (if rcf_replicas c \<noteq> rsReplicas o' \<or> rcf_max_age c \<noteq> rsMaxAge o' then False
      else subjects_equal (rcf_subjects c) (rsSubjects o'))"

text \<open>The client: looking up a stream, asking for its configuration, creating and updating it.\<close>

record 'j reply_js =
  rj_stream :: "string \<Rightarrow> 'j \<Rightarrow> goerr option"
  rj_info :: "string \<Rightarrow> 'j \<Rightarrow> goerr + reply_stream_config"
  rj_create :: "reply_stream_config \<Rightarrow> 'j \<Rightarrow> goerr option \<times> 'j"
  rj_update :: "reply_stream_config \<Rightarrow> 'j \<Rightarrow> goerr option \<times> 'j"

definition ensure_reply_stream :: "'j reply_js \<Rightarrow> reply_stream_opts \<Rightarrow> 'j \<Rightarrow> goerr option \<times> 'j" where
  "ensure_reply_stream js o' j =
     (case validate_stream_opts o' of
        Some err \<Rightarrow> (Some err, j)
      | None \<Rightarrow>
          (case rj_stream js (rsName o') j of
             Some err \<Rightarrow>
               if \<not> errors_is err ErrStreamNotFound then (Some err, j)
               else rj_create js (stream_config_from_opts o') j
           | None \<Rightarrow>
               (case rj_info js (rsName o') j of
                  Inl err \<Rightarrow> (Some err, j)
                | Inr cfg \<Rightarrow>
                    if reply_stream_config_matches cfg o' then (None, j)
                    else rj_update js (cfg\<lparr>rcf_subjects := rsSubjects o', rcf_replicas := rsReplicas o',
                           rcf_max_age := rsMaxAge o'\<rparr>) j)))"

section \<open>Goroutines\<close>

text \<open>
  \<open>Admit\<close> is the look at \<open>draining\<close> in \<open>Register\<close>, \<open>Enter\<close> the
  registration after it; \<open>Arrive\<close> a message at the listener; \<open>Finish\<close> a case of
  \<open>Wait\<close>; \<open>Cancel\<close> a call of that name, by a caller that does not wait after it; \<open>StartDrain\<close>,
  \<open>FailWaiters\<close> and \<open>EndDrain\<close> are the parts of a drain.
\<close>

datatype 'm act = Admit string | Enter string | Arrive 'm | Finish nat wait_case | Cancel nat | StartDrain | FailWaiters | EndDrain "goerr option"

record 'm reply_world =
  w_rw :: "'m reply_waiter"
  admitted :: "string list"
  waiting :: "nat list"
  answers :: "(nat \<times> (goerr + 'm)) list"

fun do_act :: "('m \<Rightarrow> goerr + string) \<Rightarrow> 'm act \<Rightarrow> 'm reply_world \<Rightarrow> 'm reply_world option" where
  "do_act corr (Admit i) w = Some (if draining (w_rw w) then w else w\<lparr>admitted := admitted w @ [i]\<rparr>)"
| "do_act corr (Enter i) w =
     (if i \<notin> set (admitted w) then None
      else let (res, r) = register_waiter i (rw_reg (w_rw w));
               w1 = w\<lparr>admitted := remove1 i (admitted w), w_rw := (w_rw w)\<lparr>rw_reg := r\<rparr>\<rparr>
        in Some (case res of Inl _ \<Rightarrow> w1 | Inr k \<Rightarrow> w1\<lparr>waiting := waiting w1 @ [k]\<rparr>))"
| "do_act corr (Arrive m) w =
     (if \<not> listening (w_rw w) then None
      else Some (w\<lparr>w_rw := (w_rw w)\<lparr>rw_reg := snd (handle_reply corr m (rw_reg (w_rw w)))\<rparr>\<rparr>))"
| "do_act corr (Finish k c) w =
     (if k \<notin> set (waiting w) then None
      else case wait_reply k c (rw_reg (w_rw w)) of
        None \<Rightarrow> None
      | Some (res, r) \<Rightarrow> Some (w\<lparr>w_rw := (w_rw w)\<lparr>rw_reg := r\<rparr>, waiting := remove1 k (waiting w), answers := answers w @ [(k, res)]\<rparr>))"
| "do_act corr (Cancel k) w =
     (if k < length (waiters (rw_reg (w_rw w)))
      then Some (w\<lparr>w_rw := (w_rw w)\<lparr>rw_reg := cancel_waiter k (rw_reg (w_rw w))\<rparr>, waiting := remove1 k (waiting w)\<rparr>)
      else None)"
| "do_act corr StartDrain w = Some (w\<lparr>w_rw := begin_drain (w_rw w)\<rparr>)"
| "do_act corr FailWaiters w = (if draining (w_rw w) then Some (w\<lparr>w_rw := fail_waiters (w_rw w)\<rparr>) else None)"
| "do_act corr (EndDrain err) w = (if draining (w_rw w) then Some (w\<lparr>w_rw := end_drain err (w_rw w)\<rparr>) else None)"

fun acts :: "('m \<Rightarrow> goerr + string) \<Rightarrow> 'm act list \<Rightarrow> 'm reply_world \<Rightarrow> 'm reply_world option" where
  "acts corr [] w = Some w"
| "acts corr (a # as) w = (case do_act corr a w of None \<Rightarrow> None | Some w' \<Rightarrow> acts corr as w')"

definition idle_world :: "'m reply_world" where
  "idle_world = \<lparr>w_rw = new_reply_waiter, admitted = [], waiting = [], answers = []\<rparr>"


section \<open>The invariant\<close>

definition registry_ok :: "('m \<Rightarrow> goerr + string) \<Rightarrow> 'm registry \<Rightarrow> bool" where
  "registry_ok corr r \<longleftrightarrow>
     distinct (map fst (rg_entries r)) \<and> distinct (map fst (sends r)) \<and>
     (\<forall>(i, k) \<in> set (rg_entries r). k < length (waiters r) \<and> w_id (waiters r ! k) = i \<and> \<not> send_blocks k r \<and> k \<notin> fst ` set (sends r)) \<and>
     (\<forall>(k, x) \<in> set (sends r). k < length (waiters r) \<and> (\<forall>m. x = Inr m \<longrightarrow> corr m = Inr (w_id (waiters r ! k)))) \<and>
     (\<forall>k < length (waiters r). \<forall>m. w_result (waiters r ! k) = Some m \<longrightarrow> (k, Inr m) \<in> set (sends r))"

lemma waiters_put [simp]: "w_id (put_channel x w) = w_id w"
  by (cases x) (simp_all add: put_channel_def)

lemma send_to_simps [simp]:
  "rg_entries (send_to k x r) = rg_entries r" "length (waiters (send_to k x r)) = length (waiters r)"
  "sends (send_to k x r) = sends r @ [(k, x)]" "map w_id (waiters (send_to k x r)) = map w_id (waiters r)"
  by (simp_all add: send_to_def map_update) (metis list_update_id map_update nth_map list_update_beyond not_le waiters_put)

lemma registry_okI:
  assumes "distinct (map fst (rg_entries r))" "distinct (map fst (sends r))"
    and "\<And>i k. (i, k) \<in> set (rg_entries r) \<Longrightarrow>
      k < length (waiters r) \<and> w_id (waiters r ! k) = i \<and> \<not> send_blocks k r \<and> k \<notin> fst ` set (sends r)"
    and "\<And>k x. (k, x) \<in> set (sends r) \<Longrightarrow> k < length (waiters r) \<and> (\<forall>m. x = Inr m \<longrightarrow> corr m = Inr (w_id (waiters r ! k)))"
    and "\<And>k m. k < length (waiters r) \<Longrightarrow> w_result (waiters r ! k) = Some m \<Longrightarrow> (k, Inr m) \<in> set (sends r)"
  shows "registry_ok corr r"
  using assms unfolding registry_ok_def by blast

lemma registry_okD:
  assumes "registry_ok corr r"
  shows "distinct (map fst (rg_entries r))" "distinct (map fst (sends r))"
    "(i, k) \<in> set (rg_entries r) \<Longrightarrow>
      k < length (waiters r) \<and> w_id (waiters r ! k) = i \<and> \<not> send_blocks k r \<and> k \<notin> fst ` set (sends r)"
    "(k, x) \<in> set (sends r) \<Longrightarrow> k < length (waiters r) \<and> (\<forall>m. x = Inr m \<longrightarrow> corr m = Inr (w_id (waiters r ! k)))"
    "k < length (waiters r) \<Longrightarrow> w_result (waiters r ! k) = Some m \<Longrightarrow> (k, Inr m) \<in> set (sends r)"
  using assms unfolding registry_ok_def by blast+

lemma registry_ok_new: "registry_ok corr new_registry"
  by (simp add: registry_ok_def new_registry_def)

lemma registry_ok_subset:
  assumes "registry_ok corr r" "set es \<subseteq> set (rg_entries r)" "distinct (map fst es)"
  shows "registry_ok corr (r\<lparr>rg_entries := es\<rparr>)"
proof (rule registry_okI, goal_cases)
  case (3 i k)
  then have "(i, k) \<in> set (rg_entries r)" using assms(2) by auto
  from registry_okD(3) [OF assms(1) this] show ?case by (simp add: send_blocks_def)
next
  case (4 k x)
  then show ?case using registry_okD(4) [OF assms(1)] by simp
next
  case (5 k m)
  then show ?case using registry_okD(5) [OF assms(1)] by simp
qed (use assms(3) registry_okD(2) [OF assms(1)] in simp_all)

lemma delete_subset: "set (AList.delete i es) \<subseteq> set es"
  by (auto simp: AList.delete_eq)

lemma registry_ok_delete: "registry_ok corr r \<Longrightarrow> registry_ok corr (r\<lparr>rg_entries := AList.delete i (rg_entries r)\<rparr>)"
  by (rule registry_ok_subset) (auto simp: delete_subset registry_ok_def intro: distinct_delete)

lemma update_absent: "map_of es i = None \<Longrightarrow> AList.update i k es = es @ [(i, k)]"
  by (induction es) (auto split: if_splits)

lemma registry_ok_register:
  assumes "registry_ok corr r" "register_waiter i r = (res, r')"
  shows "registry_ok corr r'"
proof (cases "map_of (rg_entries r) i")
  case None
  let ?w = "\<lparr>w_id = i, w_result = None, w_fail = None\<rparr>"
  have r': "r' = r\<lparr>waiters := waiters r @ [?w], rg_entries := rg_entries r @ [(i, length (waiters r))]\<rparr>"
    using assms(2) None by (simp add: register_waiter_def update_absent)
  have old: "(waiters r @ [?w]) ! k = waiters r ! k" if "k < length (waiters r)" for k
    using that by (simp add: nth_append)
  note ok = registry_okD [OF assms(1)]
  have "length (waiters r) \<notin> fst ` set (sends r)" using ok(4) by fastforce
  moreover have "i \<notin> fst ` set (rg_entries r)" using None by (simp add: map_of_eq_None_iff)
  ultimately show ?thesis unfolding r'
  proof (intro registry_okI, goal_cases)
    case (3 j k)
    then show ?case using ok(3) [of j k] old by (auto simp: send_blocks_def)
  next
    case (4 k x)
    then show ?case using ok(4) [of k x] old by auto
  next
    case (5 k m)
    then show ?case using ok(5) [of k m] old by (cases "k < length (waiters r)") (auto simp: less_Suc_eq)
  qed (use ok(1,2) in auto)
next
  case (Some k)
  then show ?thesis using assms by (simp add: register_waiter_def)
qed

lemma registry_ok_send:
  assumes "registry_ok corr r" "(i, k) \<in> set (rg_entries r)" "\<And>m. x = Inr m \<Longrightarrow> corr m = Inr i"
    and "set es \<subseteq> set (rg_entries r) - {(i, k)}" "distinct (map fst es)"
  shows "registry_ok corr (send_to k x (r\<lparr>rg_entries := es\<rparr>))"
proof -
  note ok = registry_okD [OF assms(1)]
  have k: "k < length (waiters r)" "w_id (waiters r ! k) = i" "w_result (waiters r ! k) = None" "k \<notin> fst ` set (sends r)"
    using ok(3) [OF assms(2)] by (simp_all add: send_blocks_def)
  have same: "(waiters r)[k := y] ! j = (if j = k then y else waiters r ! j)" if "j < length (waiters r)" for j y
    using that by (simp add: nth_list_update)
  show ?thesis
  proof (rule registry_okI, goal_cases)
    case (3 i' j)
    then have e: "(i', j) \<in> set (rg_entries r)" "(i', j) \<noteq> (i, k)" using assms(4) by auto
    then have "j \<noteq> k" using ok(3) [OF e(1)] k(2) by auto
    then show ?case using ok(3) [OF e(1)] by (auto simp: send_blocks_def send_to_def same)
  next
    case (4 j y)
    then show ?case using ok(4) [of j y] k assms(3) by (auto simp: send_to_def same)
  next
    case (5 j m)
    then show ?case using ok(5) [of j m] k(3) by (auto simp: send_to_def same put_channel_def split: if_splits sum.splits)
  qed (use assms(5) ok(2) k(4) in auto)
qed

lemma registry_ok_resolve:
  assumes "registry_ok corr r" "corr m = Inr i"
  shows "registry_ok corr (snd (resolve_waiter i m r))"
proof (cases "map_of (rg_entries r) i")
  case (Some k)
  have "registry_ok corr (send_to k (Inr m) (r\<lparr>rg_entries := AList.delete i (rg_entries r)\<rparr>))"
    using assms Some by (intro registry_ok_send)
      (auto simp: registry_ok_def AList.delete_eq dest: map_of_SomeD intro: distinct_delete [unfolded AList.delete_eq])
  then show ?thesis using Some by (simp add: resolve_waiter_def)
qed (use assms in \<open>simp add: resolve_waiter_def\<close>)

lemma registry_ok_handle: "registry_ok corr r \<Longrightarrow> registry_ok corr (snd (handle_reply corr m r))"
  using registry_ok_resolve [of corr r m] by (auto simp: handle_reply_def case_prod_unfold Let_def split: sum.split)

lemma send_to_entries: "(send_to k x r)\<lparr>rg_entries := es\<rparr> = send_to k x (r\<lparr>rg_entries := es\<rparr>)"
  by (cases r) (simp add: send_to_def)

lemma registry_ok_fail_fold:
  "registry_ok corr (r\<lparr>rg_entries := es\<rparr>) \<Longrightarrow> registry_ok corr (fold (\<lambda>(_, k). send_to k (Inl err)) es (r\<lparr>rg_entries := []\<rparr>))"
proof (induction es arbitrary: r)
  case (Cons e es)
  obtain i k where e: "e = (i, k)" by fastforce
  have d: "distinct (map fst es)" "(i, k) \<notin> set es" using registry_okD(1) [OF Cons.prems] e by (auto simp: image_iff)
  have "registry_ok corr (send_to k (Inl err) (r\<lparr>rg_entries := e # es, rg_entries := es\<rparr>))"
    by (rule registry_ok_send [OF Cons.prems]) (use d e in auto)
  then have "registry_ok corr ((send_to k (Inl err) r)\<lparr>rg_entries := es\<rparr>)" by (simp add: send_to_entries)
  from Cons.IH [OF this] show ?case by (simp add: e send_to_entries)
qed simp

lemma registry_ok_fail_all: "registry_ok corr r \<Longrightarrow> registry_ok corr (fail_all err r)"
  using registry_ok_fail_fold [of corr "rg_entries r" r err] by (simp add: fail_all_def)

lemma registry_ok_wait:
  assumes "registry_ok corr r" "wait_reply k c r = Some (res, r')" "k < length (waiters r)"
  shows "registry_ok corr r' \<and> (\<forall>m. res = Inr m \<longrightarrow> (k, Inr m) \<in> set (sends r'))"
proof -
  let ?w = "waiters r ! k"
  have keep: "registry_ok corr (r\<lparr>waiters := (waiters r)[k := w']\<rparr>)"
    if "w_id w' = w_id ?w" "w_result w' = None \<or> w_result w' = w_result ?w" "w_fail w' = None \<or> w_fail w' = w_fail ?w" for w'
  proof -
    have nth: "(waiters r)[k := w'] ! j = (if j = k then w' else waiters r ! j)" if "j < length (waiters r)" for j
      using that by (simp add: nth_list_update)
    note ok = registry_okD [OF assms(1)]
    show ?thesis
    proof (rule registry_okI, goal_cases)
      case (3 i j)
      then show ?case using ok(3) [of i j] that by (auto simp: send_blocks_def nth)
    next
      case (4 j x)
      then show ?case using ok(4) [of j x] that(1) by (auto simp: nth)
    next
      case (5 j m)
      then show ?case using ok(5) [of j m] that(2) by (auto simp: nth split: if_splits)
    qed (use ok(1,2) in auto)
  qed
  have read: "w_result ?w = Some m \<Longrightarrow> (k, Inr m) \<in> set (sends r)" for m
    using assms(1,3) by (simp add: registry_ok_def)
  show ?thesis
  proof (cases c)
    case OnResult
    then show ?thesis using assms(2) keep [of "?w\<lparr>w_result := None\<rparr>"] read
      by (auto simp: wait_reply_def Let_def split: option.splits)
  next
    case OnFail
    then show ?thesis using assms(2) keep [of "?w\<lparr>w_fail := None\<rparr>"]
      by (auto simp: wait_reply_def Let_def split: option.splits)
  next
    case (OnDone cause)
    then show ?thesis using assms(2) registry_ok_delete [OF assms(1)]
      by (auto simp: wait_reply_def Let_def remove_id_def)
  qed
qed

section \<open>Runs\<close>

text \<open>Over all interleavings: callers wait on different waiters, and what they got was sent to them.\<close>

definition calls_ok :: "'m registry \<Rightarrow> nat list \<Rightarrow> (nat \<times> (goerr + 'm)) list \<Rightarrow> bool" where
  "calls_ok r ks out \<longleftrightarrow> distinct ks \<and> distinct (map fst out) \<and> set ks \<inter> fst ` set out = {} \<and>
     (\<forall>k \<in> set ks. k < length (waiters r)) \<and>
     (\<forall>(k, x) \<in> set out. k < length (waiters r) \<and> (\<forall>m. x = Inr m \<longrightarrow> (k, Inr m) \<in> set (sends r)))"

definition world_ok :: "('m \<Rightarrow> goerr + string) \<Rightarrow> 'm reply_world \<Rightarrow> bool" where
  "world_ok corr w \<longleftrightarrow> registry_ok corr (rw_reg (w_rw w)) \<and> calls_ok (rw_reg (w_rw w)) (waiting w) (answers w)"

definition grows :: "'m registry \<Rightarrow> 'm registry \<Rightarrow> bool" where
  "grows r r' \<longleftrightarrow> (\<exists>l. map w_id (waiters r') = map w_id (waiters r) @ l) \<and> set (sends r) \<subseteq> set (sends r')"

lemma grows_refl [simp]: "grows r r"
  by (simp add: grows_def)

lemma grows_trans: "grows a b \<Longrightarrow> grows b c \<Longrightarrow> grows a c"
  by (auto simp: grows_def)

lemma grows_length: "grows r r' \<Longrightarrow> length (waiters r) \<le> length (waiters r')"
  unfolding grows_def by (metis le_add1 length_append length_map)

lemma grows_entries [simp]: "grows r (r\<lparr>rg_entries := es\<rparr>)"
  by (simp add: grows_def)

lemma grows_send [simp]: "grows r (send_to k x r)"
  by (auto simp: grows_def)

lemma grows_register: "register_waiter i r = (res, r') \<Longrightarrow> grows r r'"
  by (auto simp: register_waiter_def grows_def split: option.splits)

lemma grows_handle: "grows r (snd (handle_reply corr m r))"
proof -
  have "grows r (snd (resolve_waiter i m r))" for i
    using grows_trans [OF grows_entries grows_send] by (auto simp: resolve_waiter_def split: option.splits)
  then show ?thesis by (auto simp: handle_reply_def case_prod_unfold Let_def split: sum.splits)
qed

lemma grows_fold: "grows r (fold (\<lambda>(_, k). send_to k (Inl err)) es r)"
  by (induction es arbitrary: r) (auto intro: grows_trans [OF grows_send])

lemma grows_fail_all: "grows r (fail_all err r)"
  unfolding fail_all_def by (rule grows_trans [OF grows_entries grows_fold])

lemma map_update_id: "w_id w' = w_id (l ! k) \<Longrightarrow> map w_id (l[k := w']) = map w_id l"
  by (metis list_update_id map_update)

lemma grows_wait: "wait_reply k c r = Some (res, r') \<Longrightarrow> grows r r'"
  by (cases c) (auto simp: wait_reply_def grows_def remove_id_def Let_def map_update_id split: option.splits)

lemma do_act_grows: "do_act corr a w = Some w' \<Longrightarrow> grows (rw_reg (w_rw w)) (rw_reg (w_rw w'))"
proof (cases a)
  case (Enter i)
  assume "do_act corr a w = Some w'"
  moreover obtain res r where "register_waiter i (rw_reg (w_rw w)) = (res, r)" by fastforce
  ultimately show ?thesis using Enter grows_register
    by (auto simp: Let_def split: if_splits sum.splits)
qed (auto simp: grows_handle cancel_waiter_def remove_id_def begin_drain_def end_drain_def fail_waiters_def grows_fail_all
      split: if_splits option.splits dest: grows_wait)

lemma calls_ok_grow: "calls_ok r ks out \<Longrightarrow> grows r r' \<Longrightarrow> calls_ok r' ks out"
  using grows_length [of r r'] unfolding calls_ok_def grows_def by fastforce

lemma calls_ok_enter:
  assumes "calls_ok r ks out" "grows r r'" "length (waiters r) < length (waiters r')"
  shows "calls_ok r' (ks @ [length (waiters r)]) out"
proof -
  have "length (waiters r) \<notin> set ks" "length (waiters r) \<notin> fst ` set out" using assms(1) by (auto simp: calls_ok_def)
  then show ?thesis using calls_ok_grow [OF assms(1,2)] assms(3) by (auto simp: calls_ok_def)
qed

lemma calls_ok_remove: "calls_ok r ks out \<Longrightarrow> calls_ok r (remove1 k ks) out"
  using set_remove1_subset [of k ks] by (auto simp: calls_ok_def)

lemma calls_ok_answer:
  assumes "calls_ok r ks out" "k \<in> set ks" "\<And>m. x = Inr m \<Longrightarrow> (k, Inr m) \<in> set (sends r)"
  shows "calls_ok r (remove1 k ks) (out @ [(k, x)])"
proof -
  have "set (remove1 k ks) = set ks - {k}" using assms(1) by (simp add: calls_ok_def)
  then show ?thesis using assms by (auto simp: calls_ok_def)
qed

lemma do_act_ok:
  assumes "do_act corr a w = Some w'" "world_ok corr w"
  shows "world_ok corr w'"
proof -
  let ?r = "rw_reg (w_rw w)"
  note grow = do_act_grows [OF assms(1)]
  have reg: "registry_ok corr ?r" and calls: "calls_ok ?r (waiting w) (answers w)"
    using assms(2) by (simp_all add: world_ok_def)
  show ?thesis
  proof (cases a)
    case (Enter i)
    obtain res r where r: "register_waiter i ?r = (res, r)" by fastforce
    note ok = registry_ok_register [OF reg r]
    show ?thesis
    proof (cases res)
      case (Inl x)
      then show ?thesis using assms(1) Enter r ok calls_ok_grow [OF calls grows_register [OF r]]
        by (auto simp: world_ok_def split: if_splits)
    next
      case (Inr k)
      then have "k = length (waiters ?r)" "length (waiters ?r) < length (waiters r)"
        using r by (auto simp: register_waiter_def split: option.splits)
      then show ?thesis using assms(1) Enter r ok Inr calls_ok_enter [OF calls grows_register [OF r]]
        by (auto simp: world_ok_def split: if_splits)
    qed
  next
    case (Arrive m)
    then show ?thesis using assms(1) calls_ok_grow [OF calls grow] registry_ok_handle [OF reg]
      by (auto simp: world_ok_def split: if_splits)
  next
    case (Finish k c)
    then obtain res r where r: "k \<in> set (waiting w)" "wait_reply k c ?r = Some (res, r)"
      "w' = w\<lparr>w_rw := (w_rw w)\<lparr>rw_reg := r\<rparr>, waiting := remove1 k (waiting w), answers := answers w @ [(k, res)]\<rparr>"
      using assms(1) by (auto split: if_splits option.splits)
    have "k < length (waiters ?r)" using r(1) calls by (simp add: calls_ok_def)
    note wait = registry_ok_wait [OF reg r(2) this]
    have "calls_ok r (remove1 k (waiting w)) (answers w @ [(k, res)])"
      using wait by (intro calls_ok_answer [OF calls_ok_grow [OF calls grows_wait [OF r(2)]] r(1)]) blast
    then show ?thesis using r(3) wait by (simp add: world_ok_def)
  next
    case (Cancel k)
    have "registry_ok corr (cancel_waiter k ?r)"
      unfolding cancel_waiter_def remove_id_def by (rule registry_ok_delete [OF reg])
    moreover have "calls_ok (cancel_waiter k ?r) (remove1 k (waiting w)) (answers w)"
      unfolding cancel_waiter_def remove_id_def by (intro calls_ok_remove calls_ok_grow [OF calls]) simp
    ultimately show ?thesis using assms(1) Cancel by (auto simp: world_ok_def split: if_splits)
  next
    case FailWaiters
    then show ?thesis using assms(1) calls_ok_grow [OF calls grow] registry_ok_fail_all [OF reg]
      by (auto simp: world_ok_def fail_waiters_def split: if_splits)
  qed (use assms(1) reg calls in \<open>auto simp: world_ok_def begin_drain_def end_drain_def split: if_splits\<close>)
qed

lemma acts_ok: "acts corr as w = Some w' \<Longrightarrow> world_ok corr w \<Longrightarrow> world_ok corr w'"
  by (induction as arbitrary: w) (auto split: option.splits dest: do_act_ok)

lemma idle_ok: "world_ok corr idle_world"
  by (simp add: world_ok_def calls_ok_def idle_world_def new_reply_waiter_def registry_ok_new) 

section \<open>Draining\<close>

text \<open>Every waiting caller is registered, or has something to receive.\<close>

definition held :: "'m registry \<Rightarrow> nat list \<Rightarrow> bool" where
  "held r ks \<longleftrightarrow> (\<forall>k \<in> set ks. (w_id (waiters r ! k), k) \<in> set (rg_entries r) \<or> send_blocks k r)"

lemma send_to_nth: "k < length (waiters r) \<Longrightarrow> waiters (send_to k x r) ! j = (if j = k then put_channel x (waiters r ! k) else waiters r ! j)"
  by (simp add: send_to_def)

lemma put_channel_full: "w_result (put_channel x w) \<noteq> None \<or> w_fail (put_channel x w) \<noteq> None"
  by (cases x) (simp_all add: put_channel_def)

lemma send_blocks_send: "k < length (waiters r) \<Longrightarrow> send_blocks j (send_to k x r) \<longleftrightarrow> j = k \<or> send_blocks j r"
  using put_channel_full [of x "waiters r ! k"] by (auto simp: send_blocks_def send_to_nth)

lemma send_blocks_fold:
  "\<forall>(i, k) \<in> set es. k < length (waiters r) \<Longrightarrow>
     send_blocks j (fold (\<lambda>(_, k). send_to k (Inl err)) es r) \<longleftrightarrow> j \<in> snd ` set es \<or> send_blocks j r"
  by (induction es arbitrary: r) (auto simp: send_blocks_send case_prod_unfold)

lemma fold_entries [simp]: "rg_entries (fold (\<lambda>(_, k). send_to k (Inl err)) es r) = rg_entries r"
  by (induction es arbitrary: r) (auto simp: case_prod_unfold)

lemma fail_all_settles:
  assumes "registry_ok corr r" "held r ks"
  shows "rg_entries (fail_all err r) = [] \<and> (\<forall>k \<in> set ks. send_blocks k (fail_all err r))"
proof -
  have "\<forall>(i, k) \<in> set (rg_entries r). k < length (waiters (r\<lparr>rg_entries := []\<rparr>))"
    using registry_okD(3) [OF assms(1)] by auto
  note blocks = send_blocks_fold [OF this]
  have "k \<in> snd ` set (rg_entries r) \<or> send_blocks k (r\<lparr>rg_entries := []\<rparr>)" if "k \<in> set ks" for k
    using assms(2) that by (force simp: held_def send_blocks_def)
  then show ?thesis by (simp add: fail_all_def blocks)
qed

lemma entry_unique:
  assumes "registry_ok corr r" "(w_id (waiters r ! j), j) \<in> set (rg_entries r)" "map_of (rg_entries r) (w_id (waiters r ! j)) = Some k"
  shows "j = k"
  using assms registry_okD(1) [OF assms(1)] map_of_is_SomeI by force

lemma held_subset: "held r ks \<Longrightarrow> set ks' \<subseteq> set ks \<Longrightarrow> held r ks'"
  by (auto simp: held_def)

lemma held_remove_id:
  assumes "held r ks" "distinct (map w_id (waiters r))" "k < length (waiters r)" "\<forall>j \<in> set ks. j < length (waiters r)" "k \<notin> set ks"
  shows "held (remove_id (w_id (waiters r ! k)) r) ks"
proof -
  have "w_id (waiters r ! j) \<noteq> w_id (waiters r ! k)" if "j \<in> set ks" for j
    using assms(2-5) that nth_eq_iff_index_eq [of "map w_id (waiters r)" j k] by auto
  then show ?thesis using assms(1) by (fastforce simp: held_def remove_id_def AList.delete_eq send_blocks_def)
qed

lemma held_resolve:
  assumes "held r ks" "registry_ok corr r"
  shows "held (snd (resolve_waiter i m r)) ks"
proof (cases "map_of (rg_entries r) i")
  case (Some k)
  then have k: "k < length (waiters r)" using registry_okD(3) [OF assms(2)] map_of_SomeD by fastforce
  let ?r = "r\<lparr>rg_entries := AList.delete i (rg_entries r)\<rparr>"
  have "(w_id (waiters (send_to k (Inr m) ?r) ! j), j) \<in> set (AList.delete i (rg_entries r)) \<or> send_blocks j (send_to k (Inr m) ?r)"
    if "j \<in> set ks" for j
  proof (cases "send_blocks j r \<or> j = k")
    case True
    then show ?thesis using k send_blocks_send [of k ?r j "Inr m"] by (auto simp: send_blocks_def)
  next
    case False
    then have e: "(w_id (waiters r ! j), j) \<in> set (rg_entries r)" using assms(1) that by (auto simp: held_def)
    then have "w_id (waiters r ! j) \<noteq> i" using entry_unique [OF assms(2) e] Some False by auto
    then show ?thesis using e k False by (simp add: send_to_nth AList.delete_eq)
  qed
  then show ?thesis using Some by (simp add: resolve_waiter_def held_def)
qed (use assms(1) in \<open>simp add: resolve_waiter_def\<close>)

lemma held_handle: "held r ks \<Longrightarrow> registry_ok corr r \<Longrightarrow> held (snd (handle_reply corr m r)) ks"
  using held_resolve [of r ks corr] by (auto simp: handle_reply_def case_prod_unfold Let_def split: sum.splits)

lemma held_register:
  assumes "register_waiter i r = (res, r')" "held r ks" "\<forall>k \<in> set ks. k < length (waiters r)"
  shows "held r' (ks @ (case res of Inl _ \<Rightarrow> [] | Inr k \<Rightarrow> [k]))"
proof (cases "map_of (rg_entries r) i")
  case None
  then have "r' = r\<lparr>waiters := waiters r @ [\<lparr>w_id = i, w_result = None, w_fail = None\<rparr>], rg_entries := rg_entries r @ [(i, length (waiters r))]\<rparr>"
      "res = Inr (length (waiters r))"
    using assms(1) by (simp_all add: register_waiter_def update_absent)
  then show ?thesis using assms(2,3) by (auto simp: held_def send_blocks_def nth_append)
qed (use assms in \<open>auto simp: register_waiter_def\<close>)

lemma held_wait:
  assumes "wait_reply k c r = Some (res, r')" "held r ks" "k \<notin> set ks"
    and "distinct (map w_id (waiters r))" "k < length (waiters r)" "\<forall>j \<in> set ks. j < length (waiters r)"
  shows "held r' ks"
proof -
  have keep: "held (r\<lparr>waiters := (waiters r)[k := v]\<rparr>) ks" for v
  proof -
    have "(waiters r)[k := v] ! j = waiters r ! j" if "j \<in> set ks" for j using that assms(3) by (cases "j = k") auto
    then show ?thesis using assms(2) by (simp add: held_def send_blocks_def)
  qed
  show ?thesis
  proof (cases c)
    case (OnDone cause)
    then show ?thesis using assms(1) held_remove_id [OF assms(2,4,5,6,3)] by (auto simp: wait_reply_def Let_def)
  qed (use assms(1) keep in \<open>auto simp: wait_reply_def Let_def split: option.splits\<close>)
qed

lemma grows_distinct: "grows r r' \<Longrightarrow> distinct (map w_id (waiters r')) \<Longrightarrow> distinct (map w_id (waiters r))"
  by (auto simp: grows_def)

lemma do_act_held:
  assumes "do_act corr a w = Some w'" "world_ok corr w" "held (rw_reg (w_rw w)) (waiting w)"
    and "distinct (map w_id (waiters (rw_reg (w_rw w'))))"
  shows "held (rw_reg (w_rw w')) (waiting w')"
proof -
  let ?r = "rw_reg (w_rw w)"
  note ids = grows_distinct [OF do_act_grows [OF assms(1)] assms(4)]
  have reg: "registry_ok corr ?r" and calls: "calls_ok ?r (waiting w) (answers w)"
    using assms(2) by (simp_all add: world_ok_def)
  then have inside: "\<forall>k \<in> set (waiting w). k < length (waiters ?r)" "distinct (waiting w)" by (simp_all add: calls_ok_def)
  have rest: "held ?r (remove1 k (waiting w))" "\<forall>j \<in> set (remove1 k (waiting w)). j < length (waiters ?r)" "k \<notin> set (remove1 k (waiting w))" for k
    using held_subset [OF assms(3) set_remove1_subset] inside by simp_all
  show ?thesis
  proof (cases a)
    case (Enter i)
    obtain res r where r: "register_waiter i ?r = (res, r)" by fastforce
    then show ?thesis using assms(1) Enter held_register [OF r assms(3) inside(1)]
      by (auto simp: Let_def split: if_splits sum.splits)
  next
    case (Arrive m)
    then show ?thesis using assms(1) held_handle [OF assms(3) reg] by (auto split: if_splits)
  next
    case (Finish k c)
    then obtain res r where r: "k \<in> set (waiting w)" "wait_reply k c ?r = Some (res, r)"
      "rw_reg (w_rw w') = r" "waiting w' = remove1 k (waiting w)"
      using assms(1) by (auto split: if_splits option.splits)
    then show ?thesis using held_wait [OF r(2) rest(1,3) ids _ rest(2)] inside by simp
  next
    case (Cancel k)
    then show ?thesis using assms(1) held_remove_id [OF rest(1) ids _ rest(2,3)]
      by (auto simp: cancel_waiter_def split: if_splits)
  next
    case FailWaiters
    then show ?thesis using assms(1) fail_all_settles [OF reg assms(3)]
      by (auto simp: fail_waiters_def held_def split: if_splits)
  qed (use assms(1,3) in \<open>auto simp: begin_drain_def end_drain_def split: if_splits\<close>)
qed

lemma acts_grows: "acts corr as w = Some w' \<Longrightarrow> grows (rw_reg (w_rw w)) (rw_reg (w_rw w'))"
  by (induction as arbitrary: w) (auto split: option.splits intro: grows_trans dest: do_act_grows)

lemma acts_held:
  assumes "acts corr as w = Some w'" "world_ok corr w" "held (rw_reg (w_rw w)) (waiting w)"
    and "distinct (map w_id (waiters (rw_reg (w_rw w'))))"
  shows "held (rw_reg (w_rw w')) (waiting w')"
  using assms
proof (induction as arbitrary: w)
  case (Cons a as)
  then obtain w1 where w1: "do_act corr a w = Some w1" "acts corr as w1 = Some w'" by (auto split: option.splits)
  have "held (rw_reg (w_rw w1)) (waiting w1)"
    by (rule do_act_held [OF w1(1) Cons.prems(2,3) grows_distinct [OF acts_grows [OF w1(2)] Cons.prems(4)]])
  then show ?case using Cons.IH [OF w1(2) do_act_ok [OF w1(1) Cons.prems(2)]] Cons.prems(4) by blast
qed simp

section \<open>Properties\<close>

text \<open>
  C9. Replies go to their callers, once. In every interleaving of callers, replies, time-outs,
  cancellations and drains: nothing is sent to a waiter twice, so no send blocks on a full channel; each
  call ends at most once; and a caller that gets a reply gets one with its own correlation id.
\<close>
theorem replies_delivered_once:
  assumes "acts corr as idle_world = Some w"
  shows "distinct (map fst (sends (rw_reg (w_rw w)))) \<and> distinct (map fst (answers w)) \<and>
    (\<forall>(i, k) \<in> set (rg_entries (rw_reg (w_rw w))). \<not> send_blocks k (rw_reg (w_rw w))) \<and>
    (\<forall>(k, x) \<in> set (answers w). \<forall>m. x = Inr m \<longrightarrow> corr m = Inr (w_id (waiters (rw_reg (w_rw w)) ! k)))"
proof -
  let ?r = "rw_reg (w_rw w)"
  have reg: "registry_ok corr ?r" and calls: "calls_ok ?r (waiting w) (answers w)"
    using acts_ok [OF assms idle_ok] by (simp_all add: world_ok_def)
  have "corr m = Inr (w_id (waiters ?r ! k))" if "(k, Inr m) \<in> set (answers w)" for k m
    using registry_okD(4) [OF reg, of k "Inr m"] calls that by (auto simp: calls_ok_def)
  then show ?thesis using registry_okD(2,3) [OF reg] calls by (auto simp: calls_ok_def)
qed

text \<open>
  C32. A drain lets every caller go. If no correlation id was used twice, then after the waiters were failed the registry
  is empty and every caller that was waiting can end its wait, with its reply or with the error of the
  drain.
\<close>
theorem drain_releases_waiters:
  assumes "acts corr as idle_world = Some w" "distinct (map w_id (waiters (rw_reg (w_rw w))))"
    and "do_act corr FailWaiters w = Some w'" "k \<in> set (waiting w')"
  shows "rg_entries (rw_reg (w_rw w')) = [] \<and>
    (\<exists>c res r. (c = OnResult \<or> c = OnFail) \<and> wait_reply k c (rw_reg (w_rw w')) = Some (res, r))"
proof -
  have reg: "registry_ok corr (rw_reg (w_rw w))" using acts_ok [OF assms(1) idle_ok] by (simp add: world_ok_def)
  have "held (rw_reg (w_rw w)) (waiting w)"
    by (rule acts_held [OF assms(1) idle_ok _ assms(2)]) (simp add: held_def idle_world_def)
  from fail_all_settles [OF reg this]
  have "rg_entries (rw_reg (w_rw w')) = []" "send_blocks k (rw_reg (w_rw w'))"
    using assms(3,4) by (auto simp: fail_waiters_def split: if_splits)
  then show ?thesis by (auto simp: send_blocks_def wait_reply_def Let_def)
qed

text \<open>
  A cancellation can hit the wrong caller. When a waiter whose entry is gone is cancelled (or its
  wait ends by its context) while another waits under the same id, the other loses its entry: its reply
  counts as late, and nothing is sent to it.
\<close>
theorem stale_cancel_loses_reply:
  assumes "acts corr as idle_world = Some w" "(i, j) \<in> set (rg_entries (rw_reg (w_rw w)))" "k \<noteq> j"
    and "w_id (waiters (rw_reg (w_rw w)) ! k) = i" "corr m = Inr i"
  shows "handle_reply corr m (cancel_waiter k (rw_reg (w_rw w))) = (Late i, cancel_waiter k (rw_reg (w_rw w))) \<and>
    \<not> send_blocks j (cancel_waiter k (rw_reg (w_rw w)))"
proof -
  let ?r = "rw_reg (w_rw w)"
  have reg: "registry_ok corr ?r" using acts_ok [OF assms(1) idle_ok] by (simp add: world_ok_def)
  have "map_of (AList.delete i (rg_entries ?r)) i = None" by (simp add: delete_conv)
  then show ?thesis using registry_okD(3) [OF reg assms(2)] assms(4,5)
    by (simp add: handle_reply_def resolve_waiter_def cancel_waiter_def remove_id_def send_blocks_def)
qed

definition demo_corr :: "string \<Rightarrow> goerr + string" where
  "demo_corr m = (if m = '''' then Inl (Foreign ''empty'') else Inr ''x'')"

definition demo_reused :: "string act list" where
  "demo_reused = [Admit ''x'', Enter ''x'', Arrive ''r1'', Admit ''x'', Enter ''x'']"

theorem replies_delivered_once_witness:
  "\<exists>w. acts demo_corr (demo_reused @ [Finish 0 OnResult, Arrive ''r2'', Finish 1 OnResult]) idle_world = Some w \<and>
     answers w = [(0, Inr ''r1''), (1, Inr ''r2'')] \<and> demo_corr ''r2'' = Inr ''x'' \<and> distinct (map fst (sends (rw_reg (w_rw w))))"
proof -
  have run: "\<exists>w. acts demo_corr (demo_reused @ [Finish 0 OnResult, Arrive ''r2'', Finish 1 OnResult]) idle_world = Some w \<and>
      answers w = [(0, Inr ''r1''), (1, Inr ''r2'')] \<and> demo_corr ''r2'' = Inr ''x''"
    by (simp add: demo_reused_def demo_corr_def idle_world_def new_reply_waiter_def new_registry_def register_waiter_def
        handle_reply_def resolve_waiter_def send_to_def put_channel_def wait_reply_def AList.delete_eq)
  then show ?thesis using replies_delivered_once by blast
qed

theorem drain_releases_waiters_witness:
  "\<exists>w w'. acts demo_corr [Admit ''x'', Enter ''x'', StartDrain] idle_world = Some w \<and> do_act demo_corr FailWaiters w = Some w' \<and>
     waiting w' = [0] \<and> rg_entries (rw_reg (w_rw w')) = []"
proof -
  obtain w w' where "acts demo_corr [Admit ''x'', Enter ''x'', StartDrain] idle_world = Some w"
    "do_act demo_corr FailWaiters w = Some w'" "waiting w' = [0]" "distinct (map w_id (waiters (rw_reg (w_rw w))))"
    by (simp add: idle_world_def new_reply_waiter_def new_registry_def register_waiter_def begin_drain_def fail_waiters_def)
  moreover from drain_releases_waiters [OF this(1,4,2), of 0] have "rg_entries (rw_reg (w_rw w')) = []"
    using calculation by simp
  ultimately show ?thesis by blast
qed

theorem stale_cancel_loses_reply_witness:
  "\<exists>w. acts demo_corr demo_reused idle_world = Some w \<and> 1 \<in> set (waiting w) \<and>
     fst (handle_reply demo_corr ''r2'' (cancel_waiter 0 (rw_reg (w_rw w)))) = Late ''x''"
proof -
  obtain w where w: "acts demo_corr demo_reused idle_world = Some w" "(''x'', 1) \<in> set (rg_entries (rw_reg (w_rw w)))"
      "w_id (waiters (rw_reg (w_rw w)) ! 0) = ''x''" "1 \<in> set (waiting w)"
    by (simp add: demo_reused_def demo_corr_def idle_world_def new_reply_waiter_def new_registry_def register_waiter_def
        handle_reply_def resolve_waiter_def send_to_def put_channel_def AList.delete_eq)
  have "demo_corr ''r2'' = Inr ''x''" by (simp add: demo_corr_def)
  from stale_cancel_loses_reply [OF w(1,2) _ w(3) this] show ?thesis using w(1,4) by auto
qed

text \<open>A registration that was admitted before a drain and entered after it is not let go by it.\<close>

lemma late_registration_stranded:
  "\<exists>w. acts demo_corr [Admit ''x'', StartDrain, FailWaiters, EndDrain None, Enter ''x''] idle_world = Some w \<and> waiting w = [0] \<and>
     \<not> send_blocks 0 (rw_reg (w_rw w)) \<and> drained (w_rw w) \<and> do_act demo_corr (Arrive ''r'') w = None"
  by (simp add: idle_world_def new_reply_waiter_def new_registry_def register_waiter_def begin_drain_def end_drain_def
      fail_waiters_def fail_all_def send_blocks_def)

text \<open>The reply stream: an update changes three fields to what was asked, and a second call changes nothing.\<close>

lemma subjects_equal_iff [simp]: "subjects_equal as bs \<longleftrightarrow> as = bs"
  by (induction as bs rule: subjects_equal.induct) auto

lemma ensure_reply_stream_converges:
  assumes "rj_stream js (rsName o') j = None" "rj_info js (rsName o') j = Inr cfg" "ensure_reply_stream js o' j = (None, j')"
  shows "j' = j \<and> reply_stream_config_matches cfg o' \<or>
    (\<exists>cfg'. rj_update js cfg' j = (None, j') \<and> reply_stream_config_matches cfg' o' \<and> rcf_name cfg' = rcf_name cfg \<and>
      rcf_limits_retention cfg' = rcf_limits_retention cfg \<and> rcf_file_storage cfg' = rcf_file_storage cfg \<and> rcf_rest cfg' = rcf_rest cfg)"
proof (cases "reply_stream_config_matches cfg o'")
  case True
  then show ?thesis using assms by (auto simp: ensure_reply_stream_def split: option.splits)
next
  case False
  let ?c = "cfg\<lparr>rcf_subjects := rsSubjects o', rcf_replicas := rsReplicas o', rcf_max_age := rsMaxAge o'\<rparr>"
  have "rj_update js ?c j = (None, j')" using assms False by (auto simp: ensure_reply_stream_def split: option.splits)
  then show ?thesis by (intro disjI2 exI [of _ ?c]) (simp add: reply_stream_config_matches_def)
qed

text \<open>A default time-out of zero is accepted, and then no reply can come before it.\<close>

lemma zero_timeout_accepted:
  "validate_reply_config \<lparr>rcStream = ''S'', rcSubject = ''a.b.c.d'', rcCorrelation = Some demo_corr, rcDefaultTimeout = 0,
     rcInactive = 1, rcDrainTimeout = 1\<rparr> = None"
  by (simp add: validate_reply_config_def validate_reply_subject_def min_reply_subject_tokens_def contains_any_def Let_def)

end
