(* ===== verification/Consumer_Bind.thy ===== *)
theory Consumer_Bind imports Batch_Fetch Go_Strings begin

text \<open>
  Configuring and binding a consumer (\<^verbatim>\<open>consumer/internal/durable\<close>, and
  \<^verbatim>\<open>resolve.go\<close>, \<^verbatim>\<open>resolve_min_batch.go\<close>, \<^verbatim>\<open>validate.go\<close>,
  \<^verbatim>\<open>max_ack_pending_for.go\<close>, \<^verbatim>\<open>new.go\<close> of the batch consumer): the
  settings of a batch consumer, the checks of its configuration before and after it is bound to a durable
  consumer on the server, and the binding with its retries.
\<close>

section \<open>Consumer configurations\<close>

abbreviation ErrUpdateRejected :: sentinel where "ErrUpdateRejected \<equiv> Sentinel ''durable.ErrUpdateRejected''"
abbreviation ErrBindTransient :: sentinel where "ErrBindTransient \<equiv> Sentinel ''durable.ErrBindTransient''"
abbreviation ErrFilterMismatch :: sentinel where "ErrFilterMismatch \<equiv> Sentinel ''durable.ErrFilterMismatch''"
abbreviation ErrNoResponders :: sentinel where "ErrNoResponders \<equiv> Sentinel ''nats.ErrNoResponders''"
abbreviation ErrReconnectBufExceeded :: sentinel where "ErrReconnectBufExceeded \<equiv> Sentinel ''nats.ErrReconnectBufExceeded''"
abbreviation ErrConsumerExists :: sentinel where "ErrConsumerExists \<equiv> Sentinel ''jetstream.ErrConsumerExists''"
abbreviation ErrConsumerDoesNotExist :: sentinel where "ErrConsumerDoesNotExist \<equiv> Sentinel ''jetstream.ErrConsumerDoesNotExist''"

datatype ack_policy = AckExplicitPolicy | AckAllPolicy | AckNonePolicy
datatype priority_policy = PriorityNone | PriorityPinned | PriorityOverflow

text \<open>The start of a consumer: its deliver policy, with its sequence and its time.\<close>

record consumer_config =
  ccName :: string
  ccDurable :: string
  ccAckPolicy :: ack_policy
  ccAckWait :: duration
  ccMaxDeliver :: int
  ccMaxAckPending :: int
  ccFilterSubject :: string
  ccFilterSubjects :: "string list"
  ccDeliverPolicy :: int
  ccOptStartSeq :: nat
  ccOptStartTime :: "int option"
  ccPriorityPolicy :: priority_policy
  ccPriorityGroups :: "string list"
  ccPinnedTTL :: duration
  ccReplicas :: int

definition consumer_name :: "consumer_config \<Rightarrow> string" where
  "consumer_name c = (if ccDurable c \<noteq> '''' then ccDurable c else ccName c)"

text \<open>Sorted, without equal neighbours. The order of strings does not matter here, only that it is total.\<close>

definition insert_sorted :: "string \<Rightarrow> string list \<Rightarrow> string list" where
  "insert_sorted x xs = takeWhile (\<lambda>y. map of_char y < (map of_char x :: nat list)) xs @ x #
     dropWhile (\<lambda>y. map of_char y < (map of_char x :: nat list)) xs"

definition filters_of :: "consumer_config \<Rightarrow> string list" where
  "filters_of c =
     remdups_adj (foldr insert_sorted
       ((if ccFilterSubject c \<noteq> '''' then [ccFilterSubject c] else []) @ ccFilterSubjects c) [])"

fun validate_filter_list :: "string list \<Rightarrow> string set \<Rightarrow> bool" where
  "validate_filter_list [] seen = True"
| "validate_filter_list (f # fs) seen =
     (if trim_space f = '''' then False else if f \<in> seen then False else validate_filter_list fs (insert f seen))"

definition validate_filters :: "consumer_config \<Rightarrow> goerr option" where
  "validate_filters c =
     (if ccFilterSubject c \<noteq> '''' \<and> ccFilterSubjects c \<noteq> [] then Some (Sent ErrInvalidFilters)
      else if \<not> validate_filter_list (ccFilterSubjects c) {} then Some (Sent ErrInvalidFilters)
      else None)"

definition default_pinned_ttl :: duration where "default_pinned_ttl = 2 * minute"

definition group_char :: "char \<Rightarrow> bool" where
  "group_char c \<longleftrightarrow> lower_letter c \<or> upper_letter c \<or> is_digit c \<or>
     c \<in> set ''/_=-''"

definition group_name :: "string \<Rightarrow> bool" where
  "group_name g \<longleftrightarrow> 1 \<le> length g \<and> length g \<le> 16 \<and> list_all group_char g"

definition validate_pinned :: "consumer_config \<Rightarrow> duration \<Rightarrow> goerr option" where
  "validate_pinned c min_ttl =
     (if ccPriorityPolicy c \<noteq> PriorityPinned then None
      else if length (ccPriorityGroups c) \<noteq> 1 then Some (Sent ErrInvalidPinned)
      else if \<not> group_name (ccPriorityGroups c ! 0) then Some (Sent ErrInvalidPinned)
      else let ttl = (if ccPinnedTTL c \<le> 0 then default_pinned_ttl else ccPinnedTTL c)
        in if ttl \<le> min_ttl then Some (Sent ErrInvalidPinned) else None)"

definition pinned_group :: "consumer_config \<Rightarrow> string" where
  "pinned_group c =
     (if ccPriorityPolicy c \<noteq> PriorityPinned \<or> length (ccPriorityGroups c) \<noteq> 1 then ''''
      else ccPriorityGroups c ! 0)"

definition strict_update :: "environment \<Rightarrow> bool \<Rightarrow> bool" where
  "strict_update env in_code =
     (let raw = map to_lower (trim_space (getenv env ''BROKERFX_CONSUMER_STRICT_UPDATE'')) in
      if raw = '''' then in_code
      else if raw \<in> {''0'', ''false'', ''off'', ''no''} then False
      else in_code)"

section \<open>Binding\<close>

text \<open>
  The client: a consumer is what its cached information says. \<open>jc_http\<close> is the HTTP code of a
  JetStream error code.
\<close>

record 'j js_consumers =
  jc_get :: "string \<Rightarrow> 'j \<Rightarrow> (goerr + consumer_config) \<times> 'j"
  jc_create :: "consumer_config \<Rightarrow> 'j \<Rightarrow> (goerr + consumer_config) \<times> 'j"
  jc_update :: "consumer_config \<Rightarrow> 'j \<Rightarrow> (goerr + consumer_config) \<times> 'j"
  jc_create_or_update :: "consumer_config \<Rightarrow> 'j \<Rightarrow> (goerr + consumer_config) \<times> 'j"
  jc_now :: "'j \<Rightarrow> int"
  jc_sleep :: "duration \<Rightarrow> 'j \<Rightarrow> goerr option \<times> 'j"
  jc_http :: "nat \<Rightarrow> nat"

definition is_transient :: "'j js_consumers \<Rightarrow> goerr \<Rightarrow> bool" where
  "is_transient js err =
     (if errors_is err DeadlineExceeded \<or> errors_is err ErrTimeoutNats \<or> errors_is err ErrNoResponders \<or>
         errors_is err ErrConnectionReconnecting \<or> errors_is err ErrReconnectBufExceeded \<or>
         errors_is err ErrDisconnected \<or> errors_is err ErrConsumerExists \<or> errors_is err ErrConsumerDoesNotExist
      then True
      else case as_api err of None \<Rightarrow> False | Some k \<Rightarrow> jc_http js k = 503)"

definition rejected :: "goerr \<Rightarrow> goerr" where
  "rejected err = (case as_api err of Some k \<Rightarrow> Sent ErrUpdateRejected | None \<Rightarrow> Wrap (Sent ErrUpdateRejected) err)"

definition keep_start :: "consumer_config \<Rightarrow> consumer_config \<Rightarrow> consumer_config" where
  "keep_start current c = c\<lparr>ccDeliverPolicy := ccDeliverPolicy current, ccOptStartSeq := ccOptStartSeq current,
     ccOptStartTime := ccOptStartTime current\<rparr>"

definition update_keeping_start ::
  "'j js_consumers \<Rightarrow> bool \<Rightarrow> consumer_config \<Rightarrow> consumer_config \<Rightarrow> 'j \<Rightarrow> (goerr + consumer_config) \<times> 'j" where
  "update_keeping_start js strict cfg existing j =
     (case jc_update js (keep_start existing cfg) j of
        (Inr updated, j1) \<Rightarrow> (Inr updated, j1)
      | (Inl err, j1) \<Rightarrow>
          if strict \<and> is_transient js err then (Inl err, j1)
          else if strict then (Inl (rejected err), j1)
          else (Inr existing, j1))"

definition bind_once ::
  "'j js_consumers \<Rightarrow> bool \<Rightarrow> consumer_config \<Rightarrow> 'j \<Rightarrow> (goerr + consumer_config) \<times> 'j" where
  "bind_once js strict cfg j =
     (let name = consumer_name cfg in
      if name = '''' then jc_create js cfg j
      else case jc_get js name j of
        (Inr existing, j1) \<Rightarrow> update_keeping_start js strict cfg existing j1
      | (Inl err, j1) \<Rightarrow>
          if \<not> errors_is err ErrConsumerNotFound then (Inl err, j1)
          else (case jc_create js cfg j1 of
             (Inl cerr, j2) \<Rightarrow>
               if \<not> strict \<and> errors_is cerr ErrConsumerExists then jc_get js name j2 else (Inl cerr, j2)
           | (Inr created, j2) \<Rightarrow> (Inr created, j2)))"

definition retry_window :: duration where "retry_window = 30 * second"
definition retry_first :: duration where "retry_first = 250 * millisecond"
definition retry_max :: duration where "retry_max = 2 * second"

text \<open>\<open>bindRetrying\<close> from an attempt on, with the current delay.\<close>

partial_function (option) bind_attempts ::
  "'j js_consumers \<Rightarrow> consumer_config \<Rightarrow> int \<Rightarrow> duration \<Rightarrow> 'j \<Rightarrow> ((goerr + consumer_config) \<times> 'j) option" where
  "bind_attempts js cfg deadline delay j =
     (case bind_once js True cfg j of
        (Inr bound, j1) \<Rightarrow> Some (Inr bound, j1)
      | (Inl err, j1) \<Rightarrow>
          if \<not> is_transient js err then Some (Inl err, j1)
          else if jc_now js j1 + delay > deadline then Some (Inl (Wrap (Sent ErrBindTransient) err), j1)
          else (case jc_sleep js delay j1 of
             (Some serr, j2) \<Rightarrow> Some (Inl serr, j2)
           | (None, j2) \<Rightarrow> bind_attempts js cfg deadline (min (delay * 2) retry_max) j2))"

definition bind_retrying ::
  "'j js_consumers \<Rightarrow> consumer_config \<Rightarrow> 'j \<Rightarrow> ((goerr + consumer_config) \<times> 'j) option" where
  "bind_retrying js cfg j = bind_attempts js cfg (jc_now js j + retry_window) retry_first j"

definition check_filters :: "consumer_config \<Rightarrow> consumer_config \<Rightarrow> goerr option" where
  "check_filters wanted actual =
     (if filters_of wanted = filters_of actual then None else Some (Sent ErrFilterMismatch))"

definition bind_consumer ::
  "'j js_consumers \<Rightarrow> bool \<Rightarrow> consumer_config \<Rightarrow> 'j \<Rightarrow> ((goerr + consumer_config) \<times> 'j) option" where
  "bind_consumer js strict cfg j =
     (if \<not> strict then Some (bind_once js False cfg j)
      else case bind_retrying js cfg j of
        None \<Rightarrow> None
      | Some (Inl err, j1) \<Rightarrow> Some (Inl err, j1)
      | Some (Inr bound, j1) \<Rightarrow>
          Some (case check_filters cfg bound of None \<Rightarrow> Inr bound | Some err \<Rightarrow> Inl err, j1))"

text \<open>The plain consumer binds without keeping the start, unless it is strict.\<close>

definition bind_durable ::
  "'j js_consumers \<Rightarrow> environment \<Rightarrow> bool \<Rightarrow> consumer_config \<Rightarrow> 'j \<Rightarrow> ((goerr + consumer_config) \<times> 'j) option" where
  "bind_durable js env in_code cfg j =
     (if strict_update env in_code then bind_consumer js True cfg j
      else case jc_create_or_update js cfg j of
        (Inr bound, j1) \<Rightarrow> Some (Inr bound, j1)
      | (Inl err, j1) \<Rightarrow>
          (case jc_get js (consumer_name cfg) j1 of
             (Inl get_err, j2) \<Rightarrow> Some (Inl err, j2)
           | (Inr existing, j2) \<Rightarrow> Some (Inr existing, j2)))"

definition fit_replicas :: "consumer_config \<Rightarrow> int \<Rightarrow> bool \<Rightarrow> consumer_config" where
  "fit_replicas cfg stream_replicas limits_retention =
     (if ccReplicas cfg = 0 then cfg
      else let fits = (if \<not> limits_retention then ccReplicas cfg = stream_replicas
                       else ccReplicas cfg > 0 \<and> ccReplicas cfg \<le> stream_replicas)
        in if fits then cfg else cfg\<lparr>ccReplicas := 0\<rparr>)"

section \<open>The batch consumer\<close>

record batch_opts =
  bo_handler_nil :: bool
  bo_nil :: bool
  bo_max :: int
  bo_linger :: duration
  bo_min_batch :: int
  bo_linger_max :: duration
  bo_pipeline :: int
  bo_replicas :: int
  bo_delays :: "duration list"
  bo_max_attempts :: int
  bo_strict :: bool

record batch_settings =
  bs_max :: int
  bs_linger :: duration
  bs_pipeline :: int
  bs_delays :: "duration list"
  bs_max_attempts :: int
  bs_min_batch :: int
  bs_linger_max :: duration
  bs_replicas :: int

definition default_max :: int where "default_max = 16"
definition default_linger :: duration where "default_linger = 5 * millisecond"
definition default_pipeline :: int where "default_pipeline = 1"
definition limit_max :: int where "limit_max = 256"
definition limit_linger :: duration where "limit_linger = second"
definition limit_pipeline :: int where "limit_pipeline = 8"
definition default_ack_wait :: duration where "default_ack_wait = 30 * second"

definition default_nak_delays :: "duration list" where
  "default_nak_delays = [second, 5 * second, 30 * second, 2 * minute, 5 * minute]"

definition env_int :: "environment \<Rightarrow> int \<Rightarrow> string \<Rightarrow> int \<Rightarrow> goerr + int" where
  "env_int env explicit name fallback =
     (if explicit \<noteq> 0 then Inr explicit
      else let raw = trim_space (getenv env name) in
        if raw = '''' then Inr fallback
        else case parse_int raw of None \<Rightarrow> Inl (Sent ErrInvalidEnv) | Some v \<Rightarrow> Inr v)"

definition env_duration :: "environment \<Rightarrow> duration \<Rightarrow> string \<Rightarrow> duration \<Rightarrow> goerr + duration" where
  "env_duration env explicit name fallback =
     (if explicit \<noteq> 0 then Inr explicit
      else let raw = trim_space (getenv env name) in
        if raw = '''' then Inr fallback
        else case parse_duration env raw of None \<Rightarrow> Inl (Sent ErrInvalidEnv) | Some v \<Rightarrow> Inr v)"

definition resolve_delays :: "duration list \<Rightarrow> goerr + duration list" where
  "resolve_delays ds =
     (if ds = [] then Inr default_nak_delays
      else if list_ex (\<lambda>d. d \<le> 0) ds then Inl (Sent ErrInvalidOpts) else Inr ds)"

text \<open>Sequencing of steps that may fail.\<close>

definition chain :: "goerr + 'a \<Rightarrow> ('a \<Rightarrow> goerr + 'b) \<Rightarrow> goerr + 'b" where
  "chain r f = (case r of Inl err \<Rightarrow> Inl err | Inr v \<Rightarrow> f v)"

definition resolve_min_batch :: "environment \<Rightarrow> batch_opts \<Rightarrow> int \<Rightarrow> goerr + int \<times> duration" where
  "resolve_min_batch env opts max_size =
     chain (env_int env (bo_min_batch opts) ''BROKERFX_BATCH_MIN'' 0) (\<lambda>min_batch.
     chain (env_duration env (bo_linger_max opts) ''BROKERFX_BATCH_LINGER_MAX'' 0) (\<lambda>linger_max.
       if min_batch < 0 \<or> linger_max < 0 then Inl (Sent ErrInvalidOpts)
       else if min_batch > max_size then Inl (Sent ErrInvalidOpts)
       else if min_batch > 0 \<and> linger_max = 0 then Inr (0, 0)
       else if min_batch = 0 then Inr (0, 0)
       else Inr (min_batch, linger_max)))"

definition within :: "int \<Rightarrow> int \<Rightarrow> int \<Rightarrow> goerr + int" where
  "within lo hi v = (if v < lo \<or> v > hi then Inl (Sent ErrInvalidOpts) else Inr v)"

definition resolve_batch :: "environment \<Rightarrow> batch_opts \<Rightarrow> goerr + batch_settings" where
  "resolve_batch env opts =
     (if bo_handler_nil opts then Inl (Sent ErrInvalidOpts)
      else
       chain (chain (env_int env (bo_max opts) ''BROKERFX_BATCH_MAX'' default_max) (within 1 limit_max)) (\<lambda>mx.
       chain (chain (env_duration env (bo_linger opts) ''BROKERFX_BATCH_LINGER'' default_linger) (within 1 limit_linger)) (\<lambda>ling.
       chain (chain (env_int env (bo_pipeline opts) ''BROKERFX_BATCH_PIPELINE'' default_pipeline) (within 1 limit_pipeline)) (\<lambda>pipe.
       chain (resolve_delays (bo_delays opts)) (\<lambda>ds.
       chain (if bo_max_attempts opts = 0 then Inr (int (length ds) + 1)
            else if bo_max_attempts opts < -1 then Inl (Sent ErrInvalidOpts)
            else Inr (bo_max_attempts opts)) (\<lambda>att.
       chain (resolve_min_batch env opts mx) (\<lambda>(mb, lm).
       chain (env_int env (bo_replicas opts) ''BROKERFX_BATCH_REPLICAS'' 0) (\<lambda>reps.
         if reps < 0 then Inl (Sent ErrInvalidOpts)
         else Inr \<lparr>bs_max = mx, bs_linger = ling, bs_pipeline = pipe, bs_delays = ds, bs_max_attempts = att,
                bs_min_batch = mb, bs_linger_max = lm, bs_replicas = reps\<rparr>))))))))"

definition max_ack_pending_for :: "int \<Rightarrow> int \<Rightarrow> int \<Rightarrow> int" where
  "max_ack_pending_for replicas pipeline max_size =
     (let per_pod = wrap64 (pipeline * max_size) in
      if replicas \<le> 0 then per_pod else go_div (wrap64 (3 * replicas * per_pod + 1)) 2)"

definition ack_wait_or_default :: "consumer_config \<Rightarrow> duration" where
  "ack_wait_or_default c = (if ccAckWait c \<le> 0 then default_ack_wait else ccAckWait c)"

definition validate_batch :: "consumer_config \<Rightarrow> batch_settings \<Rightarrow> goerr + consumer_config" where
  "validate_batch cfg0 s =
     (if ccAckPolicy cfg0 \<noteq> AckExplicitPolicy then Inl (Sent ErrInvalidOpts)
      else case validate_filters cfg0 of Some err \<Rightarrow> Inl (Wrap (Sent ErrInvalidOpts) err)
      | None \<Rightarrow>
        let in_flight = max_ack_pending_for (bs_replicas s) (bs_pipeline s) (bs_max s);
            cfg = (if ccMaxAckPending cfg0 = 0 then cfg0\<lparr>ccMaxAckPending := in_flight\<rparr> else cfg0);
            ack_wait = ack_wait_or_default cfg
        in if ccMaxAckPending cfg \<noteq> -1 \<and> ccMaxAckPending cfg < in_flight then Inl (Sent ErrMaxAckPending)
           else case validate_pinned cfg (ack_wait + idle_poll + bs_linger_max s) of
             Some err \<Rightarrow> Inl (Wrap (Sent ErrInvalidOpts) err)
           | None \<Rightarrow>
               if bs_linger_max s > 0 \<and> bs_linger_max s \<ge> go_div ack_wait 4 then Inl (Sent ErrInvalidOpts)
               else if ccMaxDeliver cfg > 0 \<and> (bs_max_attempts s < 0 \<or> ccMaxDeliver cfg \<le> bs_max_attempts s)
               then Inl (Sent ErrMaxDeliver)
               else Inr cfg)"

definition per_pod :: "batch_settings \<Rightarrow> batch_settings" where
  "per_pod s = s\<lparr>bs_replicas := 0\<rparr>"

text \<open>The numbers of the consumer that is started.\<close>

record batch_consumer =
  bc_settings :: batch_settings
  bc_max_deliver :: int
  bc_heartbeat :: duration
  bc_group :: string
  bc_actual :: consumer_config

definition new_batch ::
  "'j js_consumers \<Rightarrow> environment \<Rightarrow> batch_opts \<Rightarrow> consumer_config \<Rightarrow> int \<Rightarrow> bool \<Rightarrow> 'j
     \<Rightarrow> ((goerr + batch_consumer) \<times> 'j) option" where
  "new_batch js env opts built stream_replicas limits_retention j =
     (if bo_nil opts then Some (Inl (Sent ErrInvalidOpts), j)
      else case resolve_batch env opts of
        Inl err \<Rightarrow> Some (Inl err, j)
      | Inr s \<Rightarrow>
          (case validate_batch (fit_replicas built stream_replicas limits_retention) s of
             Inl err \<Rightarrow> Some (Inl err, j)
           | Inr cfg \<Rightarrow>
               (case bind_consumer js (strict_update env (bo_strict opts)) cfg j of
                  None \<Rightarrow> None
                | Some (Inl err, j1) \<Rightarrow> Some (Inl err, j1)
                | Some (Inr actual, j1) \<Rightarrow>
                    Some (case validate_batch actual (per_pod s) of
                        Inl err \<Rightarrow> Inl err
                      | Inr _ \<Rightarrow> Inr \<lparr>bc_settings = s, bc_max_deliver = ccMaxDeliver actual,
                          bc_heartbeat = go_div (ccAckWait actual) 2, bc_group = pinned_group actual,
                          bc_actual = actual\<rparr>, j1))))"


section \<open>What is accepted\<close>

lemma chain_Inr [simp]: "chain r f = Inr y \<longleftrightarrow> (\<exists>v. r = Inr v \<and> f v = Inr y)"
  by (cases r) (simp_all add: chain_def)

lemma within_Inr [simp]: "within lo hi v = Inr y \<longleftrightarrow> y = v \<and> lo \<le> v \<and> v \<le> hi"
  by (auto simp: within_def)

definition settings_ok :: "batch_settings \<Rightarrow> bool" where
  "settings_ok s \<longleftrightarrow> 1 \<le> bs_max s \<and> bs_max s \<le> 256 \<and> 0 < bs_linger s \<and> bs_linger s \<le> second \<and>
     1 \<le> bs_pipeline s \<and> bs_pipeline s \<le> 8 \<and> bs_delays s \<noteq> [] \<and> (\<forall>d \<in> set (bs_delays s). 0 < d) \<and>
     (bs_max_attempts s = -1 \<or> 1 \<le> bs_max_attempts s) \<and> 0 \<le> bs_min_batch s \<and> bs_min_batch s \<le> bs_max s \<and>
     (0 < bs_min_batch s \<longleftrightarrow> 0 < bs_linger_max s) \<and> 0 \<le> bs_linger_max s \<and> 0 \<le> bs_replicas s"

lemma resolve_delays_ok: "resolve_delays ds = Inr r \<Longrightarrow> r \<noteq> [] \<and> (\<forall>d \<in> set r. 0 < d)"
  by (auto simp: resolve_delays_def default_nak_delays_def list_ex_iff split: if_splits)

lemma resolve_min_batch_ok:
  "resolve_min_batch env opts mx = Inr (mb, lm) \<Longrightarrow> 1 \<le> mx \<Longrightarrow>
     0 \<le> mb \<and> mb \<le> mx \<and> (0 < mb \<longleftrightarrow> 0 < lm) \<and> 0 \<le> lm"
  by (auto simp: resolve_min_batch_def split: if_splits)

lemma resolve_batch_ok:
  assumes "resolve_batch env opts = Inr s"
  shows "settings_ok s"
proof -
  obtain mx ling pipe ds att mb lm reps where
    r: "1 \<le> mx" "mx \<le> limit_max" "1 \<le> ling" "ling \<le> limit_linger" "1 \<le> pipe" "pipe \<le> limit_pipeline"
      "resolve_delays (bo_delays opts) = Inr ds" "att \<noteq> 0" "-1 \<le> att"
      "resolve_min_batch env opts mx = Inr (mb, lm)" "0 \<le> reps"
      "s = \<lparr>bs_max = mx, bs_linger = ling, bs_pipeline = pipe, bs_delays = ds, bs_max_attempts = att,
        bs_min_batch = mb, bs_linger_max = lm, bs_replicas = reps\<rparr>"
    using assms by (auto simp: resolve_batch_def split: if_splits)
  show ?thesis using r(1-6,8,9,11) resolve_delays_ok [OF r(7)] resolve_min_batch_ok [OF r(10,1)]
    unfolding r(12) by (auto simp: settings_ok_def limit_max_def limit_linger_def limit_pipeline_def)
qed

lemma validate_batchD:
  assumes "validate_batch c s = Inr c'"
  shows "ccAckPolicy c = AckExplicitPolicy" "validate_filters c = None"
    "ccMaxAckPending c = 0 \<or> ccMaxAckPending c = -1 \<or> max_ack_pending_for (bs_replicas s) (bs_pipeline s) (bs_max s) \<le> ccMaxAckPending c"
    "validate_pinned c (ack_wait_or_default c + idle_poll + bs_linger_max s) = None"
    "0 < bs_linger_max s \<Longrightarrow> bs_linger_max s < go_div (ack_wait_or_default c) 4"
    "0 < ccMaxDeliver c \<Longrightarrow> 0 \<le> bs_max_attempts s \<and> bs_max_attempts s < ccMaxDeliver c"
    "c' = c \<or> c' = c\<lparr>ccMaxAckPending := max_ack_pending_for (bs_replicas s) (bs_pipeline s) (bs_max s)\<rparr>"
  using assms
  by (auto simp: validate_batch_def Let_def ack_wait_or_default_def validate_pinned_def split: option.splits if_splits)

lemma max_ack_pending_one_pod:
  assumes "settings_ok s"
  shows "max_ack_pending_for 0 (bs_pipeline s) (bs_max s) = bs_pipeline s * bs_max s"
proof -
  have "bs_pipeline s * bs_max s \<le> 8 * 256" using assms by (intro mult_mono) (auto simp: settings_ok_def)
  moreover have "0 \<le> bs_pipeline s * bs_max s" using assms by (simp add: settings_ok_def)
  ultimately show ?thesis by (simp add: max_ack_pending_for_def wrap64_id)
qed

section \<open>Retrying\<close>

text \<open>A client whose clock does not go back, and goes on by a sleep at least.\<close>

definition time_goes_on :: "'j js_consumers \<Rightarrow> bool" where
  "time_goes_on js \<longleftrightarrow>
     (\<forall>j n r j'. jc_get js n j = (r, j') \<longrightarrow> jc_now js j \<le> jc_now js j') \<and>
     (\<forall>j c r j'. jc_create js c j = (r, j') \<longrightarrow> jc_now js j \<le> jc_now js j') \<and>
     (\<forall>j c r j'. jc_update js c j = (r, j') \<longrightarrow> jc_now js j \<le> jc_now js j') \<and>
     (\<forall>j d j'. jc_sleep js d j = (None, j') \<longrightarrow> jc_now js j + d \<le> jc_now js j')"

lemma bind_once_time:
  assumes "time_goes_on js" "bind_once js strict cfg j = (r, j')"
  shows "jc_now js j \<le> jc_now js j'"
proof -
  have get: "jc_now js j \<le> jc_now js j'" if "jc_get js n j = (r, j')" for n j r j' using assms(1) that by (auto simp: time_goes_on_def)
  have create: "jc_now js j \<le> jc_now js j'" if "jc_create js c j = (r, j')" for c j r j' using assms(1) that by (auto simp: time_goes_on_def)
  have update: "jc_now js j \<le> jc_now js j'" if "jc_update js c j = (r, j')" for c j r j' using assms(1) that by (auto simp: time_goes_on_def)
  show ?thesis using assms(2)
    by (auto simp: bind_once_def update_keeping_start_def Let_def split: if_splits prod.splits sum.splits dest!: get create update)
qed

lemma bind_attempts_end:
  assumes "time_goes_on js" "retry_first \<le> delay"
  shows "\<exists>y. bind_attempts js cfg deadline delay j = Some y"
  using assms(2)
proof (induction "nat (deadline - jc_now js j)" arbitrary: delay j rule: less_induct)
  case less
  obtain r j1 where b: "bind_once js True cfg j = (r, j1)" by fastforce
  note t1 = bind_once_time [OF assms(1) b]
  show ?case
  proof (cases "\<exists>err j2. r = Inl err \<and> is_transient js err \<and> jc_now js j1 + delay \<le> deadline \<and> jc_sleep js delay j1 = (None, j2)")
    case True
    then obtain err j2 where e: "r = Inl err" "is_transient js err" "jc_now js j1 + delay \<le> deadline" "jc_sleep js delay j1 = (None, j2)"
      by blast
    have "jc_now js j1 + delay \<le> jc_now js j2" using assms(1) e(4) by (simp add: time_goes_on_def)
    moreover have "0 < delay" using less.prems by (simp add: retry_first_def)
    ultimately have "nat (deadline - jc_now js j2) < nat (deadline - jc_now js j)" using t1 e(3) by linarith
    moreover have "retry_first \<le> min (delay * 2) retry_max" using less.prems by (simp add: retry_first_def retry_max_def)
    ultimately obtain y where "bind_attempts js cfg deadline (min (delay * 2) retry_max) j2 = Some y" using less.hyps by blast
    then show ?thesis using b e by (subst bind_attempts.simps) simp
  next
    case False
    then show ?thesis using b by (subst bind_attempts.simps) (auto split: sum.splits option.splits prod.splits)
  qed
qed

section \<open>Where a durable starts\<close>

definition start_of :: "consumer_config \<Rightarrow> int \<times> nat \<times> int option" where
  "start_of c = (ccDeliverPolicy c, ccOptStartSeq c, ccOptStartTime c)"

lemma start_keep [simp]: "start_of (keep_start a c) = start_of a"
  by (simp add: start_of_def keep_start_def)

text \<open>
  A server on which the durable exists, as JetStream documents: a lookup that answers gives it, with its
  start, and an update that is accepted gives the start it was sent.
\<close>

definition durable_exists :: "'j js_consumers \<Rightarrow> string \<Rightarrow> int \<times> nat \<times> int option \<Rightarrow> bool" where
  "durable_exists js name st \<longleftrightarrow>
     (\<forall>j j' c. jc_get js name j = (Inr c, j') \<longrightarrow> start_of c = st) \<and>
     (\<forall>j j' err. jc_get js name j = (Inl err, j') \<longrightarrow> \<not> errors_is err ErrConsumerNotFound) \<and>
     (\<forall>j j' c c'. jc_update js c j = (Inr c', j') \<longrightarrow> start_of c' = start_of c)"

lemma bind_once_start:
  assumes "durable_exists js (consumer_name cfg) st" "consumer_name cfg \<noteq> ''''" "bind_once js strict cfg j = (Inr c, j')"
  shows "start_of c = st"
proof -
  obtain r j1 where g: "jc_get js (consumer_name cfg) j = (r, j1)" by fastforce
  then obtain ex where ex: "r = Inr ex"
    using assms by (cases r) (auto simp: durable_exists_def bind_once_def)
  then have st: "start_of ex = st" using g assms(1) by (simp add: durable_exists_def)
  have up: "start_of c' = start_of c0" if "jc_update js c0 j1 = (Inr c', j2)" for c0 c' j2
    using assms(1) that by (auto simp: durable_exists_def)
  have "update_keeping_start js strict cfg ex j1 = (Inr c, j')" using assms(2,3) g ex by (simp add: bind_once_def)
  then show ?thesis using st up [of "keep_start ex cfg"]
    by (auto simp: update_keeping_start_def split: prod.splits sum.splits if_splits)
qed

lemma bind_attempts_start:
  assumes "bind_attempts js cfg deadline delay j = Some (Inr c, j')"
    and "durable_exists js (consumer_name cfg) st" "consumer_name cfg \<noteq> ''''"
  shows "start_of c = st"
proof -
  have "\<forall>c j'. y = (Inr c, j') \<longrightarrow> durable_exists js (consumer_name cfg) st \<longrightarrow> consumer_name cfg \<noteq> '''' \<longrightarrow> start_of c = st"
    if "bind_attempts js cfg deadline delay j = Some y" for y
  proof (rule bind_attempts.raw_induct
      [where P = "\<lambda>js cfg deadline delay j y. \<forall>c j'. y = (Inr c, j') \<longrightarrow> durable_exists js (consumer_name cfg) st \<longrightarrow>
         consumer_name cfg \<noteq> '''' \<longrightarrow> start_of c = st", OF _ that])
    fix f and js :: "'a js_consumers" and cfg deadline delay j y
    assume ih: "\<And>js cfg deadline delay j y. f js cfg deadline delay j = Some y \<Longrightarrow>
        \<forall>c j'. y = (Inr c, j') \<longrightarrow> durable_exists js (consumer_name cfg) st \<longrightarrow> consumer_name cfg \<noteq> '''' \<longrightarrow> start_of c = st"
      and body: "(case bind_once js True cfg j of
        (Inr bound, j1) \<Rightarrow> Some (Inr bound, j1)
      | (Inl err, j1) \<Rightarrow>
          if \<not> is_transient js err then Some (Inl err, j1)
          else if jc_now js j1 + delay > deadline then Some (Inl (Wrap (Sent ErrBindTransient) err), j1)
          else (case jc_sleep js delay j1 of
             (Some serr, j2) \<Rightarrow> Some (Inl serr, j2)
           | (None, j2) \<Rightarrow> f js cfg deadline (min (delay * 2) retry_max) j2)) = Some y"
    show "\<forall>c j'. y = (Inr c, j') \<longrightarrow> durable_exists js (consumer_name cfg) st \<longrightarrow> consumer_name cfg \<noteq> '''' \<longrightarrow> start_of c = st"
    proof (intro allI impI)
      fix c j' assume y: "y = (Inr c, j')" and d: "durable_exists js (consumer_name cfg) st" "consumer_name cfg \<noteq> ''''"
      obtain r j1 where b: "bind_once js True cfg j = (r, j1)" by fastforce
      show "start_of c = st"
      proof (cases r)
        case (Inr bound)
        then show ?thesis using body b y bind_once_start [OF d] by simp
      next
        case (Inl err)
        then obtain j2 where "f js cfg deadline (min (delay * 2) retry_max) j2 = Some y"
          using body b y by (auto split: if_splits prod.splits option.splits)
        from ih [OF this] show ?thesis using y d by blast
      qed
    qed
  qed
  then show ?thesis using assms by blast
qed

section \<open>Filters\<close>

lemma set_insert_sorted [simp]: "set (insert_sorted x xs) = insert x (set xs)"
  unfolding insert_sorted_def
  by (metis Un_insert_right list.simps(15) set_append takeWhile_dropWhile_id)

lemma set_filters_of: "set (filters_of c) = set (ccFilterSubjects c) \<union> (if ccFilterSubject c = '''' then {} else {ccFilterSubject c})"
proof -
  have "set (foldr insert_sorted xs []) = set xs" for xs by (induction xs) simp_all
  then show ?thesis by (simp add: filters_of_def)
qed

section \<open>Properties\<close>

lemma bind_consumer_filters:
  assumes "bind_consumer js True cfg j = Some (Inr actual, j')"
  shows "set (filters_of actual) = set (filters_of cfg)"
  using assms by (auto simp: bind_consumer_def check_filters_def split: option.splits prod.splits sum.splits if_splits)

lemma validate_batch_filters: "validate_batch c s = Inr c' \<Longrightarrow> filters_of c' = filters_of c"
  using validate_batchD(7) [of c s c'] by (auto simp: filters_of_def)

lemma fit_replicas_filters: "filters_of (fit_replicas c n l) = filters_of c"
  by (simp add: fit_replicas_def filters_of_def Let_def)

lemma new_batch_cases:
  assumes "new_batch js env opts built n l j = Some (Inr c, j')"
  obtains cfg a' where "resolve_batch env opts = Inr (bc_settings c)"
    "validate_batch (fit_replicas built n l) (bc_settings c) = Inr cfg"
    "bind_consumer js (strict_update env (bo_strict opts)) cfg j = Some (Inr (bc_actual c), j')"
    "validate_batch (bc_actual c) (per_pod (bc_settings c)) = Inr a'"
    "bc_max_deliver c = ccMaxDeliver (bc_actual c)" "bc_group c = pinned_group (bc_actual c)"
  using assms by (auto simp: new_batch_def split: if_splits sum.splits option.splits prod.splits)

text \<open>
  C15. A batch consumer that starts is safe to run on the durable the server has, whatever that kept of the
  requested configuration: its numbers are in their ranges, the server lets every loop of the pod hold a
  full batch, it redelivers more often than the consumer counts attempts (so a message reaches its poison
  callback), a wait for a minimum batch fits in a quarter of the acknowledgement wait, a pin outlives a
  fetch, and a strict consumer has the filters it asked for.
\<close>
theorem batch_consumer_fits_durable:
  assumes "new_batch js env opts built n l j = Some (Inr c, j')"
  shows "settings_ok (bc_settings c) \<and> ccAckPolicy (bc_actual c) = AckExplicitPolicy \<and>
    (ccMaxAckPending (bc_actual c) \<in> {0, -1} \<or> bs_pipeline (bc_settings c) * bs_max (bc_settings c) \<le> ccMaxAckPending (bc_actual c)) \<and>
    (0 < ccMaxDeliver (bc_actual c) \<longrightarrow>
      0 < bs_max_attempts (bc_settings c) \<and> bs_max_attempts (bc_settings c) < ccMaxDeliver (bc_actual c)) \<and>
    4 * bs_linger_max (bc_settings c) \<le> ack_wait_or_default (bc_actual c) \<and>
    (ccPriorityPolicy (bc_actual c) = PriorityPinned \<longrightarrow> bc_group c \<noteq> '''' \<and>
      ack_wait_or_default (bc_actual c) + idle_poll + bs_linger_max (bc_settings c) <
        (if ccPinnedTTL (bc_actual c) \<le> 0 then default_pinned_ttl else ccPinnedTTL (bc_actual c))) \<and>
    (strict_update env (bo_strict opts) \<longrightarrow> set (filters_of (bc_actual c)) = set (filters_of built))"
proof -
  let ?s = "bc_settings c" and ?a = "bc_actual c"
  obtain cfg a' where r: "resolve_batch env opts = Inr ?s" "validate_batch (fit_replicas built n l) ?s = Inr cfg"
    "bind_consumer js (strict_update env (bo_strict opts)) cfg j = Some (Inr ?a, j')"
    "validate_batch ?a (per_pod ?s) = Inr a'" "bc_group c = pinned_group ?a"
    by (rule new_batch_cases [OF assms])
  have ok: "settings_ok ?s" by (rule resolve_batch_ok [OF r(1)])
  note v = validate_batchD [OF r(4)]
  have wait: "0 < ack_wait_or_default ?a" by (simp add: ack_wait_or_default_def default_ack_wait_def)
  have "4 * bs_linger_max ?s \<le> ack_wait_or_default ?a"
  proof (cases "0 < bs_linger_max ?s")
    case True
    then have "bs_linger_max ?s < ack_wait_or_default ?a div 4" using v(5) wait by (simp add: per_pod_def go_div_nonneg)
    then show ?thesis by linarith
  qed (use ok wait in \<open>simp add: settings_ok_def\<close>)
  moreover have "ccMaxAckPending ?a \<in> {0, -1} \<or> bs_pipeline ?s * bs_max ?s \<le> ccMaxAckPending ?a"
    using v(3) max_ack_pending_one_pod [OF ok] by (simp add: per_pod_def)
  moreover have "0 < ccMaxDeliver ?a \<longrightarrow> 0 < bs_max_attempts ?s \<and> bs_max_attempts ?s < ccMaxDeliver ?a"
    using v(6) ok by (auto simp: per_pod_def settings_ok_def)
  moreover have "ccPriorityPolicy ?a = PriorityPinned \<longrightarrow> bc_group c \<noteq> '''' \<and>
      ack_wait_or_default ?a + idle_poll + bs_linger_max ?s < (if ccPinnedTTL ?a \<le> 0 then default_pinned_ttl else ccPinnedTTL ?a)"
    using v(4) r(5) by (auto simp: validate_pinned_def pinned_group_def per_pod_def group_name_def Let_def split: if_splits)
  moreover have "strict_update env (bo_strict opts) \<longrightarrow> set (filters_of ?a) = set (filters_of built)"
  proof
    assume "strict_update env (bo_strict opts)"
    then have "bind_consumer js True cfg j = Some (Inr ?a, j')" using r(3) by simp
    from bind_consumer_filters [OF this] show "set (filters_of ?a) = set (filters_of built)"
      by (simp add: validate_batch_filters [OF r(2)] fit_replicas_filters)
  qed
  ultimately show ?thesis using ok v(1) by blast
qed

text \<open>
  Binding ends. On a clock that does not go back and goes on while the client sleeps, binding a durable
  returns, whatever the server answers and however long its transient errors last.
\<close>
theorem bind_returns:
  assumes "time_goes_on js"
  shows "\<exists>r j'. bind_consumer js strict cfg j = Some (r, j')"
proof -
  obtain y where y: "bind_retrying js cfg j = Some y"
    using bind_attempts_end [OF assms order.refl] unfolding bind_retrying_def by blast
  show ?thesis
  proof (cases strict)
    case True
    obtain r j1 where "y = (r, j1)" by fastforce
    then show ?thesis using y True by (cases r) (simp_all add: bind_consumer_def)
  next
    case False
    then show ?thesis by (cases "bind_once js False cfg j") (simp add: bind_consumer_def)
  qed
qed

text \<open>
  C33. Binding keeps the position. A durable that exists keeps its start - its deliver policy, sequence and
  time - when a consumer with another start binds to it, strict or not.
\<close>
theorem bind_keeps_start:
  assumes "bind_consumer js strict cfg j = Some (Inr actual, j')" "consumer_name cfg \<noteq> ''''"
    and "durable_exists js (consumer_name cfg) st"
  shows "start_of actual = st"
proof (cases strict)
  case True
  then have "\<exists>j1. bind_retrying js cfg j = Some (Inr actual, j1)"
    using assms(1) by (auto simp: bind_consumer_def split: option.splits sum.splits prod.splits)
  then show ?thesis using bind_attempts_start [OF _ assms(3,2)] by (auto simp: bind_retrying_def)
next
  case False
  then show ?thesis using assms(1) bind_once_start [OF assms(3,2)] by (auto simp: bind_consumer_def)
qed

text \<open>
  The pending limit covers a rollout. With the replicas given, the limit that is set holds full batches
  of every loop of one and a half times the replicas; for one pod it is exactly what its loops hold.
\<close>
theorem max_ack_pending_covers:
  assumes "settings_ok s" "bs_replicas s \<le> 2 ^ 49"
  shows "(if bs_replicas s = 0 then max_ack_pending_for 0 (bs_pipeline s) (bs_max s) = bs_pipeline s * bs_max s
    else let n = max_ack_pending_for (bs_replicas s) (bs_pipeline s) (bs_max s) in
      3 * bs_replicas s * (bs_pipeline s * bs_max s) \<le> 2 * n \<and> 2 * n \<le> 3 * bs_replicas s * (bs_pipeline s * bs_max s) + 1)"
proof (cases "bs_replicas s = 0")
  case True
  then show ?thesis using max_ack_pending_one_pod [OF assms(1)] by simp
next
  case False
  define p where "p = bs_pipeline s * bs_max s"
  have p: "p \<le> 8 * 256" "0 \<le> p" "0 < bs_replicas s"
    using assms(1) False unfolding p_def by (auto simp: settings_ok_def intro: order.trans [OF mult_mono [of _ 8 _ 256]])
  have "bs_replicas s * p \<le> 2 ^ 49 * 2048" using assms(2) p by (intro mult_mono) simp_all
  moreover have "0 \<le> bs_replicas s * p" using p by simp
  ultimately have "wrap64 (3 * bs_replicas s * p + 1) = 3 * bs_replicas s * p + 1" "0 \<le> 3 * bs_replicas s * p + 1"
    by (simp_all add: wrap64_id algebra_simps)
  moreover have "wrap64 p = p" using p by (simp add: wrap64_id)
  ultimately have "max_ack_pending_for (bs_replicas s) (bs_pipeline s) (bs_max s) = (3 * bs_replicas s * p + 1) div 2"
    using p(3) by (simp add: max_ack_pending_for_def p_def [symmetric] go_div_nonneg Let_def)
  then show ?thesis using False unfolding p_def by (simp add: Let_def) linarith
qed

section \<open>A durable on a server\<close>

definition demo_batch_config :: consumer_config where
  "demo_batch_config = \<lparr>ccName = ''w'', ccDurable = ''w'', ccAckPolicy = AckExplicitPolicy, ccAckWait = 30 * second, ccMaxDeliver = 10,
     ccMaxAckPending = 0, ccFilterSubject = ''a.b'', ccFilterSubjects = [], ccDeliverPolicy = 0, ccOptStartSeq = 0,
     ccOptStartTime = None, ccPriorityPolicy = PriorityNone, ccPriorityGroups = [], ccPinnedTTL = 0, ccReplicas = 0\<rparr>"

text \<open>Its state is the clock; the durable on it starts at message 42.\<close>

definition demo_server :: "int js_consumers" where
  "demo_server = \<lparr>jc_get = (\<lambda>_ j. (Inr (demo_batch_config\<lparr>ccOptStartSeq := 42, ccDeliverPolicy := 3\<rparr>), j)), jc_create = (\<lambda>c j. (Inr c, j)),
     jc_update = (\<lambda>c j. (if j < second then Inl (Sent ErrTimeoutNats) else Inr c, j)), jc_create_or_update = (\<lambda>c j. (Inr c, j)),
     jc_now = id, jc_sleep = (\<lambda>d j. (None, j + d)), jc_http = (\<lambda>_. 400)\<rparr>"

definition demo_batch_opts :: batch_opts where
  "demo_batch_opts = \<lparr>bo_handler_nil = False, bo_nil = False, bo_max = 0, bo_linger = 0, bo_min_batch = 0, bo_linger_max = 0, bo_pipeline = 0,
     bo_replicas = 0, bo_delays = [], bo_max_attempts = 0, bo_strict = True\<rparr>"

definition empty_env :: environment where
  "empty_env = \<lparr>env_lookup = Map.empty, parse_duration = Map.empty\<rparr>"

lemma demo_server_time: "time_goes_on demo_server"
  by (auto simp: time_goes_on_def demo_server_def)

lemma demo_server_durable: "durable_exists demo_server n (3, 42, None)"
  by (auto simp: durable_exists_def demo_server_def start_of_def demo_batch_config_def split: if_splits)

lemma demo_strict [simp]: "strict_update empty_env True"
  by (simp add: strict_update_def empty_env_def getenv_def trim_space_def Let_def)

lemma demo_attempt:
  "bind_attempts demo_server demo_batch_config deadline delay j =
     (if second \<le> j then Some (Inr (demo_batch_config\<lparr>ccOptStartSeq := 42, ccDeliverPolicy := 3\<rparr>), j)
      else if j + delay > deadline then Some (Inl (Wrap (Sent ErrBindTransient) (Sent ErrTimeoutNats)), j)
      else bind_attempts demo_server demo_batch_config deadline (min (delay * 2) retry_max) (j + delay))"
  by (subst bind_attempts.simps)
    (simp add: bind_once_def update_keeping_start_def keep_start_def demo_server_def is_transient_def consumer_name_def
      demo_batch_config_def Let_def)

lemma demo_now: "jc_now demo_server j = j"
  by (simp add: demo_server_def)

lemma demo_bind:
  "bind_consumer demo_server True demo_batch_config 0 =
     Some (Inr (demo_batch_config\<lparr>ccOptStartSeq := 42, ccDeliverPolicy := 3\<rparr>), 1750000000)"
proof -
  have "bind_retrying demo_server demo_batch_config 0 = Some (Inr (demo_batch_config\<lparr>ccOptStartSeq := 42, ccDeliverPolicy := 3\<rparr>), 1750000000)"
    unfolding bind_retrying_def
    by (simp add: demo_attempt retry_first_def retry_max_def retry_window_def demo_now)
  then show ?thesis by (simp add: bind_consumer_def check_filters_def filters_of_def)
qed

theorem bind_keeps_start_witness:
  "\<exists>j'. bind_consumer demo_server True demo_batch_config 0 = Some (Inr (demo_batch_config\<lparr>ccOptStartSeq := 42, ccDeliverPolicy := 3\<rparr>), j') \<and>
     start_of (demo_batch_config\<lparr>ccOptStartSeq := 42, ccDeliverPolicy := 3\<rparr>) = (3, 42, None)"
  using bind_keeps_start [OF demo_bind _ demo_server_durable] demo_bind by (simp add: consumer_name_def demo_batch_config_def)

theorem bind_returns_witness: "\<exists>r j'. bind_consumer demo_server True demo_batch_config 0 = Some (r, j')"
  by (rule bind_returns [OF demo_server_time])

definition demo_resolved :: batch_settings where
  "demo_resolved = \<lparr>bs_max = 16, bs_linger = 5 * millisecond, bs_pipeline = 1, bs_delays = default_nak_delays, bs_max_attempts = 6,
     bs_min_batch = 0, bs_linger_max = 0, bs_replicas = 0\<rparr>"

lemma demo_resolve: "resolve_batch empty_env demo_batch_opts = Inr demo_resolved"
  by (simp add: resolve_batch_def demo_batch_opts_def env_int_def env_duration_def getenv_def empty_env_def trim_space_def chain_def within_def
      resolve_delays_def resolve_min_batch_def default_max_def default_linger_def default_pipeline_def limit_max_def limit_linger_def
      limit_pipeline_def default_nak_delays_def demo_resolved_def)

theorem max_ack_pending_covers_witness: "max_ack_pending_for 0 (bs_pipeline demo_resolved) (bs_max demo_resolved) = 16"
  using max_ack_pending_covers [OF resolve_batch_ok [OF demo_resolve]] by (simp add: demo_resolved_def)

lemma demo_valid:
  "validate_batch (fit_replicas demo_batch_config 1 True) demo_resolved = Inr (demo_batch_config\<lparr>ccMaxAckPending := 16\<rparr>)"
  by (simp add: validate_batch_def fit_replicas_def demo_batch_config_def demo_resolved_def validate_filters_def max_ack_pending_for_def
      wrap64_id ack_wait_or_default_def validate_pinned_def Let_def)

lemma demo_opts: "bo_nil demo_batch_opts = False" "bo_strict demo_batch_opts = True"
  by (simp_all add: demo_batch_opts_def)

lemma demo_second:
  "bind_consumer demo_server True (demo_batch_config\<lparr>ccMaxAckPending := 16\<rparr>) second =
     Some (Inr (demo_batch_config\<lparr>ccMaxAckPending := 16, ccOptStartSeq := 42, ccDeliverPolicy := 3\<rparr>), second)"
  by (simp add: bind_consumer_def bind_retrying_def, subst bind_attempts.simps)
    (simp add: bind_once_def update_keeping_start_def keep_start_def demo_server_def consumer_name_def demo_batch_config_def Let_def
      check_filters_def filters_of_def)

lemma demo_valid_actual:
  "\<exists>x. validate_batch (demo_batch_config\<lparr>ccMaxAckPending := 16, ccOptStartSeq := 42, ccDeliverPolicy := 3\<rparr>) (per_pod demo_resolved) = Inr x"
  by (simp add: validate_batch_def demo_batch_config_def demo_resolved_def per_pod_def validate_filters_def max_ack_pending_for_def
      wrap64_id ack_wait_or_default_def validate_pinned_def Let_def)

theorem batch_consumer_fits_durable_witness:
  "\<exists>c j'. new_batch demo_server empty_env demo_batch_opts demo_batch_config 1 True second = Some (Inr c, j') \<and>
     bs_max_attempts (bc_settings c) < ccMaxDeliver (bc_actual c)"
proof -
  obtain x where "validate_batch (demo_batch_config\<lparr>ccMaxAckPending := 16, ccOptStartSeq := 42, ccDeliverPolicy := 3\<rparr>) (per_pod demo_resolved) = Inr x"
    using demo_valid_actual by blast
  then have "\<exists>c j'. new_batch demo_server empty_env demo_batch_opts demo_batch_config 1 True second = Some (Inr c, j') \<and> ccMaxDeliver (bc_actual c) = 10"
    by (simp add: new_batch_def demo_resolve demo_opts demo_valid demo_second) (simp add: demo_batch_config_def)
  then obtain c j' where c: "new_batch demo_server empty_env demo_batch_opts demo_batch_config 1 True second = Some (Inr c, j')"
    "ccMaxDeliver (bc_actual c) = 10" by blast
  from batch_consumer_fits_durable [OF c(1)] show ?thesis using c by auto
qed

end
