(* ===== verification/Consumer_Process.thy ===== *)
theory Consumer_Process imports Batch_Fetch Consumer_Bind begin

text \<open>
  The plain consumer (\<^verbatim>\<open>consumer/process.go\<close>, \<^verbatim>\<open>deliver.go\<close>,
  \<^verbatim>\<open>poison_frame.go\<close>, \<^verbatim>\<open>nak.go\<close>, \<^verbatim>\<open>pool.go\<close>,
  \<^verbatim>\<open>resolve_opts.go\<close>, \<^verbatim>\<open>idempotency.go\<close>): one message at a time, the
  elements of a frame one after the other, with a bounded number of handlers, and a handler that
  remembers the messages it has handled.
\<close>

section \<open>Options\<close>

abbreviation errHandlerPanic :: sentinel where "errHandlerPanic \<equiv> Sentinel ''consumer: panic''"

text \<open>
  The user's code, arbitrary functions of the state. A middleware also maps contexts, which are not
  modelled.
\<close>

record 'z plain_opts =
  before :: "(msg \<Rightarrow> 'z bus_scheme \<Rightarrow> unit ret \<times> 'z bus_scheme) list"
  phandler :: "msg \<Rightarrow> 'z bus_scheme \<Rightarrow> unit ret \<times> 'z bus_scheme"
  after :: "(msg \<Rightarrow> 'z bus_scheme \<Rightarrow> unit ret \<times> 'z bus_scheme) list"
  plain_poison :: "(msg \<Rightarrow> goerr \<Rightarrow> 'z bus_scheme \<Rightarrow> unit ret \<times> 'z bus_scheme) option"
  nak_backoff :: "duration list"
  max_in_flight :: int
  in_progress_every :: duration

definition max_in_flight_from_env :: "environment \<Rightarrow> int" where
  "max_in_flight_from_env env =
     (let raw = trim_space (getenv env ''BROKERFX_CONSUMER_MAX_IN_FLIGHT'') in
      if raw = '''' then 0
      else case parse_int raw of None \<Rightarrow> 0 | Some v \<Rightarrow> if v < 0 then 0 else v)"

fun parse_delays :: "environment \<Rightarrow> string list \<Rightarrow> duration list option" where
  "parse_delays env [] = Some []"
| "parse_delays env (p # ps) =
     (case parse_duration env (trim_space p) of
        None \<Rightarrow> None
      | Some d \<Rightarrow> if d \<le> 0 then None else map_option ((#) d) (parse_delays env ps))"

definition nak_backoff_from_env :: "environment \<Rightarrow> duration list" where
  "nak_backoff_from_env env =
     (let raw = map to_lower (trim_space (getenv env ''BROKERFX_CONSUMER_NAK_BACKOFF'')) in
      if raw \<in> {'''', ''0'', ''false'', ''off'', ''no''} then []
      else if raw \<in> {''1'', ''true'', ''on'', ''yes''} then default_nak_delays
      else case parse_delays env (split_at CHR '','' raw) of None \<Rightarrow> [] | Some ds \<Rightarrow> ds)"

definition pull_expiry :: duration where "pull_expiry = 30 * second"

definition resolve_plain ::
  "environment \<Rightarrow> consumer_config option \<Rightarrow> 'z plain_opts \<Rightarrow> goerr + 'z plain_opts" where
  "resolve_plain env built o' =
     (if max_in_flight o' < 0 then Inl (Sent ErrInvalidOpts)
      else if list_ex (\<lambda>d. d \<le> 0) (nak_backoff o') then Inl (Sent ErrInvalidOpts)
      else case (case built of None \<Rightarrow> None | Some cfg \<Rightarrow>
          (case validate_filters cfg of Some err \<Rightarrow> Some err | None \<Rightarrow> validate_pinned cfg pull_expiry)) of
        Some err \<Rightarrow> Inl (Wrap (Sent ErrInvalidOpts) err)
      | None \<Rightarrow>
          let o1 = (if max_in_flight o' = 0 then o'\<lparr>max_in_flight := max_in_flight_from_env env\<rparr> else o')
          in Inr (if nak_backoff o1 = [] then o1\<lparr>nak_backoff := nak_backoff_from_env env\<rparr> else o1))"

definition min_heartbeat :: duration where "min_heartbeat = 100 * millisecond"
definition in_progress_interval :: duration where "in_progress_interval = 5 * second"

definition heartbeat_for_ack_wait :: "duration \<Rightarrow> duration" where
  "heartbeat_for_ack_wait ack_wait =
     (let every = go_div ack_wait 3 in
      if ack_wait \<le> 0 \<or> every \<ge> in_progress_interval then in_progress_interval
      else if every < min_heartbeat then min_heartbeat else every)"

definition plain_heartbeat :: "'z plain_opts \<Rightarrow> duration" where
  "plain_heartbeat o' = (if in_progress_every o' > 0 then in_progress_every o' else in_progress_interval)"

definition pull_max_messages :: "int \<Rightarrow> int" where
  "pull_max_messages n = (if n > 0 then 1 else 50)"

section \<open>One message\<close>

definition plain_nak_delay :: "duration list \<Rightarrow> nat \<Rightarrow> duration" where
  "plain_nak_delay ds n =
     (if n \<le> 1 then ds ! 0 else if n - 1 \<ge> length ds then ds ! (length ds - 1) else ds ! (n - 1))"

definition plain_nak_call :: "'z plain_opts \<Rightarrow> nat \<Rightarrow> call" where
  "plain_nak_call o' n =
     (if nak_backoff o' = [] then CallNak else CallNakWithDelay (plain_nak_delay (nak_backoff o') n))"

definition plain_nak :: "'z plain_opts \<Rightarrow> broker \<Rightarrow> msg \<Rightarrow> 'z bus_scheme \<Rightarrow> 'z bus_scheme" where
  "plain_nak o' br m b = snd (msg_call br m (plain_nak_call o' (num_delivered br b m)) b)"

fun run_middleware ::
  "(msg \<Rightarrow> 'z bus_scheme \<Rightarrow> unit ret \<times> 'z bus_scheme) list \<Rightarrow> msg \<Rightarrow> 'z bus_scheme \<Rightarrow> unit ret \<times> 'z bus_scheme" where
  "run_middleware [] m b = (Returned (), b)"
| "run_middleware (f # fs) m b =
     (case f m b of
        (Returned _, b1) \<Rightarrow> run_middleware fs m b1
      | (Failed err, b1) \<Rightarrow> (Failed err, b1)
      | (Panicked, b1) \<Rightarrow> (Panicked, b1))"

definition process_plain :: "'z plain_opts \<Rightarrow> broker \<Rightarrow> msg \<Rightarrow> 'z bus_scheme \<Rightarrow> 'z bus_scheme" where
  "process_plain o' br m b =
     (case run_middleware (before o') m b of
        (Returned _, b1) \<Rightarrow>
          (case phandler o' m b1 of
             (Returned _, b2) \<Rightarrow>
               (case run_middleware (after o') m (snd (msg_call br m CallAck b2)) of
                  (Panicked, b3) \<Rightarrow> plain_nak o' br m b3
                | (Returned _, b3) \<Rightarrow> b3
                | (Failed _, b3) \<Rightarrow> b3)
           | (Failed _, b2) \<Rightarrow> plain_nak o' br m b2
           | (Panicked, b2) \<Rightarrow> plain_nak o' br m b2)
      | (Failed _, b1) \<Rightarrow> plain_nak o' br m b1
      | (Panicked, b1) \<Rightarrow> plain_nak o' br m b1)"

definition poison_frame :: "'z plain_opts \<Rightarrow> broker \<Rightarrow> nat \<Rightarrow> goerr \<Rightarrow> 'z bus_scheme \<Rightarrow> 'z bus_scheme" where
  "poison_frame o' br m reason b =
     (case plain_poison o' of
        None \<Rightarrow> process_plain o' br (Raw m) b
      | Some f \<Rightarrow>
          (case f (Raw m) reason b of
             (Returned _, b1) \<Rightarrow> snd (msg_call br (Raw m) CallTerm b1)
           | (Failed _, b1) \<Rightarrow> plain_nak o' br (Raw m) b1
           | (Panicked, b1) \<Rightarrow> plain_nak o' br (Raw m) b1))"

definition deliver ::
  "'z plain_opts \<Rightarrow> broker \<Rightarrow> msgpack \<Rightarrow> (nat \<Rightarrow> content) \<Rightarrow> nat \<Rightarrow> 'z bus_scheme \<Rightarrow> 'z bus_scheme" where
  "deliver o' br mp contents m b =
     (if \<not> is_frame (contents m) then process_plain o' br (Raw m) b
      else case unpack mp contents (plain_heartbeat o') m b of
        (Inl err, b1) \<Rightarrow> poison_frame o' br m err b1
      | (Inr elems, b1) \<Rightarrow> fold (process_plain o' br) elems b1)"

text \<open>The errors of the subscription: whether the consumer is told that it is gone.\<close>

definition consume_err_fatal :: "goerr \<Rightarrow> bool" where
  "consume_err_fatal err \<longleftrightarrow>
     \<not> errors_is err ErrPinIDMismatch \<and> (errors_is err ErrConsumerDeleted \<or> errors_is err ErrConsumerNotFound)"

section \<open>Bounded dispatch\<close>

text \<open>
  The pool: its slots are taken by handlers and, when it drains, by the drain. \<open>handlers\<close> run,
  \<open>parked\<close> messages wait for a slot, \<open>returned\<close> were given back without being handled.
\<close>

record pool =
  pool_size :: nat
  handlers_running :: nat
  held :: nat
  stopped :: bool
  parked :: nat
  given_back :: nat

definition slots_used :: "pool \<Rightarrow> nat" where
  "slots_used p = handlers_running p + held p"

definition new_pool :: "int \<Rightarrow> pool option" where
  "new_pool n = (if n \<le> 0 then None
     else Some \<lparr>pool_size = nat n, handlers_running = 0, held = 0, stopped = False, parked = 0, given_back = 0\<rparr>)"

definition try_acquire :: "pool \<Rightarrow> bool \<times> pool" where
  "try_acquire p =
     (if slots_used p < pool_size p then (True, p\<lparr>handlers_running := handlers_running p + 1\<rparr>) else (False, p))"

text \<open>
  \<open>Arrives\<close> is \<open>dispatch\<close>; \<open>GetsSlot\<close> and \<open>GivesUp\<close> are the two cases of
  \<open>acquire\<close>; \<open>Returns\<close> the end of a handler; \<open>Stops\<close> and \<open>Takes\<close> are \<open>wait\<close>.
\<close>

datatype pool_act = Arrives | GetsSlot | GivesUp | Returns | Stops | Takes

fun pool_step :: "pool_act \<Rightarrow> pool \<Rightarrow> pool option" where
  "pool_step Arrives p = (let (ok, p1) = try_acquire p in Some (if ok then p1 else p1\<lparr>parked := parked p1 + 1\<rparr>))"
| "pool_step GetsSlot p =
     (if 0 < parked p \<and> slots_used p < pool_size p
      then Some (p\<lparr>parked := parked p - 1, handlers_running := handlers_running p + 1\<rparr>) else None)"
| "pool_step GivesUp p =
     (if 0 < parked p \<and> stopped p then Some (p\<lparr>parked := parked p - 1, given_back := given_back p + 1\<rparr>) else None)"
| "pool_step Returns p =
     (if 0 < handlers_running p then Some (p\<lparr>handlers_running := handlers_running p - 1\<rparr>) else None)"
| "pool_step Stops p = Some (p\<lparr>stopped := True\<rparr>)"
| "pool_step Takes p =
     (if stopped p \<and> held p < pool_size p \<and> slots_used p < pool_size p then Some (p\<lparr>held := held p + 1\<rparr>) else None)"

fun pool_run :: "pool_act list \<Rightarrow> pool \<Rightarrow> pool option" where
  "pool_run [] p = Some p"
| "pool_run (a # as) p = (case pool_step a p of None \<Rightarrow> None | Some p' \<Rightarrow> pool_run as p')"

text \<open>\<open>wait\<close> returns no error once it holds every slot.\<close>

definition drained_pool :: "pool \<Rightarrow> bool" where
  "drained_pool p \<longleftrightarrow> pool_size p \<le> held p"

section \<open>Handling each message once\<close>

definition default_idempotency_key :: "(string \<Rightarrow> string) \<Rightarrow> string \<Rightarrow> string \<Rightarrow> string \<Rightarrow> string" where
  "default_idempotency_key sha header_id subject data = (if header_id \<noteq> '''' then header_id else sha (subject @ data))"

text \<open>
  The database: the keys that were claimed, the state of the business, and the messages whose handler was
  committed. A transaction that fails, or whose commit fails, leaves it as it was.
\<close>

record ('m, 'd) dedup_db =
  claimed_keys :: "string list"
  business_state :: 'd
  handled :: "'m list"

text \<open>What the database does to a delivery: the claim fails, or the commit, or neither.\<close>

datatype tx_fate = ClaimFails goerr | CommitFails goerr | Commits

definition claim_message :: "string \<Rightarrow> ('m, 'd) dedup_db \<Rightarrow> bool \<times> ('m, 'd) dedup_db" where
  "claim_message key db =
     (if key \<in> set (claimed_keys db) then (False, db) else (True, db\<lparr>claimed_keys := claimed_keys db @ [key]\<rparr>))"

definition with_idempotency ::
  "('m \<Rightarrow> string) \<Rightarrow> ('m \<Rightarrow> 'd \<Rightarrow> goerr option \<times> 'd) \<Rightarrow> tx_fate \<Rightarrow> 'm \<Rightarrow> ('m, 'd) dedup_db
     \<Rightarrow> goerr option \<times> ('m, 'd) dedup_db" where
  "with_idempotency key handler fate m db =
     (case fate of
        ClaimFails err \<Rightarrow> (Some err, db)
      | _ \<Rightarrow>
          let (fresh_one, db1) = claim_message (key m) db;
              (err, db2) = (if \<not> fresh_one then (None, db1)
                else let (herr, d) = handler m (business_state db1)
                  in (herr, db1\<lparr>business_state := d, handled := handled db1 @ [m]\<rparr>))
          in case err of
               Some x \<Rightarrow> (Some x, db)
             | None \<Rightarrow> (case fate of CommitFails x \<Rightarrow> (Some x, db) | _ \<Rightarrow> (None, db2)))"

fun deliveries ::
  "('m \<Rightarrow> string) \<Rightarrow> ('m \<Rightarrow> 'd \<Rightarrow> goerr option \<times> 'd) \<Rightarrow> (tx_fate \<times> 'm) list \<Rightarrow> ('m, 'd) dedup_db
     \<Rightarrow> goerr option list \<times> ('m, 'd) dedup_db" where
  "deliveries key handler [] db = ([], db)"
| "deliveries key handler ((fate, m) # rest) db =
     (let (err, db1) = with_idempotency key handler fate m db; (errs, db2) = deliveries key handler rest db1
      in (err # errs, db2))"


section \<open>Settling\<close>

text \<open>User code that leaves the settling to the consumer, and middleware after it that does not panic.\<close>

definition leaves_settling :: "'z plain_opts \<Rightarrow> bool" where
  "leaves_settling o' \<longleftrightarrow>
     (\<forall>f \<in> set (before o') \<union> set (after o') \<union> {phandler o'}. \<forall>m b. snd (f m b) = b) \<and>
     (\<forall>f \<in> set (after o'). \<forall>m b. fst (f m b) \<noteq> Panicked) \<and>
     (\<forall>f. plain_poison o' = Some f \<longrightarrow> (\<forall>m e b. snd (f m e b) = b))"

lemma run_middleware_leaves:
  "\<forall>f \<in> set fs. \<forall>m b. snd (f m b) = b \<Longrightarrow> snd (run_middleware fs m b) = b"
proof (induction fs arbitrary: b)
  case (Cons f fs)
  obtain r b1 where f: "f m b = (r, b1)" by fastforce
  then have "b1 = b" using Cons.prems by (metis list.set_intros(1) snd_conv)
  then show ?case using Cons f by (cases r) simp_all
qed simp

lemma run_middleware_calm:
  "\<forall>f \<in> set fs. \<forall>m b. fst (f m b) \<noteq> Panicked \<Longrightarrow> fst (run_middleware fs m b) \<noteq> Panicked"
proof (induction fs arbitrary: b)
  case (Cons f fs)
  obtain r b1 where f: "f m b = (r, b1)" by fastforce
  then have "r \<noteq> Panicked" using Cons.prems by (metis list.set_intros(1) fst_conv)
  then show ?case using Cons f by (cases r) simp_all
qed simp

text \<open>Whether a message passed its middleware and its handler.\<close>

definition succeeds_on :: "'z plain_opts \<Rightarrow> msg \<Rightarrow> 'z bus_scheme \<Rightarrow> bool" where
  "succeeds_on o' m b \<longleftrightarrow>
     (\<exists>u b1 v b2. run_middleware (before o') m b = (Returned u, b1) \<and> phandler o' m b1 = (Returned v, b2))"

definition plain_call :: "'z plain_opts \<Rightarrow> broker \<Rightarrow> msg \<Rightarrow> 'z bus_scheme \<Rightarrow> call" where
  "plain_call o' br m b = (if succeeds_on o' m b then CallAck else plain_nak_call o' (num_delivered br b m))"

lemma plain_call_simps [simp]:
  "plain_call o' br m b \<noteq> CallInProgress" "plain_call o' br m b \<noteq> CallDoubleAck"
  "plain_call o' br m b = CallAck \<longleftrightarrow> succeeds_on o' m b"
  "nak_delay (plain_call o' br m b) = None \<longleftrightarrow> succeeds_on o' m b"
  by (simp_all add: plain_call_def plain_nak_call_def)

lemma process_plain_call:
  assumes "leaves_settling o'"
  shows "process_plain o' br m b = snd (msg_call br m (plain_call o' br m b) b)"
proof -
  obtain r b1 where b1: "run_middleware (before o') m b = (r, b1)" by fastforce
  have same1: "b1 = b" using run_middleware_leaves [of "before o'" m b] assms b1 by (auto simp: leaves_settling_def)
  obtain q b2 where b2: "phandler o' m b = (q, b2)" by fastforce
  have same2: "b2 = b" using assms b2 unfolding leaves_settling_def by (metis UnCI insertI1 snd_conv)
  obtain s b3 where b3: "run_middleware (after o') m (snd (msg_call br m CallAck b)) = (s, b3)" by fastforce
  have same3: "b3 = snd (msg_call br m CallAck b)"
    using run_middleware_leaves [of "after o'" m "snd (msg_call br m CallAck b)"] assms b3 by (auto simp: leaves_settling_def)
  have calm: "s \<noteq> Panicked"
    using run_middleware_calm [of "after o'" m "snd (msg_call br m CallAck b)"] assms b3 by (auto simp: leaves_settling_def)
  show ?thesis using b1 b2 b3 same1 same2 same3 calm
    by (cases r; cases q; cases s) (auto simp: process_plain_def plain_call_def succeeds_on_def plain_nak_def)
qed

text \<open>The calls that processing the messages \<open>ms\<close> comes to.\<close>

fun plain_calls :: "'z plain_opts \<Rightarrow> broker \<Rightarrow> msg list \<Rightarrow> 'z bus_scheme \<Rightarrow> call list" where
  "plain_calls o' br [] b = []"
| "plain_calls o' br (m # ms) b = plain_call o' br m b # plain_calls o' br ms (snd (msg_call br m (plain_call o' br m b) b))"

lemma length_plain_calls [simp]: "length (plain_calls o' br ms b) = length ms"
  by (induction ms arbitrary: b) simp_all

lemma plain_calls_kinds: "cl \<in> set (plain_calls o' br ms b) \<Longrightarrow> cl \<noteq> CallInProgress \<and> cl \<noteq> CallDoubleAck"
  by (induction ms arbitrary: b) auto

lemma process_all_calls:
  "leaves_settling o' \<Longrightarrow> fold (process_plain o' br) ms b = do_calls br (zip ms (plain_calls o' br ms b)) b"
  by (induction ms arbitrary: b) (simp_all add: process_plain_call)

lemma on_frame_elements: "length cs = length is \<Longrightarrow> on_frame fi (zip (map (Elem fi) is) cs) = zip is cs"
  by (induction "is" cs rule: list_induct2') simp_all

text \<open>One call on every element of a new frame closes its broker message, once.\<close>

lemma fresh_frame_closes:
  assumes "fresh_frame n (frames b ! fi)" "fi < length (frames b)" "0 < n" "length cs = n" "\<forall>cl \<in> set cs. cl \<noteq> CallInProgress"
  shows "closings (raw (frames b ! fi)) (calls (do_calls br (zip (map (Elem fi) [0..<n]) cs) b)) =
    closings (raw (frames b ! fi)) (calls b) @ [closing_call (zip [0..<n] cs)]"
proof -
  let ?ops = "zip (map (Elem fi) [0..<n]) cs"
  have on: "on_frame fi ?ops = zip [0..<n] cs" by (rule on_frame_elements) (simp add: assms(4))
  have fsts: "map fst (zip [0..<n] cs) = [0..<n]" using assms(4) by simp
  have all: "foldl count_settlement [] (zip [0..<n] cs) = zip [0..<n] cs"
    using foldl_all_count [of "zip [0..<n] cs" "[]"] assms(5) fsts by (auto dest: set_zip_rightD)
  have counted: "counted (zip [0..<n] cs) = {..<n}"
    using arg_cong [OF fsts, of set] by (simp add: counted_def atLeast0LessThan)
  have ne: "{} \<noteq> {..<n}" using assms(3) by auto
  have "frame_apart fi n b (fst ` set ?ops)" by (force simp: frame_apart_def dest: set_zip_leftD)
  from do_calls_abs [OF fresh_frame_abs [OF assms(1)] assms(2) this, of br] show ?thesis
    using ne by (simp add: Let_def on all counted)
qed

lemma closing_call_acks:
  assumes "\<forall>(i, c) \<in> set s. c \<noteq> CallDoubleAck"
  shows "closing_call s = CallAck \<longleftrightarrow> (\<forall>(i, c) \<in> set s. nak_delay c = None)"
proof -
  have "delays_of s = [] \<longleftrightarrow> (\<forall>(i, c) \<in> set s. nak_delay c = None)"
    by (induction s) (auto simp: delays_of_def map_filter_simps split: option.splits)
  moreover have "s \<noteq> [] \<Longrightarrow> snd (last s) \<noteq> CallDoubleAck" using assms last_in_set [of s] by (cases "last s") force
  ultimately show ?thesis by (auto simp: closing_call_def Let_def)
qed


text \<open>User code whose answer is a property of the message.\<close>

definition answers :: "'z plain_opts \<Rightarrow> (msg \<Rightarrow> bool) \<Rightarrow> bool" where
  "answers o' ok \<longleftrightarrow> (\<forall>m b. succeeds_on o' m b \<longleftrightarrow> ok m)"

lemma plain_calls_answers:
  assumes "answers o' ok"
  shows "(\<forall>cl \<in> set (plain_calls o' br ms b). nak_delay cl = None) \<longleftrightarrow> (\<forall>m \<in> set ms. ok m)"
  using assms by (induction ms arbitrary: b) (simp_all add: answers_def)

lemma process_plain_closes:
  assumes "leaves_settling o'"
  shows "closings k (calls (process_plain o' br (Raw m) b)) =
    closings k (calls b) @ (if k = m then [plain_call o' br (Raw m) b] else [])"
  by (auto simp: process_plain_call [OF assms] send_def Let_def closings_def)

lemma raw_call_closes:
  "cl \<noteq> CallInProgress \<Longrightarrow> closings k (calls (snd (msg_call br (Raw m) cl b))) =
    closings k (calls b) @ (if k = m then [cl] else [])"
  by (simp add: send_def Let_def closings_def)

lemma plain_nak_closes:
  "closings k (calls (plain_nak o' br (Raw m) b)) =
    closings k (calls b) @ (if k = m then [plain_nak_call o' (num_delivered br b (Raw m))] else [])"
  by (simp add: plain_nak_def raw_call_closes plain_nak_call_def del: msg_call.simps)

lemma plain_nak_call_kinds: "plain_nak_call o' n \<noteq> CallAck"
  by (simp add: plain_nak_call_def)

lemma poison_frame_closes:
  assumes "leaves_settling o'" "plain_poison o' = Some f"
  shows "\<exists>cl. cl \<noteq> CallAck \<and>
    (\<forall>k. closings k (calls (poison_frame o' br m e b)) = closings k (calls b) @ (if k = m then [cl] else []))"
proof -
  obtain r b1 where f: "f (Raw m) e b = (r, b1)" by fastforce
  have "b1 = b" using assms f unfolding leaves_settling_def by (metis snd_conv)
  then show ?thesis
    by (cases r) (auto simp: poison_frame_def assms(2) f raw_call_closes plain_nak_closes simp del: msg_call.simps
        intro!: exI [of _ CallTerm] exI [of _ "plain_nak_call o' (num_delivered br b (Raw m))"] plain_nak_call_kinds)
qed

lemma frame_elements_close:
  assumes "leaves_settling o'" "answers o' ok" "fresh_frame n (frames b ! fi)" "fi < length (frames b)" "0 < n"
  shows "\<exists>cl. (cl = CallAck \<longleftrightarrow> (\<forall>i < n. ok (Elem fi i))) \<and>
    (\<forall>k. closings k (calls (fold (process_plain o' br) (map (Elem fi) [0..<n]) b)) =
       closings k (calls b) @ (if k = raw (frames b ! fi) then [cl] else []))"
proof -
  let ?ms = "map (Elem fi) [0..<n]"
  let ?cs = "plain_calls o' br ?ms b"
  let ?cl = "closing_call (zip [0..<n] ?cs)"
  have closes: "closings k (calls (do_calls br (zip ?ms ?cs) b)) =
      closings k (calls b) @ (if k = raw (frames b ! fi) then [?cl] else [])" for k
  proof (cases "k = raw (frames b ! fi)")
    case True
    then show ?thesis using fresh_frame_closes [OF assms(3-5), of ?cs br] by (auto dest: plain_calls_kinds)
  next
    case False
    then have "\<forall>m \<in> fst ` set (zip ?ms ?cs). raw_of b m \<noteq> k"
      by (force dest: set_zip_leftD)
    then show ?thesis using False by (simp add: do_calls_closings_other)
  qed
  have "?cl = CallAck \<longleftrightarrow> (\<forall>cl \<in> set ?cs. nak_delay cl = None)"
  proof -
    have "set ?cs = snd ` set (zip [0..<n] ?cs)" by (metis length_map length_plain_calls length_upt list.set_map map_snd_zip)
    moreover have "\<forall>(i, c) \<in> set (zip [0..<n] ?cs). c \<noteq> CallDoubleAck"
      by (auto dest: set_zip_rightD plain_calls_kinds)
    ultimately show ?thesis by (auto simp: closing_call_acks)
  qed
  then have "?cl = CallAck \<longleftrightarrow> (\<forall>i < n. ok (Elem fi i))" by (auto simp: plain_calls_answers [OF assms(2)])
  then show ?thesis using closes by (auto simp: process_all_calls [OF assms(1)] intro!: exI [of _ ?cl])
qed

lemma unpack_not_frame: "\<not> is_frame (contents m) \<Longrightarrow> unpack mp contents hb m b = (Inr [Raw m], b)"
  by (simp add: unpack_def)

text \<open>
  C10. A delivery settles its message once. When the user's code leaves the settling to the consumer, a
  delivered broker message is closed exactly once and no other message is touched, whether it is a plain
  message, a frame, or a frame that cannot be unpacked, and it is acknowledged exactly when every message
  in it passed its middleware and its handler; a frame that cannot be unpacked is never acknowledged when
  there is a poison handler.
\<close>

theorem plain_deliver_closes_once:
  assumes "leaves_settling o'" "answers o' ok"
  shows "\<exists>cl. (\<forall>k. closings k (calls (deliver o' br mp contents m b)) =
      closings k (calls b) @ (if k = m then [cl] else [])) \<and>
    (cl = CallAck \<longleftrightarrow>
      (case fst (unpack mp contents (plain_heartbeat o') m b) of
         Inr ms \<Rightarrow> \<forall>e \<in> set ms. ok e
       | Inl e \<Rightarrow> plain_poison o' = None \<and> ok (Raw m)))"
proof -
  obtain r b1 where u: "unpack mp contents (plain_heartbeat o') m b = (r, b1)" by fastforce
  have one: "closings k (calls (process_plain o' br (Raw m) b)) =
      closings k (calls b) @ (if k = m then [plain_call o' br (Raw m) b] else [])" for k
    by (rule process_plain_closes [OF assms(1)])
  have ack: "plain_call o' br (Raw m) b = CallAck \<longleftrightarrow> ok (Raw m)"
    using assms(2) by (simp add: answers_def)
  from u show ?thesis
  proof (cases rule: unpack_cases)
    case (bad e)
    then have "is_frame (contents m)" using u unpack_not_frame [of contents m mp "plain_heartbeat o'" b] by auto
    then have d: "deliver o' br mp contents m b = poison_frame o' br m e b" using u bad by (simp add: deliver_def)
    show ?thesis
    proof (cases "plain_poison o'")
      case None
      then have "deliver o' br mp contents m b = process_plain o' br (Raw m) b" by (simp add: d poison_frame_def)
      then show ?thesis using one ack u bad None by (intro exI [of _ "plain_call o' br (Raw m) b"]) simp
    next
      case (Some f)
      then show ?thesis using poison_frame_closes [OF assms(1) Some, of br m e b] u bad d by auto
    qed
  next
    case plain
    then have "deliver o' br mp contents m b = process_plain o' br (Raw m) b" using u by (simp add: deliver_def)
    then show ?thesis using one ack u plain by (intro exI [of _ "plain_call o' br (Raw m) b"]) simp
  next
    case (framed n f)
    then have "is_frame (contents m)" using u unpack_not_frame [of contents m mp "plain_heartbeat o'" b] by auto
    then have d: "deliver o' br mp contents m b = fold (process_plain o' br) (map (Elem (length (frames b))) [0..<n]) b1"
      using u framed by (simp add: deliver_def)
    have "fresh_frame n (frames b1 ! length (frames b))" "length (frames b) < length (frames b1)"
      "raw (frames b1 ! length (frames b)) = m" "calls b1 = calls b" using framed by simp_all
    with frame_elements_close [OF assms this(1,2) framed(1), of br] show ?thesis
      unfolding d using u framed by auto
  qed
qed


definition demo_plain :: "unit plain_opts" where
  "demo_plain = \<lparr>before = [\<lambda>m b. (Returned (), b)],
     phandler = (\<lambda>m b. (if m = Elem 0 1 then Failed (Sent errHandlerPanic) else Returned (), b)),
     after = [], plain_poison = None, nak_backoff = [], max_in_flight = 0, in_progress_every = 0\<rparr>"

lemma demo_plain_quiet:
  "leaves_settling demo_plain" "answers demo_plain (\<lambda>m. m \<noteq> Elem 0 1)"
  by (simp_all add: leaves_settling_def answers_def succeeds_on_def demo_plain_def)

definition demo_frame_contents :: "nat \<Rightarrow> content" where
  "demo_frame_contents m = \<lparr>csubject = ''s'',
     cheaders = [HeaderVersion \<mapsto> [Version], HeaderCount \<mapsto> [''2'']], cdata = join [[3], [4]]\<rparr>"

definition empty_bus :: bus where "empty_bus = \<lparr>calls = [], ticks = 0, frames = []\<rparr>"

lemma demo_unpack:
  "fst (unpack demo_msgpack demo_frame_contents hb 7 empty_bus) = Inr [Elem 0 0, Elem 0 1]"
proof -
  have "decode demo_msgpack (join [[3], [4]]) = Inr [demo_element 3, demo_element 4]"
    by (rule decode_joined) (simp_all add: reads_arrays_def reads_back_def demo_msgpack_def demo_element_def)
  moreover have "itoa 0 = ''0''" "itoa 1 = ''1''" "itoa (Suc (Suc 0)) = ''2''" by code_simp+
  ultimately show ?thesis by (simp add: unpack_def demo_frame_contents_def is_frame_def header_get_def HeaderVersion_def
        HeaderCount_def Version_def demo_element_def empty_bus_def Let_def upt_rec)
qed

text \<open>A frame of two, the second of which fails: its broker message comes back.\<close>

theorem plain_deliver_closes_once_witness:
  "\<exists>cl. closings 7 (calls (deliver demo_plain demo_broker demo_msgpack demo_frame_contents 7 empty_bus)) = [cl] \<and>
     cl \<noteq> CallAck"
  using plain_deliver_closes_once [OF demo_plain_quiet, of demo_broker demo_msgpack demo_frame_contents 7 empty_bus]
  by (auto simp: demo_unpack closings_def) (simp_all add: empty_bus_def)

section \<open>The pool\<close>

text \<open>Slots are never oversold.\<close>

definition pool_ok :: "pool \<Rightarrow> bool" where
  "pool_ok p \<longleftrightarrow> slots_used p \<le> pool_size p \<and> (0 < held p \<longrightarrow> stopped p)"

lemma pool_step_ok:
  assumes "pool_ok p" "pool_step a p = Some p'"
  shows "pool_ok p' \<and> pool_size p' = pool_size p"
  using assms by (cases a) (auto simp: pool_ok_def slots_used_def try_acquire_def Let_def split: if_splits)

lemma pool_run_ok:
  "pool_ok p \<Longrightarrow> pool_run as p = Some p' \<Longrightarrow> pool_ok p' \<and> pool_size p' = pool_size p"
  by (induction as p rule: pool_run.induct) (auto dest: pool_step_ok split: option.splits)

lemma pool_run_append: "pool_run (as @ bs) p = (case pool_run as p of None \<Rightarrow> None | Some p' \<Rightarrow> pool_run bs p')"
  by (induction as p rule: pool_run.induct) (auto split: option.splits)

text \<open>What entered the pool is running, parked, given back or finished.\<close>

definition in_pool :: "pool \<Rightarrow> nat" where
  "in_pool p = handlers_running p + parked p + given_back p"

lemma pool_step_count:
  "pool_step a p = Some p' \<Longrightarrow>
    in_pool p' + (if a = Returns then 1 else 0) = in_pool p + (if a = Arrives then 1 else 0)"
  by (cases a) (auto simp: in_pool_def try_acquire_def Let_def split: if_splits)

lemma pool_run_count:
  "pool_run as p = Some p' \<Longrightarrow> in_pool p' + count_list as Returns = in_pool p + count_list as Arrives"
  by (induction as p rule: pool_run.induct) (auto dest!: pool_step_count split: option.splits if_splits)

text \<open>A drain that keeps taking slots as handlers return ends.\<close>

lemma pool_drains:
  assumes "pool_ok p" "stopped p"
  shows "\<exists>p'. pool_run (replicate (handlers_running p) Returns @ replicate (pool_size p - held p) Takes) p = Some p' \<and>
    drained_pool p'"
proof -
  have returns: "pool_run (replicate n Returns) q = Some (q\<lparr>handlers_running := handlers_running q - n\<rparr>)"
    if "n \<le> handlers_running q" for n q using that by (induction n arbitrary: q) simp_all
  have takes: "pool_run (replicate n Takes) q = Some (q\<lparr>held := held q + n\<rparr>)"
    if "stopped q" "handlers_running q = 0" "held q + n \<le> pool_size q" for n q
    using that by (induction n arbitrary: q) (simp_all add: slots_used_def)
  show ?thesis using assms takes [of "p\<lparr>handlers_running := 0\<rparr>" "pool_size p - held p"]
    by (simp add: pool_run_append returns drained_pool_def pool_ok_def slots_used_def)
qed

text \<open>
  C26. A drained consumer runs nothing. In every interleaving of arriving messages, returning handlers and
  a drain, no more handlers run than there are slots, every message that arrived is running, waiting,
  given back or finished, and once the drain holds every slot no handler runs, nor does any start again;
  from every state after the stop the drain succeeds once the running handlers return.
\<close>

theorem pool_drain_is_final:
  assumes "new_pool n = Some p0" "pool_run as p0 = Some p"
  shows "int (handlers_running p) \<le> n \<and>
    handlers_running p + parked p + given_back p + count_list as Returns = count_list as Arrives \<and>
    (drained_pool p \<longrightarrow> handlers_running p = 0 \<and>
       (\<forall>bs p'. pool_run bs p = Some p' \<longrightarrow> handlers_running p' = 0 \<and> Returns \<notin> set bs)) \<and>
    (stopped p \<longrightarrow> (\<exists>bs p'. pool_run bs p = Some p' \<and> drained_pool p' \<and> Arrives \<notin> set bs))"
proof -
  have p0: "pool_ok p0" "pool_size p0 = nat n" "in_pool p0 = 0" "0 < n"
    using assms(1) by (auto simp: new_pool_def pool_ok_def slots_used_def in_pool_def split: if_splits)
  then have p: "pool_ok p" "pool_size p = nat n" using pool_run_ok assms(2) by metis+
  have final: "handlers_running p' = 0 \<and> Returns \<notin> set bs"
    if "drained_pool q" "pool_ok q" "pool_run bs q = Some p'" for bs q p'
    using that
  proof (induction bs q rule: pool_run.induct)
    case (2 a as q)
    then obtain q' where q': "pool_step a q = Some q'" "pool_run as q' = Some p'" by (auto split: option.splits)
    have zero: "handlers_running q = 0" using 2 by (auto simp: drained_pool_def pool_ok_def slots_used_def)
    have "held q \<le> held q'" using q'(1) by (cases a) (auto simp: try_acquire_def Let_def split: if_splits)
    moreover have "pool_ok q'" "pool_size q' = pool_size q" using pool_step_ok 2 q'(1) by blast+
    ultimately have "handlers_running p' = 0 \<and> Returns \<notin> set as"
      using 2(1) [OF q'(1)] 2(2) q'(2) by (simp add: drained_pool_def)
    moreover have "a \<noteq> Returns" using q'(1) zero by auto
    ultimately show ?case by simp
  qed (auto simp: drained_pool_def pool_ok_def slots_used_def)
  have "handlers_running p \<le> nat n" using p by (simp add: pool_ok_def slots_used_def)
  moreover have "\<exists>bs p'. pool_run bs p = Some p' \<and> drained_pool p' \<and> Arrives \<notin> set bs" if "stopped p"
    using pool_drains [OF p(1) that] by (metis Un_iff in_set_replicate pool_act.distinct(5,9) set_append)
  moreover have "handlers_running p = 0" if "drained_pool p"
    using that p by (simp add: drained_pool_def pool_ok_def slots_used_def)
  ultimately show ?thesis using final [OF _ p(1)] pool_run_count [OF assms(2)] p0(3,4) by (auto simp: in_pool_def)
qed

theorem pool_drain_is_final_witness:
  "\<exists>p0 p. new_pool 2 = Some p0 \<and>
     pool_run [Arrives, Arrives, Arrives, Stops, Returns, Takes, GivesUp, Returns, Takes] p0 = Some p \<and>
     drained_pool p \<and> handlers_running p = 0 \<and> given_back p = 1"
proof -
  let ?as = "[Arrives, Arrives, Arrives, Stops, Returns, Takes, GivesUp, Returns, Takes]"
  obtain p0 where p0: "new_pool 2 = Some p0" by (simp add: new_pool_def)
  obtain p where p: "pool_run ?as p0 = Some p" "drained_pool p" "given_back p = 1"
    using p0 by (auto simp: new_pool_def try_acquire_def slots_used_def drained_pool_def Let_def)
  show ?thesis using pool_drain_is_final [OF p0 p(1)] p p0 by auto
qed


section \<open>Idempotency\<close>

definition fresh_db :: "'d \<Rightarrow> ('m, 'd) dedup_db" where
  "fresh_db d = \<lparr>claimed_keys = [], business_state = d, handled = []\<rparr>"

definition effects :: "('m \<Rightarrow> 'd \<Rightarrow> goerr option \<times> 'd) \<Rightarrow> 'm list \<Rightarrow> 'd \<Rightarrow> 'd" where
  "effects handler ms d = fold (\<lambda>m. snd \<circ> handler m) ms d"

text \<open>The database after some deliveries to one that began as \<open>d\<close>.\<close>

definition dedup_ok :: "('m \<Rightarrow> string) \<Rightarrow> ('m \<Rightarrow> 'd \<Rightarrow> goerr option \<times> 'd) \<Rightarrow> 'd \<Rightarrow> ('m, 'd) dedup_db \<Rightarrow> bool" where
  "dedup_ok key handler d db \<longleftrightarrow> claimed_keys db = map key (handled db) \<and> distinct (claimed_keys db) \<and>
     business_state db = effects handler (handled db) d"

lemma with_idempotency_step:
  assumes "with_idempotency key handler fate m db = (err, db')" "dedup_ok key handler d db"
  shows "dedup_ok key handler d db' \<and> set (handled db) \<subseteq> set (handled db') \<and>
    set (handled db') \<subseteq> insert m (set (handled db)) \<and> (err = None \<longrightarrow> key m \<in> key ` set (handled db'))"
proof (cases "(\<exists>x. fate = ClaimFails x) \<or> err \<noteq> None \<or> key m \<in> set (claimed_keys db)")
  case True
  then have same: "db' = db" "err = None \<longrightarrow> key m \<in> set (claimed_keys db)" using assms(1)
    by (auto simp: with_idempotency_def claim_message_def Let_def split: tx_fate.splits prod.splits if_splits option.splits)
  then show ?thesis using assms(2) by (auto simp: dedup_ok_def)
next
  case False
  then have db': "db' = db\<lparr>claimed_keys := claimed_keys db @ [key m], business_state := snd (handler m (business_state db)),
      handled := handled db @ [m]\<rparr>" using assms(1)
    by (auto simp: with_idempotency_def claim_message_def Let_def split: tx_fate.splits prod.splits if_splits option.splits)
  then show ?thesis using False assms(2) by (auto simp: dedup_ok_def effects_def)
qed

lemma deliveries_step:
  assumes "deliveries key handler ds db = (errs, db')" "dedup_ok key handler d db"
  shows "dedup_ok key handler d db' \<and> set (handled db) \<subseteq> set (handled db') \<and>
    set (handled db') \<subseteq> set (handled db) \<union> snd ` set ds \<and> length errs = length ds \<and>
    (\<forall>i < length ds. errs ! i = None \<longrightarrow> key (snd (ds ! i)) \<in> key ` set (handled db'))"
  using assms
proof (induction ds arbitrary: db errs)
  case (Cons x ds)
  obtain fate m where x: "x = (fate, m)" by fastforce
  obtain err db1 where w: "with_idempotency key handler fate m db = (err, db1)" by fastforce
  obtain es db2 where r: "deliveries key handler ds db1 = (es, db2)" by fastforce
  note step = with_idempotency_step [OF w Cons.prems(2)]
  have eq: "errs = err # es" "db2 = db'" using Cons.prems(1) x w r by simp_all
  note rest = Cons.IH [OF r [unfolded eq(2)] conjunct1 [OF step]]
  have "key m \<in> key ` set (handled db')" if "err = None" using step rest that by blast
  then have "\<forall>i < length (x # ds). errs ! i = None \<longrightarrow> key (snd ((x # ds) ! i)) \<in> key ` set (handled db')"
    using rest eq x by (auto simp: nth_Cons split: nat.splits)
  then show ?case using step rest eq x by auto
qed auto



text \<open>
  Two messages can share a default key. Without a message id the default key hashes the subject and
  the payload with nothing between them, so two messages whose concatenations agree have the same key,
  whatever the hash: once the first is handled, the second returns no error and its handler never runs.
\<close>

theorem default_keys_collide:
  assumes "subject @ data = subject' @ data'"
    and "key = (\<lambda>(s, x). default_idempotency_key sha '''' s x)" "fst (handler (subject, data) d) = None"
  shows "\<exists>db'. deliveries key handler [(Commits, (subject, data)), (Commits, (subject', data'))] (fresh_db d) =
      ([None, None], db') \<and> handled db' = [(subject, data)] \<and>
    business_state db' = snd (handler (subject, data) d)"
proof -
  have "key (subject, data) = key (subject', data')" using assms(1,2) by (simp add: default_idempotency_key_def)
  then show ?thesis using assms(3)
    by (auto simp: with_idempotency_def claim_message_def fresh_db_def Let_def split: prod.splits)
qed

theorem default_keys_collide_witness:
  "\<exists>db'. deliveries (\<lambda>(s, x). default_idempotency_key (\<lambda>x. x) '''' s x) (\<lambda>m d. (None, Suc d))
      [(Commits, (''orders.1'', ''23'')), (Commits, (''orders.12'', ''3''))] (fresh_db 0) = ([None, None], db') \<and>
    business_state db' = 1"
  using default_keys_collide [of "''orders.1''" "''23''" "''orders.12''" "''3''" _ "\<lambda>x. x" "\<lambda>m d. (None, Suc d)" 0, OF _ refl]
  by auto


section \<open>Resolved options\<close>

lemma parse_delays_positive: "parse_delays env ps = Some ds \<Longrightarrow> \<forall>d \<in> set ds. 0 < d"
  by (induction ps arbitrary: ds) (auto split: option.splits if_splits)

lemma nak_backoff_from_env_positive: "\<forall>d \<in> set (nak_backoff_from_env env). 0 < d"
proof -
  have "\<forall>d \<in> set (case parse_delays env ps of None \<Rightarrow> [] | Some ds \<Rightarrow> ds). 0 < d" for ps
    by (cases "parse_delays env ps") (auto dest: parse_delays_positive)
  then show ?thesis by (simp add: nak_backoff_from_env_def Let_def default_nak_delays_def)
qed

text \<open>Resolved options bound the handlers by a size that is not negative and delay every NAK by a rung of the ladder.\<close>

lemma resolve_plain_ok:
  assumes "resolve_plain env built o' = Inr r"
  shows "0 \<le> max_in_flight r \<and> (\<forall>d \<in> set (nak_backoff r). 0 < d) \<and>
    (case plain_nak_call r n of CallNakWithDelay d \<Rightarrow> d \<in> set (nak_backoff r) \<and> 0 < d | cl \<Rightarrow> cl = CallNak \<and> nak_backoff r = [])"
proof -
  have flight: "0 \<le> max_in_flight_from_env env"
    by (auto simp: max_in_flight_from_env_def Let_def split: option.splits)
  have pos: "0 \<le> max_in_flight r \<and> (\<forall>d \<in> set (nak_backoff r). 0 < d)"
    using assms flight nak_backoff_from_env_positive
    by (fastforce simp: resolve_plain_def Let_def list_ex_iff not_le split: if_splits option.splits)
  moreover have "nak_backoff r \<noteq> [] \<Longrightarrow> plain_nak_delay (nak_backoff r) n \<in> set (nak_backoff r)"
    by (auto simp: plain_nak_delay_def intro!: nth_mem)
  ultimately show ?thesis by (auto simp: plain_nak_call_def)
qed

lemma heartbeat_for_ack_wait_bounds:
  "min_heartbeat \<le> heartbeat_for_ack_wait w \<and> heartbeat_for_ack_wait w \<le> in_progress_interval"
  by (auto simp: heartbeat_for_ack_wait_def min_heartbeat_def in_progress_interval_def Let_def )

end
