(* ===== verification/Consumer_Partitions.thy ===== *)
theory Consumer_Partitions imports Consumer_Bind Go_Numbers Subjects begin

text \<open>
  Partitioned consumers (\<^verbatim>\<open>consumer-opts-builder/partition_configs.go\<close>): the configurations of
  the durables that share a stream, one per partition, refused when two of their filters can match one
  subject.
\<close>

section \<open>Configurations\<close>

abbreviation ErrInvalidPartitions :: sentinel where "ErrInvalidPartitions \<equiv> Sentinel ''consumeroptsbuilder: invalid partitions''"

record partitions =
  ptBase :: consumer_config
  ptCount :: int
  ptFilters :: "(nat \<Rightarrow> string list) option"
  ptGroup :: string
  ptPinnedTTL :: duration

definition deliver_all :: int where "deliver_all = 0"

definition partition_suffix :: "nat \<Rightarrow> string" where
  "partition_suffix n = ''-p'' @ itoa n"

definition partition_config :: "partitions \<Rightarrow> (nat \<Rightarrow> string list) \<Rightarrow> nat \<Rightarrow> consumer_config" where
  "partition_config pt filters n =
     (let b = ptBase pt; suffix = partition_suffix n in
      b\<lparr>ccName := (if ccName b \<noteq> '''' then ccName b @ suffix else ccName b),
        ccDurable := (if ccDurable b \<noteq> '''' then ccDurable b @ suffix else ccDurable b),
        ccAckPolicy := AckExplicitPolicy, ccDeliverPolicy := deliver_all, ccOptStartSeq := 0, ccOptStartTime := None,
        ccFilterSubject := '''', ccFilterSubjects := filters n, ccPriorityPolicy := PriorityPinned,
        ccPriorityGroups := [ptGroup pt], ccPinnedTTL := ptPinnedTTL pt\<rparr>)"

text \<open>The owners are the filters so far.\<close>

fun check_overlap :: "string list \<Rightarrow> string list \<Rightarrow> goerr + string list" where
  "check_overlap owners [] = Inr owners"
| "check_overlap owners (f # fs) =
     (if list_ex (subjects_overlap f) owners then Inl (Sent ErrInvalidPartitions) else check_overlap (f # owners) fs)"

function partition_loop ::
  "partitions \<Rightarrow> (nat \<Rightarrow> string list) \<Rightarrow> nat \<Rightarrow> string list \<Rightarrow> consumer_config list \<Rightarrow> goerr + consumer_config list" where
  "partition_loop pt filters n owners configs =
     (if int n \<ge> ptCount pt then Inr configs
      else
        let cfg = partition_config pt filters n in
        if ccFilterSubjects cfg = [] then Inl (Sent ErrInvalidPartitions)
        else (case validate_filters cfg of Some e \<Rightarrow> Inl (Wrap (Sent ErrInvalidPartitions) e) | None \<Rightarrow>
             (case validate_pinned cfg 0 of Some e \<Rightarrow> Inl (Wrap (Sent ErrInvalidPartitions) e) | None \<Rightarrow>
             (case check_overlap owners (ccFilterSubjects cfg) of Inl e \<Rightarrow> Inl e | Inr owners' \<Rightarrow>
                partition_loop pt filters (Suc n) owners' (configs @ [cfg])))))"
  by pat_completeness auto
termination by (relation "measure (\<lambda>(pt, fs, n, _). nat (ptCount pt - int n))") auto

declare partition_loop.simps [simp del]

definition partition_configs :: "partitions \<Rightarrow> goerr + consumer_config list" where
  "partition_configs pt =
     (case ptFilters pt of
        None \<Rightarrow> Inl (Sent ErrInvalidPartitions)
      | Some filters \<Rightarrow>
          if ptCount pt < 1 then Inl (Sent ErrInvalidPartitions)
          else if consumer_name (ptBase pt) = '''' then Inl (Sent ErrInvalidPartitions)
          else partition_loop pt filters 0 [] [])"

section \<open>No subject in two partitions\<close>

lemma overlap_shared:
  assumes "subject_matches p s" "subject_matches q s"
  shows "subjects_overlap p q"
proof -
  have "split_at CHR ''.'' x \<noteq> []" for x by (induction x) (auto split: list.splits)
  then have "overlap_tokens (split_at CHR ''.'' p) (split_at CHR ''.'' q)"
    using overlap_complete assms by (simp add: subject_matches_tokens)
  then show ?thesis by (simp add: subjects_overlap_def overlap_loop_tokens)
qed

text \<open>Filters none of which shares a subject with an earlier one.\<close>

definition apart :: "string list \<Rightarrow> bool" where
  "apart fs \<longleftrightarrow> sorted_wrt (\<lambda>f g. \<not> subjects_overlap g f \<and> \<not> subjects_overlap f g) fs"

lemma overlap_sym: "subjects_overlap p q = subjects_overlap q p"
proof -
  have "overlap_loop l r i = overlap_loop r l i" for l r i
    by (induction l r i rule: overlap_loop.induct) (subst overlap_loop.simps, subst (2) overlap_loop.simps, auto)
  then show ?thesis by (simp add: subjects_overlap_def)
qed

lemma check_overlap_apart:
  "check_overlap owners fs = Inr owners' \<Longrightarrow> apart owners \<Longrightarrow> owners' = rev fs @ owners \<and> apart owners'"
proof (induction owners fs rule: check_overlap.induct)
  case (2 owners f fs)
  then have "apart (f # owners)" using overlap_sym by (auto simp: apart_def list_ex_iff split: if_splits)
  then show ?case using 2 by (auto split: if_splits)
qed simp

lemma partition_loop_spec:
  assumes "partition_loop pt filters n owners configs = Inr cfgs"
    and "configs = map (partition_config pt filters) [0..<n]" "owners = rev (concat (map filters [0..<n]))" "apart owners"
    and "int n \<le> ptCount pt"
    and "\<forall>c \<in> set configs. validate_filters c = None \<and> validate_pinned c 0 = None \<and> ccFilterSubjects c \<noteq> []"
  shows "cfgs = map (partition_config pt filters) [0..<nat (ptCount pt)] \<and>
    apart (rev (concat (map filters [0..<nat (ptCount pt)]))) \<and>
    (\<forall>c \<in> set cfgs. validate_filters c = None \<and> validate_pinned c 0 = None \<and> ccFilterSubjects c \<noteq> [])"
  using assms
proof (induction pt filters n owners configs rule: partition_loop.induct)
  case (1 pt filters n owners configs)
  show ?case
  proof (cases "int n \<ge> ptCount pt")
    case True
    then have "n = nat (ptCount pt)" using "1.prems"(5) by simp
    then show ?thesis using True "1.prems" by (simp add: partition_loop.simps)
  next
    case False
    let ?cfg = "partition_config pt filters n"
    have fs: "ccFilterSubjects ?cfg = filters n" by (simp add: partition_config_def Let_def)
    obtain owners' where o: "ccFilterSubjects ?cfg \<noteq> []" "validate_filters ?cfg = None" "validate_pinned ?cfg 0 = None"
      "check_overlap owners (ccFilterSubjects ?cfg) = Inr owners'"
      "partition_loop pt filters (Suc n) owners' (configs @ [?cfg]) = Inr cfgs"
      using "1.prems"(1) False by (subst (asm) partition_loop.simps) (auto simp: Let_def split: if_splits option.splits sum.splits)
    have a: "owners' = rev (filters n) @ owners" "apart owners'" using check_overlap_apart [OF o(4) "1.prems"(4)] fs by auto
    show ?thesis
      by (rule "1.IH" [OF False refl o(1-5)]) (use a "1.prems" o False in auto)
  qed
qed

lemma itoa_inj: "itoa m = itoa n \<longleftrightarrow> m = n"
  by (metis digits_value_itoa of_nat_eq_iff option.inject)

lemma partition_config_name:
  "consumer_name (ptBase pt) \<noteq> '''' \<Longrightarrow>
    consumer_name (partition_config pt filters n) = consumer_name (ptBase pt) @ partition_suffix n"
  by (auto simp: consumer_name_def partition_config_def Let_def split: if_splits)

lemma apart_nth:
  assumes "apart (rev (concat fss))" "i < j" "j < length fss" "p \<in> set (fss ! i)" "q \<in> set (fss ! j)"
  shows "\<not> subjects_overlap p q"
proof -
  have "fss = take j fss @ fss ! j # drop (Suc j) fss" using assms(3) by (simp add: id_take_nth_drop)
  then have c: "concat fss = concat (take j fss) @ fss ! j @ concat (drop (Suc j) fss)" by (metis concat.simps(2) concat_append)
  have "fss ! i \<in> set (take j fss)" using assms(2,3) by (metis in_set_conv_nth length_take min.absorb4 nth_take)
  then have "p \<in> set (concat (take j fss))" using assms(4) by auto
  then show ?thesis using assms(1,5) unfolding c apart_def by (auto simp: sorted_wrt_append)
qed

text \<open>
  C25. A subject belongs to one partition. The configurations that are accepted are one per partition, each
  with the filters of its partition, a name of its own, explicit acknowledgement and its pinned group; and
  no subject matches filters of two of them, nor two filters of one, so no message is handled by two
  partitions.
\<close>

theorem partitions_are_disjoint:
  assumes "partition_configs pt = Inr cfgs" "ptFilters pt = Some filters"
  shows "length cfgs = nat (ptCount pt) \<and> distinct (map consumer_name cfgs) \<and>
    (\<forall>i < length cfgs. ccFilterSubjects (cfgs ! i) = filters i \<and> ccAckPolicy (cfgs ! i) = AckExplicitPolicy \<and>
       pinned_group (cfgs ! i) = ptGroup pt \<and> validate_filters (cfgs ! i) = None \<and> validate_pinned (cfgs ! i) 0 = None) \<and>
    (\<forall>i j s. i < j \<and> j < length cfgs \<longrightarrow>
       \<not> (matches_any_pattern s (ccFilterSubjects (cfgs ! i)) \<and> matches_any_pattern s (ccFilterSubjects (cfgs ! j))))"
proof -
  have ok: "consumer_name (ptBase pt) \<noteq> ''''" "partition_loop pt filters 0 [] [] = Inr cfgs" "0 < ptCount pt"
    using assms by (auto simp: partition_configs_def split: if_splits)
  let ?n = "nat (ptCount pt)"
  have spec: "cfgs = map (partition_config pt filters) [0..<?n]" "apart (rev (concat (map filters [0..<?n])))"
    "\<forall>c \<in> set cfgs. validate_filters c = None \<and> validate_pinned c 0 = None \<and> ccFilterSubjects c \<noteq> []"
    using partition_loop_spec [OF ok(2)] ok(3) by (simp_all add: apart_def)
  have "map consumer_name cfgs = map (\<lambda>n. consumer_name (ptBase pt) @ partition_suffix n) [0..<?n]"
    using partition_config_name [OF ok(1)] spec(1) by simp
  moreover have "inj (\<lambda>n. consumer_name (ptBase pt) @ partition_suffix n)" by (simp add: inj_def partition_suffix_def itoa_inj)
  ultimately have "distinct (map consumer_name cfgs)" by (simp add: distinct_map) (blast intro: inj_on_subset)
  moreover have "ccFilterSubjects (cfgs ! i) = filters i \<and> ccAckPolicy (cfgs ! i) = AckExplicitPolicy \<and> pinned_group (cfgs ! i) = ptGroup pt"
    if "i < ?n" for i
    using that by (simp add: spec(1) partition_config_def pinned_group_def Let_def)
  moreover have "\<not> (matches_any_pattern s (filters i) \<and> matches_any_pattern s (filters j))" if ij: "i < j" "j < ?n" for i j s
    using apart_nth [OF spec(2), of i j] ij overlap_shared by (fastforce simp: matches_any_pattern_iff)
  ultimately show ?thesis using spec(1,3) by (auto simp: spec(1))
qed

definition demo_partitions :: partitions where
  "demo_partitions = \<lparr>ptBase = demo_batch_config, ptCount = 2,
     ptFilters = Some (\<lambda>n. if n = 0 then [''orders.0.>''] else [''orders.1.*'', ''refunds.1.>'']), ptGroup = ''workers'', ptPinnedTTL = 0\<rparr>"

theorem partitions_are_disjoint_witness:
  "\<exists>a b. partition_configs demo_partitions = Inr [a, b] \<and>
     \<not> (matches_any_pattern ''orders.1.x'' (ccFilterSubjects a) \<and> matches_any_pattern ''orders.1.x'' (ccFilterSubjects b))"
proof -
  have "isl (partition_configs demo_partitions) = False" by code_simp
  then obtain cfgs where c: "partition_configs demo_partitions = Inr cfgs" by (cases "partition_configs demo_partitions") auto
  obtain filters where f: "ptFilters demo_partitions = Some filters" by (simp add: demo_partitions_def)
  note d = partitions_are_disjoint [OF c f]
  have "length cfgs = 2" using d by (simp add: demo_partitions_def)
  then obtain a b where ab: "cfgs = [a, b]" by (metis One_nat_def Suc_1 length_0_conv length_Suc_conv)
  have pairs: "\<forall>i j s. i < j \<and> j < length cfgs \<longrightarrow>
      \<not> (matches_any_pattern s (ccFilterSubjects (cfgs ! i)) \<and> matches_any_pattern s (ccFilterSubjects (cfgs ! j)))"
    using d by blast
  have "\<not> (matches_any_pattern ''orders.1.x'' (ccFilterSubjects (cfgs ! 0)) \<and>
      matches_any_pattern ''orders.1.x'' (ccFilterSubjects (cfgs ! 1)))"
    by (rule pairs [rule_format]) (simp add: \<open>length cfgs = 2\<close>)
  then show ?thesis using c unfolding ab by (intro exI [of _ a] exI [of _ b]) simp
qed

end
