(* ===== verification/Processed_Cleanup.thy ===== *)
theory Processed_Cleanup imports Outbox_Process begin

text \<open>
  The cleanup of the processed messages (\<^verbatim>\<open>consumer/cleanup\<close>): the options of the cleaner,
  its batched deletion of the rows that are older than its retention, and its life.
\<close>

section \<open>Options\<close>

abbreviation hour :: duration where "hour \<equiv> 3600000000000"

text \<open>\<open>clDB\<close> is whether there is a database, \<open>clDuplicates\<close> the duplicate window of the stream.\<close>

record cleaner_opts =
  clDB :: bool
  clRetention :: duration
  clInterval :: duration
  clBatchLimit :: int
  clDuplicates :: duration

record cleaner_settings =
  retention :: duration
  interval :: duration
  batch_limit :: int

definition default_retention :: duration where "default_retention = 48 * hour"
definition default_interval :: duration where "default_interval = hour"
definition default_batch_limit :: int where "default_batch_limit = 5000"
definition min_retention :: duration where "min_retention = hour"

definition cleaner_duration :: "environment \<Rightarrow> duration \<Rightarrow> string \<Rightarrow> duration \<Rightarrow> goerr + duration" where
  "cleaner_duration env explicit name fallback =
     (if explicit \<noteq> 0 then Inr explicit
      else let raw = trim_space (getenv env name) in
        if raw = '''' then Inr fallback
        else case parse_duration env raw of None \<Rightarrow> Inl (Sent ErrInvalidEnv) | Some v \<Rightarrow> Inr v)"

definition resolve_cleaner :: "environment \<Rightarrow> cleaner_opts \<Rightarrow> goerr + cleaner_settings" where
  "resolve_cleaner env opts =
     (if \<not> clDB opts then Inl (Sent ErrInvalidOpts) else
     (case cleaner_duration env (clRetention opts) ''BROKERFX_PROCESSED_RETENTION'' default_retention of
        Inl e \<Rightarrow> Inl e
      | Inr ret \<Rightarrow>
          if ret < min_retention then Inl (Sent ErrInvalidOpts)
          else if clDuplicates opts > 0 \<and> ret \<le> wrap64 (2 * clDuplicates opts) then Inl (Sent ErrInvalidOpts)
          else
     (case cleaner_duration env (clInterval opts) ''BROKERFX_PROCESSED_CLEANUP_INTERVAL'' default_interval of
        Inl e \<Rightarrow> Inl e
      | Inr iv \<Rightarrow>
          if iv \<le> 0 then Inl (Sent ErrInvalidOpts)
          else if clBatchLimit opts < 0 then Inl (Sent ErrInvalidOpts)
          else Inr \<lparr>retention = ret, interval = iv,
            batch_limit = (if clBatchLimit opts = 0 then default_batch_limit else clBatchLimit opts)\<rparr>)))"

section \<open>A pass\<close>

text \<open>
  The table holds ids with the time they were processed. A delete fails or takes up to its limit; the
  pause after a full one ends early when the context does. Both are numbered by the deletes so far.
\<close>

type_synonym processed = "(string \<times> int) list"

record cleaner_env =
  delete_err :: "nat \<Rightarrow> goerr option"
  ctx_ended :: "nat \<Rightarrow> goerr option"

definition processed_before :: "int \<Rightarrow> string \<times> int \<Rightarrow> bool" where
  "processed_before t r \<longleftrightarrow> snd r < t"

definition delete_batch :: "cleaner_env \<Rightarrow> int \<Rightarrow> int \<Rightarrow> nat \<Rightarrow> processed \<Rightarrow> (int \<times> goerr option) \<times> processed" where
  "delete_batch env before limit n rs =
     (case delete_err env n of
        Some e \<Rightarrow> ((0, Some e), rs)
      | None \<Rightarrow> let rs' = drop_first (nat limit) (processed_before before) rs
          in ((int (length rs) - int (length rs'), None), rs'))"

partial_function (option) clean_loop ::
  "cleaner_env \<Rightarrow> int \<Rightarrow> int \<Rightarrow> nat \<Rightarrow> int \<Rightarrow> processed \<Rightarrow> ((int \<times> goerr option) \<times> processed) option" where
  "clean_loop env before limit n acc rs =
     (case delete_batch env before limit n rs of
        ((deleted, Some e), rs') \<Rightarrow> Some ((acc + deleted, Some e), rs')
      | ((deleted, None), rs') \<Rightarrow>
          if deleted < limit then Some ((acc + deleted, None), rs')
          else (case ctx_ended env n of
                  Some e \<Rightarrow> Some ((acc + deleted, Some e), rs')
                | None \<Rightarrow> clean_loop env before limit (Suc n) (acc + deleted) rs'))"

definition run_once ::
  "cleaner_env \<Rightarrow> cleaner_settings \<Rightarrow> int \<Rightarrow> processed \<Rightarrow> ((int \<times> goerr option) \<times> processed) option" where
  "run_once env s now rs = clean_loop env (now - retention s) (batch_limit s) 0 0 rs"

text \<open>What a pass tells the observer: an error, unless the context ended it.\<close>

definition clean_pass ::
  "cleaner_env \<Rightarrow> cleaner_settings \<Rightarrow> bool \<Rightarrow> int \<Rightarrow> processed \<Rightarrow> (goerr option \<times> processed) option" where
  "clean_pass env s ended now rs =
     (case run_once env s now rs of
        None \<Rightarrow> None
      | Some ((deleted, Some e), rs') \<Rightarrow> Some (if ended then None else Some e, rs')
      | Some ((deleted, None), rs') \<Rightarrow> Some (None, rs'))"

section \<open>Properties\<close>

lemma delete_batch_ok:
  assumes "delete_batch env before limit n rs = ((k, err), rs')"
  shows "k = int (length rs) - int (length rs') \<and> length rs' \<le> length rs \<and>
    filter (\<lambda>r. \<not> processed_before before r) rs' = filter (\<lambda>r. \<not> processed_before before r) rs \<and>
    (err = None \<and> k < limit \<longrightarrow> rs' = filter (\<lambda>r. \<not> processed_before before r) rs)"
proof (cases "delete_err env n")
  case (Some e)
  then show ?thesis using assms by (auto simp: delete_batch_def)
next
  case None
  let ?P = "processed_before before"
  have rs': "rs' = drop_first (nat limit) ?P rs" "k = int (length rs) - int (length rs')"
    using assms None by (auto simp: delete_batch_def Let_def)
  have short: "length (drop_first m ?P rs) \<le> length rs" for m by (induction m ?P rs rule: drop_first.induct) auto
  have count: "k = int (min (nat limit) (length (filter ?P rs)))"
    unfolding rs'(2) drop_first_length [of rs "nat limit" ?P, folded rs'(1), symmetric]
    using short [of "nat limit"] by (simp add: rs'(1) of_nat_diff)
  have "k < limit \<Longrightarrow> length (filter ?P rs) \<le> nat limit" using count by linarith
  then show ?thesis using rs' short drop_first_kept [of ?P "nat limit" rs] drop_first_all [of ?P rs "nat limit"] by auto
qed

lemma clean_loop_ends:
  assumes "0 < limit"
  shows "\<exists>deleted err rs'. clean_loop env before limit n acc rs = Some ((deleted, err), rs') \<and>
    deleted = acc + (int (length rs) - int (length rs')) \<and>
    filter (\<lambda>r. \<not> processed_before before r) rs' = filter (\<lambda>r. \<not> processed_before before r) rs \<and>
    (err = None \<longrightarrow> rs' = filter (\<lambda>r. \<not> processed_before before r) rs)"
proof (induction "length rs" arbitrary: n acc rs rule: less_induct)
  case less
  obtain k e rs1 where d: "delete_batch env before limit n rs = ((k, e), rs1)" by (metis prod.exhaust)
  note ok = delete_batch_ok [OF d]
  show ?case
  proof (cases "e = None \<and> \<not> k < limit \<and> ctx_ended env n = None")
    case True
    then have "length rs1 < length rs" using ok assms by linarith
    from less [OF this, of "Suc n" "acc + k"] show ?thesis
      using d ok True by (subst clean_loop.simps) auto
  next
    case False
    then show ?thesis using d ok by (subst clean_loop.simps) (auto split: option.splits)
  qed
qed

text \<open>
  The cleanup forgets only what is too old to come back. With settings that are accepted, a pass
  returns; it deletes only rows processed before its retention, which is at least an hour and, when the
  duplicate window is given, more than twice that, counts what it deleted, and when it reports no error
  no such row is left.
\<close>

theorem cleanup_forgets_only_old:
  assumes "resolve_cleaner env opts = Inr s" "clDuplicates opts < 2 ^ 62"
  shows "\<exists>deleted err rs'. run_once ce s now rs = Some ((deleted, err), rs') \<and>
    deleted = int (length rs) - int (length rs') \<and>
    (\<forall>i t. (i, t) \<in> set rs \<and> (now - hour \<le> t \<or> now - 2 * clDuplicates opts \<le> t) \<longrightarrow> (i, t) \<in> set rs') \<and>
    (err = None \<longrightarrow> set rs' = {(i, t) \<in> set rs. now - retention s \<le> t})"
proof -
  have s: "0 < batch_limit s" "hour \<le> retention s" "0 < clDuplicates opts \<longrightarrow> wrap64 (2 * clDuplicates opts) < retention s"
    using assms(1) by (auto simp: resolve_cleaner_def default_batch_limit_def min_retention_def split: if_splits sum.splits)
  have "0 < clDuplicates opts \<Longrightarrow> wrap64 (2 * clDuplicates opts) = 2 * clDuplicates opts" using assms(2) by (intro wrap64_id) simp_all
  then have window: "2 * clDuplicates opts < retention s" using s by (cases "0 < clDuplicates opts") auto
  let ?keep = "\<lambda>r. \<not> processed_before (now - retention s) r"
  obtain deleted err rs' where r: "run_once ce s now rs = Some ((deleted, err), rs')"
    "deleted = int (length rs) - int (length rs')" "filter ?keep rs' = filter ?keep rs" "err = None \<longrightarrow> rs' = filter ?keep rs"
    using clean_loop_ends [OF s(1), of ce "now - retention s" 0 0 rs] by (auto simp: run_once_def)
  have "(i, t) \<in> set rs'" if "(i, t) \<in> set rs" "now - hour \<le> t \<or> now - 2 * clDuplicates opts \<le> t" for i t
  proof -
    have "?keep (i, t)" using that(2) s(2) window by (auto simp: processed_before_def)
    then have "(i, t) \<in> set (filter ?keep rs')" using that(1) r(3) by simp
    then show ?thesis by simp
  qed
  moreover have "err = None \<Longrightarrow> set rs' = {(i, t) \<in> set rs. now - retention s \<le> t}"
    using r(4) by (auto simp: processed_before_def)
  ultimately show ?thesis using r(1,2) by blast
qed

definition demo_cleaner :: cleaner_opts where
  "demo_cleaner = \<lparr>clDB = True, clRetention = 2 * hour, clInterval = 0, clBatchLimit = 1, clDuplicates = 0\<rparr>"

theorem cleanup_forgets_only_old_witness:
  "\<exists>s deleted rs'. resolve_cleaner \<lparr>env_lookup = \<lambda>_. None, parse_duration = \<lambda>_. None\<rparr> demo_cleaner = Inr s \<and>
     run_once \<lparr>delete_err = \<lambda>_. None, ctx_ended = \<lambda>n. if n = 1 then Some (Foreign ''timeout'') else None\<rparr> s (3 * hour)
       [(''a'', 0), (''b'', 1), (''c'', 2), (''d'', 2 * hour)] = Some ((deleted, Some (Foreign ''timeout'')), rs') \<and>
     deleted = 2 \<and> (''d'', 2 * hour) \<in> set rs'"
proof -
  let ?env = "\<lparr>env_lookup = \<lambda>_. None, parse_duration = \<lambda>_. None\<rparr>"
  let ?ce = "\<lparr>delete_err = \<lambda>_. None, ctx_ended = \<lambda>n. if n = 1 then Some (Foreign ''timeout'') else None\<rparr>"
  let ?rs = "[(''a'', 0), (''b'', 1), (''c'', 2), (''d'', 2 * hour)]"
  obtain s where s: "resolve_cleaner ?env demo_cleaner = Inr s" "retention s = 2 * hour" "batch_limit s = 1"
    by (simp add: resolve_cleaner_def demo_cleaner_def cleaner_duration_def getenv_def trim_space_def
        default_interval_def min_retention_def)
  have run: "run_once ?ce s (3 * hour) ?rs = Some ((2, Some (Foreign ''timeout'')), [(''c'', 2), (''d'', 2 * hour)])"
    using s(2,3) by (simp add: run_once_def, subst clean_loop.simps, subst clean_loop.simps)
      (simp add: delete_batch_def processed_before_def Let_def)
  have "clDuplicates demo_cleaner < 2 ^ 62" by (simp add: demo_cleaner_def)
  from cleanup_forgets_only_old [OF s(1) this, of ?ce "3 * hour" ?rs] run s(1) show ?thesis by auto
qed

end
