(* ===== verification/Signature.thy ===== *)
theory Signature imports Go_Numbers begin

text \<open>
  Message signatures (\<^verbatim>\<open>pkg/nats/signature\<close>): signing the headers of a message,
  refreshing a signature, and verifying one inside a window of time. Ed25519 and Base64 are parameters;
  times are in nanoseconds.
\<close>

section \<open>Signing and verifying\<close>

abbreviation ErrInvalidSignature :: sentinel where "ErrInvalidSignature \<equiv> Sentinel ''signature: invalid signature''"
abbreviation ErrSignatureExpired :: sentinel where "ErrSignatureExpired \<equiv> Sentinel ''signature: signature expired''"
abbreviation ErrMissingHeader :: sentinel where "ErrMissingHeader \<equiv> Sentinel ''signature: missing signature header''"

definition HeaderAPIKeyID :: string where "HeaderAPIKeyID = ''X-API-Key-ID''"
definition HeaderTimestamp :: string where "HeaderTimestamp = ''X-Timestamp''"
definition HeaderSignature :: string where "HeaderSignature = ''X-Signature''"

record ('k, 'p) crypto =
  ed_sign :: "'k \<Rightarrow> string \<Rightarrow> string"
  ed_verify :: "'p \<Rightarrow> string \<Rightarrow> string \<Rightarrow> bool"
  encode64 :: "string \<Rightarrow> string"
  decode64 :: "string \<Rightarrow> string option"

text \<open>\<^verbatim>\<open>strconv.FormatInt(t, 10)\<close>\<close>

definition format_int :: "int \<Rightarrow> string" where
  "format_int t = (if t < 0 then CHR ''-'' # itoa (nat (- t)) else itoa (nat t))"

definition signature_payload :: "string \<Rightarrow> string \<Rightarrow> string \<Rightarrow> string" where
  "signature_payload subject timestamp body = subject @ CHR 0x0a # timestamp @ CHR 0x0a # body"

text \<open>A nil map is \<open>None\<close>.\<close>

definition sign_headers ::
  "('k, 'p) crypto \<Rightarrow> (string \<rightharpoonup> string) option \<Rightarrow> string \<Rightarrow> 'k \<Rightarrow> string \<Rightarrow> string \<Rightarrow> int \<Rightarrow> goerr + (string \<rightharpoonup> string)" where
  "sign_headers cr hs key_id key subject body now =
     (case hs of
        None \<Rightarrow> Inl (Foreign ''headers map is nil'')
      | Some h \<Rightarrow>
          let timestamp = format_int (now div millisecond);
              sig = ed_sign cr key (signature_payload subject timestamp body)
          in Inr (h(HeaderAPIKeyID \<mapsto> key_id, HeaderTimestamp \<mapsto> timestamp, HeaderSignature \<mapsto> encode64 cr sig)))"

text \<open>\<^verbatim>\<open>time.Time.Sub\<close> saturates.\<close>

definition time_sub :: "int \<Rightarrow> int \<Rightarrow> duration" where
  "time_sub t u = max (- (2 ^ 63)) (min (2 ^ 63 - 1) (t - u))"

definition verify_headers ::
  "('k, 'p) crypto \<Rightarrow> (string \<rightharpoonup> string) \<Rightarrow> 'p \<Rightarrow> string \<Rightarrow> string \<Rightarrow> int \<Rightarrow> duration \<Rightarrow> goerr + string" where
  "verify_headers cr hs key subject body now window =
     (case hs HeaderAPIKeyID of None \<Rightarrow> Inl (Sent ErrMissingHeader) | Some key_id \<Rightarrow>
      if key_id = '''' then Inl (Sent ErrMissingHeader) else
     (case hs HeaderTimestamp of None \<Rightarrow> Inl (Sent ErrMissingHeader) | Some timestamp \<Rightarrow>
      if timestamp = '''' then Inl (Sent ErrMissingHeader) else
     (case hs HeaderSignature of None \<Rightarrow> Inl (Sent ErrMissingHeader) | Some encoded_sig \<Rightarrow>
      if encoded_sig = '''' then Inl (Sent ErrMissingHeader) else
     (case parse_int timestamp of None \<Rightarrow> Inl (Sent ErrInvalidSignature) | Some ms \<Rightarrow>
      let d = time_sub now (ms * millisecond);
          delta = (if d < 0 then wrap64 (- d) else d)
      in if delta > window then Inl (Sent ErrSignatureExpired) else
     (case decode64 cr encoded_sig of None \<Rightarrow> Inl (Sent ErrInvalidSignature) | Some sig \<Rightarrow>
      if ed_verify cr key (signature_payload subject timestamp body) sig then Inr key_id
      else Inl (Sent ErrInvalidSignature))))))"

text \<open>\<^verbatim>\<open>Ed25519Signer\<close> and \<^verbatim>\<open>KeyedResigner\<close>.\<close>

definition signer_sign ::
  "('k, 'p) crypto \<Rightarrow> string \<Rightarrow> 'k \<Rightarrow> string \<Rightarrow> (string \<rightharpoonup> string) option \<Rightarrow> string \<Rightarrow> int \<Rightarrow> goerr + (string \<rightharpoonup> string)" where
  "signer_sign cr key_id key subject hs body now = sign_headers cr hs key_id key subject body now"

definition resigner_sign ::
  "('k, 'p) crypto \<Rightarrow> (string \<rightharpoonup> 'k) \<Rightarrow> string \<Rightarrow> (string \<rightharpoonup> string) option \<Rightarrow> string \<Rightarrow> int
     \<Rightarrow> goerr + (string \<rightharpoonup> string) option" where
  "resigner_sign cr keys subject hs body now =
     (let key_id = (case hs of None \<Rightarrow> '''' | Some h \<Rightarrow> (case h HeaderAPIKeyID of None \<Rightarrow> '''' | Some i \<Rightarrow> i)) in
      if key_id = '''' then Inr hs
      else case keys key_id of
          None \<Rightarrow> Inr hs
        | Some key \<Rightarrow> map_sum id Some (sign_headers cr hs key_id key subject body now))"

section \<open>Properties\<close>

lemma header_names [simp]:
  "HeaderAPIKeyID \<noteq> HeaderTimestamp" "HeaderAPIKeyID \<noteq> HeaderSignature" "HeaderTimestamp \<noteq> HeaderSignature"
  "HeaderTimestamp \<noteq> HeaderAPIKeyID" "HeaderSignature \<noteq> HeaderAPIKeyID" "HeaderSignature \<noteq> HeaderTimestamp"
  by (simp_all add: HeaderAPIKeyID_def HeaderTimestamp_def HeaderSignature_def)

lemma parse_format:
  assumes "- (2 ^ 63) \<le> t" "t < 2 ^ 63"
  shows "parse_int (format_int t) = Some t"
proof (cases "t < 0")
  case True
  then show ?thesis using assms itoa_not_empty [of "nat (- t)"]
    by (simp add: format_int_def parse_int_def digits_value_itoa Let_def)
next
  case False
  then show ?thesis using assms by (simp add: format_int_def parse_itoa)
qed

lemma format_int_not_empty: "format_int t \<noteq> ''''"
  by (simp add: format_int_def itoa_not_empty)

lemma digits_no_newline: "digits_value acc s = Some v \<Longrightarrow> CHR 0x0a \<notin> set s"
  by (induction acc s rule: digits_value.induct) (auto simp: is_digit_def less_eq_char_def split: if_splits)

lemma parse_no_newline:
  assumes "parse_int s = Some v"
  shows "CHR 0x0a \<notin> set s"
proof (cases s)
  case (Cons c cs)
  show ?thesis
  proof (cases "c = CHR ''-'' \<or> c = CHR ''+''")
    case True
    then have "\<exists>v. digits_value 0 cs = Some v" using assms Cons by (auto simp: parse_int_def Let_def split: if_splits option.splits)
    then show ?thesis using digits_no_newline Cons True by auto
  next
    case False
    then have "\<exists>v. digits_value 0 s = Some v" using assms Cons by (auto simp: parse_int_def Let_def split: if_splits option.splits)
    then show ?thesis using digits_no_newline by blast
  qed
qed simp

text \<open>Without newlines in its first two parts, a payload says what was signed.\<close>

lemma first_line: "CHR 0x0a \<notin> set x \<Longrightarrow> takeWhile (\<lambda>c. c \<noteq> CHR 0x0a) (x @ CHR 0x0a # y) = x"
  by (induction x) auto

lemma signature_payload_inj:
  assumes "signature_payload s t b = signature_payload s' t' b'"
    and "CHR 0x0a \<notin> set s" "CHR 0x0a \<notin> set s'" "CHR 0x0a \<notin> set t" "CHR 0x0a \<notin> set t'"
  shows "s = s' \<and> t = t' \<and> b = b'"
proof -
  have "s = s'" using assms(1-3) first_line unfolding signature_payload_def by metis
  moreover from this have "t @ CHR 0x0a # b = t' @ CHR 0x0a # b'" using assms(1) by (simp add: signature_payload_def)
  moreover from this have "t = t'" using assms(4,5) first_line by metis
  ultimately show ?thesis by simp
qed

lemma verify_ok:
  "verify_headers cr hs key subject body now window = Inr i \<longleftrightarrow>
    (\<exists>ts es ms s. hs HeaderAPIKeyID = Some i \<and> i \<noteq> '''' \<and> hs HeaderTimestamp = Some ts \<and> ts \<noteq> '''' \<and>
       hs HeaderSignature = Some es \<and> es \<noteq> '''' \<and> parse_int ts = Some ms \<and>
       (let d = time_sub now (ms * millisecond) in (if d < 0 then wrap64 (- d) else d) \<le> window) \<and>
       decode64 cr es = Some s \<and> ed_verify cr key (signature_payload subject ts body) s)"
  by (auto simp: verify_headers_def Let_def not_less split: option.splits if_splits)

text \<open>The libraries: a key pair, and Base64.\<close>

definition key_pair :: "('k, 'p) crypto \<Rightarrow> 'k \<Rightarrow> 'p \<Rightarrow> bool" where
  "key_pair cr key pub \<longleftrightarrow> (\<forall>p. ed_verify cr pub p (ed_sign cr key p) \<and> ed_sign cr key p \<noteq> '''')"

definition base64 :: "('k, 'p) crypto \<Rightarrow> bool" where
  "base64 cr \<longleftrightarrow> (\<forall>s. decode64 cr (encode64 cr s) = Some s \<and> (s \<noteq> '''' \<longrightarrow> encode64 cr s \<noteq> ''''))"

text \<open>
  A refreshed signature verifies. A message that names a known key leaves the resigner, whatever its
  old signature said, with a signature that the verifier accepts under that name, for as long as the
  window lasts; every other message leaves it as it came.
\<close>

theorem resigned_verifies:
  assumes "base64 cr" "\<forall>i key. keys i = Some key \<longrightarrow> key_pair cr key (pubs i)"
    and "resigner_sign cr keys subject (Some h) body t = Inr (Some h')"
    and "- (2 ^ 63) \<le> t div millisecond" "t div millisecond < 2 ^ 63"
  shows "case h HeaderAPIKeyID of
      None \<Rightarrow> h' = h
    | Some i \<Rightarrow>
        if i = '''' \<or> keys i = None then h' = h
        else \<forall>now window. \<bar>now - t div millisecond * millisecond\<bar> \<le> window \<and> window < 2 ^ 63 \<longrightarrow>
          verify_headers cr h' (pubs i) subject body now window = Inr i"
proof (cases "h HeaderAPIKeyID")
  case None
  then show ?thesis using assms(3) by (simp add: resigner_sign_def)
next
  case (Some i)
  let ?ts = "format_int (t div millisecond)"
  show ?thesis
  proof (cases "i = '''' \<or> keys i = None")
    case True
    then show ?thesis using assms(3) Some by (auto simp: resigner_sign_def split: if_splits)
  next
    case False
    then obtain key where key: "keys i = Some key" "key_pair cr key (pubs i)" using assms(2) by auto
    let ?sig = "ed_sign cr key (signature_payload subject ?ts body)"
    have h': "h' = h(HeaderAPIKeyID \<mapsto> i, HeaderTimestamp \<mapsto> ?ts, HeaderSignature \<mapsto> encode64 cr ?sig)"
      using assms(3) Some False key(1) by (simp add: resigner_sign_def sign_headers_def Let_def)
    have "verify_headers cr h' (pubs i) subject body now window = Inr i"
      if w: "\<bar>now - t div millisecond * millisecond\<bar> \<le> window" "window < 2 ^ 63" for now window
    proof -
      let ?d = "now - t div millisecond * millisecond"
      have "time_sub now (t div millisecond * millisecond) = ?d" using w by (simp add: time_sub_def)
      moreover have "?d < 0 \<Longrightarrow> wrap64 (- ?d) = - ?d" using w by (intro wrap64_id) simp_all
      ultimately have "(let d = time_sub now (t div millisecond * millisecond) in (if d < 0 then wrap64 (- d) else d) \<le> window)"
        using w by (auto simp: Let_def)
      then show ?thesis using False key assms(1) parse_format [OF assms(4,5)]
        by (auto simp: verify_ok h' format_int_not_empty key_pair_def base64_def)
    qed
    then show ?thesis using Some False by auto
  qed
qed


text \<open>
  C40. Far ahead is not expired. A signature whose timestamp lies \<open>2 ^ 63\<close> nanoseconds or more ahead of the
  clock verifies in every window: the saturated difference is the least integer, which is its own
  negation.
\<close>

theorem far_future_never_expires:
  assumes "base64 cr" "key_pair cr key pub" "2 ^ 63 \<le> ms * millisecond - now" "ms < 2 ^ 63" "0 \<le> ms" "0 \<le> window" "i \<noteq> ''''"
  shows "verify_headers cr [HeaderAPIKeyID \<mapsto> i, HeaderTimestamp \<mapsto> format_int ms,
      HeaderSignature \<mapsto> encode64 cr (ed_sign cr key (signature_payload subject (format_int ms) body))] pub subject body now window = Inr i"
proof -
  have "time_sub now (ms * millisecond) = - (2 ^ 63)" using assms(3) by (simp add: time_sub_def)
  moreover have "wrap64 (2 ^ 63) = - (2 ^ 63)" by (simp add: wrap64_def)
  ultimately have "(let d = time_sub now (ms * millisecond) in (if d < 0 then wrap64 (- d) else d) \<le> window)"
    using assms(6) by (simp add: Let_def)
  then show ?thesis using assms parse_format [of ms]
    by (auto simp: verify_ok format_int_not_empty key_pair_def base64_def)
qed

text \<open>A signature scheme of one key, whose signatures are their payloads.\<close>

definition demo_crypto :: "(unit, unit) crypto" where
  "demo_crypto = \<lparr>ed_sign = (\<lambda>_ p. CHR ''s'' # p), ed_verify = (\<lambda>_ p s. s = CHR ''s'' # p),
     encode64 = (\<lambda>s. CHR ''b'' # s), decode64 = (\<lambda>s. Some (tl s))\<rparr>"

lemma demo_crypto_ok: "base64 demo_crypto" "key_pair demo_crypto () ()"
  by (simp_all add: demo_crypto_def base64_def key_pair_def)

theorem resigned_verifies_witness:
  "\<exists>h'. resigner_sign demo_crypto [''k'' \<mapsto> ()] ''orders'' (Some [HeaderAPIKeyID \<mapsto> ''k'']) ''body'' 5000000 = Inr (Some h') \<and>
     verify_headers demo_crypto h' () ''orders'' ''body'' 7000000 2000000 = Inr ''k''"
proof -
  obtain h' where h': "resigner_sign demo_crypto [''k'' \<mapsto> ()] ''orders'' (Some [HeaderAPIKeyID \<mapsto> ''k'']) ''body'' 5000000 = Inr (Some h')"
    by (simp add: resigner_sign_def sign_headers_def Let_def)
  have "\<forall>i key. [''k'' \<mapsto> ()] i = Some key \<longrightarrow> key_pair demo_crypto key ()" using demo_crypto_ok(2) by simp
  from resigned_verifies [OF demo_crypto_ok(1) this h'] have "verify_headers demo_crypto h' () ''orders'' ''body'' 7000000 2000000 = Inr ''k''"
    by simp
  with h' show ?thesis by blast
qed


theorem far_future_never_expires_witness:
  "verify_headers demo_crypto [HeaderAPIKeyID \<mapsto> ''k'', HeaderTimestamp \<mapsto> format_int 9223372036855,
      HeaderSignature \<mapsto> encode64 demo_crypto (ed_sign demo_crypto () (signature_payload ''orders'' (format_int 9223372036855) ''body''))]
      () ''orders'' ''body'' 0 0 = Inr ''k''"
  by (rule far_future_never_expires [OF demo_crypto_ok]) simp_all

end
