(* ===== verification/Spec2Isabelle.thy ===== *)
theory Spec2Isabelle
  imports Go_Prelude Go_Strings Go_Numbers Batch_Types Batch_Tx Batch_Bisect Batch_Groups Batch_Order Batch_Handle Batch_Guarantees
    Frame Frame_Codec Batch_Settle Batch_Fetch Subjects Outbox_Retry Outbox_Latest Outbox_Frames Outbox_Config
    Outbox_Relay Outbox_Drain Outbox_Producer Outbox_Process Outbox_Delivery Outbox_Messages
    Stream_Opts Timed_Actor Pg_Timer Replay Reply_Wait
    Consumer_Bind Consumer_Process Consumer_Partitions Processed_Cleanup Signature
begin

text \<open>
  A verification library for \<^verbatim>\<open>brokerfx\<close>, a Go library of message-broker components
  on PostgreSQL and NATS JetStream. All file names are under \<^verbatim>\<open>src/pkg/\<close>.

  \<^bold>\<open>The program.\<close> A service writes messages into the table
  \<^verbatim>\<open>outbox_events\<close> in its business transaction (\<^verbatim>\<open>outbox/store.go\<close>); the relay
  of \<^verbatim>\<open>outbox/\<close> claims them, packs small ones into frames (\<^verbatim>\<open>nats/frame/\<close>),
  publishes them and settles their rows. On the other side a batch consumer
  (\<^verbatim>\<open>nats/jetstream/consumer/batch/\<close>) or a plain one
  (\<^verbatim>\<open>nats/jetstream/consumer/\<close>) binds a durable, fetches messages, unpacks the frames, hands
  them to a handler and settles every message with the broker by its result; the handler of
  \<^verbatim>\<open>in_tx.go\<close> applies a batch in a transaction with a table of processed keys, and
  bisects a failing batch until only the messages that fail are refused. Beside these stand timers on a
  key-value bucket (\<^verbatim>\<open>timedactor/\<close>) and in PostgreSQL (\<^verbatim>\<open>pgtimer/\<close>), the
  replay of snapshots (\<^verbatim>\<open>replay/\<close>), requests that wait for a reply
  (\<^verbatim>\<open>replywait/\<close>), and the signatures of messages (\<^verbatim>\<open>nats/signature/\<close>).

  \<^bold>\<open>Foundations.\<close>
  \<^item> \<open>Go_Prelude\<close>, \<open>Go_Strings\<close>, \<open>Go_Numbers\<close>: errors and what \<^verbatim>\<open>errors.Is\<close>
    sees, 64-bit durations, list lemmas; the functions of Go's \<^verbatim>\<open>strings\<close>,
    \<^verbatim>\<open>strconv\<close> and \<^verbatim>\<open>net/textproto\<close> the code uses, and that decimal numbers
    are read back.

  \<^bold>\<open>Consuming.\<close>
  \<^item> \<open>Batch_Types\<close>, \<open>Batch_Tx\<close>, \<open>Batch_Bisect\<close>, \<open>Batch_Groups\<close>,
    \<open>Batch_Order\<close>, \<open>Batch_Handle\<close>, \<open>Batch_Guarantees\<close>: the transactional handler
    (\<^verbatim>\<open>bisect.go\<close>, \<^verbatim>\<open>bisect_groups.go\<close>,
    \<^verbatim>\<open>order_groups.go\<close>, \<^verbatim>\<open>in_tx.go\<close>,
    \<^verbatim>\<open>group_by_key.go\<close>, \<^verbatim>\<open>coalesce_by_key.go\<close>). Its guarantees: no message is lost,
    each is applied once, keys keep their order, failures stay where they are, attempts are bounded.
  \<^item> \<open>Frame\<close>, \<open>Frame_Codec\<close>, \<open>Batch_Settle\<close>: frames on the side of the consumer, as the
    shared state of their elements; their wire form; the settling of a batch. A frame refines a count of
    settlements, and closes its broker message once in every interleaving.
  \<^item> \<open>Batch_Fetch\<close>: fetching up to a minimum, one round of the loop and the loop
    (\<^verbatim>\<open>fetch.go\<close>, \<^verbatim>\<open>loop.go\<close>, \<^verbatim>\<open>unpack.go\<close>). A round ends and closes
    what it fetched.
  \<^item> \<open>Consumer_Bind\<close>, \<open>Consumer_Partitions\<close>: the settings of consumers and their binding to a
    durable (\<^verbatim>\<open>consumer/internal/durable/\<close>, \<^verbatim>\<open>batch/resolve.go\<close>,
    \<^verbatim>\<open>batch/validate.go\<close>, \<^verbatim>\<open>batch/new.go\<close>), and the configurations of partitions
    (\<^verbatim>\<open>consumer-opts-builder/\<close>).
  \<^item> \<open>Consumer_Process\<close>, \<open>Processed_Cleanup\<close>: the plain consumer, its pool of slots, the handler
    that handles each message once (\<^verbatim>\<open>idempotency.go\<close>), and the cleanup of what it remembers
    (\<^verbatim>\<open>consumer/cleanup/\<close>).

  \<^bold>\<open>Publishing.\<close>
  \<^item> \<open>Subjects\<close>: subject patterns, for the outbox and for consumer filters; the overlap test is
    exact.
  \<^item> \<open>Outbox_Messages\<close>: saving messages and what the relay reads back from their rows.
  \<^item> \<open>Outbox_Retry\<close>, \<open>Outbox_Latest\<close>, \<open>Outbox_Frames\<close>, \<open>Outbox_Config\<close>: the backoff, the
    latest-only subjects, the packing of frames, the configuration.
  \<^item> \<open>Outbox_Relay\<close>, \<open>Outbox_Drain\<close>, \<open>Outbox_Producer\<close>, \<open>Outbox_Process\<close>: the table and
    the relay's paths over it (claim and settle, transactional drain, single messages on the legacy schema),
    the producer on JetStream, the cleanup. The database is a list of rows; every statement and every
    reading of the clock is numbered by the field \<open>steps\<close>, and an environment says what each
    brings.
  \<^item> \<open>Outbox_Delivery\<close>: over all paths, an event leaves the table only when the stream accepted it.
  \<^item> \<open>Stream_Opts\<close>: the options of streams and the update of an existing one
    (\<^verbatim>\<open>nats/jetstream/stream/\<close>).
  \<^item> \<open>Signature\<close>: signing, refreshing and verifying the headers of a message.

  \<^bold>\<open>Other services.\<close>
  \<^item> \<open>Timed_Actor\<close>, \<open>Pg_Timer\<close>: replicas that compete for timers, as step relations over a
    bucket or a table. Callbacks run at most once for a revision; a timer leaves its table only after its
    handler succeeded.
  \<^item> \<open>Replay\<close>: the run of a snapshot; it is complete and in order, and reads back.
  \<^item> \<open>Reply_Wait\<close>: the registry of waiters under every interleaving of its goroutines.

  \<^bold>\<open>How it is modelled.\<close> Structs are records and enums datatypes; a method is a function of the
  state that returns the state; errors are values; 64-bit arithmetic that can overflow is wrapped by
  \<open>wrap64\<close>. A library the repository calls (the database, JetStream, MessagePack, JSON, SHA-256,
  Ed25519, tracing), the clock and the user's handlers are parameters, and what is relied on of them is a
  named hypothesis of the theorems that need it. Goroutines that share state are step relations or lists of
  actions, one action per critical section. A loop that may run forever is a partial function to an option,
  and that it ends is proved: fetching and binding against a clock that goes on, cleanups and drains by the
  rows they take, a replay by the end of its source. The drain of the transactional relay takes a batch
  size from the configuration, and for a size of zero it is shown not to end. Only the reservation of slots in
  \<open>Pg_Timer\<close> counts its steps, and it is given one for every slot it may take.

  \<^bold>\<open>Not modelled.\<close> The select loops that call the modelled operations on tickers and wakeups
  (\<^verbatim>\<open>Run\<close> of the relay, \<^verbatim>\<open>Start\<close> of pollers and cleaners), for they do nothing but
  call them; heartbeat goroutines, since an in-progress call closes no message and one of its ticks is
  modelled; drains of several consumers; spans, metrics, logs and observers; dependency injection; the
  schema migrations, which are statements of SQL; connections, plain NATS publishing, key-value buckets,
  the direct producer and ordered consumers, which hand their arguments to the client library; the setters
  of the consumer options builder; and the test environment.
\<close>

end
